(* ===== verification/Prelude.thy ===== *)
theory Prelude
  imports Main "HOL-Library.Word"
begin

text \<open>
  Shared vocabulary of the development: the machine types of the C sources, results of
  fallible code, and the generic facts on lists, words and results that the component
  theories rely on.

  \<^item> \<open>byte\<close> is an 8-bit \<open>unsigned char\<close>, \<open>u32\<close> a 32-bit unsigned word; the C \<open>char\<close>
    buffers of the text-processing components are lists of HOL's 8-bit \<open>char\<close>.
  \<^item> Fallible code returns \<open>'e + 'a\<close>: \<open>Inl\<close> carries the error, \<open>Inr\<close> the result, and
    \<open>rbind\<close> sequences two fallible steps, as the C code does with early returns, the
    process exit of \<open>die\<close> and the long jump of \<open>luaL_error\<close>.
  \<^item> A C string is the list of the characters before its terminator; \<open>cstr_at\<close> reads
    one of its characters and gives the terminator at the end.
\<close>

unbundle bit_operations_syntax

named_theorems res_simps \<open>rewriting fallible code\<close>
named_theorems byte_simps \<open>bit-level rewriting of bytes and words\<close>

type_synonym byte = "8 word"
type_synonym u32 = "32 word"

abbreviation NUL :: char where
  "NUL \<equiv> CHR 0x00"


subsection \<open>Machine integers\<close>

text \<open>The C type \<open>int\<close>, 32 bits wide. A signed operation whose result is outside \<open>int_range\<close> is undefined; a
  conversion from a wider type keeps the low bits (\<open>to_c_int\<close>); the division of \<open>int\<close> rounds towards zero (\<open>c_quot\<close>).\<close>

abbreviation INT_MAX :: int where
  "INT_MAX \<equiv> 2147483647"

abbreviation INT_MIN :: int where
  "INT_MIN \<equiv> - 2147483648"

definition int_range :: "int \<Rightarrow> bool" where
  "int_range x \<longleftrightarrow> INT_MIN \<le> x \<and> x \<le> INT_MAX"

definition to_c_int :: "int \<Rightarrow> int" where
  "to_c_int x = (x + 2147483648) mod 4294967296 - 2147483648"

definition c_quot :: "int \<Rightarrow> int \<Rightarrow> int" where
  "c_quot n d = sgn n * sgn d * (\<bar>n\<bar> div \<bar>d\<bar>)"

lemma to_c_int_id: "INT_MIN \<le> x \<Longrightarrow> x \<le> INT_MAX \<Longrightarrow> to_c_int x = x"
  by (simp add: to_c_int_def)

lemma c_quot_pos [simp]: "0 \<le> n \<Longrightarrow> 0 < d \<Longrightarrow> c_quot n d = n div d"
  by (cases "n = 0") (simp_all add: c_quot_def)


subsection \<open>Results\<close>

definition rbind :: "'e + 'a \<Rightarrow> ('a \<Rightarrow> 'e + 'b) \<Rightarrow> 'e + 'b" where
  "rbind r f = (case r of Inl e \<Rightarrow> Inl e | Inr x \<Rightarrow> f x)"

lemma rbind_Inl [simp, res_simps]: "rbind (Inl e) f = Inl e"
  by (simp add: rbind_def)

lemma rbind_Inr [simp, res_simps]: "rbind (Inr x) f = f x"
  by (simp add: rbind_def)

lemma rbind_eq_Inr [res_simps]:
  "rbind r f = Inr y \<longleftrightarrow> (\<exists>x. r = Inr x \<and> f x = Inr y)"
  by (cases r) auto

lemma rbind_eq_Inl:
  "rbind r f = Inl e \<longleftrightarrow> r = Inl e \<or> (\<exists>x. r = Inr x \<and> f x = Inl e)"
  by (cases r) auto

lemma rbind_assoc: "rbind (rbind r f) g = rbind r (\<lambda>x. rbind (f x) g)"
  by (cases r) auto

lemma rbind_cong [fundef_cong]:
  "r = r' \<Longrightarrow> (\<And>x. r' = Inr x \<Longrightarrow> f x = g x) \<Longrightarrow> rbind r f = rbind r' g"
  by (cases r') auto

text \<open>A loop whose body may fail.\<close>

fun fold_res :: "('s \<Rightarrow> 'a \<Rightarrow> 'e + 's) \<Rightarrow> 's \<Rightarrow> 'a list \<Rightarrow> 'e + 's" where
  "fold_res f s [] = Inr s"
| "fold_res f s (x # xs) = rbind (f s x) (\<lambda>s'. fold_res f s' xs)"

fun map_res :: "('a \<Rightarrow> 'e + 'b) \<Rightarrow> 'a list \<Rightarrow> 'e + 'b list" where
  "map_res f [] = Inr []"
| "map_res f (x # xs) = rbind (f x) (\<lambda>y. rbind (map_res f xs) (\<lambda>ys. Inr (y # ys)))"

lemma map_res_cong [fundef_cong]:
  "xs = ys \<Longrightarrow> (\<And>x. x \<in> set ys \<Longrightarrow> f x = g x) \<Longrightarrow> map_res f xs = map_res g ys"
proof -
  have "(\<And>x. x \<in> set ys \<Longrightarrow> f x = g x) \<Longrightarrow> map_res f ys = map_res g ys"
    by (induction ys) (auto cong: rbind_cong)
  then show "xs = ys \<Longrightarrow> (\<And>x. x \<in> set ys \<Longrightarrow> f x = g x) \<Longrightarrow> map_res f xs = map_res g ys" by simp
qed

lemma fold_res_cong [fundef_cong]:
  "s = t \<Longrightarrow> xs = ys \<Longrightarrow> (\<And>x s. x \<in> set ys \<Longrightarrow> f s x = g s x) \<Longrightarrow> fold_res f s xs = fold_res g t ys"
proof -
  have "(\<And>x s. x \<in> set ys \<Longrightarrow> f s x = g s x) \<Longrightarrow> fold_res f t ys = fold_res g t ys"
    by (induction ys arbitrary: t) (auto cong: rbind_cong)
  then show "s = t \<Longrightarrow> xs = ys \<Longrightarrow> (\<And>x s. x \<in> set ys \<Longrightarrow> f s x = g s x) \<Longrightarrow>
    fold_res f s xs = fold_res g t ys" by simp
qed

lemma map_res_Inr: "(\<And>x. x \<in> set xs \<Longrightarrow> f x = Inr (g x)) \<Longrightarrow> map_res f xs = Inr (map g xs)"
  by (induction xs) auto

lemma fold_res_append: "fold_res f s (xs @ ys) = rbind (fold_res f s xs) (\<lambda>s'. fold_res f s' ys)"
  by (induction xs arbitrary: s) (auto simp: rbind_assoc)


subsection \<open>C strings\<close>

definition cstr_at :: "'a::zero list \<Rightarrow> nat \<Rightarrow> 'a" where
  "cstr_at s i = (if i < length s then s ! i else 0)"

lemma cstr_at_inside [simp]: "i < length s \<Longrightarrow> cstr_at s i = s ! i"
  by (simp add: cstr_at_def)

lemma cstr_at_end [simp]: "length s \<le> i \<Longrightarrow> cstr_at s i = 0"
  by (simp add: cstr_at_def)

lemma cstr_at_append: 
  "cstr_at (xs @ ys) i = (if i < length xs then xs ! i else cstr_at ys (i - length xs))"
  by (auto simp: cstr_at_def nth_append)


text \<open>A \<open>char\<close> promoted to \<open>int\<close>: it is signed on the supported targets.\<close>

definition schar :: "char \<Rightarrow> int" where
  "schar c = (let n = of_char c in if n < 128 then n else n - 256)"


subsection \<open>Lists\<close>

lemma take_Suc_nth_drop: "i < length xs \<Longrightarrow> drop i xs = xs ! i # drop (Suc i) xs"
  by (simp add: Cons_nth_drop_Suc)

lemma drop_three:
  "i + 2 < length xs \<Longrightarrow>
     drop i xs = xs ! i # xs ! (i + 1) # xs ! (i + 2) # drop (i + 3) xs"
  by (simp add: Cons_nth_drop_Suc eval_nat_numeral)

lemma drop_four:
  "i + 3 < length xs \<Longrightarrow>
     drop i xs = xs ! i # xs ! (i + 1) # xs ! (i + 2) # xs ! (i + 3) # drop (i + 4) xs"
  by (simp add: Cons_nth_drop_Suc eval_nat_numeral)

lemma take_drop_four:
  assumes "4 < n" "p + n \<le> length s"
  shows "take n (drop p s) =
           s ! p # s ! (p + 1) # s ! (p + 2) # s ! (p + 3) # take (n - 4) (drop (p + 4) s)"
proof -
  obtain m where "n = Suc (Suc (Suc (Suc m)))"
    using that [of "n - 4"] assms by simp
  with drop_four [of p s] assms show ?thesis by simp
qed

lemma drop_cases_tail:
  assumes "j \<le> length bs" "length bs \<le> j + 2"
  shows "(j = length bs \<and> drop j bs = []) \<or> (j + 1 = length bs \<and> drop j bs = [bs ! j]) \<or>
    (j + 2 = length bs \<and> drop j bs = [bs ! j, bs ! (j + 1)])"
  using assms Cons_nth_drop_Suc [of j bs] Cons_nth_drop_Suc [of "j + 1" bs]
  by (cases "j = length bs"; cases "j + 1 = length bs") auto

lemma takeWhile_takeWhile_eq: "takeWhile P (takeWhile P xs) = takeWhile P xs"
  by (induction xs) (auto dest: set_takeWhileD)

lemma takeWhile_length_le: "i < length s \<Longrightarrow> \<not> P (s ! i) \<Longrightarrow> length (takeWhile P s) \<le> i"
proof (induction s arbitrary: i)
  case (Cons x xs)
  then show ?case by (cases i) auto
qed simp

lemma list_all_lessThan:
  "list_all P [0..<n] \<Longrightarrow> k < n \<Longrightarrow> P k"
  by (simp add: list_all_iff)

lemma mod_add_0: "(m::nat) mod k = 0 \<Longrightarrow> n mod k = 0 \<Longrightarrow> (m + n) mod k = 0"
  by auto


subsection \<open>Words\<close>

lemma and_push_mask [byte_simps]:
  "x AND push_bit m (mask k) = push_bit m (take_bit k (drop_bit m x))" for x :: "'a::len word"
  by (rule bit_eqI) (auto simp: bit_simps)

lemma unat_less_of_bits:
  fixes k :: "'a::len word"
  assumes "\<And>n. bit k n \<Longrightarrow> n < m"
  shows "unat k < 2 ^ m"
proof -
  have "take_bit m k = k"
    by (rule bit_eqI) (use assms in \<open>auto simp: bit_take_bit_iff\<close>)
  then have "unat k = take_bit m (unat k)"
    by (metis unsigned_take_bit_eq)
  then show ?thesis by (metis take_bit_nat_less_exp)
qed

lemma byte_eqI:
  fixes a b :: byte
  assumes "bit a 0 = bit b 0" "bit a 1 = bit b 1" "bit a 2 = bit b 2" "bit a 3 = bit b 3"
    "bit a 4 = bit b 4" "bit a 5 = bit b 5" "bit a 6 = bit b 6" "bit a 7 = bit b 7"
  shows "a = b"
proof (rule bit_eqI)
  fix n assume "possible_bit TYPE(byte) n"
  then have "n \<in> {0, 1, 2, 3, 4, 5, 6, 7}" by auto
  then show "bit a n = bit b n" using assms by auto
qed

lemma shift_or_rotl:
  "0 < s \<Longrightarrow> s < 32 \<Longrightarrow> push_bit s w OR drop_bit (32 - s) w = word_rotl s w" for w :: u32
proof (rule bit_eqI)
  fix n assume s: "0 < s" "s < 32" and "possible_bit TYPE(u32) n"
  then have n: "n < 32" by simp
  show "bit (push_bit s w OR drop_bit (32 - s) w) n = bit (word_rotl s w) n"
  proof (cases "n < s")
    case True
    with s n show ?thesis
      by (simp add: bit_simps bit_word_rotl_iff) (simp only: add.commute [of n])
  next
    case False
    with s n have "(n + (32 - s)) mod 32 = n - s" by (simp add: mod_if)
    with False s n show ?thesis
      by (auto simp: bit_simps bit_word_rotl_iff dest: bit_imp_le_length)
  qed
qed

lemma int_and_3: "(x::int) AND 3 = x mod 4"
  using take_bit_eq_mask [of 2 x] by (simp add: take_bit_eq_mod mask_eq_exp_minus_1)


subsection \<open>Codecs\<close>

text \<open>The contract of an encoder and its decoder: on the values \<open>ok\<close> the decoder undoes the
  encoder. The base64 codec, the hexadecimal digests and the JSON string escapes provide it.\<close>

locale codec =
  fixes ok :: "'a \<Rightarrow> bool"
    and enc :: "'a \<Rightarrow> 'b"
    and dec :: "'b \<Rightarrow> 'a option"
  assumes dec_enc: "ok x \<Longrightarrow> dec (enc x) = Some x"
begin

lemma enc_inject: "ok x \<Longrightarrow> ok y \<Longrightarrow> enc x = enc y \<longleftrightarrow> x = y"
  by (metis dec_enc option.inject)

lemma enc_inj_on: "inj_on enc {x. ok x}"
  by (auto simp: inj_on_def enc_inject)

end


subsection \<open>Bounded output\<close>

text \<open>A bounded sink: an item whose text stays within the room of a state is written, and consumes as much
  room. The growable buffers of the JSON codec and the result buffers of the string library provide it.\<close>

locale bounded_sink =
  fixes inv :: "'s \<Rightarrow> bool"
    and text_of :: "'s \<Rightarrow> char list"
    and room :: "'s \<Rightarrow> int"
    and kept :: "'s \<Rightarrow> 'k"
    and out :: "'a \<Rightarrow> char list"
    and put :: "'s \<Rightarrow> 'a \<Rightarrow> 'e + 's"
  assumes put_room: "inv s \<Longrightarrow> int (length (out x)) \<le> room s \<Longrightarrow>
    \<exists>s'. put s x = Inr s' \<and> inv s' \<and> text_of s' = text_of s @ out x \<and>
      room s' = room s - int (length (out x)) \<and> kept s' = kept s"
begin

lemma put_all:
  assumes "inv s" "int (length (concat (map out xs))) \<le> room s"
  shows "\<exists>s'. fold_res put s xs = Inr s' \<and> inv s' \<and> text_of s' = text_of s @ concat (map out xs) \<and>
    room s' = room s - int (length (concat (map out xs))) \<and> kept s' = kept s"
  using assms
proof (induction xs arbitrary: s)
  case (Cons x xs)
  with put_room [OF Cons.prems(1), of x] obtain s1 where
    s1: "put s x = Inr s1" "inv s1" "text_of s1 = text_of s @ out x"
      "room s1 = room s - int (length (out x))" "kept s1 = kept s" by auto
  with Cons.IH [of s1] Cons.prems(2) show ?case by auto
qed simp

lemma put_bounded:
  assumes "inv s" "\<And>x. x \<in> set xs \<Longrightarrow> length (out x) \<le> k" "int (length xs * k) \<le> room s"
  shows "\<exists>s'. fold_res put s xs = Inr s' \<and> inv s' \<and> text_of s' = text_of s @ concat (map out xs) \<and>
    room s - int (length xs * k) \<le> room s' \<and> kept s' = kept s"
proof -
  have "length (concat (map out xs)) \<le> length xs * k"
    using assms(2) by (induction xs) (auto intro: add_mono)
  then have le: "int (length (concat (map out xs))) \<le> int (length xs * k)" by (simp only: of_nat_le_iff)
  with put_all [OF assms(1), of xs] assms(3) obtain s' where
    "fold_res put s xs = Inr s'" "inv s'" "text_of s' = text_of s @ concat (map out xs)"
    "room s' = room s - int (length (concat (map out xs)))" "kept s' = kept s" by force
  with le show ?thesis by auto
qed

end

end
