(* ===== verification/Strbuf.thy ===== *)
theory Strbuf
  imports Prelude
begin

text \<open>
  The growable string buffer of the JSON codec, \<^verbatim>\<open>src/lua/json/strbuf.c\<close> and
  \<^verbatim>\<open>src/lua/json/strbuf.h\<close>.

  A \<open>strbuf_t\<close> is a record with the fields of the C structure. Its \<open>buf\<close> is \<open>None\<close> for the
  null pointer and otherwise the list of the allocated bytes, each \<open>None\<close> until it is written:
  the memory the allocator really handed out, which the code only knows through \<open>size\<close>. The
  \<open>int\<close> fields are integers and every arithmetic result is checked against the range of a
  32-bit \<open>int\<close>, since signed overflow is undefined in C. Whatever ends or invalidates the
  execution is a fault: the process exit of \<open>die\<close>, an access outside the allocation, a signed
  overflow, a loop without progress.

  The allocator is the parameter \<open>alloc\<close>, the request sizes it can serve. The text that
  \<open>vsnprintf\<close> produces for a format and its arguments is a parameter of the two formatting
  functions, \<open>None\<close> when it reports an error. The traces that \<open>debug\<close> enables on the standard
  error stream are not modelled.
\<close>


subsection \<open>State and faults\<close>

datatype sb_fault =
    Die string
  | Out_of_bounds
  | Signed_overflow
  | Diverges

record strbuf_t =
  buf :: "char option list option"
  sb_size :: int
  sb_len :: int
  increment :: int
  dynamic :: int
  reallocs :: int
  debug :: int

definition c_int :: "int \<Rightarrow> sb_fault + int" where
  "c_int x = (if INT_MIN \<le> x \<and> x \<le> INT_MAX then Inr x else Inl Signed_overflow)"

abbreviation STRBUF_DEFAULT_SIZE :: int where
  "STRBUF_DEFAULT_SIZE \<equiv> 1023"

abbreviation STRBUF_DEFAULT_INCREMENT :: int where
  "STRBUF_DEFAULT_INCREMENT \<equiv> - 2"


subsection \<open>Memory\<close>

text \<open>\<open>s->buf[i] = c\<close>\<close>

definition poke :: "strbuf_t \<Rightarrow> int \<Rightarrow> char \<Rightarrow> sb_fault + strbuf_t" where
  "poke s i c = (case buf s of
       None \<Rightarrow> Inl Out_of_bounds
     | Some b \<Rightarrow> if 0 \<le> i \<and> nat i < length b then Inr (s\<lparr>buf := Some (b[nat i := Some c])\<rparr>)
                 else Inl Out_of_bounds)"

text \<open>A write of the bytes \<open>cs\<close> at \<open>s->buf + i\<close>.\<close>

definition poke_mem :: "strbuf_t \<Rightarrow> int \<Rightarrow> char list \<Rightarrow> sb_fault + strbuf_t" where
  "poke_mem s i cs = (case buf s of
       None \<Rightarrow> Inl Out_of_bounds
     | Some b \<Rightarrow>
         if 0 \<le> i \<and> nat i + length cs \<le> length b
         then Inr (s\<lparr>buf := Some (take (nat i) b @ map Some cs @ drop (nat i + length cs) b)\<rparr>)
         else Inl Out_of_bounds)"

definition malloc_buf :: "(int \<Rightarrow> bool) \<Rightarrow> int \<Rightarrow> char option list option" where
  "malloc_buf alloc n = (if 0 < n \<and> alloc n then Some (replicate (nat n) None) else None)"

definition realloc_buf ::
  "(int \<Rightarrow> bool) \<Rightarrow> char option list option \<Rightarrow> int \<Rightarrow> char option list option" where
  "realloc_buf alloc b n =
     (if 0 < n \<and> alloc n
      then Some (case b of None \<Rightarrow> replicate (nat n) None
                 | Some xs \<Rightarrow> take (nat n) xs @ replicate (nat n - length xs) None)
      else None)"


subsection \<open>The header's inline functions\<close>

definition strbuf_reset :: "strbuf_t \<Rightarrow> strbuf_t" where
  "strbuf_reset s = s\<lparr>sb_len := 0\<rparr>"

definition strbuf_allocated :: "strbuf_t \<Rightarrow> bool" where
  "strbuf_allocated s = (buf s \<noteq> None)"

definition strbuf_empty_length :: "strbuf_t \<Rightarrow> int" where
  "strbuf_empty_length s = sb_size s - sb_len s - 1"

definition strbuf_length :: "strbuf_t \<Rightarrow> int" where
  "strbuf_length s = sb_len s"

definition strbuf_extend_length :: "strbuf_t \<Rightarrow> int \<Rightarrow> sb_fault + strbuf_t" where
  "strbuf_extend_length s n = rbind (c_int (sb_len s + n)) (\<lambda>l. Inr (s\<lparr>sb_len := l\<rparr>))"

definition strbuf_empty_ptr :: "strbuf_t \<Rightarrow> char option list option" where
  "strbuf_empty_ptr s = map_option (drop (nat (sb_len s))) (buf s)"

definition strbuf_append_char_unsafe :: "strbuf_t \<Rightarrow> char \<Rightarrow> sb_fault + strbuf_t" where
  "strbuf_append_char_unsafe s c =
     rbind (poke s (sb_len s) c) (\<lambda>s'. strbuf_extend_length s' 1)"

text \<open>\<open>memcpy(s->buf + s->length, c, len)\<close> with the source buffer \<open>c\<close>: the \<open>int\<close> length becomes
  a \<open>size_t\<close>, so a negative one runs over every buffer.\<close>

definition strbuf_append_mem_unsafe :: "strbuf_t \<Rightarrow> char list \<Rightarrow> int \<Rightarrow> sb_fault + strbuf_t" where
  "strbuf_append_mem_unsafe s c n =
     (if n < 0 \<or> length c < nat n then Inl Out_of_bounds
      else rbind (poke_mem s (sb_len s) (take (nat n) c)) (\<lambda>s'. strbuf_extend_length s' n))"

definition strbuf_ensure_null :: "strbuf_t \<Rightarrow> sb_fault + strbuf_t" where
  "strbuf_ensure_null s = poke s (sb_len s) NUL"

definition strbuf_string :: "strbuf_t \<Rightarrow> char option list option \<times> int" where
  "strbuf_string s = (buf s, sb_len s)"


subsection \<open>Creation and release\<close>

definition strbuf_init :: "(int \<Rightarrow> bool) \<Rightarrow> int \<Rightarrow> sb_fault + strbuf_t" where
  "strbuf_init alloc n =
     rbind (if n \<le> 0 then Inr STRBUF_DEFAULT_SIZE else c_int (n + 1)) (\<lambda>sz.
       let s = \<lparr>buf = malloc_buf alloc sz, sb_size = sz, sb_len = 0,
                increment = STRBUF_DEFAULT_INCREMENT, dynamic = 0, reallocs = 0, debug = 0\<rparr>
       in if buf s = None then Inl (Die ''Out of memory'') else strbuf_ensure_null s)"

text \<open>\<open>sizeof(strbuf_t)\<close> is 32 on the 64-bit targets: a pointer, six integers.\<close>

definition strbuf_new :: "(int \<Rightarrow> bool) \<Rightarrow> int \<Rightarrow> sb_fault + strbuf_t" where
  "strbuf_new alloc n =
     (if \<not> alloc 32 then Inl (Die ''Out of memory'')
      else rbind (strbuf_init alloc n) (\<lambda>s. Inr (s\<lparr>dynamic := 1\<rparr>)))"

definition strbuf_set_increment :: "strbuf_t \<Rightarrow> int \<Rightarrow> sb_fault + strbuf_t" where
  "strbuf_set_increment s i =
     (if i = 0 \<or> i = -1 then Inl (Die ''BUG: Invalid string increment'')
      else Inr (s\<lparr>increment := i\<rparr>))"

text \<open>The structure itself is released when it was created by \<open>strbuf_new\<close>: the result is then
  \<open>None\<close>.\<close>

definition strbuf_free :: "strbuf_t \<Rightarrow> strbuf_t option" where
  "strbuf_free s =
     (let s' = (if buf s \<noteq> None then s\<lparr>buf := None\<rparr> else s)
      in if dynamic s \<noteq> 0 then None else Some s')"

definition strbuf_free_to_string ::
  "strbuf_t \<Rightarrow> sb_fault + ((char option list option \<times> int) \<times> strbuf_t option)" where
  "strbuf_free_to_string s =
     rbind (strbuf_ensure_null s) (\<lambda>s'.
       Inr ((buf s', sb_len s'), if dynamic s' \<noteq> 0 then None else Some s'))"


subsection \<open>Growth\<close>

text \<open>The loop of the exponential branch. Without the test for progress it would run forever on a
  zero size or a factor of one.\<close>

function grow_exponential :: "int \<Rightarrow> int \<Rightarrow> int \<Rightarrow> sb_fault + int" where
  "grow_exponential factor reqsize newsize =
     (if newsize < reqsize
      then (if newsize = 0 \<or> factor \<le> 1 then Inl Diverges
            else if INT_MIN \<le> newsize * factor \<and> newsize * factor \<le> INT_MAX
            then grow_exponential factor reqsize (newsize * factor)
            else Inl Signed_overflow)
      else Inr newsize)"
  by pat_completeness auto
termination
proof (relation "measure (\<lambda>(_, _, n). nat (4294967296 - \<bar>n\<bar>))")
  fix f r n :: int
  assume "\<not> (n = 0 \<or> f \<le> 1)" and r: "INT_MIN \<le> n * f \<and> n * f \<le> INT_MAX"
  then have "\<bar>n\<bar> * 2 \<le> \<bar>n\<bar> * f" "0 < \<bar>n\<bar>" by (auto intro: mult_left_mono)
  moreover have "\<bar>n * f\<bar> = \<bar>n\<bar> * f" using \<open>\<not> (n = 0 \<or> f \<le> 1)\<close> by (simp add: abs_mult)
  moreover have "\<bar>n * f\<bar> \<le> 2147483648" using r by linarith
  ultimately have "\<bar>n\<bar> < \<bar>n * f\<bar>" "\<bar>n\<bar> < 4294967296" by linarith+
  then show "((f, r, n * f), f, r, n) \<in> measure (\<lambda>(_, _, n). nat (4294967296 - \<bar>n\<bar>))" by simp
qed simp

declare grow_exponential.simps [simp del]

text \<open>C's division truncates; both operands are positive whenever the linear branch is taken by a
  well-formed buffer.\<close>

definition calculate_new_size :: "strbuf_t \<Rightarrow> int \<Rightarrow> sb_fault + int" where
  "calculate_new_size s n =
     (if n \<le> 0 then Inl (Die ''BUG: Invalid strbuf length requested'')
      else rbind (c_int (n + 1)) (\<lambda>reqsize.
        if sb_size s > reqsize then Inr reqsize
        else if increment s < 0
        then rbind (c_int (- increment s)) (\<lambda>factor. grow_exponential factor reqsize (sb_size s))
        else rbind (c_int (sb_size s + increment s)) (\<lambda>t.
          rbind (c_int (t - 1)) (\<lambda>t'. 
            if increment s = 0 then Inl Diverges
            else c_int (sgn t' * (\<bar>t'\<bar> div increment s) * increment s)))))"

definition strbuf_resize :: "(int \<Rightarrow> bool) \<Rightarrow> strbuf_t \<Rightarrow> int \<Rightarrow> sb_fault + strbuf_t" where
  "strbuf_resize alloc s n =
     rbind (calculate_new_size s n) (\<lambda>newsize.
       let s' = s\<lparr>sb_size := newsize, buf := realloc_buf alloc (buf s) newsize\<rparr>
       in if buf s' = None then Inl (Die ''Out of memory'')
          else rbind (c_int (reallocs s' + 1)) (\<lambda>r. Inr (s'\<lparr>reallocs := r\<rparr>)))"

definition strbuf_ensure_empty_length ::
  "(int \<Rightarrow> bool) \<Rightarrow> strbuf_t \<Rightarrow> int \<Rightarrow> sb_fault + strbuf_t" where
  "strbuf_ensure_empty_length alloc s n =
     (if n > strbuf_empty_length s
      then rbind (c_int (sb_len s + n)) (strbuf_resize alloc s)
      else Inr s)"


subsection \<open>Appending\<close>

definition strbuf_append_char :: "(int \<Rightarrow> bool) \<Rightarrow> strbuf_t \<Rightarrow> char \<Rightarrow> sb_fault + strbuf_t" where
  "strbuf_append_char alloc s c =
     rbind (strbuf_ensure_empty_length alloc s 1) (\<lambda>s'.
       rbind (poke s' (sb_len s') c) (\<lambda>s''. strbuf_extend_length s'' 1))"

definition strbuf_append_mem ::
  "(int \<Rightarrow> bool) \<Rightarrow> strbuf_t \<Rightarrow> char list \<Rightarrow> int \<Rightarrow> sb_fault + strbuf_t" where
  "strbuf_append_mem alloc s c n =
     rbind (strbuf_ensure_empty_length alloc s n) (\<lambda>s'.
       if n < 0 \<or> length c < nat n then Inl Out_of_bounds
       else rbind (poke_mem s' (sb_len s') (take (nat n) c)) (\<lambda>s''. strbuf_extend_length s'' n))"

text \<open>The loop of \<open>strbuf_append_string\<close> with its local \<open>space\<close>, over the characters from
  \<open>str[i]\<close> on.\<close>

fun append_string_loop ::
  "(int \<Rightarrow> bool) \<Rightarrow> strbuf_t \<Rightarrow> int \<Rightarrow> char list \<Rightarrow> sb_fault + strbuf_t" where
  "append_string_loop alloc s space [] = Inr s"
| "append_string_loop alloc s space (c # cs) =
     (if c = NUL then Inr s
      else rbind (if space < 1
                  then rbind (c_int (sb_len s + 1)) (\<lambda>n. rbind (strbuf_resize alloc s n)
                         (\<lambda>s'. Inr (s', strbuf_empty_length s')))
                  else Inr (s, space)) (\<lambda>(s', space').
             rbind (poke s' (sb_len s') c) (\<lambda>s''.
               rbind (strbuf_extend_length s'' 1) (\<lambda>s3.
                 append_string_loop alloc s3 (space' - 1) cs))))"

definition strbuf_append_string ::
  "(int \<Rightarrow> bool) \<Rightarrow> strbuf_t \<Rightarrow> char list \<Rightarrow> sb_fault + strbuf_t" where
  "strbuf_append_string alloc s str = append_string_loop alloc s (strbuf_empty_length s) str"

text \<open>\<open>vsnprintf(s->buf + s->length, n, fmt, arg)\<close>: at most \<open>n - 1\<close> characters and the
  terminator are stored, the result is the length of the whole text or negative. A negative
  \<open>n\<close> becomes a huge \<open>size_t\<close>.\<close>

definition vsnprintf_stored :: "int \<Rightarrow> char list \<Rightarrow> char list" where
  "vsnprintf_stored n out =
     (if n = 0 then [] else (if n < 0 then out else take (nat (n - 1)) out) @ [NUL])"

definition vsnprintf ::
  "strbuf_t \<Rightarrow> int \<Rightarrow> char list option \<Rightarrow> sb_fault + (int \<times> strbuf_t)" where
  "vsnprintf s n out = (case out of
       None \<Rightarrow> Inr (-1, s)
     | Some cs \<Rightarrow>
         if int (length cs) > INT_MAX then Inr (-1, s)
         else rbind (poke_mem s (sb_len s) (vsnprintf_stored n cs)) (\<lambda>s'. Inr (int (length cs), s')))"

definition strbuf_append_fmt ::
  "(int \<Rightarrow> bool) \<Rightarrow> strbuf_t \<Rightarrow> int \<Rightarrow> char list option \<Rightarrow> sb_fault + strbuf_t" where
  "strbuf_append_fmt alloc s n out =
     rbind (strbuf_ensure_empty_length alloc s n) (\<lambda>s1.
       rbind (vsnprintf s1 n out) (\<lambda>(fmt_len, s2).
         if fmt_len < 0 then Inl (Die ''BUG: Unable to convert number'')
         else strbuf_extend_length s2 fmt_len))"

text \<open>The retry loop runs at most twice: \<open>t\<close> is its counter, and the second failure dies.\<close>

function append_fmt_retry_loop ::
  "(int \<Rightarrow> bool) \<Rightarrow> strbuf_t \<Rightarrow> nat \<Rightarrow> char list option \<Rightarrow> sb_fault + strbuf_t" where
  "append_fmt_retry_loop alloc s t out =
     rbind (vsnprintf s (strbuf_empty_length s + 1) out) (\<lambda>(fmt_len, s1).
       if fmt_len \<le> strbuf_empty_length s then strbuf_extend_length s1 fmt_len
       else if 0 < t then Inl (Die ''BUG: length of formatted string changed'')
       else rbind (c_int (sb_len s1 + fmt_len)) (\<lambda>n.
              rbind (strbuf_resize alloc s1 n) (\<lambda>s2. append_fmt_retry_loop alloc s2 (Suc t) out)))"
  by pat_completeness auto
termination
  by (relation "measure (\<lambda>(_, _, t, _). 1 - t)") auto

declare append_fmt_retry_loop.simps [simp del]

definition strbuf_append_fmt_retry ::
  "(int \<Rightarrow> bool) \<Rightarrow> strbuf_t \<Rightarrow> char list option \<Rightarrow> sb_fault + strbuf_t" where
  "strbuf_append_fmt_retry alloc s out = append_fmt_retry_loop alloc s 0 out"


subsection \<open>The invariant\<close>

text \<open>The text held by a buffer, and the states the operations keep: the allocation has
  exactly \<open>size\<close> bytes, the text and room for its terminator lie inside it, every byte of the text
  has been written, the growth is exponential, and the number of reallocations is bounded by
  the logarithm of the size, so that its counter cannot overflow.\<close>

definition content :: "strbuf_t \<Rightarrow> char list" where
  "content s = (case buf s of None \<Rightarrow> [] | Some b \<Rightarrow> map the (take (nat (sb_len s)) b))"

definition sb_inv :: "strbuf_t \<Rightarrow> bool" where
  "sb_inv s = (case buf s of
       None \<Rightarrow> False
     | Some b \<Rightarrow> int (length b) = sb_size s \<and> 0 \<le> sb_len s \<and> sb_len s < sb_size s \<and>
         sb_size s \<le> INT_MAX \<and> list_all (\<lambda>x. x \<noteq> None) (take (nat (sb_len s)) b) \<and>
         INT_MIN < increment s \<and> increment s \<le> - 2 \<and>
         0 \<le> reallocs s \<and> 2 ^ nat (reallocs s) \<le> sb_size s)"

lemma sb_invE:
  assumes "sb_inv s"
  obtains b where "buf s = Some b" "int (length b) = sb_size s" "0 \<le> sb_len s"
    "sb_len s < sb_size s" "sb_size s \<le> INT_MAX"
    "list_all (\<lambda>x. x \<noteq> None) (take (nat (sb_len s)) b)"
    "INT_MIN < increment s" "increment s \<le> - 2" "0 \<le> reallocs s"
    "2 ^ nat (reallocs s) \<le> sb_size s"
  using assms by (auto simp: sb_inv_def split: option.splits)

lemma length_content: "sb_inv s \<Longrightarrow> int (length (content s)) = sb_len s"
  by (auto elim!: sb_invE simp: content_def)

text \<open>A request that the growth loop can satisfy without leaving the range of \<open>int\<close>.\<close>

definition fits :: "strbuf_t \<Rightarrow> int \<Rightarrow> bool" where
  "fits s n \<longleftrightarrow> (sb_len s + n) * (- increment s) \<le> INT_MAX"

lemma fits_mono: "sb_inv s \<Longrightarrow> fits s n \<Longrightarrow> m \<le> n \<Longrightarrow> fits s m"
proof -
  assume a: "sb_inv s" "fits s n" "m \<le> n"
  then have "(sb_len s + m) * (- increment s) \<le> (sb_len s + n) * (- increment s)"
    by (intro mult_right_mono) (auto elim!: sb_invE)
  with a show ?thesis by (simp add: fits_def)
qed

lemma not_fits_range:
  assumes "sb_inv s" "0 \<le> n" "INT_MAX < sb_len s + n"
  shows "\<not> fits s n"
proof -
  have "(sb_len s + n) * 1 \<le> (sb_len s + n) * (- increment s)"
    using assms(1,2) by (intro mult_left_mono) (auto elim!: sb_invE)
  with assms(3) show ?thesis by (simp add: fits_def)
qed


subsection \<open>Sizing\<close>

lemma c_int_Inr [simp]: "INT_MIN \<le> x \<Longrightarrow> x \<le> INT_MAX \<Longrightarrow> c_int x = Inr x"
  by (simp add: c_int_def)

lemma grow_exponential_Inr:
  assumes "grow_exponential f r n = Inr k" "0 < n" "2 \<le> f" "n \<le> INT_MAX"
  shows "r \<le> k \<and> n \<le> k \<and> k \<le> INT_MAX \<and> (n < r \<longrightarrow> 2 * n \<le> k)"
  using assms
proof (induction f r n rule: grow_exponential.induct)
  case (1 f r n)
  show ?case
  proof (cases "n < r")
    case True
    have ge: "2 * n \<le> n * f" using 1(3,4) by simp
    have ok: "INT_MIN \<le> n * f" "n * f \<le> INT_MAX" "grow_exponential f r (n * f) = Inr k"
      using 1(2-5) True by (auto simp: grow_exponential.simps [of f r n] split: if_splits)
    with 1(1) 1(3-5) True ge have "r \<le> k \<and> n * f \<le> k \<and> k \<le> INT_MAX"
      by simp
    with ge 1(3) show ?thesis by linarith
  next
    case False
    with 1(2-5) show ?thesis by (simp add: grow_exponential.simps [of f r n])
  qed
qed

lemma grow_exponential_Inl:
  assumes "grow_exponential f r n = Inl e" "0 < n" "2 \<le> f"
  shows "e = Signed_overflow \<and> INT_MAX < (r - 1) * f"
  using assms
proof (induction f r n rule: grow_exponential.induct)
  case (1 f r n)
  then have lt: "n < r" by (auto simp: grow_exponential.simps [of f r n] split: if_splits)
  have pos: "0 < n * f" using 1(3,4) by simp
  have "n * f \<le> (r - 1) * f" using lt 1(4) by (intro mult_right_mono) auto
  then have "\<not> n * f \<le> INT_MAX \<Longrightarrow> INT_MAX < (r - 1) * f" by linarith
  with 1 lt pos show ?case
    by (auto simp: grow_exponential.simps [of f r n] split: if_splits)
qed

lemma grow_exponential_upper:
  assumes "grow_exponential f r n = Inr k" "0 < n" "2 \<le> f" "n < r"
  shows "k \<le> (r - 1) * f"
  using assms
proof (induction f r n rule: grow_exponential.induct)
  case (1 f r n)
  have ok: "INT_MIN \<le> n * f" "n * f \<le> INT_MAX" "grow_exponential f r (n * f) = Inr k" "n \<noteq> 0" "\<not> f \<le> 1"
    using 1(2-5) by (auto simp: grow_exponential.simps [of f r n] split: if_splits)
  have pos: "0 < n * f" using 1(3,4) by simp
  show ?case
  proof (cases "n * f < r")
    case True
    with 1(1) [OF 1(5) _ _ ok(3)] ok 1(4) pos show ?thesis by simp
  next
    case False
    with ok(3) have "k = n * f" by (simp add: grow_exponential.simps [of f r "n * f"])
    moreover have "n * f \<le> (r - 1) * f" using 1(4,5) by (intro mult_right_mono) auto
    ultimately show ?thesis by simp
  qed
qed

text \<open>The size chosen for a growing request by exponential sizing.\<close>

lemma calculate_new_size_grow:
  assumes inv: "sb_inv s" and n: "sb_size s \<le> n" "n < INT_MAX"
  shows "(\<exists>k. calculate_new_size s n = Inr k \<and> n < k \<and> 2 * sb_size s \<le> k \<and> k \<le> INT_MAX) \<or>
    calculate_new_size s n = Inl Signed_overflow \<and> INT_MAX < n * (- increment s)"
proof -
  from inv obtain b where i: "0 < sb_size s" "sb_size s \<le> INT_MAX" "INT_MIN < increment s"
    "increment s \<le> - 2" by (auto elim!: sb_invE)
  with n have eq: "calculate_new_size s n = grow_exponential (- increment s) (n + 1) (sb_size s)"
    by (simp add: calculate_new_size_def)
  show ?thesis
  proof (cases "grow_exponential (- increment s) (n + 1) (sb_size s)")
    case (Inl e)
    with grow_exponential_Inl [OF this] i eq show ?thesis by simp
  next
    case (Inr k)
    with grow_exponential_Inr [OF this] i n eq show ?thesis by auto
  qed
qed

text \<open>The fields that no operation of the buffer's users changes: growth mode and ownership.\<close>

abbreviation same_mode :: "strbuf_t \<Rightarrow> strbuf_t \<Rightarrow> bool" where
  "same_mode s' s \<equiv> increment s' = increment s \<and> dynamic s' = dynamic s"

text \<open>What a growing operation promises: on success the invariant, the same text with \<open>xs\<close>
  appended and the same growth mode; otherwise the allocator refused a request, or the
  sizes left the range of \<open>int\<close>, which cannot happen to a request that fits.\<close>

definition grown ::
  "(int \<Rightarrow> bool) \<Rightarrow> strbuf_t \<Rightarrow> int \<Rightarrow> char list \<Rightarrow> sb_fault + strbuf_t \<Rightarrow> bool" where
  "grown alloc s n xs r = (case r of
       Inr s' \<Rightarrow> sb_inv s' \<and> content s' = content s @ xs \<and> same_mode s' s
     | Inl f \<Rightarrow> f = Die ''Out of memory'' \<and> (\<exists>k. \<not> alloc k) \<or> f = Signed_overflow \<and> \<not> fits s n)"

lemma grown_Inr: "grown alloc s n xs (Inr s') \<longleftrightarrow>
    sb_inv s' \<and> content s' = content s @ xs \<and> same_mode s' s"
  by (simp add: grown_def)

lemma strbuf_resize_grow:
  assumes inv: "sb_inv s" and n: "sb_size s \<le> n" "n \<le> INT_MAX"
  shows "grown alloc s (n - sb_len s) [] (strbuf_resize alloc s n)"
    and "strbuf_resize alloc s n = Inr s' \<Longrightarrow>
           sb_len s' = sb_len s \<and> n < sb_size s' \<and> sb_size s \<le> sb_size s'"
proof -
  from inv obtain b where b: "buf s = Some b" "int (length b) = sb_size s" "0 \<le> sb_len s"
    "sb_len s < sb_size s" "sb_size s \<le> INT_MAX"
    "list_all (\<lambda>x. x \<noteq> None) (take (nat (sb_len s)) b)"
    "INT_MIN < increment s" "increment s \<le> - 2" "0 \<le> reallocs s"
    "2 ^ nat (reallocs s) \<le> sb_size s" by (rule sb_invE)
  have "(2::int) ^ nat (reallocs s) < 2 ^ 31" using b(5,10) by simp
  then have "nat (reallocs s) < 31" by (rule power_less_imp_less_exp [rotated]) simp
  then have re: "reallocs s + 1 \<le> INT_MAX" using b(9) by linarith
  have nofit: "\<not> fits s (n - sb_len s)" if "INT_MAX < n * (- increment s)"
    using that by (simp add: fits_def)
  have big: "\<not> fits s (n - sb_len s)" if "n = INT_MAX"
    using that b(8) by (simp add: fits_def)
  consider (ovf) "calculate_new_size s n = Inl Signed_overflow" "\<not> fits s (n - sb_len s)"
    | (ok) k where "calculate_new_size s n = Inr k" "n < k" "2 * sb_size s \<le> k" "k \<le> INT_MAX"
  proof (cases "n = INT_MAX")
    case True
    then have "calculate_new_size s n = Inl Signed_overflow"
      by (simp add: calculate_new_size_def c_int_def)
    with that(1) big [OF True] show ?thesis by blast
  next
    case False
    with calculate_new_size_grow [OF inv n(1)] n(2) nofit that show ?thesis by fastforce
  qed
  note split = this
  have grow: "strbuf_resize alloc s n =
      (if alloc k then Inr (s\<lparr>sb_size := k, buf := Some (b @ replicate (nat k - length b) None),
          reallocs := reallocs s + 1\<rparr>) else Inl (Die ''Out of memory''))"
    if "calculate_new_size s n = Inr k" "n < k" "2 * sb_size s \<le> k" "k \<le> INT_MAX" for k
    using that b re n by (simp add: strbuf_resize_def realloc_buf_def)
  have pw: "2 ^ nat (reallocs s + 1) \<le> k" if "2 * sb_size s \<le> k" for k
    using that b(9,10) by (simp add: nat_add_distrib)
  show "grown alloc s (n - sb_len s) [] (strbuf_resize alloc s n)"
  proof (cases rule: split)
    case ovf
    then show ?thesis by (simp add: grown_def strbuf_resize_def)
  next
    case (ok k)
    with grow [OF ok] pw [OF ok(3)] b n show ?thesis
      by (auto simp: grown_def sb_inv_def content_def)
  qed
  show "sb_len s' = sb_len s \<and> n < sb_size s' \<and> sb_size s \<le> sb_size s'"
    if "strbuf_resize alloc s n = Inr s'"
  proof (cases rule: split)
    case ovf
    with that show ?thesis by (simp add: strbuf_resize_def)
  next
    case (ok k)
    with grow [OF ok] that b show ?thesis by (auto split: if_splits)
  qed
qed

lemma strbuf_ensure_empty_length_grow:
  assumes inv: "sb_inv s" and n: "0 \<le> n"
  shows "grown alloc s n [] (strbuf_ensure_empty_length alloc s n)"
    and "strbuf_ensure_empty_length alloc s n = Inr s' \<Longrightarrow>
           sb_len s' = sb_len s \<and> n \<le> strbuf_empty_length s'"
proof -
  show "grown alloc s n [] (strbuf_ensure_empty_length alloc s n)"
    using inv n strbuf_resize_grow(1) [of s "sb_len s + n" alloc] not_fits_range [OF inv n]
    by (auto simp: strbuf_ensure_empty_length_def strbuf_empty_length_def grown_Inr c_int_def
        grown_def [of _ _ _ _ "Inl Signed_overflow"] elim!: sb_invE)
  show "sb_len s' = sb_len s \<and> n \<le> strbuf_empty_length s'"
    if "strbuf_ensure_empty_length alloc s n = Inr s'"
    using that inv n strbuf_resize_grow(2) [of s "sb_len s + n" alloc s']
    by (auto simp: strbuf_ensure_empty_length_def strbuf_empty_length_def c_int_def
        split: if_splits)
qed


subsection \<open>Writing inside the allocation\<close>

lemma poke_mem_single: "poke s i c = poke_mem s i [c]"
  by (auto simp: poke_def poke_mem_def upd_conv_take_nth_drop split: option.splits)

lemma poke_mem_extend:
  assumes inv: "sb_inv s" and room: "int (length cs) \<le> strbuf_empty_length s"
  shows "\<exists>s'. rbind (poke_mem s (sb_len s) cs) (\<lambda>s'. strbuf_extend_length s' (int (length cs))) = Inr s' \<and>
    sb_inv s' \<and> content s' = content s @ cs \<and> same_mode s' s \<and>
    sb_len s' = sb_len s + int (length cs) \<and> sb_size s' = sb_size s"
proof -
  from inv obtain b where b: "buf s = Some b" "int (length b) = sb_size s" "0 \<le> sb_len s"
    "sb_len s < sb_size s" "sb_size s \<le> INT_MAX"
    "list_all (\<lambda>x. x \<noteq> None) (take (nat (sb_len s)) b)"
    "INT_MIN < increment s" "increment s \<le> - 2" "0 \<le> reallocs s"
    "2 ^ nat (reallocs s) \<le> sb_size s" by (rule sb_invE)
  define b' where
    "b' = take (nat (sb_len s)) b @ map Some cs @ drop (nat (sb_len s) + length cs) b"
  have l: "nat (sb_len s) + length cs < length b"
    using room b(2,3) by (simp add: strbuf_empty_length_def)
  then have "length b' = length b" by (simp add: b'_def)
  moreover have "nat (sb_len s + int (length cs)) = nat (sb_len s) + length cs"
    using b(3) by simp
  then have "take (nat (sb_len s + int (length cs))) b' = take (nat (sb_len s)) b @ map Some cs"
    using l by (simp add: b'_def)
  moreover have "rbind (poke_mem s (sb_len s) cs) (\<lambda>s'. strbuf_extend_length s' (int (length cs)))
      = Inr (s\<lparr>buf := Some b', sb_len := sb_len s + int (length cs)\<rparr>)"
    using b l by (simp add: poke_mem_def strbuf_extend_length_def b'_def)
  ultimately show ?thesis
    using b l room by (auto simp: sb_inv_def content_def strbuf_empty_length_def comp_def list_all_iff)
qed

lemma strbuf_append_mem_unsafe_room:
  assumes "sb_inv s" and "int (length cs) \<le> strbuf_empty_length s"
  shows "\<exists>s'. strbuf_append_mem_unsafe s cs (int (length cs)) = Inr s' \<and>
    sb_inv s' \<and> content s' = content s @ cs \<and> same_mode s' s \<and>
    sb_len s' = sb_len s + int (length cs) \<and> sb_size s' = sb_size s"
  using poke_mem_extend [OF assms] by (simp add: strbuf_append_mem_unsafe_def)

lemma strbuf_append_char_unsafe_mem:
  "strbuf_append_char_unsafe s c = strbuf_append_mem_unsafe s [c] 1"
  by (simp add: strbuf_append_char_unsafe_def strbuf_append_mem_unsafe_def poke_mem_single)

lemma strbuf_ensure_null_ok:
  assumes "sb_inv s"
  shows "\<exists>s' b. strbuf_ensure_null s = Inr s' \<and> sb_inv s' \<and> content s' = content s \<and>
    s' = s\<lparr>buf := Some b\<rparr> \<and> b ! length (content s) = Some NUL \<and> length (content s) < length b"
proof -
  from assms obtain b where b: "buf s = Some b" "int (length b) = sb_size s" "0 \<le> sb_len s"
    "sb_len s < sb_size s" by (auto elim!: sb_invE)
  then have l: "nat (sb_len s) < length b" by linarith
  have "nat (sb_len s) = length (content s)" using length_content [OF assms] by simp
  then show ?thesis
    using assms b l by (auto simp: strbuf_ensure_null_def poke_def sb_inv_def content_def)
qed


subsection \<open>Interfaces\<close>

text \<open>The unchecked appends are bounded sinks: the string encoder and the token decoder of the JSON component write
  through them after reserving the worst case.\<close>

interpretation mem_sink: bounded_sink sb_inv content strbuf_empty_length
  "\<lambda>s. (increment s, dynamic s)" "\<lambda>cs. cs" "\<lambda>s cs. strbuf_append_mem_unsafe s cs (int (length cs))"
proof
  fix s :: strbuf_t and cs :: "char list"
  assume "sb_inv s" "int (length cs) \<le> strbuf_empty_length s"
  from strbuf_append_mem_unsafe_room [OF this]
  show "\<exists>s'. strbuf_append_mem_unsafe s cs (int (length cs)) = Inr s' \<and> sb_inv s' \<and>
    content s' = content s @ cs \<and> strbuf_empty_length s' = strbuf_empty_length s - int (length cs) \<and>
    (increment s', dynamic s') = (increment s, dynamic s)"
    by (auto simp: strbuf_empty_length_def)
qed

interpretation char_sink: bounded_sink sb_inv content strbuf_empty_length
  "\<lambda>s. (increment s, dynamic s)" "\<lambda>c. [c]" strbuf_append_char_unsafe
proof
  fix s :: strbuf_t and c :: char
  assume "sb_inv s" "int (length [c]) \<le> strbuf_empty_length s"
  from mem_sink.put_room [OF this]
  show "\<exists>s'. strbuf_append_char_unsafe s c = Inr s' \<and> sb_inv s' \<and>
    content s' = content s @ [c] \<and> strbuf_empty_length s' = strbuf_empty_length s - int (length [c]) \<and>
    (increment s', dynamic s') = (increment s, dynamic s)"
    by (simp add: strbuf_append_char_unsafe_mem)
qed

text \<open>\<open>strbuf_append_string\<close> does not touch the allocator while there is room.\<close>

lemma append_string_loop_room:
  "sb_inv s \<Longrightarrow> NUL \<notin> set str \<Longrightarrow> int (length str) \<le> strbuf_empty_length s \<Longrightarrow>
     space = strbuf_empty_length s \<Longrightarrow> append_string_loop alloc s space str = fold_res strbuf_append_char_unsafe s str"
proof (induction str arbitrary: s space)
  case (Cons c cs)
  from char_sink.put_room [OF Cons.prems(1), of c] Cons.prems(3) obtain s1 where
    s1: "strbuf_append_char_unsafe s c = Inr s1" "sb_inv s1"
      "strbuf_empty_length s1 = strbuf_empty_length s - 1" by auto
  have "rbind (poke s (sb_len s) c) (\<lambda>s''. rbind (strbuf_extend_length s'' 1) f) = f s1" for f :: "strbuf_t \<Rightarrow> sb_fault + strbuf_t"
    using s1(1) by (simp add: strbuf_append_char_unsafe_def rbind_assoc [symmetric])
  with Cons.IH [of s1 "space - 1"] Cons.prems s1 show ?case by auto
qed simp

lemma strbuf_append_string_room:
  assumes "sb_inv s" "NUL \<notin> set str" "int (length str) \<le> strbuf_empty_length s"
  shows "\<exists>s'. strbuf_append_string alloc s str = Inr s' \<and> sb_inv s' \<and> content s' = content s @ str \<and>
    strbuf_empty_length s' = strbuf_empty_length s - int (length str) \<and> same_mode s' s"
  using char_sink.put_all [of s str] append_string_loop_room [OF assms refl] assms
  by (simp add: strbuf_append_string_def comp_def)


subsection \<open>Appending\<close>

lemma grown_bind:
  assumes "grown alloc s n [] r"
    and "\<And>s'. r = Inr s' \<Longrightarrow> sb_inv s' \<Longrightarrow> content s' = content s \<Longrightarrow> same_mode s' s \<Longrightarrow>
      \<exists>s''. f s' = Inr s'' \<and> sb_inv s'' \<and> content s'' = content s' @ cs \<and> same_mode s'' s'"
  shows "grown alloc s n cs (rbind r f)"
  using assms by (cases r) (auto simp: grown_def)

lemma strbuf_append_mem_grown:
  assumes inv: "sb_inv s" and n: "int (length cs) = n"
  shows "grown alloc s n cs (strbuf_append_mem alloc s cs n)"
  unfolding strbuf_append_mem_def
proof (rule grown_bind)
  show "grown alloc s n [] (strbuf_ensure_empty_length alloc s n)"
    using strbuf_ensure_empty_length_grow(1) [OF inv] n by simp
next
  fix s' assume e: "strbuf_ensure_empty_length alloc s n = Inr s'" and i: "sb_inv s'"
  have "int (length cs) \<le> strbuf_empty_length s'"
    using strbuf_ensure_empty_length_grow(2) [OF inv _ e] n by simp
  from poke_mem_extend [OF i this] n
  show "\<exists>s''. (if n < 0 \<or> length cs < nat n then Inl Out_of_bounds
       else rbind (poke_mem s' (sb_len s') (take (nat n) cs)) (\<lambda>s''. strbuf_extend_length s'' n)) = Inr s''
      \<and> sb_inv s'' \<and> content s'' = content s' @ cs \<and> same_mode s'' s'"
    by auto
qed

lemma strbuf_append_char_mem:
  "strbuf_append_char alloc s c = strbuf_append_mem alloc s [c] 1"
  by (simp add: strbuf_append_char_def strbuf_append_mem_def poke_mem_single)

lemma strbuf_append_char_grown:
  "sb_inv s \<Longrightarrow> grown alloc s 1 [c] (strbuf_append_char alloc s c)"
  by (simp add: strbuf_append_char_mem strbuf_append_mem_grown)

lemma strbuf_append_string_loop_grown:
  "sb_inv s \<Longrightarrow> space = strbuf_empty_length s \<Longrightarrow> str' = takeWhile (\<lambda>c. c \<noteq> NUL) str \<Longrightarrow>
     grown alloc s (int (length str')) str' (append_string_loop alloc s space str)"
proof (induction str arbitrary: s space str')
  case Nil
  then show ?case by (simp add: grown_Inr)
next
  case (Cons c cs)
  show ?case
  proof (cases "c = NUL")
    case True
    with Cons.prems show ?thesis by (simp add: grown_Inr)
  next
    case False
    define rest where "rest = takeWhile (\<lambda>c. c \<noteq> NUL) cs"
    have str': "str' = c # rest" using Cons.prems(3) False by (simp add: rest_def)
    define step where "step = (if space < 1 then rbind (c_int (sb_len s + 1))
      (\<lambda>n. rbind (strbuf_resize alloc s n) (\<lambda>s'. Inr (s', strbuf_empty_length s'))) else Inr (s, space))"
    have len1: "sb_len s + 1 \<le> INT_MAX" "0 \<le> sb_len s" "sb_len s < sb_size s"
      using Cons.prems(1) by (auto elim!: sb_invE)
    have next_step: "grown alloc s (int (length str')) str'
        (rbind (poke s1 (sb_len s1) c) (\<lambda>s2. rbind (strbuf_extend_length s2 1)
          (\<lambda>s3. append_string_loop alloc s3 (sp - 1) cs)))"
      if s1: "sb_inv s1" "content s1 = content s" "same_mode s1 s" "sb_len s1 = sb_len s"
        and sp: "sp = strbuf_empty_length s1" "1 \<le> sp" for s1 sp
    proof -
      from poke_mem_extend [OF s1(1), of "[c]"] sp obtain s3 where
        w: "rbind (poke s1 (sb_len s1) c) (\<lambda>s'. strbuf_extend_length s' 1) = Inr s3"
        and s3: "sb_inv s3" "content s3 = content s1 @ [c]" "same_mode s3 s1"
          "sb_len s3 = sb_len s1 + 1" "sb_size s3 = sb_size s1"
        by (auto simp: poke_mem_single)
      then have run: "rbind (poke s1 (sb_len s1) c) (\<lambda>s2. rbind (strbuf_extend_length s2 1)
          (\<lambda>s3. append_string_loop alloc s3 (sp - 1) cs)) = append_string_loop alloc s3 (sp - 1) cs"
        by (simp add: rbind_assoc [symmetric])
      have "sp - 1 = strbuf_empty_length s3" using sp(1) s3 by (simp add: strbuf_empty_length_def)
      from Cons.IH [OF s3(1) this rest_def]
      have "grown alloc s3 (int (length rest)) rest (append_string_loop alloc s3 (sp - 1) cs)" .
      moreover have "fits s3 (int (length rest)) = fits s (int (length str'))"
        using s3 s1 by (simp add: fits_def str' algebra_simps)
      ultimately show ?thesis
        unfolding run using s3 s1 by (auto simp: grown_def str' split: sum.splits)
    qed
    show ?thesis
    proof (cases "space < 1")
      case True
      then have sz: "sb_size s \<le> sb_len s + 1" using Cons.prems(2) by (simp add: strbuf_empty_length_def)
      note r = strbuf_resize_grow [OF Cons.prems(1) sz len1(1), of alloc]
      show ?thesis
      proof (cases "strbuf_resize alloc s (sb_len s + 1)")
        case (Inl f)
        have "fits s (int (length str')) \<Longrightarrow> fits s 1"
          using fits_mono [OF Cons.prems(1), of "int (length str')" 1] by (simp add: str')
        with r(1) Inl True False len1 show ?thesis by (auto simp: grown_def)
      next
        case (Inr s1)
        with r len1 next_step [of s1 "strbuf_empty_length s1"] True False show ?thesis
          by (simp add: grown_Inr strbuf_empty_length_def)
      qed
    next
      case sp: False
      with next_step [of s space] Cons.prems False show ?thesis by simp
    qed
  qed
qed

text \<open>C20: Appending a C string to a well-formed buffer, whatever the allocator does: on success the
  buffer holds its old text followed by exactly the characters before the terminator and is
  well formed again; the only failures are the death for lack of memory when the allocator refuses a
  request, and sizes beyond the range of \<open>int\<close>, which a text that fits rules out. In particular
  no write falls outside the allocation and the sizing loop terminates.\<close>

theorem strbuf_append_string_correct:
  assumes "sb_inv s"
  shows "grown alloc s (int (length (takeWhile (\<lambda>c. c \<noteq> NUL) str)))
    (takeWhile (\<lambda>c. c \<noteq> NUL) str) (strbuf_append_string alloc s str)"
  unfolding strbuf_append_string_def
  by (rule strbuf_append_string_loop_grown [OF assms refl refl])


subsection \<open>Formatted appending\<close>

lemma poke_mem_beyond:
  assumes inv: "sb_inv s" and room: "int (length cs) \<le> sb_size s - sb_len s"
  shows "\<exists>s'. poke_mem s (sb_len s) cs = Inr s' \<and> sb_inv s' \<and> content s' = content s \<and>
    same_mode s' s \<and> sb_len s' = sb_len s \<and> sb_size s' = sb_size s"
proof -
  from inv obtain b where b: "buf s = Some b" "int (length b) = sb_size s" "0 \<le> sb_len s"
    by (auto elim!: sb_invE)
  with room have l: "nat (sb_len s) + length cs \<le> length b" by linarith
  then have "take (nat (sb_len s)) (take (nat (sb_len s)) b @ map Some cs @
      drop (nat (sb_len s) + length cs) b) = take (nat (sb_len s)) b" by simp
  with b l inv show ?thesis by (auto simp: poke_mem_def sb_inv_def content_def)
qed

lemma poke_mem_append:
  assumes "sb_inv s" and "int (length cs + length ds) \<le> sb_size s - sb_len s"
  shows "poke_mem s (sb_len s) (cs @ ds) =
    rbind (poke_mem s (sb_len s) cs) (\<lambda>s1. poke_mem s1 (sb_len s1 + int (length cs)) ds)"
proof -
  from assms obtain b where b: "buf s = Some b" "int (length b) = sb_size s" "0 \<le> sb_len s"
    by (auto elim!: sb_invE)
  with assms(2) have l: "nat (sb_len s) + length cs + length ds \<le> length b" by linarith
  have n: "nat (sb_len s + int (length cs)) = nat (sb_len s) + length cs" using b(3) by simp
  show ?thesis using b l by (simp add: poke_mem_def n add.assoc add.commute [of "length ds"])
qed

lemma vsnprintf_complete:
  assumes inv: "sb_inv s" and n: "int (length cs) < n" "n \<le> sb_size s - sb_len s"
  shows "\<exists>s'. vsnprintf s n (Some cs) = Inr (int (length cs), s') \<and>
    (\<exists>s''. strbuf_extend_length s' (int (length cs)) = Inr s'' \<and> sb_inv s'' \<and>
      content s'' = content s @ cs \<and> same_mode s'' s)"
proof -
  have mx: "int (length cs) \<le> INT_MAX" using assms by (auto elim!: sb_invE)
  have room: "int (length cs) \<le> strbuf_empty_length s" using n by (simp add: strbuf_empty_length_def)
  from poke_mem_extend [OF inv room] obtain s1 s2 where
    s1: "poke_mem s (sb_len s) cs = Inr s1" and s2: "strbuf_extend_length s1 (int (length cs)) = Inr s2"
    "sb_inv s2" "content s2 = content s @ cs" "same_mode s2 s"
    "sb_len s2 = sb_len s + int (length cs)" "sb_size s2 = sb_size s"
    by (auto simp: rbind_eq_Inr)
  have l1: "s2 = s1\<lparr>sb_len := sb_len s1 + int (length cs)\<rparr>"
    using s2(1) by (auto simp: strbuf_extend_length_def c_int_def split: if_splits)
  from strbuf_ensure_null_ok [OF s2(2)] obtain s3 b where
    s3: "poke s2 (sb_len s2) NUL = Inr s3" "sb_inv s3" "content s3 = content s2" "s3 = s2\<lparr>buf := Some b\<rparr>"
    by (auto simp: strbuf_ensure_null_def)
  let ?t = "s1\<lparr>buf := Some b\<rparr>"
  have t: "poke_mem s1 (sb_len s1 + int (length cs)) [NUL] = Inr ?t"
    using s3(1,4) l1
    by (auto simp: poke_mem_single poke_mem_def dest: arg_cong [of _ _ buf]
        split: option.splits if_splits)
  have "poke_mem s (sb_len s) (cs @ [NUL]) = Inr ?t"
    using poke_mem_append [OF inv, of cs "[NUL]"] n s1 t by simp
  then have "vsnprintf s n (Some cs) = Inr (int (length cs), ?t)"
    using n mx by (simp add: vsnprintf_def vsnprintf_stored_def)
  moreover have "strbuf_extend_length ?t (int (length cs)) = Inr s3"
    using s2(1) s3(4) l1 by (auto simp: strbuf_extend_length_def c_int_def split: if_splits)
  ultimately show ?thesis using s3 s2 by auto
qed

text \<open>An attempt with enough room, and one that is cut off.\<close>

lemma fmt_retry_fits:
  assumes "sb_inv s" "int (length cs) \<le> strbuf_empty_length s"
  shows "\<exists>s''. append_fmt_retry_loop alloc s t (Some cs) = Inr s'' \<and> sb_inv s'' \<and> content s'' = content s @ cs \<and> same_mode s'' s"
  using vsnprintf_complete [OF assms(1), of cs "strbuf_empty_length s + 1"] assms(2)
  by (auto simp: append_fmt_retry_loop.simps [of alloc s] strbuf_empty_length_def)

lemma vsnprintf_truncated:
  assumes inv: "sb_inv s" and len: "int (length cs) \<le> INT_MAX" "\<not> int (length cs) \<le> strbuf_empty_length s"
  shows "\<exists>s1. vsnprintf s (strbuf_empty_length s + 1) (Some cs) = Inr (int (length cs), s1) \<and>
    sb_inv s1 \<and> content s1 = content s \<and> same_mode s1 s \<and> sb_len s1 = sb_len s \<and> sb_size s1 = sb_size s"
proof -
  have "0 \<le> strbuf_empty_length s" using inv by (auto elim!: sb_invE simp: strbuf_empty_length_def)
  then have "int (length (vsnprintf_stored (strbuf_empty_length s + 1) cs)) \<le> sb_size s - sb_len s"
    using len(2) by (auto simp: vsnprintf_stored_def strbuf_empty_length_def)
  from poke_mem_beyond [OF inv this] show ?thesis using len(1) by (auto simp: vsnprintf_def)
qed

lemma fmt_retry_resizes:
  assumes inv: "sb_inv s" and len: "\<not> int (length cs) \<le> strbuf_empty_length s" "sb_len s + int (length cs) \<le> INT_MAX"
  shows "grown alloc s (int (length cs)) cs
    (rbind (strbuf_resize alloc s (sb_len s + int (length cs))) (\<lambda>s2. append_fmt_retry_loop alloc s2 t (Some cs)))"
proof (rule grown_bind)
  have ge: "sb_size s \<le> sb_len s + int (length cs)" using len(1) by (simp add: strbuf_empty_length_def)
  note r = strbuf_resize_grow [OF inv ge, of alloc]
  show "grown alloc s (int (length cs)) [] (strbuf_resize alloc s (sb_len s + int (length cs)))"
    using r(1) len(2) by (auto simp: grown_def split: sum.splits)
  fix s2
  assume s2: "strbuf_resize alloc s (sb_len s + int (length cs)) = Inr s2" "sb_inv s2" "content s2 = content s"
  then have "int (length cs) \<le> strbuf_empty_length s2"
    using r(2) [OF _ s2(1)] len(2) by (auto simp: strbuf_empty_length_def)
  then show "\<exists>s''. append_fmt_retry_loop alloc s2 t (Some cs) = Inr s'' \<and> sb_inv s'' \<and>
      content s'' = content s2 @ cs \<and> same_mode s'' s2"
    by (rule fmt_retry_fits [OF s2(2)])
qed

text \<open>The retrying formatter appends exactly the formatted text, of any length an \<open>int\<close> can
  report: a text that does not fit is first written truncated, the buffer is resized to its
  reported length and the second attempt always succeeds, so the exit for a changed length is never
  taken.\<close>

theorem strbuf_append_fmt_retry_correct:
  assumes inv: "sb_inv s" and len: "int (length cs) \<le> INT_MAX"
  shows "grown alloc s (int (length cs)) cs (strbuf_append_fmt_retry alloc s (Some cs))"
proof (cases "int (length cs) \<le> strbuf_empty_length s")
  case True
  with fmt_retry_fits [OF inv True, of alloc 0] show ?thesis by (auto simp: strbuf_append_fmt_retry_def grown_Inr)
next
  case False
  then obtain s1 where v: "vsnprintf s (strbuf_empty_length s + 1) (Some cs) = Inr (int (length cs), s1)"
    and s1: "sb_inv s1" "content s1 = content s" "same_mode s1 s" "sb_len s1 = sb_len s" "sb_size s1 = sb_size s"
    using vsnprintf_truncated [OF inv len] by blast
  have same: "grown alloc s1 = grown alloc s" "strbuf_empty_length s1 = strbuf_empty_length s"
    using s1 by (auto simp: grown_def fits_def strbuf_empty_length_def fun_eq_iff split: sum.splits)
  show ?thesis
  proof (cases "sb_len s + int (length cs) \<le> INT_MAX")
    case fit: True
    have "0 \<le> sb_len s" using inv by (auto elim!: sb_invE)
    with fit have "strbuf_append_fmt_retry alloc s (Some cs) =
        rbind (strbuf_resize alloc s1 (sb_len s1 + int (length cs))) (\<lambda>s2. append_fmt_retry_loop alloc s2 (Suc 0) (Some cs))"
      using v False s1 len by (simp add: strbuf_append_fmt_retry_def append_fmt_retry_loop.simps [of alloc s])
    with fmt_retry_resizes [OF s1(1), of cs alloc "Suc 0"] fit False s1 same show ?thesis by simp
  next
    case nofit: False
    then have "\<not> fits s (int (length cs))" using not_fits_range [OF inv] by simp
    with nofit v False s1 len show ?thesis
      by (simp add: strbuf_append_fmt_retry_def append_fmt_retry_loop.simps [of alloc s] c_int_def grown_def)
  qed
qed


subsection \<open>Creation, release and the sizing modes\<close>

text \<open>A new buffer of a requested length is well formed, empty and has room for that many bytes
  beside the terminator; it fails only when the allocator does.\<close>

theorem strbuf_init_correct:
  assumes "n < INT_MAX"
  shows "(\<exists>s. strbuf_init alloc n = Inr s \<and> sb_inv s \<and> content s = [] \<and> n \<le> strbuf_empty_length s \<and>
      increment s = STRBUF_DEFAULT_INCREMENT \<and> dynamic s = 0) \<or>
    strbuf_init alloc n = Inl (Die ''Out of memory'') \<and> (\<exists>k. \<not> alloc k)"
proof -
  define sz where "sz = (if n \<le> 0 then STRBUF_DEFAULT_SIZE else n + 1)"
  have sz: "0 < sz" "sz \<le> INT_MAX" "n \<le> sz - 1" using assms by (auto simp: sz_def)
  have eq: "(if n \<le> 0 then Inr STRBUF_DEFAULT_SIZE else c_int (n + 1)) = Inr sz"
    using assms by (simp add: sz_def)
  show ?thesis
  proof (cases "alloc sz")
    case True
    with sz show ?thesis
      unfolding strbuf_init_def eq
      by (auto simp: malloc_buf_def strbuf_ensure_null_def poke_def sb_inv_def content_def
          strbuf_empty_length_def)
  next
    case False
    then show ?thesis unfolding strbuf_init_def eq by (auto simp: malloc_buf_def)
  qed
qed

text \<open>The C string that starts at a buffer: its bytes up to the first terminator, if all of them
  have been written.\<close>

fun c_string :: "char option list \<Rightarrow> char list option" where
  "c_string [] = None"
| "c_string (None # _) = None"
| "c_string (Some c # cs) = (if c = NUL then Some [] else map_option ((#) c) (c_string cs))"

lemma c_string_terminated:
  "NUL \<notin> set xs \<Longrightarrow> c_string (map Some xs @ Some NUL # ys) = Some xs"
  by (induction xs) auto

text \<open>Releasing a buffer to a string hands out a terminated C string: when the text holds no
  terminator of its own, reading the result as a C string gives exactly the text, and the reported
  length is its length.\<close>

theorem strbuf_free_to_string_correct:
  assumes inv: "sb_inv s" and "NUL \<notin> set (content s)"
  shows "\<exists>b s'. strbuf_free_to_string s = Inr ((Some b, int (length (content s))), s') \<and>
    c_string b = Some (content s)"
proof -
  from strbuf_ensure_null_ok [OF inv] obtain s1 b where
    s1: "strbuf_ensure_null s = Inr s1" "sb_inv s1" "content s1 = content s" "buf s1 = Some b"
      "b ! length (content s) = Some NUL" "length (content s) < length b" "sb_len s1 = sb_len s"
    by auto
  have n: "nat (sb_len s1) = length (content s)" using length_content [OF inv] s1(7) by simp
  have "list_all (\<lambda>x. x \<noteq> None) (take (length (content s)) b)"
    using s1(2,4) n by (simp add: sb_inv_def)
  then have "map Some (map the (take (length (content s)) b)) = take (length (content s)) b"
    by (intro nth_equalityI) (auto simp: list_all_length)
  moreover have "map the (take (length (content s)) b) = content s"
    using s1(3,4) n by (simp add: content_def)
  ultimately have "take (length (content s)) b = map Some (content s)" by simp
  then have "b = map Some (content s) @ Some NUL # drop (Suc (length (content s))) b"
    using s1(5,6) id_take_nth_drop [of "length (content s)" b] by simp
  then have "c_string b = Some (content s)" using c_string_terminated [OF assms(2)] by metis
  moreover have "sb_len s1 = int (length (content s))" using length_content [OF inv] s1(7) by simp
  ultimately show ?thesis using s1(1,4) by (auto simp: strbuf_free_to_string_def)
qed

text \<open>C21: Exponential sizing of a request that exceeds the allocation: the new size leaves room for
  the terminator, at least doubles the allocation, and is at most the request times the growth factor,
  so the number of reallocations is logarithmic and the waste bounded. It fails only when
  the request times the factor is beyond the range of \<open>int\<close>.\<close>

theorem calculate_new_size_exponential:
  assumes "sb_inv s" "sb_size s \<le> n" "n * (- increment s) \<le> INT_MAX"
  shows "\<exists>k. calculate_new_size s n = Inr k \<and> n < k \<and> 2 * sb_size s \<le> k \<and> k \<le> n * (- increment s)"
proof -
  from assms(1) have i: "0 < sb_size s" "sb_size s \<le> INT_MAX" "increment s \<le> - 2" "INT_MIN < increment s"
    by (auto elim!: sb_invE)
  have "n * 2 \<le> n * (- increment s)" using i assms(2) by (intro mult_left_mono) auto
  then have n: "n < INT_MAX" using assms(2,3) i(1) by linarith
  with calculate_new_size_grow [OF assms(1,2)] assms(3) obtain k where
    k: "calculate_new_size s n = Inr k" "n < k" "2 * sb_size s \<le> k" by fastforce
  moreover have "calculate_new_size s n = grow_exponential (- increment s) (n + 1) (sb_size s)"
    using i n assms(2) by (simp add: calculate_new_size_def)
  ultimately show ?thesis
    using grow_exponential_upper [of "- increment s" "n + 1" "sb_size s" k] i assms(2) by auto
qed

text \<open>Linear sizing rounds the current size, not the requested one, to a multiple of the increment:
  a full buffer whose size is already a multiple never grows.\<close>

lemma calculate_new_size_linear:
  assumes "0 < increment s" "increment s dvd sb_size s" "0 < sb_size s"
    "sb_size s + increment s \<le> INT_MAX" "sb_size s \<le> n" "n < INT_MAX"
  shows "calculate_new_size s n = Inr (sb_size s)"
proof -
  from assms(1-3) obtain q where q: "sb_size s = increment s * q" "0 < q"
    by (metis dvd_def zero_less_mult_pos)
  have "(sb_size s + increment s - 1) div increment s = (increment s - 1 + q * increment s) div increment s"
    using q by (simp add: algebra_simps)
  also have "\<dots> = q + (increment s - 1) div increment s"
    using assms(1) by (intro div_mult_self1) simp
  also have "\<dots> = q" using assms(1) by (simp add: div_pos_pos_trivial)
  finally have "(sb_size s + increment s - 1) div increment s = q" .
  with assms q(1) show ?thesis
    by (simp add: calculate_new_size_def mult.commute)
qed

text \<open>C22: The linear mode of \<open>strbuf_set_increment\<close> is broken: appending to a full buffer whose size is
  a multiple of its positive increment reallocates the same size and then writes outside the allocation,
  although memory is available.\<close>

theorem strbuf_linear_overrun:
  assumes "buf s = Some b" "int (length b) = sb_size s" "sb_len s = sb_size s"
    "0 < increment s" "increment s dvd sb_size s" "0 < sb_size s"
    "sb_size s + increment s < INT_MAX" "0 \<le> reallocs s" "reallocs s < INT_MAX"
    "alloc (sb_size s)"
  shows "strbuf_append_char alloc s c = Inl Out_of_bounds"
proof -
  have "calculate_new_size s (sb_len s + 1) = Inr (sb_size s)"
    using assms by (intro calculate_new_size_linear) auto
  with assms have "strbuf_ensure_empty_length alloc s 1 =
      Inr (s\<lparr>reallocs := reallocs s + 1\<rparr>)"
    by (simp add: strbuf_ensure_empty_length_def strbuf_empty_length_def strbuf_resize_def realloc_buf_def)
  moreover have "nat (sb_size s) = length b" using assms(2) by simp
  ultimately show ?thesis using assms by (simp add: strbuf_append_char_def poke_def)
qed

text \<open>The failing state is reached with the operations of the header: a buffer of four bytes, linear
  growth by four, four characters.\<close>

theorem strbuf_linear_overrun_witness:
  "\<exists>s. rbind (strbuf_init (\<lambda>_. True) 3) (\<lambda>s. rbind (strbuf_set_increment s 4)
      (\<lambda>s. strbuf_append_string (\<lambda>_. True) s ''abcd'')) = Inr s \<and>
    strbuf_append_char (\<lambda>_. True) s CHR ''e'' = Inl Out_of_bounds"
proof -
  let ?s = "\<lparr>buf = Some (map Some ''abcd''), sb_size = 4, sb_len = 4, increment = 4, dynamic = 0,
    reallocs = 1, debug = 0\<rparr>"
  have "rbind (strbuf_init (\<lambda>_. True) 3) (\<lambda>s. rbind (strbuf_set_increment s 4)
      (\<lambda>s. strbuf_append_string (\<lambda>_. True) s ''abcd'')) = Inr ?s"
    by code_simp
  then show ?thesis using strbuf_linear_overrun [of ?s _ "\<lambda>_. True" "CHR ''e''"] by simp
qed

text \<open>The retrying formatter does not test for an error of \<open>vsnprintf\<close>: when it reports one, the
  buffer loses its last character and the call returns normally. (\<open>strbuf_append_fmt\<close> exits instead.)\<close>

theorem strbuf_append_fmt_retry_error:
  assumes "sb_inv s"
  shows "strbuf_append_fmt_retry alloc s None = Inr (s\<lparr>sb_len := sb_len s - 1\<rparr>) \<and>
    (\<forall>n. 0 \<le> n \<and> n \<le> strbuf_empty_length s \<longrightarrow>
      strbuf_append_fmt alloc s n None = Inl (Die ''BUG: Unable to convert number''))"
proof -
  have "0 \<le> strbuf_empty_length s" "c_int (sb_len s - 1) = Inr (sb_len s - 1)"
    using assms by (auto elim!: sb_invE simp: strbuf_empty_length_def c_int_def)
  then show ?thesis
    by (simp add: strbuf_append_fmt_retry_def append_fmt_retry_loop.simps [of alloc s] vsnprintf_def
        strbuf_extend_length_def strbuf_append_fmt_def strbuf_ensure_empty_length_def)
qed


subsection \<open>Concrete buffers\<close>

definition sample :: strbuf_t where
  "sample = \<lparr>buf = Some (map Some ''ab'' @ [None]), sb_size = 3, sb_len = 2, increment = - 2,
     dynamic = 0, reallocs = 0, debug = 0\<rparr>"

lemma sample_inv: "sb_inv sample" "content sample = ''ab''" "NUL \<notin> set (content sample)"
  by (simp_all add: sample_def sb_inv_def content_def)

theorem strbuf_append_string_correct_witness:
  "\<exists>s. strbuf_append_string (\<lambda>_. True) sample ''cd'' = Inr s \<and> sb_inv s \<and> content s = ''abcd''"
  using strbuf_append_string_correct [OF sample_inv(1), of "\<lambda>_. True" "''cd''"] sample_inv(2)
  by (auto simp: grown_def fits_def sample_def split: sum.splits)

theorem strbuf_append_fmt_retry_correct_witness:
  "\<exists>s. strbuf_append_fmt_retry (\<lambda>_. True) sample (Some ''1.25'') = Inr s \<and> content s = ''ab1.25''"
  using strbuf_append_fmt_retry_correct [OF sample_inv(1), of "''1.25''" "\<lambda>_. True"] sample_inv(2)
  by (auto simp: grown_def fits_def sample_def split: sum.splits)

theorem strbuf_init_correct_witness:
  "\<exists>s. strbuf_init (\<lambda>_. True) 7 = Inr s \<and> sb_inv s \<and> content s = [] \<and> 7 \<le> strbuf_empty_length s"
  using strbuf_init_correct [of 7 "\<lambda>_. True"] by auto

theorem strbuf_free_to_string_correct_witness:
  "\<exists>b s. strbuf_free_to_string sample = Inr ((Some b, 2), s) \<and> c_string b = Some ''ab''"
  using strbuf_free_to_string_correct [OF sample_inv(1,3)] sample_inv(2) by simp

theorem calculate_new_size_exponential_witness:
  "\<exists>k. calculate_new_size sample 10 = Inr k \<and> 10 < k \<and> k \<le> 20"
  using calculate_new_size_exponential [OF sample_inv(1), of 10] by (auto simp: sample_def)

theorem strbuf_append_fmt_retry_error_witness:
  "\<exists>s. strbuf_append_fmt_retry (\<lambda>_. True) sample None = Inr s \<and> content s = ''a''"
  using strbuf_append_fmt_retry_error [OF sample_inv(1), of "\<lambda>_. True"]
  by (simp add: sample_def content_def)

end
