(* ===== verification/Gfmt.thy ===== *)
theory Gfmt
  imports Prelude Complex_Main
begin

text \<open>
  Number formatting for the JSON encoder, \<^verbatim>\<open>src/lua/json/g_fmt.c\<close>: \<open>fpconv_g_fmt\<close> lays out
  the decimal digits that \<open>dtoa\<close> computes for a double.

  A double is its mathematical value: not a number, an infinity with its sign, the negative
  zero or a rational number; the bit patterns of IEEE doubles are a subset of these values.
  \<open>dtoa\<close> is a parameter of the model: for a number and a precision it gives the digits, the position
  of the decimal point relative to their start (9999 for an infinity or not a number) and the sign. The buffer
  is written strictly from left to right, so the text is the list of the characters stored
  before the final terminator, and the return value of the C function is its length. An empty digit
  string would make the exponent branch read past its terminator: the result is then \<open>None\<close>.
\<close>


subsection \<open>Doubles\<close>

datatype double = NaN | Inf bool | NegZero | Num rat

type_synonym decimal = "char list \<times> int \<times> bool"

text \<open>The finite value of a double; not a number and the infinities have none.\<close>

fun dval :: "double \<Rightarrow> rat option" where
  "dval (Num q) = Some q"
| "dval NegZero = Some 0"
| "dval _ = None"

definition isnan :: "double \<Rightarrow> bool" where
  "isnan x = (x = NaN)"

definition isinf :: "double \<Rightarrow> bool" where
  "isinf x = (\<exists>b\<in>{True, False}. x = Inf b)"


subsection \<open>Formatting\<close>

text \<open>The scaling loop of the exponent: \<open>for (j = 2, k = 10; 10*k <= decpt; j++, k *= 10)\<close>.\<close>

function exp_scale :: "int \<Rightarrow> int \<Rightarrow> int \<Rightarrow> int \<times> int" where
  "exp_scale j k decpt = (if 0 < k \<and> 10 * k \<le> decpt then exp_scale (j + 1) (k * 10) decpt else (j, k))"
  by pat_completeness auto
termination
  by (relation "measure (\<lambda>(j, k, d). nat (d - k))") auto

text \<open>The digit loop, which ends when \<open>j\<close> has been counted down.\<close>

function exp_digits :: "int \<Rightarrow> int \<Rightarrow> int \<Rightarrow> char list" where
  "exp_digits j k decpt =
     (let i = decpt div k
      in char_of (i + 48) #
         (if j - 1 \<le> 0 then [] else exp_digits (j - 1) k ((decpt - i * k) * 10)))"
  by pat_completeness auto
termination
  by (relation "measure (\<lambda>(j, k, d). nat j)") auto

declare exp_scale.simps [simp del] exp_digits.simps [simp del]

definition g_fmt_exponent :: "int \<Rightarrow> char list" where
  "g_fmt_exponent decpt =
     (let d = decpt - 1; (neg, m) = (if d < 0 then (CHR ''-'', - d) else (CHR ''+'', d));
          (j, k) = exp_scale 2 10 m
      in CHR ''e'' # neg # exp_digits j k m)"

text \<open>The loop of the positional branch: the digits with the point after \<open>decpt\<close> of them when more
  follow, then the missing zeros.\<close>

fun g_fmt_positional :: "char list \<Rightarrow> int \<Rightarrow> char list" where
  "g_fmt_positional [] decpt = replicate (nat decpt) CHR ''0''"
| "g_fmt_positional (c # cs) decpt =
     c # (if decpt - 1 = 0 \<and> cs \<noteq> [] then [CHR ''.''] else []) @ g_fmt_positional cs (decpt - 1)"

definition fpconv_g_fmt :: "decimal \<Rightarrow> int \<Rightarrow> char list option" where
  "fpconv_g_fmt = (\<lambda>(s, decpt, neg) precision.
     let pre = (if neg then [CHR ''-''] else [])
     in if decpt = 9999 then Some (pre @ s)
        else if decpt \<le> - 4 \<or> decpt > precision
        then (case s of [] \<Rightarrow> None
              | c # cs \<Rightarrow> Some (pre @ c # (if cs \<noteq> [] then CHR ''.'' # cs else []) @ g_fmt_exponent decpt))
        else if decpt \<le> 0 then Some (pre @ ''0.'' @ replicate (nat (- decpt)) CHR ''0'' @ s)
        else Some (pre @ g_fmt_positional s decpt))"


subsection \<open>The grammar of JSON numbers and their value\<close>

definition is_digit :: "char \<Rightarrow> bool" where
  "is_digit c \<longleftrightarrow> 48 \<le> (of_char c :: nat) \<and> (of_char c :: nat) \<le> 57"

definition digit_val :: "char \<Rightarrow> nat" where
  "digit_val c = of_char c - 48"

fun digits_val :: "char list \<Rightarrow> nat" where
  "digits_val [] = 0"
| "digits_val (c # cs) = digit_val c * 10 ^ length cs + digits_val cs"

text \<open>An optional exponent, which must be the end of the text.\<close>

definition read_exponent :: "char list \<Rightarrow> int option" where
  "read_exponent cs = (case cs of
       [] \<Rightarrow> Some 0
     | e # cs' \<Rightarrow>
         if e = CHR ''e'' \<or> e = CHR ''E''
         then let (neg, ds) = (case cs' of
                  c # ds' \<Rightarrow> if c = CHR ''-'' then (True, ds') else if c = CHR ''+'' then (False, ds') else (False, cs')
                | [] \<Rightarrow> (False, []))
              in if ds \<noteq> [] \<and> list_all is_digit ds
                 then Some (if neg then - int (digits_val ds) else int (digits_val ds)) else None
         else None)"

text \<open>The number grammar of RFC 8259 with the value of its sentences: an integer part without
  superfluous zeros, an optional fraction and an optional exponent.\<close>

definition json_number :: "char list \<Rightarrow> rat option" where
  "json_number txt =
     (let (neg, t) = (case txt of c # cs \<Rightarrow> if c = CHR ''-'' then (True, cs) else (False, txt) | [] \<Rightarrow> (False, txt));
          ip = takeWhile is_digit t; r = dropWhile is_digit t
      in if ip = [] \<or> (hd ip = CHR ''0'' \<and> length ip > 1) then None
         else let (fp, r') = (case r of
                    c # cs \<Rightarrow> if c = CHR ''.'' then (Some (takeWhile is_digit cs), dropWhile is_digit cs) else (None, r)
                  | [] \<Rightarrow> (None, r))
              in if fp = Some [] then None
                 else let f = (case fp of None \<Rightarrow> [] | Some f \<Rightarrow> f)
                      in map_option (\<lambda>e. (if neg then -1 else 1) * of_nat (digits_val (ip @ f)) *
                           power_int 10 (e - int (length f))) (read_exponent r'))"


subsection \<open>Digits\<close>

lemma digits_val_append: "digits_val (xs @ ys) = digits_val xs * 10 ^ length ys + digits_val ys"
  by (induction xs) (auto simp: power_add algebra_simps)

lemma digits_val_zeros [simp]: "digits_val (replicate n CHR ''0'') = 0"
  by (induction n) (auto simp: digit_val_def)

lemma is_digit_simps [simp]:
  "is_digit CHR ''0''" "\<not> is_digit CHR ''.''" "\<not> is_digit CHR ''e''" "\<not> is_digit CHR ''-''"
  "\<not> is_digit CHR ''+''"
  by (simp_all add: is_digit_def)

lemma digit_char:
  assumes "0 \<le> i" "i < 10"
  shows "is_digit (char_of (i + 48 :: int))" "int (digit_val (char_of (i + 48 :: int))) = i"
proof -
  have "(of_char (char_of (i + 48 :: int)) :: int) = i + 48"
    using assms by (simp add: of_char_of)
  then have "(of_char (char_of (i + 48 :: int)) :: nat) = nat (i + 48)"
    by (metis nat_int of_nat_of_char)
  then show "is_digit (char_of (i + 48 :: int))" "int (digit_val (char_of (i + 48 :: int))) = i"
    using assms by (auto simp: is_digit_def digit_val_def)
qed

lemma int_div_less:
  assumes "0 < k" "m < n * k"
  shows "m div k < (n::int)"
proof (rule ccontr)
  assume "\<not> m div k < n"
  then have "n * k \<le> m div k * k" using assms(1) by (intro mult_right_mono) auto
  moreover have "m div k * k + m mod k = m" "0 \<le> m mod k" using assms(1) by simp_all
  ultimately show False using assms(2) by linarith
qed

lemma exp_scale_spec:
  assumes "exp_scale j k m = (j', k')" "2 \<le> j" "k = 10 ^ nat (j - 1)" "0 \<le> m"
  shows "j \<le> j' \<and> k' = 10 ^ nat (j' - 1) \<and> m < 10 * k'"
  using assms
proof (induction j k m rule: exp_scale.induct)
  case (1 j k m)
  have k0: "0 < k" using 1(4) by simp
  have "nat (j + 1 - 1) = Suc (nat (j - 1))" using 1(3) by simp
  then have "k * 10 = 10 ^ nat (j + 1 - 1)" using 1(4) by simp
  note next_k = this
  show ?case
  proof (cases "10 * k \<le> m")
    case True
    with 1(2) k0 have "exp_scale (j + 1) (k * 10) m = (j', k')" by (simp add: exp_scale.simps [of j k m])
    with 1(1) True k0 next_k 1(3,5) have "j + 1 \<le> j' \<and> k' = 10 ^ nat (j' - 1) \<and> m < 10 * k'" by simp
    then show ?thesis by auto
  next
    case False
    with 1(2) have "j = j'" "k = k'" by (simp_all add: exp_scale.simps [of j k m])
    with False 1(4) show ?thesis by simp
  qed
qed

lemma exp_digits_spec:
  assumes "0 \<le> m" "m < 10 * k" "0 < k" "j = int (Suc J)"
  shows "length (exp_digits j k m) = Suc J \<and> list_all is_digit (exp_digits j k m) \<and>
    int (digits_val (exp_digits j k m)) = m * 10 ^ J div k"
  using assms
proof (induction J arbitrary: j m)
  case 0
  have "0 \<le> m div k" "m div k < 10" using 0 by (simp_all add: pos_imp_zdiv_nonneg_iff int_div_less)
  with 0 digit_char [of "m div k"] show ?case by (simp add: exp_digits.simps [of _ k m])
next
  case (Suc J)
  define r where "r = m mod k"
  have r: "0 \<le> r * 10" "r * 10 < 10 * k" using Suc.prems(3) by (auto simp: r_def)
  have m: "m = m div k * k + r" by (simp add: r_def)
  have i: "0 \<le> m div k" "m div k < 10"
    using Suc.prems by (simp_all add: pos_imp_zdiv_nonneg_iff int_div_less)
  have "j - 1 = int (Suc J)" using Suc.prems(4) by simp
  note IH = Suc.IH [OF r Suc.prems(3) this]
  have "m * 10 ^ Suc J = (m div k * 10 ^ Suc J) * k + r * 10 * 10 ^ J"
    by (subst m) (simp add: algebra_simps)
  then have "m * 10 ^ Suc J div k = m div k * 10 ^ Suc J + r * 10 * 10 ^ J div k"
    using Suc.prems(3) by simp
  moreover have "m - m div k * k = r" using m by linarith
  moreover have "exp_digits j k m = char_of (m div k + 48) # exp_digits (j - 1) k (r * 10)"
    using calculation(2) Suc.prems(4) 
    by (subst exp_digits.simps) (simp add: Let_def del: left_diff_distrib_numeral)
  ultimately show ?case using IH digit_char [OF i] by simp
qed

lemma g_fmt_exponent_spec:
  "read_exponent (g_fmt_exponent decpt) = Some (decpt - 1) \<and>
   (\<exists>neg ds. g_fmt_exponent decpt = CHR ''e'' # neg # ds)"
proof -
  define d where "d = decpt - 1"
  define m where "m = \<bar>d\<bar>"
  obtain j k where jk: "exp_scale 2 10 m = (j, k)" by (cases "exp_scale 2 10 m")
  from exp_scale_spec [OF jk] have s: "2 \<le> j" "k = 10 ^ nat (j - 1)" "m < 10 * k" by (simp_all add: m_def)
  define J where "J = nat (j - 1)"
  have J: "j = int (Suc J)" "k = 10 ^ J" using s by (simp_all add: J_def)
  have "length (exp_digits j k m) = Suc J" "list_all is_digit (exp_digits j k m)"
    "int (digits_val (exp_digits j k m)) = m"
    using exp_digits_spec [of m k j J] s J by (simp_all add: m_def)
  moreover have "g_fmt_exponent decpt =
      CHR ''e'' # (if d < 0 then CHR ''-'' else CHR ''+'') # exp_digits j k m"
    using jk by (simp add: g_fmt_exponent_def Let_def m_def d_def abs_if split: if_splits)
  moreover have "m = (if d < 0 then - d else d)" by (simp add: m_def)
  ultimately have "read_exponent (g_fmt_exponent decpt) = Some d"
    by (cases "exp_digits j k m") (auto simp: read_exponent_def)
  then show ?thesis using \<open>g_fmt_exponent decpt = _\<close> by (simp add: d_def)
qed


subsection \<open>Layouts\<close>

lemma takeWhile_digits:
  assumes "list_all is_digit xs" "ys = [] \<or> \<not> is_digit (hd ys)"
  shows "takeWhile is_digit (xs @ ys) = xs" "dropWhile is_digit (xs @ ys) = ys"
proof -
  have "takeWhile is_digit ys = []" "dropWhile is_digit ys = ys" using assms(2) by (cases ys; auto)+
  with assms(1) show "takeWhile is_digit (xs @ ys) = xs" "dropWhile is_digit (xs @ ys) = ys"
    by (induction xs) auto
qed

text \<open>The value of a text with integer digits \<open>ip\<close>, fraction digits \<open>f\<close> and a rest that is empty
  or an exponent.\<close>

lemma json_number_layout:
  assumes ip: "list_all is_digit ip" "ip \<noteq> []" "hd ip \<noteq> CHR ''0'' \<or> length ip = 1"
    and f: "list_all is_digit f"
    and r: "r = [] \<or> hd r = CHR ''e''" "read_exponent r = Some e"
  shows "json_number ((if neg then [CHR ''-''] else []) @ ip @ (if f = [] then [] else CHR ''.'' # f) @ r) =
    Some ((if neg then -1 else 1) * of_nat (digits_val (ip @ f)) * power_int 10 (e - int (length f)))"
proof -
  have nd: "r = [] \<or> \<not> is_digit (hd r)" using r(1) by auto
  have hip: "hd ip \<noteq> CHR ''-''" using ip(1,2) by (cases ip) auto
  let ?fr = "(if f = [] then [] else CHR ''.'' # f) @ r"
  have nd': "?fr = [] \<or> \<not> is_digit (hd ?fr)" using nd by auto
  have tw: "takeWhile is_digit (ip @ ?fr) = ip" "dropWhile is_digit (ip @ ?fr) = ?fr"
    using takeWhile_digits [OF ip(1) nd'] by auto
  have sg: "(case (if neg then [CHR ''-''] else []) @ ip @ ?fr of
      c # cs \<Rightarrow> if c = CHR ''-'' then (True, cs) else (False, (if neg then [CHR ''-''] else []) @ ip @ ?fr)
      | [] \<Rightarrow> (False, (if neg then [CHR ''-''] else []) @ ip @ ?fr)) = (neg, ip @ ?fr)"
    using ip(2) hip by (cases ip) auto
  have fr: "(case ?fr of
      c # cs \<Rightarrow> if c = CHR ''.'' then (Some (takeWhile is_digit cs), dropWhile is_digit cs) else (None, ?fr)
      | [] \<Rightarrow> (None, ?fr)) = (if f = [] then None else Some f, r)"
    using takeWhile_digits [OF f nd] r(1) by (cases r) auto
  show ?thesis
    unfolding json_number_def sg Let_def prod.case tw fr
    using ip r(2) by auto
qed

lemma g_fmt_positional_layout:
  "0 < d \<Longrightarrow> g_fmt_positional s d =
     take (nat d) s @ (if int (length s) > d then CHR ''.'' # drop (nat d) s
       else replicate (nat d - length s) CHR ''0'')"
proof (induction s arbitrary: d)
  case (Cons c cs)
  have nodot: "g_fmt_positional xs e = xs" if "e \<le> 0" for xs e
    using that by (induction xs e rule: g_fmt_positional.induct) auto
  show ?case
  proof (cases "d = 1")
    case True
    then show ?thesis by (auto simp: nodot)
  next
    case False
    with Cons.prems have d: "nat d = Suc (nat (d - 1))" "0 < d - 1" by auto
    then show ?thesis using Cons.IH [OF d(2)] False by (simp add: d(1))
  qed
qed simp

text \<open>What \<open>dtoa\<close> documents of the digits of a finite number.\<close>

definition decimal_ok :: "decimal \<Rightarrow> bool" where
  "decimal_ok = (\<lambda>(s, decpt, neg). s \<noteq> [] \<and> list_all is_digit s \<and> decpt \<noteq> 9999 \<and>
     (hd s \<noteq> CHR ''0'' \<or> s = ''0'' \<and> decpt = 1))"

text \<open>The number that the digits denote: \<open>0.s\<close> scaled by a power of ten.\<close>

definition decimal_val :: "decimal \<Rightarrow> rat" where
  "decimal_val = (\<lambda>(s, decpt, neg).
     (if neg then -1 else 1) * of_nat (digits_val s) * power_int 10 (decpt - int (length s)))"

lemma g_fmt_json_number:
  assumes ok: "decimal_ok d" and p: "1 \<le> precision"
  shows "\<exists>txt. fpconv_g_fmt d precision = Some txt \<and> json_number txt = Some (decimal_val d)"
proof -
  obtain s decpt neg where d: "d = (s, decpt, neg)" by (cases d) auto
  from ok have s: "s \<noteq> []" "list_all is_digit s" "decpt \<noteq> 9999"
    "hd s \<noteq> CHR ''0'' \<or> s = ''0'' \<and> decpt = 1" by (auto simp: d decimal_ok_def)
  then obtain c cs where c: "s = c # cs" by (cases s) auto
  let ?pre = "if neg then [CHR ''-''] else []"
  have r0: "read_exponent [] = Some 0" by (simp add: read_exponent_def)
  consider (exponent) "decpt \<le> - 4 \<or> decpt > precision" | (zeros) "- 4 < decpt" "decpt \<le> 0"
    | (positional) "0 < decpt" "decpt \<le> precision" by linarith
  then show ?thesis
  proof cases
    case exponent
    obtain sg ds where e: "g_fmt_exponent decpt = CHR ''e'' # sg # ds"
      "read_exponent (g_fmt_exponent decpt) = Some (decpt - 1)"
      using g_fmt_exponent_spec [of decpt] by auto
    have "json_number (?pre @ [c] @ (if cs = [] then [] else CHR ''.'' # cs) @ g_fmt_exponent decpt) =
        Some (decimal_val d)"
      using json_number_layout [of "[c]" cs "g_fmt_exponent decpt" "decpt - 1" neg] s c e
      by (simp add: d decimal_val_def algebra_simps)
    moreover have "fpconv_g_fmt d precision =
        Some (?pre @ [c] @ (if cs = [] then [] else CHR ''.'' # cs) @ g_fmt_exponent decpt)"
      using exponent s(3) by (simp add: fpconv_g_fmt_def d c)
    ultimately show ?thesis by blast
  next
    case zeros
    let ?f = "replicate (nat (- decpt)) CHR ''0'' @ s"
    have fd: "list_all is_digit ?f" using s(2) by (auto simp: list_all_iff)
    have "json_number (?pre @ ''0'' @ (if ?f = [] then [] else CHR ''.'' # ?f) @ []) =
        Some (decimal_val d)"
      using json_number_layout [of "''0''" ?f "[]" 0 neg] s(1) fd r0 zeros
      by (simp add: d decimal_val_def digits_val_append digit_val_def del: list_all_append)
    then show ?thesis using zeros s(1,3) p by (simp add: fpconv_g_fmt_def d)
  next
    case positional
    define n where "n = nat decpt"
    have n: "0 < n" "decpt = int n" using positional by (simp_all add: n_def)
    have fmt: "fpconv_g_fmt d precision = Some (?pre @ g_fmt_positional s decpt)"
      using positional s(3) by (simp add: fpconv_g_fmt_def d)
    show ?thesis
    proof (cases "n < length s")
      case True
      then have "s \<noteq> ''0''" using n by auto
      then have "hd (take n s) \<noteq> CHR ''0''" using s c n by (cases n) auto
      moreover have digs: "list_all is_digit (take n s)" "list_all is_digit (drop n s)"
        using s(2) by (auto simp: list_all_iff dest: in_set_takeD in_set_dropD)
      ultimately have "json_number (?pre @ take n s @ (if drop n s = [] then [] else CHR ''.'' # drop n s) @ []) =
          Some (decimal_val d)"
        using json_number_layout [of "take n s" "drop n s" "[]" 0 neg] digs s(1) r0 True n
        by (auto simp: d decimal_val_def)
      then show ?thesis
        using fmt True n by (simp add: g_fmt_positional_layout)
    next
      case False
      let ?ip = "s @ replicate (n - length s) CHR ''0''"
      have "hd ?ip \<noteq> CHR ''0'' \<or> length ?ip = 1" using s(4) n c by auto
      moreover have ipd: "list_all is_digit ?ip" using s(2) by (auto simp: list_all_iff)
      ultimately have "json_number (?pre @ ?ip @ (if [] = ([]::char list) then [] else CHR ''.'' # []) @ []) =
          Some (decimal_val d)"
        using json_number_layout [of ?ip "[]" "[]" 0 neg] ipd s(1) r0 False n
        by (auto simp: d decimal_val_def digits_val_append power_int_def nat_diff_distrib'
            simp del: list_all_append)
      then show ?thesis using fmt False n by (simp add: g_fmt_positional_layout)
    qed
  qed
qed

text \<open>C23: For the digits of a finite number, in every layout (exponent, leading zeros, positional with
  inserted point or appended zeros), the formatter produces a sentence of the JSON number grammar whose value is
  exactly the decimal number that the digits denote.\<close>

theorem fpconv_g_fmt_value:
  assumes "decimal_ok d" "1 \<le> precision"
  shows "\<exists>txt. fpconv_g_fmt d precision = Some txt \<and> json_number txt = Some (decimal_val d)"
  by (rule g_fmt_json_number [OF assms])

theorem fpconv_g_fmt_value_witness:
  "\<exists>txt. fpconv_g_fmt (''12345'', 3, True) 14 = Some txt \<and> txt = ''-123.45'' \<and>
     json_number txt = Some (- 12345 / 100)"
proof -
  have "decimal_ok (''12345'', 3, True)" by code_simp
  note v = fpconv_g_fmt_value [OF this, of 14]
  have "digits_val ''12345'' = 12345" by code_simp
  then have "decimal_val (''12345'', 3, True) = - 12345 / 100"
    by (simp add: decimal_val_def power_int_minus del: digits_val.simps)
  moreover have "fpconv_g_fmt (''12345'', 3, True) 14 = Some ''-123.45''"
    by (simp add: fpconv_g_fmt_def g_fmt_positional_layout)
  ultimately show ?thesis using v by simp
qed


text \<open>The shape of a sentence of the grammar, as far as a scanner needs it.\<close>

lemma digits_no_NUL: "list_all is_digit ds \<Longrightarrow> NUL \<notin> set ds"
  by (auto simp: list_all_iff is_digit_def)

lemma read_exponent_no_NUL: "read_exponent r = Some e \<Longrightarrow> NUL \<notin> set r"
proof -
  have "\<not> is_digit NUL" by (simp add: is_digit_def)
  then show "read_exponent r = Some e \<Longrightarrow> NUL \<notin> set r"
    by (auto simp: read_exponent_def Let_def list_all_iff split: list.splits if_splits)
qed

lemma json_number_shape:
  assumes "json_number t = Some q"
  obtains pre ip r where "t = pre @ ip @ r" "pre = [] \<or> pre = ''-''" "ip \<noteq> []" "list_all is_digit ip"
    "hd ip \<noteq> CHR ''0'' \<or> length ip = 1" "r = [] \<or> hd r \<in> set ''.eE''" "NUL \<notin> set t"
proof -
  obtain pre u where u: "t = pre @ u" "pre = [] \<or> pre = ''-''"
    "(case t of c # cs \<Rightarrow> if c = CHR ''-'' then (True, cs) else (False, t) | [] \<Rightarrow> (False, t)) = (pre \<noteq> [], u)"
  proof (cases "t \<noteq> [] \<and> hd t = CHR ''-''")
    case True
    with that [of "''-''" "tl t"] show ?thesis by (cases t) auto
  next
    case False
    with that [of "[]" t] show ?thesis by (cases t) auto
  qed
  let ?ip = "takeWhile is_digit u" and ?r = "dropWhile is_digit u"
  have ip0: "?ip \<noteq> []" "hd ?ip \<noteq> CHR ''0'' \<or> \<not> 1 < length ?ip"
    using assms by (auto simp: json_number_def u(3) Let_def split: if_splits)
  then have ip: "?ip \<noteq> []" "hd ?ip \<noteq> CHR ''0'' \<or> length ?ip = 1" by (cases ?ip; auto)+
  have digits: "list_all is_digit (takeWhile is_digit x)" for x by (auto simp: list_all_iff dest: set_takeWhileD)
  have r: "(?r = [] \<or> hd ?r \<in> set ''.eE'') \<and> NUL \<notin> set ?r"
  proof (cases ?r)
    case (Cons c cs)
    show ?thesis
    proof (cases "c = CHR ''.''")
      case True
      have "read_exponent (dropWhile is_digit cs) \<noteq> None"
        using assms Cons True ip by (auto simp: json_number_def u(3) Let_def split: if_splits)
      then have "NUL \<notin> set (dropWhile is_digit cs)" using read_exponent_no_NUL by blast
      moreover have "NUL \<notin> set (takeWhile is_digit cs)" by (rule digits_no_NUL [OF digits])
      ultimately have "NUL \<notin> set cs" by (metis Un_iff set_append takeWhile_dropWhile_id)
      with Cons True show ?thesis by simp
    next
      case False
      have "read_exponent ?r \<noteq> None"
        using assms Cons False ip by (auto simp: json_number_def u(3) Let_def split: if_splits)
      then obtain e where e: "read_exponent ?r = Some e" by blast
      from read_exponent_no_NUL [OF this] e Cons show ?thesis by (auto simp: read_exponent_def split: if_splits)
    qed
  next
    case Nil
    then show ?thesis by (simp only:) simp
  qed
  have "NUL \<notin> set (?ip @ ?r)" using r digits_no_NUL [OF digits, of u] by (simp only: set_append Un_iff) blast
  then have "NUL \<notin> set u" unfolding takeWhile_dropWhile_id .
  then have "NUL \<notin> set t" using u(1,2) by auto
  moreover have "t = pre @ ?ip @ ?r" using u(1) by simp
  ultimately show ?thesis using that [of pre ?ip ?r] u(2) ip r digits by blast
qed


subsection \<open>The length of the text\<close>

text \<open>The sizes that \<open>dtoa\<close> documents for a request of at most fourteen digits: the word for an infinity or not a
  number, or the digits of a double with the decimal exponent range of the format.\<close>

definition decimal_small :: "decimal \<Rightarrow> bool" where
  "decimal_small = (\<lambda>(s, decpt, neg). s \<noteq> [] \<and>
     (if decpt = 9999 then length s \<le> 8 else length s \<le> 14 \<and> - 999 \<le> decpt \<and> decpt \<le> 999))"

lemma exp_scale_small: "0 \<le> m \<Longrightarrow> m \<le> 1000 \<Longrightarrow> fst (exp_scale 2 10 m) \<le> 4 \<and> 2 \<le> fst (exp_scale 2 10 m) \<and>
    0 < snd (exp_scale 2 10 m)"
  by (simp add: exp_scale.simps [of 2 10] exp_scale.simps [of 3 100] exp_scale.simps [of 4 1000])

lemma length_exp_digits: "length (exp_digits j k m) = (if j \<le> 1 then 1 else nat j)"
  by (induction j k m rule: exp_digits.induct) (subst exp_digits.simps, auto simp: Let_def)

lemma g_fmt_exponent_length: "- 999 \<le> decpt \<Longrightarrow> decpt \<le> 999 \<Longrightarrow> length (g_fmt_exponent decpt) \<le> 6"
  using exp_scale_small [of "\<bar>decpt - 1\<bar>"]
  by (auto simp: g_fmt_exponent_def Let_def length_exp_digits abs_if split: prod.splits if_splits)

lemma g_fmt_bounded:
  assumes "decimal_small d" "1 \<le> precision" "precision \<le> 14"
  shows "\<exists>txt. fpconv_g_fmt d precision = Some txt \<and> length txt + 1 \<le> 32"
proof -
  obtain s decpt neg where d: "d = (s, decpt, neg)" by (cases d) auto
  show ?thesis
  proof (cases "decpt = 9999")
    case True
    with assms show ?thesis by (simp add: d fpconv_g_fmt_def decimal_small_def)
  next
    case False
    with assms(1) obtain c cs where s: "s = c # cs" "length s \<le> 14" "- 999 \<le> decpt" "decpt \<le> 999"
      by (cases s) (auto simp: d decimal_small_def)
    consider "decpt \<le> - 4 \<or> decpt > precision" | "- 4 < decpt" "decpt \<le> 0" | "0 < decpt" "decpt \<le> precision"
      by linarith
    then show ?thesis
    proof cases
      case 1
      with False s g_fmt_exponent_length [OF s(3,4)] show ?thesis by (auto simp: d fpconv_g_fmt_def)
    next
      case 2
      with False s assms(2) show ?thesis by (auto simp: d fpconv_g_fmt_def)
    next
      case 3
      then have "length (g_fmt_positional s decpt) \<le> 15"
        using s assms(3) by (subst g_fmt_positional_layout) auto
      with 3 False show ?thesis by (auto simp: d fpconv_g_fmt_def)
    qed
  qed
qed

text \<open>Every number that the encoder formats, at every configurable precision, fits the thirty-two bytes
  reserved for it (\<open>FPCONV_G_FMT_BUFSIZE\<close>) including the terminator.\<close>

theorem fpconv_g_fmt_fits:
  assumes "decimal_small d" "1 \<le> precision" "precision \<le> 14"
  shows "\<exists>txt. fpconv_g_fmt d precision = Some txt \<and> length txt + 1 \<le> 32"
  by (rule g_fmt_bounded [OF assms])

theorem fpconv_g_fmt_fits_witness:
  "\<exists>txt. fpconv_g_fmt (''17976931348623'', 309, True) 14 = Some txt \<and> length txt + 1 \<le> 32"
  by (rule fpconv_g_fmt_fits) (simp_all add: decimal_small_def)

end
