(* ===== verification/Json_Base.thy ===== *)
theory Json_Base
  imports Strbuf Gfmt
begin

text \<open>
  Data of the JSON codec, \<^verbatim>\<open>src/lua/json/json.h\<close> and the first part of \<^verbatim>\<open>src/lua/json/json.c\<close>: Lua
  values, tokens, the configuration with its lookup tables, and the functions that change the
  configuration.

  A Lua value is a datatype. A table is the list of its pairs in the order in which \<open>lua_next\<close> delivers
  them, without nil values. A light userdata is only ever compared with the null
  pointer, so it carries that bit; functions, full userdata and threads carry the name of their type.

  What the code takes from its environment is the record \<open>json_env\<close>: the allocator, the answer of
  \<open>lua_checkstack\<close> at a nesting depth, \<open>dtoa\<close> in mode 2 with a number of digits, \<open>strtod\<close> (value and number
  of characters read) and Lua's conversions to integers and of numbers to strings.

  A Lua error is a long jump out of the C functions that keeps what was written to the configuration, so the
  errors of encoding carry the buffer at the time of the error, and the configuration functions return the
  configuration beside their result.
\<close>


subsection \<open>Lua values\<close>

datatype lua =
    LNil
  | LBool bool
  | LNum double
  | LStr "char list"
  | LTable "(lua \<times> lua) list"
  | LLight bool
  | LOther "char list"

fun lua_typename :: "lua \<Rightarrow> char list" where
  "lua_typename LNil = ''nil''"
| "lua_typename (LBool _) = ''boolean''"
| "lua_typename (LNum _) = ''number''"
| "lua_typename (LStr _) = ''string''"
| "lua_typename (LTable _) = ''table''"
| "lua_typename (LLight _) = ''userdata''"
| "lua_typename (LOther t) = t"

record json_env =
  alloc :: "int \<Rightarrow> bool"
  checkstack :: "int \<Rightarrow> bool"
  dtoa :: "double \<Rightarrow> int \<Rightarrow> decimal"
  strtod :: "char list \<Rightarrow> double \<times> nat"
  tointeger :: "lua \<Rightarrow> int option"
  num2str :: "double \<Rightarrow> char list"

datatype json_fault =
    Sb sb_fault
  | Cannot_serialise "char list" "char list"
  | Excessive_nesting int
  | Bad_argument int "char list"
  | Parse_error "char list" "char list" int
  | Too_many_nested int nat
  | Unsupported_encoding
  | Out_of_fuel


subsection \<open>Tokens and tables\<close>

datatype json_token_type_t =
    T_OBJ_BEGIN | T_OBJ_END | T_ARR_BEGIN | T_ARR_END | T_STRING | T_NUMBER | T_BOOLEAN | T_NULL
  | T_COLON | T_COMMA | T_END | T_WHITESPACE | T_ERROR | T_UNKNOWN

fun json_token_type_name :: "json_token_type_t \<Rightarrow> char list" where
  "json_token_type_name T_OBJ_BEGIN = ''T_OBJ_BEGIN''"
| "json_token_type_name T_OBJ_END = ''T_OBJ_END''"
| "json_token_type_name T_ARR_BEGIN = ''T_ARR_BEGIN''"
| "json_token_type_name T_ARR_END = ''T_ARR_END''"
| "json_token_type_name T_STRING = ''T_STRING''"
| "json_token_type_name T_NUMBER = ''T_NUMBER''"
| "json_token_type_name T_BOOLEAN = ''T_BOOLEAN''"
| "json_token_type_name T_NULL = ''T_NULL''"
| "json_token_type_name T_COLON = ''T_COLON''"
| "json_token_type_name T_COMMA = ''T_COMMA''"
| "json_token_type_name T_END = ''T_END''"
| "json_token_type_name T_WHITESPACE = ''T_WHITESPACE''"
| "json_token_type_name T_ERROR = ''T_ERROR''"
| "json_token_type_name T_UNKNOWN = ''T_UNKNOWN''"

definition char2escape_table :: "char list option list" where
  "char2escape_table =
   [Some (CHR 0x5C # ''u0000''), Some (CHR 0x5C # ''u0001''), Some (CHR 0x5C # ''u0002''), Some (CHR 0x5C # ''u0003''),
    Some (CHR 0x5C # ''u0004''), Some (CHR 0x5C # ''u0005''), Some (CHR 0x5C # ''u0006''), Some (CHR 0x5C # ''u0007''),
    Some (CHR 0x5C # ''b''), Some (CHR 0x5C # ''t''), Some (CHR 0x5C # ''n''), Some (CHR 0x5C # ''u000b''),
    Some (CHR 0x5C # ''f''), Some (CHR 0x5C # ''r''), Some (CHR 0x5C # ''u000e''), Some (CHR 0x5C # ''u000f''),
    Some (CHR 0x5C # ''u0010''), Some (CHR 0x5C # ''u0011''), Some (CHR 0x5C # ''u0012''), Some (CHR 0x5C # ''u0013''),
    Some (CHR 0x5C # ''u0014''), Some (CHR 0x5C # ''u0015''), Some (CHR 0x5C # ''u0016''), Some (CHR 0x5C # ''u0017''),
    Some (CHR 0x5C # ''u0018''), Some (CHR 0x5C # ''u0019''), Some (CHR 0x5C # ''u001a''), Some (CHR 0x5C # ''u001b''),
    Some (CHR 0x5C # ''u001c''), Some (CHR 0x5C # ''u001d''), Some (CHR 0x5C # ''u001e''), Some (CHR 0x5C # ''u001f''),
    None, None, Some [CHR 0x5C, CHR 0x22], None, None, None, None, None,
    None, None, None, None, None, None, None, Some (CHR 0x5C # ''/''),
    None, None, None, None, None, None, None, None,
    None, None, None, None, None, None, None, None,
    None, None, None, None, None, None, None, None,
    None, None, None, None, None, None, None, None,
    None, None, None, None, None, None, None, None,
    None, None, None, None, Some [CHR 0x5C, CHR 0x5C], None, None, None,
    None, None, None, None, None, None, None, None,
    None, None, None, None, None, None, None, None,
    None, None, None, None, None, None, None, None,
    None, None, None, None, None, None, None, Some (CHR 0x5C # ''u007f''),
    None, None, None, None, None, None, None, None,
    None, None, None, None, None, None, None, None,
    None, None, None, None, None, None, None, None,
    None, None, None, None, None, None, None, None,
    None, None, None, None, None, None, None, None,
    None, None, None, None, None, None, None, None,
    None, None, None, None, None, None, None, None,
    None, None, None, None, None, None, None, None,
    None, None, None, None, None, None, None, None,
    None, None, None, None, None, None, None, None,
    None, None, None, None, None, None, None, None,
    None, None, None, None, None, None, None, None,
    None, None, None, None, None, None, None, None,
    None, None, None, None, None, None, None, None,
    None, None, None, None, None, None, None, None,
    None, None, None, None, None, None, None, None]"

definition char2escape :: "char \<Rightarrow> char list option" where
  "char2escape c = char2escape_table ! of_char c"


subsection \<open>Configuration\<close>

record json_config_t =
  ch2token :: "json_token_type_t list"
  escape2char :: "char list"
  encode_buf :: strbuf_t
  encode_sparse_convert :: int
  encode_sparse_ratio :: int
  encode_sparse_safe :: int
  encode_max_depth :: int
  encode_invalid_numbers :: int
  encode_number_precision :: int
  encode_keep_buffer :: int
  decode_invalid_numbers :: int
  decode_max_depth :: int

text \<open>Assignments to a table, indexed by characters.\<close>

definition set_chars :: "'a list \<Rightarrow> (char \<times> 'a) list \<Rightarrow> 'a list" where
  "set_chars t ups = foldl (\<lambda>t (c, x). t[of_char c := x]) t ups"

definition ch2token_init :: "json_token_type_t list" where
  "ch2token_init =
     set_chars (replicate 256 T_ERROR)
      ([(CHR ''{'', T_OBJ_BEGIN), (CHR ''}'', T_OBJ_END), (CHR ''['', T_ARR_BEGIN), (CHR '']'', T_ARR_END),
        (CHR '','', T_COMMA), (CHR '':'', T_COLON), (NUL, T_END),
        (CHR '' '', T_WHITESPACE), (CHR 0x09, T_WHITESPACE), (CHR 0x0A, T_WHITESPACE), (CHR 0x0D, T_WHITESPACE),
        (CHR ''f'', T_UNKNOWN), (CHR ''i'', T_UNKNOWN), (CHR ''I'', T_UNKNOWN), (CHR ''n'', T_UNKNOWN),
        (CHR ''N'', T_UNKNOWN), (CHR ''t'', T_UNKNOWN), (CHR 0x22, T_UNKNOWN), (CHR ''+'', T_UNKNOWN),
        (CHR ''-'', T_UNKNOWN)] @ map (\<lambda>c. (c, T_UNKNOWN)) ''0123456789'')"

definition escape2char_init :: "char list" where
  "escape2char_init =
     set_chars (replicate 256 NUL)
      [(CHR 0x22, CHR 0x22), (CHR 0x5C, CHR 0x5C), (CHR ''/'', CHR ''/''), (CHR ''b'', CHR 0x08),
       (CHR ''t'', CHR 0x09), (CHR ''n'', CHR 0x0A), (CHR ''f'', CHR 0x0C), (CHR ''r'', CHR 0x0D),
       (CHR ''u'', CHR ''u'')]"

definition default_config :: "strbuf_t \<Rightarrow> json_config_t" where
  "default_config b =
     \<lparr>ch2token = ch2token_init, escape2char = escape2char_init, encode_buf = b,
      encode_sparse_convert = 0, encode_sparse_ratio = 2, encode_sparse_safe = 10,
      encode_max_depth = 1000, encode_invalid_numbers = 0, encode_number_precision = 14,
      encode_keep_buffer = 1, decode_invalid_numbers = 1, decode_max_depth = 1000\<rparr>"

text \<open>The process-wide configuration is created on the first call. The result of its \<open>malloc\<close>, of
  \<open>sizeof(json_config_t)\<close> bytes, is not tested: a refusal is a write through the null pointer.\<close>

definition json_fetch_config ::
  "json_env \<Rightarrow> json_config_t option \<Rightarrow> sb_fault + json_config_t" where
  "json_fetch_config env cfg = (case cfg of
       Some c \<Rightarrow> Inr c
     | None \<Rightarrow>
         if \<not> alloc env 1352 then Inl Out_of_bounds
         else rbind (strbuf_init (alloc env) 0) (\<lambda>b. Inr (default_config b)))"

text \<open>The per-module copy, in a Lua userdata.\<close>

definition json_create_config :: "json_env \<Rightarrow> sb_fault + json_config_t" where
  "json_create_config env = rbind (strbuf_init (alloc env) 0) (\<lambda>b. Inr (default_config b))"

text \<open>The finaliser of that userdata.\<close>

definition json_destroy_config :: "json_config_t option \<Rightarrow> json_config_t option" where
  "json_destroy_config cfg = (case cfg of
       None \<Rightarrow> None
     | Some c \<Rightarrow> Some (case strbuf_free (encode_buf c) of Some b \<Rightarrow> c\<lparr>encode_buf := b\<rparr> | None \<Rightarrow> c))"


subsection \<open>Configuration functions\<close>

text \<open>The arguments padded with nil.\<close>

definition json_arg_init :: "lua list \<Rightarrow> nat \<Rightarrow> json_fault + lua list" where
  "json_arg_init args n =
     (if length args \<le> n then Inr (args @ replicate (n - length args) LNil)
      else Inl (Bad_argument (int n + 1) ''found too many arguments''))"

text \<open>An integer option: the new setting, or an error that leaves it. The value given by Lua is truncated
  to an \<open>int\<close>.\<close>

definition json_integer_option ::
  "json_env \<Rightarrow> lua \<Rightarrow> int \<Rightarrow> int \<Rightarrow> int \<Rightarrow> int \<Rightarrow> json_fault + int" where
  "json_integer_option env arg optindex setting mn mx =
     (if arg = LNil then Inr setting
      else case tointeger env arg of
        None \<Rightarrow> Inl (Bad_argument optindex ''number expected'')
      | Some n \<Rightarrow>
          let value = to_c_int n
          in if mn \<le> value \<and> value \<le> mx then Inr value
             else Inl (Bad_argument 1 ''expected integer between the bounds''))"

text \<open>The index of a string among the options, for \<open>luaL_checkoption\<close>.\<close>

fun option_index :: "char list list \<Rightarrow> char list \<Rightarrow> int option" where
  "option_index [] s = None"
| "option_index (x # xs) s = (if x = s then Some 0 else map_option (\<lambda>i. i + 1) (option_index xs s))"

definition json_enum_option ::
  "lua \<Rightarrow> int \<Rightarrow> int \<Rightarrow> char list list option \<Rightarrow> int \<Rightarrow> json_fault + (int \<times> lua)" where
  "json_enum_option arg optindex setting opts bt =
     (let (options, bool_true) = (case opts of None \<Rightarrow> ([''off'', ''on''], 1) | Some os \<Rightarrow> (os, bt))
      in rbind (if arg = LNil then Inr setting
                else case arg of
                  LBool b \<Rightarrow> if bool_true \<noteq> 0 then Inr ((if b then 1 else 0) * bool_true)
                             else Inl (Bad_argument optindex ''string expected'')
                | LStr s \<Rightarrow> (case option_index options s of
                      Some i \<Rightarrow> Inr i | None \<Rightarrow> Inl (Bad_argument optindex ''invalid option''))
                | LNum _ \<Rightarrow> Inl (Bad_argument optindex ''invalid option'')
                | _ \<Rightarrow> Inl (Bad_argument optindex ''string expected''))
         (\<lambda>s. if bool_true \<noteq> 0 \<and> (s = 0 \<or> s = bool_true) then Inr (s, LBool (s \<noteq> 0))
              else if 0 \<le> s \<and> nat s < length options then Inr (s, LStr (options ! nat s))
              else Inl (Sb Out_of_bounds)))"

type_synonym 'a cfg_result = "(json_fault + 'a) \<times> json_config_t"

definition lua_int :: "int \<Rightarrow> lua" where
  "lua_int i = LNum (Num (of_int i))"

text \<open>The first error ends the call; the settings stored before it stay.\<close>

definition json_cfg_encode_sparse_array :: "json_env \<Rightarrow> json_config_t \<Rightarrow> lua list \<Rightarrow> lua list cfg_result" where
  "json_cfg_encode_sparse_array env cfg args = (case json_arg_init args 3 of
       Inl e \<Rightarrow> (Inl e, cfg)
     | Inr as \<Rightarrow> (case json_enum_option (as ! 0) 1 (encode_sparse_convert cfg) None 1 of
         Inl e \<Rightarrow> (Inl e, cfg)
       | Inr (c, r1) \<Rightarrow>
           let cfg1 = cfg\<lparr>encode_sparse_convert := c\<rparr>
           in (case json_integer_option env (as ! 1) 2 (encode_sparse_ratio cfg1) 0 INT_MAX of
                 Inl e \<Rightarrow> (Inl e, cfg1)
               | Inr ra \<Rightarrow>
                   let cfg2 = cfg1\<lparr>encode_sparse_ratio := ra\<rparr>
                   in (case json_integer_option env (as ! 2) 3 (encode_sparse_safe cfg2) 0 INT_MAX of
                         Inl e \<Rightarrow> (Inl e, cfg2)
                       | Inr sa \<Rightarrow> (Inr [r1, lua_int ra, lua_int sa], cfg2\<lparr>encode_sparse_safe := sa\<rparr>)))))"

definition json_cfg_encode_max_depth :: "json_env \<Rightarrow> json_config_t \<Rightarrow> lua list \<Rightarrow> lua list cfg_result" where
  "json_cfg_encode_max_depth env cfg args = (case json_arg_init args 1 of
       Inl e \<Rightarrow> (Inl e, cfg)
     | Inr as \<Rightarrow> (case json_integer_option env (as ! 0) 1 (encode_max_depth cfg) 1 INT_MAX of
         Inl e \<Rightarrow> (Inl e, cfg)
       | Inr d \<Rightarrow> (Inr [lua_int d], cfg\<lparr>encode_max_depth := d\<rparr>)))"

definition json_cfg_decode_max_depth :: "json_env \<Rightarrow> json_config_t \<Rightarrow> lua list \<Rightarrow> lua list cfg_result" where
  "json_cfg_decode_max_depth env cfg args = (case json_arg_init args 1 of
       Inl e \<Rightarrow> (Inl e, cfg)
     | Inr as \<Rightarrow> (case json_integer_option env (as ! 0) 1 (decode_max_depth cfg) 1 INT_MAX of
         Inl e \<Rightarrow> (Inl e, cfg)
       | Inr d \<Rightarrow> (Inr [lua_int d], cfg\<lparr>decode_max_depth := d\<rparr>)))"

definition json_cfg_encode_number_precision ::
  "json_env \<Rightarrow> json_config_t \<Rightarrow> lua list \<Rightarrow> lua list cfg_result" where
  "json_cfg_encode_number_precision env cfg args = (case json_arg_init args 1 of
       Inl e \<Rightarrow> (Inl e, cfg)
     | Inr as \<Rightarrow> (case json_integer_option env (as ! 0) 1 (encode_number_precision cfg) 1 14 of
         Inl e \<Rightarrow> (Inl e, cfg)
       | Inr d \<Rightarrow> (Inr [lua_int d], cfg\<lparr>encode_number_precision := d\<rparr>)))"

definition json_cfg_encode_keep_buffer :: "json_env \<Rightarrow> json_config_t \<Rightarrow> lua list \<Rightarrow> lua list cfg_result" where
  "json_cfg_encode_keep_buffer env cfg args = (case json_arg_init args 1 of
       Inl e \<Rightarrow> (Inl e, cfg)
     | Inr as \<Rightarrow> (case json_enum_option (as ! 0) 1 (encode_keep_buffer cfg) None 1 of
         Inl e \<Rightarrow> (Inl e, cfg)
       | Inr (k, r) \<Rightarrow>
           let cfg1 = cfg\<lparr>encode_keep_buffer := k\<rparr>
           in if encode_keep_buffer cfg = k then (Inr [r], cfg1)
              else if k \<noteq> 0
              then (case strbuf_init (alloc env) 0 of
                      Inl f \<Rightarrow> (Inl (Sb f), cfg1)
                    | Inr b \<Rightarrow> (Inr [r], cfg1\<lparr>encode_buf := b\<rparr>))
              else (Inr [r], case strbuf_free (encode_buf cfg1) of
                      Some b \<Rightarrow> cfg1\<lparr>encode_buf := b\<rparr> | None \<Rightarrow> cfg1)))"

definition json_cfg_encode_invalid_numbers :: "json_config_t \<Rightarrow> lua list \<Rightarrow> lua list cfg_result" where
  "json_cfg_encode_invalid_numbers cfg args = (case json_arg_init args 1 of
       Inl e \<Rightarrow> (Inl e, cfg)
     | Inr as \<Rightarrow> (case json_enum_option (as ! 0) 1 (encode_invalid_numbers cfg)
                        (Some [''off'', ''on'', ''null'']) 1 of
         Inl e \<Rightarrow> (Inl e, cfg)
       | Inr (k, r) \<Rightarrow> (Inr [r], cfg\<lparr>encode_invalid_numbers := k\<rparr>)))"

definition json_cfg_decode_invalid_numbers :: "json_config_t \<Rightarrow> lua list \<Rightarrow> lua list cfg_result" where
  "json_cfg_decode_invalid_numbers cfg args = (case json_arg_init args 1 of
       Inl e \<Rightarrow> (Inl e, cfg)
     | Inr as \<Rightarrow> (case json_enum_option (as ! 0) 1 (decode_invalid_numbers cfg) None 1 of
         Inl e \<Rightarrow> (Inl e, cfg)
       | Inr (k, r) \<Rightarrow> (Inr [r], cfg\<lparr>decode_invalid_numbers := k\<rparr>)))"



subsection \<open>The invariant of the configuration\<close>

text \<open>Every setting stays in its range, the tables are never changed, and the shared encoding buffer is
  allocated exactly while \<open>encode_keep_buffer\<close> is set.\<close>

definition cfg_inv :: "json_config_t \<Rightarrow> bool" where
  "cfg_inv cfg \<longleftrightarrow>
     ch2token cfg = ch2token_init \<and> escape2char cfg = escape2char_init \<and>
     encode_sparse_convert cfg \<in> {0, 1} \<and> 0 \<le> encode_sparse_ratio cfg \<and> encode_sparse_ratio cfg \<le> INT_MAX \<and>
     0 \<le> encode_sparse_safe cfg \<and> encode_sparse_safe cfg \<le> INT_MAX \<and>
     1 \<le> encode_max_depth cfg \<and> encode_max_depth cfg \<le> INT_MAX \<and>
     1 \<le> decode_max_depth cfg \<and> decode_max_depth cfg \<le> INT_MAX \<and>
     1 \<le> encode_number_precision cfg \<and> encode_number_precision cfg \<le> 14 \<and>
     encode_invalid_numbers cfg \<in> {0, 1, 2} \<and> decode_invalid_numbers cfg \<in> {0, 1} \<and>
     encode_keep_buffer cfg \<in> {0, 1} \<and> dynamic (encode_buf cfg) = 0 \<and>
     (if encode_keep_buffer cfg = 1
      then sb_inv (encode_buf cfg) \<and> increment (encode_buf cfg) = STRBUF_DEFAULT_INCREMENT
      else buf (encode_buf cfg) = None)"

lemma strbuf_init_Inr:
  "strbuf_init al n = Inr s \<Longrightarrow> n < INT_MAX \<Longrightarrow>
     sb_inv s \<and> content s = [] \<and> n \<le> strbuf_empty_length s \<and> increment s = STRBUF_DEFAULT_INCREMENT \<and> dynamic s = 0"
  by (auto simp: strbuf_init_def malloc_buf_def strbuf_ensure_null_def poke_def sb_inv_def content_def
      strbuf_empty_length_def rbind_eq_Inr c_int_def Let_def split: if_splits)

lemma default_config_inv: "strbuf_init al 0 = Inr b \<Longrightarrow> cfg_inv (default_config b)"
  by (auto simp: cfg_inv_def default_config_def dest: strbuf_init_Inr)

lemma json_integer_option_range:
  "json_integer_option env arg i x mn mx = Inr y \<Longrightarrow> mn \<le> x \<Longrightarrow> x \<le> mx \<Longrightarrow> mn \<le> y \<and> y \<le> mx"
  by (auto simp: json_integer_option_def Let_def split: if_splits option.splits)

lemma json_enum_option_bool:
  "json_enum_option arg i x None 1 = Inr (y, r) \<Longrightarrow> x \<in> {0, 1} \<Longrightarrow> y \<in> {0, 1} \<and> r = LBool (y = 1)"
  by (auto simp: json_enum_option_def rbind_eq_Inr split: if_splits lua.splits option.splits)

lemma json_enum_option_three:
  "json_enum_option arg i x (Some [a, b, c]) 1 = Inr (y, r) \<Longrightarrow> x \<in> {0, 1, 2} \<Longrightarrow> y \<in> {0, 1, 2}"
  by (auto simp: json_enum_option_def rbind_eq_Inr split: if_splits lua.splits option.splits)

text \<open>The calls after which the process goes on: not the exit of \<open>die\<close> and not undefined behaviour.\<close>

definition survives :: "json_fault + 'a \<Rightarrow> bool" where
  "survives r = (case r of Inl (Sb _) \<Rightarrow> False | _ \<Rightarrow> True)"

lemmas option_rules = json_integer_option_range json_enum_option_bool json_enum_option_three

lemma json_cfg_encode_sparse_array_inv:
  assumes inv: "cfg_inv cfg"
  shows "cfg_inv (snd (json_cfg_encode_sparse_array env cfg args))"
proof (cases "json_arg_init args 3")
  case (Inr as)
  show ?thesis
  proof (cases "json_enum_option (as ! 0) 1 (encode_sparse_convert cfg) None 1")
    case e: (Inr cr)
    obtain c r where cr: "cr = (c, r)" by (cases cr)
    with e json_enum_option_bool [of "as ! 0" 1 "encode_sparse_convert cfg" c r] inv
    have c: "c \<in> {0, 1}" by (simp add: cfg_inv_def)
    show ?thesis
    proof (cases "json_integer_option env (as ! 1) 2 (encode_sparse_ratio cfg) 0 INT_MAX")
      case i: (Inr ra)
      with json_integer_option_range [OF i] inv have ra: "0 \<le> ra" "ra \<le> INT_MAX" by (auto simp: cfg_inv_def)
      with json_integer_option_range [of env "as ! 2" 3 "encode_sparse_safe cfg" 0 INT_MAX] inv c e cr i Inr
      show ?thesis by (auto simp: json_cfg_encode_sparse_array_def cfg_inv_def Let_def split: sum.splits)
    qed (use inv c e cr Inr in \<open>auto simp: json_cfg_encode_sparse_array_def cfg_inv_def Let_def\<close>)
  qed (use inv Inr in \<open>simp add: json_cfg_encode_sparse_array_def\<close>)
qed (use inv in \<open>simp add: json_cfg_encode_sparse_array_def\<close>)

lemma json_cfg_simple_inv:
  assumes "cfg_inv cfg"
  shows "cfg_inv (snd (json_cfg_encode_max_depth env cfg args))"
    and "cfg_inv (snd (json_cfg_decode_max_depth env cfg args))"
    and "cfg_inv (snd (json_cfg_encode_number_precision env cfg args))"
    and "cfg_inv (snd (json_cfg_encode_invalid_numbers cfg args))"
    and "cfg_inv (snd (json_cfg_decode_invalid_numbers cfg args))"
  using assms
  by (auto simp: json_cfg_encode_max_depth_def json_cfg_decode_max_depth_def
      json_cfg_encode_number_precision_def json_cfg_encode_invalid_numbers_def
      json_cfg_decode_invalid_numbers_def cfg_inv_def split: sum.splits dest!: option_rules)

lemma json_cfg_encode_keep_buffer_inv:
  assumes inv: "cfg_inv cfg" and ok: "survives (fst (json_cfg_encode_keep_buffer env cfg args))"
  shows "cfg_inv (snd (json_cfg_encode_keep_buffer env cfg args))"
proof (cases "json_arg_init args 1")
  case (Inr as)
  show ?thesis
  proof (cases "json_enum_option (as ! 0) 1 (encode_keep_buffer cfg) None 1")
    case e: (Inr kr)
    obtain k r where kr: "kr = (k, r)" by (cases kr)
    with e json_enum_option_bool [of "as ! 0" 1 "encode_keep_buffer cfg" k r] inv
    have k: "k \<in> {0, 1}" by (simp add: cfg_inv_def)
    consider "k = encode_keep_buffer cfg" | "k = 0" "encode_keep_buffer cfg = 1"
      | "k = 1" "encode_keep_buffer cfg = 0" using k inv by (auto simp: cfg_inv_def)
    then show ?thesis
    proof cases
      case 3
      with ok e kr Inr obtain b where "strbuf_init (alloc env) 0 = Inr b"
        by (auto simp: json_cfg_encode_keep_buffer_def survives_def Let_def split: sum.splits)
      with 3 strbuf_init_Inr [OF this] inv e kr Inr show ?thesis
        by (simp add: json_cfg_encode_keep_buffer_def cfg_inv_def Let_def)
    qed (use inv e kr Inr k in
         \<open>auto simp: json_cfg_encode_keep_buffer_def cfg_inv_def strbuf_free_def Let_def split: option.splits\<close>)
  qed (use inv Inr in \<open>simp add: json_cfg_encode_keep_buffer_def\<close>)
qed (use inv in \<open>simp add: json_cfg_encode_keep_buffer_def\<close>)


subsection \<open>The lookup tables\<close>

definition token_class :: "char \<Rightarrow> json_token_type_t" where
  "token_class c =
     (if c = CHR ''{'' then T_OBJ_BEGIN else if c = CHR ''}'' then T_OBJ_END
      else if c = CHR ''['' then T_ARR_BEGIN else if c = CHR '']'' then T_ARR_END
      else if c = CHR '','' then T_COMMA else if c = CHR '':'' then T_COLON
      else if c = NUL then T_END
      else if c = CHR '' '' \<or> c = CHR 0x09 \<or> c = CHR 0x0A \<or> c = CHR 0x0D then T_WHITESPACE
      else if c = CHR 0x22 \<or> c = CHR ''-'' \<or> c = CHR ''+'' \<or> is_digit c \<or>
              c = CHR ''t'' \<or> c = CHR ''f'' \<or> c = CHR ''n'' \<or> c = CHR ''N'' \<or> c = CHR ''i'' \<or> c = CHR ''I''
      then T_UNKNOWN else T_ERROR)"

definition unescape :: "char \<Rightarrow> char" where
  "unescape c =
     (if c = CHR 0x22 \<or> c = CHR 0x5C \<or> c = CHR ''/'' \<or> c = CHR ''u'' then c
      else if c = CHR ''b'' then CHR 0x08 else if c = CHR ''t'' then CHR 0x09
      else if c = CHR ''n'' then CHR 0x0A else if c = CHR ''f'' then CHR 0x0C
      else if c = CHR ''r'' then CHR 0x0D else NUL)"

lemma set_chars_nth:
  "length t = 256 \<Longrightarrow>
     set_chars t ups ! of_char c = (case map_of (rev ups) c of None \<Rightarrow> t ! of_char c | Some x \<Rightarrow> x)"
proof (induction ups rule: rev_induct)
  case (snoc u ups)
  have len: "length (set_chars t xs) = length t" for xs
    unfolding set_chars_def by (induction xs rule: rev_induct) (auto split: prod.splits)
  obtain d x where u: "u = (d, x)" by (cases u)
  have "set_chars t (ups @ [u]) = (set_chars t ups)[of_char d := x]" by (simp add: set_chars_def u)
  moreover have "(of_char c :: nat) = of_char d \<longleftrightarrow> c = d" by (simp add: of_char_eq_iff)
  ultimately show ?case
    using snoc nat_of_char_less_256 [of c] by (auto simp: u nth_list_update len)
qed (simp add: set_chars_def)

lemma is_digit_cases: "is_digit c \<longleftrightarrow> c \<in> set ''0123456789''"
proof
  assume "is_digit c"
  then have "(of_char c :: nat) \<in> {48..57}" by (simp add: is_digit_def)
  also have "{48..57::nat} = {48, 49, 50, 51, 52, 53, 54, 55, 56, 57}"
    by (simp add: atLeastAtMost_insertL [symmetric])
  finally have "(of_char c :: nat) \<in> {48, 49, 50, 51, 52, 53, 54, 55, 56, 57}" .
  moreover have "c = char_of (of_char c :: nat)" by simp
  ultimately have "c \<in> char_of ` {48::nat, 49, 50, 51, 52, 53, 54, 55, 56, 57}" by blast
  then have "c \<in> set (map char_of [48::nat, 49, 50, 51, 52, 53, 54, 55, 56, 57])"
    by (simp only: set_map list.set)
  also have "map char_of [48::nat, 49, 50, 51, 52, 53, 54, 55, 56, 57] = ''0123456789''" by code_simp
  finally show "c \<in> set ''0123456789''" .
qed (auto simp: is_digit_def)

lemma ch2token_init_nth: "ch2token_init ! of_char c = token_class c"
proof -
  have "ch2token_init ! of_char c = (case map_of (rev
      ([(CHR ''{'', T_OBJ_BEGIN), (CHR ''}'', T_OBJ_END), (CHR ''['', T_ARR_BEGIN), (CHR '']'', T_ARR_END),
        (CHR '','', T_COMMA), (CHR '':'', T_COLON), (NUL, T_END),
        (CHR '' '', T_WHITESPACE), (CHR 0x09, T_WHITESPACE), (CHR 0x0A, T_WHITESPACE), (CHR 0x0D, T_WHITESPACE),
        (CHR ''f'', T_UNKNOWN), (CHR ''i'', T_UNKNOWN), (CHR ''I'', T_UNKNOWN), (CHR ''n'', T_UNKNOWN),
        (CHR ''N'', T_UNKNOWN), (CHR ''t'', T_UNKNOWN), (CHR 0x22, T_UNKNOWN), (CHR ''+'', T_UNKNOWN),
        (CHR ''-'', T_UNKNOWN)] @ map (\<lambda>c. (c, T_UNKNOWN)) ''0123456789'')) c of
      None \<Rightarrow> T_ERROR | Some x \<Rightarrow> x)"
    unfolding ch2token_init_def by (subst set_chars_nth) (simp_all add: nat_of_char_less_256)
  also have "\<dots> = token_class c"
    by (simp add: token_class_def is_digit_cases)
  finally show ?thesis .
qed

lemma escape2char_init_nth: "escape2char_init ! of_char c = unescape c"
  unfolding escape2char_init_def
  by (subst set_chars_nth) (simp_all add: unescape_def nat_of_char_less_256)

text \<open>Both functions that set up a configuration give the same one. It satisfies the invariant, and its
  lookup tables classify every character: structural characters, white space and the first characters of
  literals and numbers in one, the single-character escapes and the marker of the Unicode escape in the other.\<close>

theorem json_config_tables:
  assumes "json_create_config env = Inr cfg"
  shows "(if alloc env 1352 then json_fetch_config env None = Inr cfg
          else json_fetch_config env None = Inl Out_of_bounds) \<and>
     cfg_inv cfg \<and> (\<forall>c. ch2token cfg ! of_char c = token_class c) \<and>
     (\<forall>c. escape2char cfg ! of_char c = unescape c)"
proof -
  from assms obtain b where b: "strbuf_init (alloc env) 0 = Inr b" "cfg = default_config b"
    by (auto simp: json_create_config_def rbind_eq_Inr)
  have "ch2token cfg = ch2token_init" "escape2char cfg = escape2char_init"
    by (simp_all add: b(2) default_config_def)
  with b default_config_inv [OF b(1)] show ?thesis
    by (simp add: json_fetch_config_def ch2token_init_nth escape2char_init_nth)
qed

theorem json_config_tables_witness:
  "\<exists>cfg. json_create_config \<lparr>alloc = (\<lambda>_. True), checkstack = (\<lambda>_. True), dtoa = (\<lambda>_ _. ([], 0, False)),
        strtod = (\<lambda>_. (NaN, 0)), tointeger = (\<lambda>_. None), num2str = (\<lambda>_. [])\<rparr> = Inr cfg \<and> cfg_inv cfg \<and>
     (\<forall>c. ch2token cfg ! of_char c = token_class c)"
proof -
  let ?env = "\<lparr>alloc = (\<lambda>_. True), checkstack = (\<lambda>_. True), dtoa = (\<lambda>_ _. ([], 0, False)),
        strtod = (\<lambda>_. (NaN, 0)), tointeger = (\<lambda>_. None), num2str = (\<lambda>_. [])\<rparr>"
  obtain cfg where "json_create_config ?env = Inr cfg"
    by (simp add: json_create_config_def strbuf_init_def malloc_buf_def strbuf_ensure_null_def poke_def)
  with json_config_tables [OF this] show ?thesis by blast
qed

end
