(* ===== verification/Json_Encode.thy ===== *)
theory Json_Encode
  imports Json_Base
begin

text \<open>
  The encoder of \<^verbatim>\<open>src/lua/json/json.c\<close> (from \<open>json_encode_exception\<close> to \<open>json_encode\<close>) and the entry
  point \<open>json::encode\<close> of \<^verbatim>\<open>src/arken/json.cpp\<close>.

  The functions write into a string buffer. \<open>json_append_array\<close> and \<open>json_append_object\<close> call
  \<open>json_append_data\<close> back, which is their parameter \<open>rec\<close>; the recursion is closed in
  \<open>json_append_data\<close>. The refinement at the end relates them to a printer on lists.
\<close>

type_synonym 'a enc_result = "json_fault \<times> strbuf_t + 'a"

text \<open>A fault of the buffer as a result of the encoder.\<close>

definition sbr :: "strbuf_t \<Rightarrow> sb_fault + 'a \<Rightarrow> 'a enc_result" where
  "sbr s r = (case r of Inl f \<Rightarrow> Inl (Sb f, s) | Inr x \<Rightarrow> Inr x)"

definition release :: "json_config_t \<Rightarrow> strbuf_t \<Rightarrow> strbuf_t" where
  "release cfg s =
     (if encode_keep_buffer cfg = 0 then (case strbuf_free s of Some s' \<Rightarrow> s' | None \<Rightarrow> s) else s)"

definition json_encode_exception ::
  "json_config_t \<Rightarrow> strbuf_t \<Rightarrow> lua \<Rightarrow> char list \<Rightarrow> 'a enc_result" where
  "json_encode_exception cfg s v reason =
     Inl (Cannot_serialise (lua_typename v) reason, release cfg s)"

definition json_append_escaped :: "json_env \<Rightarrow> strbuf_t \<Rightarrow> char \<Rightarrow> sb_fault + strbuf_t" where
  "json_append_escaped env s c = (case char2escape c of
       Some escstr \<Rightarrow> strbuf_append_string (alloc env) s escstr
     | None \<Rightarrow> strbuf_append_char_unsafe s c)"

text \<open>The reservation is computed as a \<open>size_t\<close> and passed as an \<open>int\<close>.\<close>

definition json_append_string :: "json_env \<Rightarrow> strbuf_t \<Rightarrow> char list \<Rightarrow> sb_fault + strbuf_t" where
  "json_append_string env s str =
     rbind (strbuf_ensure_empty_length (alloc env) s
              (to_c_int ((int (length str) * 6 + 2) mod 18446744073709551616))) (\<lambda>s1.
     rbind (strbuf_append_char_unsafe s1 (CHR 0x22)) (\<lambda>s2.
     rbind (fold_res (json_append_escaped env) s2 str) (\<lambda>s3.
       strbuf_append_char_unsafe s3 (CHR 0x22))))"

text \<open>The scan of \<open>lua_array_length\<close>: the largest index and the number of items, or \<open>None\<close> at the first key that is
  not an integer of at least one. Converting a double beyond the range of \<open>int\<close> is undefined.\<close>

fun array_scan :: "(lua \<times> lua) list \<Rightarrow> int \<Rightarrow> int \<Rightarrow> sb_fault + (int \<times> int) option" where
  "array_scan [] mx items = Inr (Some (mx, items))"
| "array_scan ((LNum (Num k), _) # kvs) mx items =
     (if k \<noteq> 0 \<and> of_int \<lfloor>k\<rfloor> = k \<and> 1 \<le> k
      then rbind (if of_int mx < k then c_int \<lfloor>k\<rfloor> else Inr mx) (\<lambda>mx'.
             rbind (c_int (items + 1)) (\<lambda>items'. array_scan kvs mx' items'))
      else Inr None)"
| "array_scan ((LNum (Inf False), _) # kvs) mx items = Inl Signed_overflow"
| "array_scan (_ # kvs) mx items = Inr None"

definition lua_array_length :: "json_config_t \<Rightarrow> strbuf_t \<Rightarrow> (lua \<times> lua) list \<Rightarrow> int enc_result" where
  "lua_array_length cfg s kvs =
     rbind (sbr s (array_scan kvs 0 0)) (\<lambda>r. case r of
         None \<Rightarrow> Inr (- 1)
       | Some (mx, items) \<Rightarrow>
           rbind (if encode_sparse_ratio cfg > 0
                  then rbind (sbr s (c_int (items * encode_sparse_ratio cfg))) (\<lambda>lim.
                         Inr (mx > lim \<and> mx > encode_sparse_safe cfg))
                  else Inr False) (\<lambda>sparse.
             if sparse
             then if encode_sparse_convert cfg = 0
                  then json_encode_exception cfg s (LTable kvs) ''excessively sparse array''
                  else Inr (- 1)
             else Inr mx))"

definition json_check_encode_depth ::
  "json_env \<Rightarrow> json_config_t \<Rightarrow> int \<Rightarrow> strbuf_t \<Rightarrow> unit enc_result" where
  "json_check_encode_depth env cfg depth s =
     (if depth \<le> encode_max_depth cfg \<and> checkstack env depth then Inr ()
      else Inl (Excessive_nesting depth, release cfg s))"

definition json_append_number ::
  "json_env \<Rightarrow> json_config_t \<Rightarrow> strbuf_t \<Rightarrow> double \<Rightarrow> strbuf_t enc_result" where
  "json_append_number env cfg s num =
     (let finite = rbind (sbr s (strbuf_ensure_empty_length (alloc env) s 32)) (\<lambda>s1.
            case fpconv_g_fmt (dtoa env num (encode_number_precision cfg)) (encode_number_precision cfg) of
              None \<Rightarrow> Inl (Sb Out_of_bounds, s1)
            | Some txt \<Rightarrow> sbr s1 (rbind (poke_mem s1 (sb_len s1) (txt @ [NUL])) (\<lambda>s2.
                strbuf_extend_length s2 (int (length txt)))))
      in if encode_invalid_numbers cfg = 0
         then if isinf num \<or> isnan num
              then json_encode_exception cfg s (LNum num) ''must not be NaN or Infinity'' else finite
         else if encode_invalid_numbers cfg = 1
         then if isnan num then sbr s (strbuf_append_mem (alloc env) s ''NaN'' 3)
              else if isinf num
              then if num = Inf True then sbr s (strbuf_append_mem (alloc env) s ''-Infinity'' 9)
                   else sbr s (strbuf_append_mem (alloc env) s ''Infinity'' 8)
              else finite
         else if isinf num \<or> isnan num then sbr s (strbuf_append_mem (alloc env) s ''null'' 4)
         else finite)"

text \<open>\<open>lua_rawgeti\<close>\<close>

definition key_is_int :: "lua \<Rightarrow> int \<Rightarrow> bool" where
  "key_is_int k i = (case k of LNum d \<Rightarrow> dval d = Some (of_int i) | _ \<Rightarrow> False)"

fun lua_rawgeti :: "(lua \<times> lua) list \<Rightarrow> int \<Rightarrow> lua" where
  "lua_rawgeti [] i = LNil"
| "lua_rawgeti ((k, v) # kvs) i = (if key_is_int k i then v else lua_rawgeti kvs i)"

definition append_comma :: "json_env \<Rightarrow> strbuf_t \<Rightarrow> bool \<Rightarrow> strbuf_t enc_result" where
  "append_comma env s comma = (if comma then sbr s (strbuf_append_char (alloc env) s CHR '','') else Inr s)"

definition json_append_array ::
  "json_env \<Rightarrow> (strbuf_t \<Rightarrow> lua \<Rightarrow> strbuf_t enc_result) \<Rightarrow> strbuf_t \<Rightarrow> (lua \<times> lua) list \<Rightarrow> int \<Rightarrow>
     strbuf_t enc_result" where
  "json_append_array env rec s kvs array_length =
     rbind (sbr s (strbuf_append_char (alloc env) s CHR ''['')) (\<lambda>s1.
     rbind (fold_res (\<lambda>(s, comma) i.
              rbind (append_comma env s comma) (\<lambda>s'.
              rbind (rec s' (lua_rawgeti kvs i)) (\<lambda>s''. Inr (s'', True))))
            (s1, False) [1..array_length]) (\<lambda>(s2, _).
       sbr s2 (strbuf_append_char (alloc env) s2 CHR '']'')))"

definition json_append_key ::
  "json_env \<Rightarrow> json_config_t \<Rightarrow> strbuf_t \<Rightarrow> lua \<Rightarrow> strbuf_t enc_result" where
  "json_append_key env cfg s k = (case k of
       LNum num \<Rightarrow>
         rbind (sbr s (strbuf_append_char (alloc env) s CHR 0x22)) (\<lambda>s1.
         rbind (json_append_number env cfg s1 num) (\<lambda>s2.
           sbr s2 (strbuf_append_mem (alloc env) s2 [CHR 0x22, CHR '':''] 2)))
     | LStr str \<Rightarrow>
         rbind (sbr s (json_append_string env s str)) (\<lambda>s1.
           sbr s1 (strbuf_append_char (alloc env) s1 CHR '':''))
     | _ \<Rightarrow> json_encode_exception cfg s k ''table key must be a number or string'')"

definition json_append_object ::
  "json_env \<Rightarrow> json_config_t \<Rightarrow> (strbuf_t \<Rightarrow> lua \<Rightarrow> strbuf_t enc_result) \<Rightarrow> strbuf_t \<Rightarrow>
     (lua \<times> lua) list \<Rightarrow> strbuf_t enc_result" where
  "json_append_object env cfg rec s kvs =
     rbind (sbr s (strbuf_append_char (alloc env) s CHR ''{'')) (\<lambda>s1.
     rbind (fold_res (\<lambda>(s, comma) (k, v).
              rbind (append_comma env s comma) (\<lambda>s'.
              rbind (json_append_key env cfg s' k) (\<lambda>s''.
              rbind (rec s'' v) (\<lambda>s3. Inr (s3, True)))))
            (s1, False) kvs) (\<lambda>(s2, _).
       sbr s2 (strbuf_append_char (alloc env) s2 CHR ''}'')))"

text \<open>For the termination of \<open>json_append_data\<close>: the two container functions only pass values of the
  table to their parameter.\<close>

lemma lua_rawgeti_size: "size (lua_rawgeti kvs i) < size (LTable kvs)"
  by (induction kvs) auto

lemma json_append_array_cong [fundef_cong]:
  assumes "s = s'" "kvs = kvs'" "n = n'"
    and "\<And>s x. size x < size (LTable kvs') \<Longrightarrow> rec s x = rec' s x"
  shows "json_append_array env rec s kvs n = json_append_array env rec' s' kvs' n'"
  unfolding json_append_array_def assms(1-3)
  by (intro rbind_cong refl fold_res_cong) (auto simp: assms(4) [OF lua_rawgeti_size] split: prod.splits)

lemma json_append_object_cong [fundef_cong]:
  assumes "s = s'" "kvs = kvs'"
    and "\<And>s x. size x < size (LTable kvs') \<Longrightarrow> rec s x = rec' s x"
  shows "json_append_object env cfg rec s kvs = json_append_object env cfg rec' s' kvs'"
proof -
  have "size v < size (LTable kvs')" if "(k, v) \<in> set kvs'" for k v
    using that by (induction kvs') auto
  then show ?thesis
    unfolding json_append_object_def assms(1,2)
    by (intro rbind_cong refl fold_res_cong) (auto simp: assms(3) split: prod.splits)
qed

function json_append_data ::
  "json_env \<Rightarrow> json_config_t \<Rightarrow> int \<Rightarrow> strbuf_t \<Rightarrow> lua \<Rightarrow> strbuf_t enc_result" where
  "json_append_data env cfg depth s v = (case v of
       LStr str \<Rightarrow> sbr s (json_append_string env s str)
     | LNum num \<Rightarrow> json_append_number env cfg s num
     | LBool b \<Rightarrow> sbr s (if b then strbuf_append_mem (alloc env) s ''true'' 4
                          else strbuf_append_mem (alloc env) s ''false'' 5)
     | LTable kvs \<Rightarrow>
         rbind (json_check_encode_depth env cfg (depth + 1) s) (\<lambda>_.
         rbind (lua_array_length cfg s kvs) (\<lambda>len.
           if len > 0 then json_append_array env (\<lambda>s x. json_append_data env cfg (depth + 1) s x) s kvs len
           else json_append_object env cfg (\<lambda>s x. json_append_data env cfg (depth + 1) s x) s kvs))
     | LNil \<Rightarrow> sbr s (strbuf_append_mem (alloc env) s ''null'' 4)
     | LLight null \<Rightarrow>
         if null then sbr s (strbuf_append_mem (alloc env) s ''null'' 4)
         else json_encode_exception cfg s v ''type not supported''
     | LOther _ \<Rightarrow> json_encode_exception cfg s v ''type not supported'')"
  by pat_completeness auto
termination
  by (relation "measure (\<lambda>(_, _, _, _, v). size v)") auto

declare json_append_data.simps [simp del]

text \<open>The text that \<open>lua_pushlstring\<close> copies from a buffer; an unwritten byte would be read undefined.\<close>

definition push_text :: "char option list option \<times> int \<Rightarrow> sb_fault + char list" where
  "push_text = (\<lambda>(b, n). case b of
       None \<Rightarrow> Inl Out_of_bounds
     | Some bs \<Rightarrow>
         if 0 \<le> n \<and> nat n \<le> length bs \<and> list_all (\<lambda>x. x \<noteq> None) (take (nat n) bs)
         then Inr (map the (take (nat n) bs)) else Inl Out_of_bounds)"

definition json_encode :: "json_env \<Rightarrow> json_config_t \<Rightarrow> lua list \<Rightarrow> char list cfg_result" where
  "json_encode env cfg args = (case args of
       [v] \<Rightarrow>
         (case (if encode_keep_buffer cfg = 0 then strbuf_init (alloc env) 0
                else Inr (strbuf_reset (encode_buf cfg))) of
            Inl f \<Rightarrow> (Inl (Sb f), cfg)
          | Inr s \<Rightarrow>
              (case json_append_data env cfg 0 s v of
                 Inl (e, s') \<Rightarrow> (Inl e, if encode_keep_buffer cfg = 0 then cfg else cfg\<lparr>encode_buf := s'\<rparr>)
               | Inr s' \<Rightarrow>
                   (case push_text (strbuf_string s') of Inl f \<Rightarrow> Inl (Sb f) | Inr t \<Rightarrow> Inr t,
                    if encode_keep_buffer cfg = 0 then cfg else cfg\<lparr>encode_buf := s'\<rparr>)))
     | _ \<Rightarrow> (Inl (Bad_argument 1 ''expected 1 argument''), cfg))"

text \<open>\<open>arken::json::encode\<close>: the same, but it starts at depth one and measures the text with
  \<open>strlen\<close>. It allocates \<open>strlen + 1\<close> bytes, copies \<open>strlen\<close> of them and writes the terminator at the
  length of the buffer.\<close>

definition arken_json_encode :: "json_env \<Rightarrow> json_config_t \<Rightarrow> lua \<Rightarrow> char list cfg_result" where
  "arken_json_encode env cfg v =
     (case (if encode_keep_buffer cfg = 0 then strbuf_init (alloc env) 0
            else Inr (strbuf_reset (encode_buf cfg))) of
        Inl f \<Rightarrow> (Inl (Sb f), cfg)
      | Inr s \<Rightarrow>
          (case json_append_data env cfg 1 s v of
             Inl (e, s') \<Rightarrow> (Inl e, if encode_keep_buffer cfg = 0 then cfg else cfg\<lparr>encode_buf := s'\<rparr>)
           | Inr s' \<Rightarrow>
               (case Option.bind (buf s') c_string of
                  None \<Rightarrow> Inl (Sb Out_of_bounds)
                | Some t \<Rightarrow> if nat (sb_len s') \<le> length t then Inr (take (nat (sb_len s')) t)
                            else Inl (Sb Out_of_bounds),
                if encode_keep_buffer cfg = 0 then cfg else cfg\<lparr>encode_buf := s'\<rparr>)))"



subsection \<open>The specification: printing\<close>

text \<open>The characters that stand for one character inside a string, and the text of a string.\<close>

definition esc :: "char \<Rightarrow> char list" where
  "esc c = (case char2escape c of Some e \<Rightarrow> e | None \<Rightarrow> [c])"

definition print_string :: "char list \<Rightarrow> char list" where
  "print_string str = CHR 0x22 # concat (map esc str) @ [CHR 0x22]"

definition print_number :: "json_env \<Rightarrow> json_config_t \<Rightarrow> double \<Rightarrow> json_fault + char list" where
  "print_number env cfg num =
     (if isnan num \<or> isinf num
      then if encode_invalid_numbers cfg = 0
           then Inl (Cannot_serialise ''number'' ''must not be NaN or Infinity'')
           else if encode_invalid_numbers cfg \<noteq> 1 then Inr ''null''
           else Inr (if isnan num then ''NaN'' else if num = Inf True then ''-Infinity'' else ''Infinity'')
      else case fpconv_g_fmt (dtoa env num (encode_number_precision cfg)) (encode_number_precision cfg) of
             None \<Rightarrow> Inl (Sb Out_of_bounds) | Some txt \<Rightarrow> Inr txt)"

text \<open>A key that can be an array index.\<close>

definition array_key :: "lua \<Rightarrow> int option" where
  "array_key k = (case k of
       LNum (Num q) \<Rightarrow> if of_int \<lfloor>q\<rfloor> = q \<and> 1 \<le> q then Some \<lfloor>q\<rfloor> else None | _ \<Rightarrow> None)"

text \<open>The number of elements of a table that is printed as an array, 0 for an object: all keys are array
  indices and the largest is not out of proportion to their number.\<close>

definition array_size :: "json_config_t \<Rightarrow> (lua \<times> lua) list \<Rightarrow> json_fault + int" where
  "array_size cfg kvs =
     (if list_all (\<lambda>(k, _). array_key k \<noteq> None) kvs
      then let m = foldl max 0 (map (the \<circ> array_key \<circ> fst) kvs); r = encode_sparse_ratio cfg
           in if 0 < r \<and> int (length kvs) * r < m \<and> encode_sparse_safe cfg < m
              then if encode_sparse_convert cfg = 0
                   then Inl (Cannot_serialise ''table'' ''excessively sparse array'') else Inr 0
              else Inr m
      else Inr 0)"

definition commas :: "char list list \<Rightarrow> char list" where
  "commas ts = (case ts of [] \<Rightarrow> [] | t # ts' \<Rightarrow> t @ concat (map (\<lambda>u. CHR '','' # u) ts'))"

definition print_key :: "json_env \<Rightarrow> json_config_t \<Rightarrow> lua \<Rightarrow> json_fault + char list" where
  "print_key env cfg k = (case k of
       LNum num \<Rightarrow> rbind (print_number env cfg num) (\<lambda>t. Inr (CHR 0x22 # t @ [CHR 0x22, CHR '':'']))
     | LStr str \<Rightarrow> Inr (print_string str @ [CHR '':''])
     | _ \<Rightarrow> Inl (Cannot_serialise (lua_typename k) ''table key must be a number or string''))"

function print_value :: "json_env \<Rightarrow> json_config_t \<Rightarrow> int \<Rightarrow> lua \<Rightarrow> json_fault + char list" where
  "print_value env cfg depth v = (case v of
       LStr str \<Rightarrow> Inr (print_string str)
     | LNum num \<Rightarrow> print_number env cfg num
     | LBool b \<Rightarrow> Inr (if b then ''true'' else ''false'')
     | LTable kvs \<Rightarrow>
         if depth + 1 \<le> encode_max_depth cfg \<and> checkstack env (depth + 1)
         then rbind (array_size cfg kvs) (\<lambda>n.
           if 0 < n
           then rbind (map_res (\<lambda>i. print_value env cfg (depth + 1) (lua_rawgeti kvs i)) [1..n])
                  (\<lambda>ts. Inr (CHR ''['' # commas ts @ [CHR '']'']))
           else rbind (map_res (\<lambda>kv. rbind (print_key env cfg (fst kv)) (\<lambda>t.
                         rbind (print_value env cfg (depth + 1) (snd kv)) (\<lambda>u. Inr (t @ u)))) kvs)
                  (\<lambda>ts. Inr (CHR ''{'' # commas ts @ [CHR ''}''])))
         else Inl (Excessive_nesting (depth + 1))
     | LNil \<Rightarrow> Inr ''null''
     | LLight null \<Rightarrow>
         if null then Inr ''null'' else Inl (Cannot_serialise (lua_typename v) ''type not supported'')
     | LOther _ \<Rightarrow> Inl (Cannot_serialise (lua_typename v) ''type not supported''))"
  by pat_completeness auto
termination
proof (relation "measure (\<lambda>(_, _, _, v). size v)", goal_cases)
  case (3 env cfg depth v kvs n kv t)
  have "size (snd kv) < size (LTable kvs)" if "kv \<in> set kvs" for kv and kvs :: "(lua \<times> lua) list"
    using that by (induction kvs) auto
  with 3 show ?case by simp
qed (use lua_rawgeti_size in auto)

declare print_value.simps [simp del]


subsection \<open>Refinement\<close>

text \<open>The faults of the environment: no memory, or sizes beyond the range of \<open>int\<close>.\<close>

definition env_fault :: "json_fault \<Rightarrow> bool" where
  "env_fault e \<longleftrightarrow> e = Sb (Die ''Out of memory'') \<or> e = Sb Signed_overflow"

text \<open>A result of the code against a result of the specification: the buffer has grown by the printed text, or the same
  error is raised and a buffer that is kept stays well formed, or the environment failed.\<close>

definition prints ::
  "json_config_t \<Rightarrow> strbuf_t \<Rightarrow> json_fault + char list \<Rightarrow> strbuf_t enc_result \<Rightarrow> bool" where
  "prints cfg s p r = (case r of
       Inr s' \<Rightarrow> (\<exists>t. p = Inr t \<and> sb_inv s' \<and> content s' = content s @ t \<and> same_mode s' s)
     | Inl (e, s') \<Rightarrow> env_fault e \<or>
         p = Inl e \<and> (encode_keep_buffer cfg \<noteq> 0 \<longrightarrow> sb_inv s' \<and> same_mode s' s))"

lemma prints_bind:
  assumes "prints cfg s p r"
    and "\<And>s' t. sb_inv s' \<Longrightarrow> p = Inr t \<Longrightarrow> prints cfg s' (q t) (f s')"
  shows "prints cfg s (rbind p (\<lambda>t. rbind (q t) (\<lambda>u. Inr (t @ u)))) (rbind r f)"
proof (cases r)
  case (Inl e)
  with assms(1) show ?thesis by (auto simp: prints_def)
next
  case (Inr s')
  with assms(1) obtain t where t: "p = Inr t" "sb_inv s'" "content s' = content s @ t" "same_mode s' s"
    by (auto simp: prints_def)
  from assms(2) [OF t(2,1)] t show ?thesis
    unfolding Inr by (auto simp: prints_def split: sum.splits)
qed

lemma prints_grown:
  assumes "grown al s n xs r"
  shows "prints cfg s (Inr xs) (sbr s r)"
  using assms by (auto simp: prints_def sbr_def grown_def env_fault_def split: sum.splits)

lemma prints_char: "sb_inv s \<Longrightarrow> prints cfg s (Inr [c]) (sbr s (strbuf_append_char al s c))"
  by (rule prints_grown [OF strbuf_append_char_grown])

lemma prints_mem:
  "sb_inv s \<Longrightarrow> int (length t) = n \<Longrightarrow> prints cfg s (Inr t) (sbr s (strbuf_append_mem al s t n))"
  by (rule prints_grown [OF strbuf_append_mem_grown])

lemma prints_exception:
  "sb_inv s \<Longrightarrow> t = lua_typename v \<Longrightarrow>
     prints cfg s (Inl (Cannot_serialise t m)) (json_encode_exception cfg s v m)"
  by (simp add: prints_def json_encode_exception_def release_def)


subsubsection \<open>Strings\<close>

text \<open>Every escape sequence is short and contains no terminator.\<close>

lemma char2escape_table_ok:
  "length char2escape_table = 256 \<and>
   list_all (\<lambda>e. case e of None \<Rightarrow> True | Some t \<Rightarrow> length t \<le> 6 \<and> NUL \<notin> set t) char2escape_table"
  by code_simp

lemma char2escape_Some: "char2escape c = Some e \<Longrightarrow> length e \<le> 6 \<and> NUL \<notin> set e"
proof -
  assume a: "char2escape c = Some e"
  have "of_char c < (256::nat)" by (rule nat_of_char_less_256)
  then have "(case char2escape c of None \<Rightarrow> True | Some t \<Rightarrow> length t \<le> 6 \<and> NUL \<notin> set t)"
    using char2escape_table_ok by (simp add: char2escape_def list_all_length)
  with a show ?thesis by simp
qed

interpretation esc_sink: bounded_sink sb_inv content strbuf_empty_length
  "\<lambda>s. (increment s, dynamic s)" esc "json_append_escaped env" for env
proof
  fix s :: strbuf_t and c :: char
  assume s: "sb_inv s" "int (length (esc c)) \<le> strbuf_empty_length s"
  show "\<exists>s'. json_append_escaped env s c = Inr s' \<and> sb_inv s' \<and> content s' = content s @ esc c \<and>
    strbuf_empty_length s' = strbuf_empty_length s - int (length (esc c)) \<and>
    (increment s', dynamic s') = (increment s, dynamic s)"
  proof (cases "char2escape c")
    case None
    then show ?thesis using char_sink.put_room [OF s(1), of c] s(2) by (simp add: json_append_escaped_def esc_def)
  next
    case (Some e)
    then show ?thesis
      using strbuf_append_string_room [OF s(1), of e "alloc env"] char2escape_Some [OF Some] s(2)
      by (simp add: json_append_escaped_def esc_def)
  qed
qed

lemma json_append_string_grown:
  assumes inv: "sb_inv s" and len: "int (length str) * 6 + 2 \<le> INT_MAX"
  shows "grown (alloc env) s (int (length str) * 6 + 2) (print_string str) (json_append_string env s str)"
proof -
  let ?n = "int (length str) * 6 + 2"
  have n: "to_c_int (?n mod 18446744073709551616) = ?n" using len by (simp add: to_c_int_id)
  show ?thesis
    unfolding json_append_string_def n
  proof (rule grown_bind)
    show "grown (alloc env) s ?n [] (strbuf_ensure_empty_length (alloc env) s ?n)"
      by (rule strbuf_ensure_empty_length_grow(1) [OF inv]) simp
  next
    fix s' assume e: "strbuf_ensure_empty_length (alloc env) s ?n = Inr s'" and s': "sb_inv s'"
    have room: "?n \<le> strbuf_empty_length s'"
      using strbuf_ensure_empty_length_grow(2) [OF inv _ e] by simp
    then obtain s2 where s2: "strbuf_append_char_unsafe s' (CHR 0x22) = Inr s2" "sb_inv s2"
      "content s2 = content s' @ [CHR 0x22]" "strbuf_empty_length s2 = strbuf_empty_length s' - 1"
      "same_mode s2 s'"
      using char_sink.put_room [OF s', of "CHR 0x22"] by auto
    have "length (esc c) \<le> 6" for c
      using char2escape_Some [of c] by (auto simp: esc_def split: option.splits)
    then obtain s3 where s3: "fold_res (json_append_escaped env) s2 str = Inr s3" "sb_inv s3"
      "content s3 = content s2 @ concat (map esc str)" "1 \<le> strbuf_empty_length s3" "same_mode s3 s2"
      using esc_sink.put_bounded [OF s2(2), of str 6 env] room s2(4) by auto
    from char_sink.put_room [OF s3(2), of "CHR 0x22"] s3 s2
    show "\<exists>s''. rbind (strbuf_append_char_unsafe s' (CHR 0x22)) (\<lambda>s2. rbind (fold_res (json_append_escaped env) s2 str)
        (\<lambda>s3. strbuf_append_char_unsafe s3 (CHR 0x22))) = Inr s'' \<and> sb_inv s'' \<and>
        content s'' = content s' @ print_string str \<and> same_mode s'' s'"
      by (auto simp: print_string_def)
  qed
qed


subsubsection \<open>Numbers\<close>

definition env_ok :: "json_env \<Rightarrow> bool" where
  "env_ok env \<longleftrightarrow> (\<forall>x p. 1 \<le> p \<and> p \<le> 14 \<longrightarrow> decimal_small (dtoa env x p))"

lemma json_append_number_prints:
  assumes inv: "sb_inv s" and env: "env_ok env"
    and p: "1 \<le> encode_number_precision cfg" "encode_number_precision cfg \<le> 14"
  shows "prints cfg s (print_number env cfg num) (json_append_number env cfg s num)"
proof -
  let ?p = "encode_number_precision cfg"
  define fin where "fin = rbind (sbr s (strbuf_ensure_empty_length (alloc env) s 32)) (\<lambda>s1.
      case fpconv_g_fmt (dtoa env num ?p) ?p of
        None \<Rightarrow> Inl (Sb Out_of_bounds, s1)
      | Some t \<Rightarrow> sbr s1 (rbind (poke_mem s1 (sb_len s1) (t @ [NUL])) (\<lambda>s2.
          strbuf_extend_length s2 (int (length t)))))"
  from g_fmt_bounded [of "dtoa env num ?p" ?p] env p obtain t where
    tx: "fpconv_g_fmt (dtoa env num ?p) ?p = Some t" "length t + 1 \<le> 32"
    by (auto simp: env_ok_def)
  have f: "prints cfg s (Inr t) fin"
  proof (cases "strbuf_ensure_empty_length (alloc env) s 32")
    case (Inl e)
    with strbuf_ensure_empty_length_grow(1) [OF inv, of 32 "alloc env"] show ?thesis
      by (auto simp: fin_def sbr_def prints_def grown_def env_fault_def)
  next
    case (Inr s1)
    with strbuf_ensure_empty_length_grow [OF inv, of 32 "alloc env"] have
      s1: "sb_inv s1" "content s1 = content s" "same_mode s1 s" "32 \<le> strbuf_empty_length s1"
      by (auto simp: grown_Inr)
    have "int (length t) < 32" "32 \<le> sb_size s1 - sb_len s1" "int (length t) \<le> INT_MAX"
      using tx(2) s1(4) by (auto simp: strbuf_empty_length_def)
    with vsnprintf_complete [OF s1(1), of t 32] obtain s2 s3 where
      "poke_mem s1 (sb_len s1) (t @ [NUL]) = Inr s2" "strbuf_extend_length s2 (int (length t)) = Inr s3"
      "sb_inv s3" "content s3 = content s1 @ t" "same_mode s3 s1"
      by (auto simp: vsnprintf_def vsnprintf_stored_def rbind_eq_Inr)
    with Inr tx(1) s1 show ?thesis by (simp add: fin_def sbr_def prints_def)
  qed
  have "prints cfg s (Inl (Cannot_serialise ''number'' ''must not be NaN or Infinity''))
      (json_encode_exception cfg s (LNum num) ''must not be NaN or Infinity'')"
    by (rule prints_exception [OF inv]) simp
  moreover have "isnan num \<Longrightarrow> \<not> isinf num" by (auto simp: isnan_def isinf_def)
  ultimately show ?thesis
    unfolding print_number_def json_append_number_def Let_def fin_def [symmetric]
    using f tx(1) by (auto simp: inv intro!: prints_mem)
qed


subsubsection \<open>Containers\<close>

lemma array_scan_Inr:
  "array_scan kvs mx items = Inr r \<Longrightarrow> r =
     (if list_all (\<lambda>(k, _). array_key k \<noteq> None) kvs
      then Some (foldl max mx (map (the \<circ> array_key \<circ> fst) kvs), items + int (length kvs)) else None)"
proof (induction kvs arbitrary: mx items)
  case (Cons kv kvs)
  obtain key v where kv: "kv = (key, v)" by (cases kv)
  show ?case
  proof (cases "array_key key")
    case None
    with Cons.prems show ?thesis
      by (auto simp: kv array_key_def elim!: array_scan.elims split: if_splits)
  next
    case (Some i)
    then obtain q where q: "key = LNum (Num q)" "of_int \<lfloor>q\<rfloor> = q" "1 \<le> q" "i = \<lfloor>q\<rfloor>"
      by (auto simp: array_key_def split: lua.splits double.splits if_splits)
    have "of_int mx < q \<longleftrightarrow> mx < i" using q by (metis of_int_less_iff)
    with q Cons.prems have "array_scan kvs (max mx i) (items + 1) = Inr r"
      by (auto simp: kv rbind_eq_Inr c_int_def max_def split: if_splits)
    from Cons.IH [OF this] Some show ?thesis by (simp add: kv comp_def)
  qed
qed simp

lemma array_scan_Inl: "array_scan kvs mx items = Inl f \<Longrightarrow> f = Signed_overflow"
  by (induction kvs mx items arbitrary: f rule: array_scan.induct)
    (auto simp: rbind_eq_Inl c_int_def split: if_splits)

lemma foldl_max_ge: "mx \<le> foldl max mx (xs :: int list)"
proof (induction xs arbitrary: mx)
  case (Cons x xs)
  from Cons.IH [of "max mx x"] show ?case by simp
qed simp

text \<open>The array length against its specification.\<close>

lemma lua_array_length_spec:
  "case lua_array_length cfg s kvs of
     Inr n \<Rightarrow> array_size cfg kvs = Inr (max 0 n)
   | Inl (e, s') \<Rightarrow> env_fault e \<or> array_size cfg kvs = Inl e \<and> s' = release cfg s"
proof (cases "array_scan kvs 0 0")
  case (Inl f)
  then show ?thesis by (auto simp: lua_array_length_def sbr_def env_fault_def dest: array_scan_Inl)
next
  case (Inr r)
  note r = array_scan_Inr [OF Inr]
  let ?m = "foldl max 0 (map (the \<circ> array_key \<circ> fst) kvs)"
  show ?thesis
  proof (cases "list_all (\<lambda>(k, _). array_key k \<noteq> None) kvs")
    case False
    with Inr r show ?thesis by (simp add: lua_array_length_def sbr_def array_size_def)
  next
    case True
    have "max 0 ?m = ?m" using foldl_max_ge [of 0] by (simp add: max_def)
    with Inr r True show ?thesis
      by (auto simp: lua_array_length_def sbr_def array_size_def c_int_def env_fault_def Let_def
          json_encode_exception_def split: sum.splits if_splits)
  qed
qed

definition join :: "bool \<Rightarrow> char list list \<Rightarrow> char list" where
  "join c ts = (if c then concat (map (\<lambda>u. CHR '','' # u) ts) else commas ts)"

lemma join_simps [simp]:
  "join c [] = []" "join c (t # ts) = (if c then [CHR '','' ] else []) @ t @ join True ts"
  by (auto simp: join_def commas_def)

text \<open>The loops of \<open>json_append_array\<close> and \<open>json_append_object\<close>: separated elements, then the closing
  bracket.\<close>

lemma loop_prints:
  assumes "sb_inv s"
    and "\<And>x s. x \<in> set xs \<Longrightarrow> sb_inv s \<Longrightarrow> prints cfg s (p x) (body s x)"
  shows "prints cfg s (rbind (map_res p xs) (\<lambda>ts. Inr (join c ts @ [b])))
    (rbind (fold_res (\<lambda>(s, comma) x. rbind (append_comma env s comma)
        (\<lambda>s'. rbind (body s' x) (\<lambda>s''. Inr (s'', True)))) (s, c) xs)
      (\<lambda>(s2, _). sbr s2 (strbuf_append_char (alloc env) s2 b)))"
  using assms
proof (induction xs arbitrary: s c)
  case Nil
  then show ?case by (simp add: prints_char)
next
  case (Cons x xs)
  let ?sep = "if c then [CHR '',''] else []"
  let ?rest = "\<lambda>s''. rbind (fold_res (\<lambda>(s, comma) x. rbind (append_comma env s comma)
        (\<lambda>s'. rbind (body s' x) (\<lambda>s''. Inr (s'', True)))) (s'', True) xs)
      (\<lambda>(s2, _). sbr s2 (strbuf_append_char (alloc env) s2 b))"
  have "prints cfg s (Inr ?sep) (append_comma env s c)"
    using Cons.prems(1) prints_char [of s] by (cases c) (simp_all add: append_comma_def prints_def)
  then have "prints cfg s (rbind (Inr ?sep) (\<lambda>t. rbind
        (rbind (p x) (\<lambda>t. rbind (rbind (map_res p xs) (\<lambda>ts. Inr (join True ts @ [b]))) (\<lambda>u. Inr (t @ u))))
        (\<lambda>u. Inr (t @ u)))) (rbind (append_comma env s c) (\<lambda>s'. rbind (body s' x) ?rest))"
  proof (rule prints_bind)
    fix s' assume s': "sb_inv s'"
    show "prints cfg s' (rbind (p x) (\<lambda>t. rbind (rbind (map_res p xs) (\<lambda>ts. Inr (join True ts @ [b])))
        (\<lambda>u. Inr (t @ u)))) (rbind (body s' x) ?rest)"
      using Cons.prems(2) [of x s'] s' Cons.IH [of _ True] Cons.prems(2) by (intro prints_bind) auto
  qed
  then show ?case by (simp add: rbind_assoc)
qed


subsubsection \<open>Values\<close>

text \<open>The strings for which the worst case of the encoding fits an \<open>int\<close>.\<close>

fun short_strings :: "lua \<Rightarrow> bool" where
  "short_strings (LStr str) = (int (length str) * 6 + 2 \<le> INT_MAX)"
| "short_strings (LTable kvs) = (\<forall>kv\<in>set kvs. short_strings (fst kv) \<and> short_strings (snd kv))"
| "short_strings _ = True"

lemma short_strings_rawgeti: "short_strings (LTable kvs) \<Longrightarrow> short_strings (lua_rawgeti kvs i)"
  by (induction kvs) auto

lemma json_append_key_prints:
  assumes "sb_inv s" "env_ok env" "short_strings k"
    and "1 \<le> encode_number_precision cfg" "encode_number_precision cfg \<le> 14"
  shows "prints cfg s (print_key env cfg k) (json_append_key env cfg s k)"
proof (cases k)
  case (LNum num)
  have "prints cfg s (rbind (Inr [CHR 0x22]) (\<lambda>t. rbind (rbind (print_number env cfg num)
        (\<lambda>t. rbind (Inr [CHR 0x22, CHR '':'']) (\<lambda>u. Inr (t @ u)))) (\<lambda>u. Inr (t @ u))))
      (json_append_key env cfg s k)"
    unfolding LNum json_append_key_def lua.case
    using assms by (intro prints_bind prints_char json_append_number_prints prints_mem) auto
  then show ?thesis by (simp add: LNum print_key_def rbind_assoc)
next
  case (LStr str)
  have "prints cfg s (rbind (Inr (print_string str)) (\<lambda>t. rbind (Inr [CHR '':'']) (\<lambda>u. Inr (t @ u))))
      (json_append_key env cfg s k)"
    unfolding LStr json_append_key_def lua.case
    using assms LStr by (intro prints_bind prints_char prints_grown [OF json_append_string_grown]) auto
  then show ?thesis by (simp add: LStr print_key_def)
qed (use assms(1) in \<open>auto simp: print_key_def json_append_key_def intro!: prints_exception\<close>)

lemma json_append_data_prints:
  assumes env: "env_ok env" and p: "1 \<le> encode_number_precision cfg" "encode_number_precision cfg \<le> 14"
  shows "sb_inv s \<Longrightarrow> short_strings v \<Longrightarrow>
    prints cfg s (print_value env cfg depth v) (json_append_data env cfg depth s v)"
proof (induction v arbitrary: s depth rule: measure_induct_rule [of size])
  case (less v)
  note simps = json_append_data.simps [of env cfg depth s] print_value.simps [of env cfg depth]
  show ?case
  proof (cases v)
    case (LTable kvs)
    have IH: "prints cfg s (print_value env cfg (depth + 1) x) (json_append_data env cfg (depth + 1) s x)"
      if "size x < size (LTable kvs)" "short_strings x" "sb_inv s" for x s
      using less.IH [of x s "depth + 1"] that LTable by simp
    have elems: "size x < size (LTable kvs)" if "(k, x) \<in> set kvs" for k x
      using that by (induction kvs) auto
    show ?thesis
    proof (cases "depth + 1 \<le> encode_max_depth cfg \<and> checkstack env (depth + 1)")
      case False
      with less.prems show ?thesis
        by (auto simp: simps LTable json_check_encode_depth_def prints_def release_def)
    next
      case True
      note len = lua_array_length_spec [where cfg = cfg and s = s and kvs = kvs]
      show ?thesis
      proof (cases "lua_array_length cfg s kvs")
        case (Inl e)
        with len True less.prems show ?thesis
          by (cases e) (auto simp: simps LTable json_check_encode_depth_def prints_def release_def)
      next
        case (Inr n)
        with len have n: "array_size cfg kvs = Inr (max 0 n)" by simp
        show ?thesis
        proof (cases "0 < n")
          case pos: True
          have "prints cfg s (rbind (Inr [CHR ''['']) (\<lambda>t. rbind
              (rbind (map_res (\<lambda>i. print_value env cfg (depth + 1) (lua_rawgeti kvs i)) [1..n])
                (\<lambda>ts. Inr (join False ts @ [CHR '']'']))) (\<lambda>u. Inr (t @ u))))
            (json_append_array env (\<lambda>s x. json_append_data env cfg (depth + 1) s x) s kvs n)"
            unfolding json_append_array_def
            using less.prems LTable lua_rawgeti_size short_strings_rawgeti
            by (intro prints_bind prints_char loop_prints IH) auto
          then show ?thesis
            using pos True Inr n
            by (simp add: simps LTable json_check_encode_depth_def rbind_assoc join_def)
        next
          case neg: False
          have sp: "(\<lambda>(s, comma) (k, v). rbind (append_comma env s comma) (\<lambda>s'.
              rbind (json_append_key env cfg s' k) (\<lambda>s''.
              rbind (json_append_data env cfg (depth + 1) s'' v) (\<lambda>s3. Inr (s3, True))))) =
            (\<lambda>(s, comma) kv. rbind (append_comma env s comma) (\<lambda>s'.
              rbind ((\<lambda>s' kv. rbind (json_append_key env cfg s' (fst kv)) (\<lambda>s''.
                 json_append_data env cfg (depth + 1) s'' (snd kv))) s' kv) (\<lambda>s3. Inr (s3, True))))"
            by (auto simp: fun_eq_iff rbind_assoc)
          have key: "prints cfg s (rbind (print_key env cfg (fst kv)) (\<lambda>t.
                rbind (print_value env cfg (depth + 1) (snd kv)) (\<lambda>u. Inr (t @ u))))
              (rbind (json_append_key env cfg s (fst kv)) (\<lambda>s''. json_append_data env cfg (depth + 1) s'' (snd kv)))"
            if "kv \<in> set kvs" "sb_inv s" for kv s
            using that less.prems LTable elems [of "fst kv" "snd kv"] env p
            by (intro prints_bind json_append_key_prints IH) auto
          have "prints cfg s (rbind (Inr [CHR ''{'']) (\<lambda>t. rbind
              (rbind (map_res (\<lambda>kv. rbind (print_key env cfg (fst kv)) (\<lambda>t.
                  rbind (print_value env cfg (depth + 1) (snd kv)) (\<lambda>u. Inr (t @ u)))) kvs)
                (\<lambda>ts. Inr (join False ts @ [CHR ''}'']))) (\<lambda>u. Inr (t @ u))))
            (json_append_object env cfg (\<lambda>s x. json_append_data env cfg (depth + 1) s x) s kvs)"
            unfolding json_append_object_def sp
            using less.prems(1) by (intro prints_bind prints_char loop_prints key) auto
          then show ?thesis
            using neg True Inr n
            by (simp add: simps LTable json_check_encode_depth_def rbind_assoc join_def)
        qed
      qed
    qed
  next
    case (LStr str)
    with less.prems show ?thesis
      by (auto simp: simps intro!: prints_grown [OF json_append_string_grown])
  qed (use less.prems env p in
       \<open>auto simp: simps intro!: prints_mem json_append_number_prints prints_exception\<close>)
qed


subsection \<open>Encoding\<close>

text \<open>The start of both entry points: an empty, well-formed buffer.\<close>

lemma start_buffer:
  assumes "cfg_inv cfg"
    and "(if encode_keep_buffer cfg = 0 then strbuf_init (alloc env) 0 else Inr (strbuf_reset (encode_buf cfg))) = Inr s"
  shows "sb_inv s \<and> content s = [] \<and> increment s = STRBUF_DEFAULT_INCREMENT \<and> dynamic s = 0"
proof (cases "encode_keep_buffer cfg = 0")
  case True
  with assms(2) strbuf_init_Inr [of "alloc env" 0 s] show ?thesis by simp
next
  case False
  with assms show ?thesis
    by (auto simp: cfg_inv_def strbuf_reset_def sb_inv_def content_def split: option.splits)
qed

lemma push_text_content: "sb_inv s \<Longrightarrow> push_text (strbuf_string s) = Inr (content s)"
  by (auto simp: push_text_def strbuf_string_def sb_inv_def content_def split: option.splits)

lemma json_encode_spec:
  assumes inv: "cfg_inv cfg" and env: "env_ok env" and v: "short_strings v"
  shows "(\<exists>e. fst (json_encode env cfg [v]) = Inl e \<and> env_fault e) \<or>
    fst (json_encode env cfg [v]) = print_value env cfg 0 v \<and> cfg_inv (snd (json_encode env cfg [v]))"
proof -
  define start where "start = (if encode_keep_buffer cfg = 0 then strbuf_init (alloc env) 0
    else Inr (strbuf_reset (encode_buf cfg)))"
  have p: "1 \<le> encode_number_precision cfg" "encode_number_precision cfg \<le> 14"
    using inv by (auto simp: cfg_inv_def)
  show ?thesis
  proof (cases start)
    case (Inl f)
    then have "strbuf_init (alloc env) 0 = Inl f" by (auto simp: start_def split: if_splits)
    then have "f = Die ''Out of memory''"
      by (auto simp: strbuf_init_def malloc_buf_def strbuf_ensure_null_def poke_def rbind_eq_Inl Let_def
          split: if_splits)
    with Inl show ?thesis by (auto simp: json_encode_def start_def env_fault_def)
  next
    case (Inr s)
    with start_buffer [OF inv, of env s] have s: "sb_inv s" "content s = []"
      "increment s = STRBUF_DEFAULT_INCREMENT" "dynamic s = 0" by (auto simp: start_def)
    note pr = json_append_data_prints [OF env p s(1) v, of 0]
    have eq: "json_encode env cfg [v] = (case json_append_data env cfg 0 s v of
        Inl (e, s') \<Rightarrow> (Inl e, if encode_keep_buffer cfg = 0 then cfg else cfg\<lparr>encode_buf := s'\<rparr>)
      | Inr s' \<Rightarrow> (case push_text (strbuf_string s') of Inl f \<Rightarrow> Inl (Sb f) | Inr t \<Rightarrow> Inr t,
          if encode_keep_buffer cfg = 0 then cfg else cfg\<lparr>encode_buf := s'\<rparr>))"
      using Inr by (simp add: json_encode_def start_def)
    have keep: "cfg_inv (if encode_keep_buffer cfg = 0 then cfg else cfg\<lparr>encode_buf := s'\<rparr>)"
      if "encode_keep_buffer cfg \<noteq> 0 \<longrightarrow> sb_inv s' \<and> same_mode s' s" for s'
      using that inv s by (auto simp: cfg_inv_def)
    show ?thesis
      using pr s(2) keep
      by (auto simp: eq prints_def push_text_content split: sum.splits)
  qed
qed

text \<open>C5: The encoder refines the printer. Whatever the configuration and the value, with strings short
  enough for the reservation to fit an \<open>int\<close>, \<open>json_encode\<close> returns exactly the printed text or raises exactly the
  error that the printer reports, unless memory runs out or a size leaves the range of \<open>int\<close>. In particular it
  never writes outside the buffer, although strings and numbers are written without checks.\<close>

theorem json_encode_correct:
  assumes "cfg_inv cfg" "env_ok env" "short_strings v"
  shows "fst (json_encode env cfg [v]) = print_value env cfg 0 v \<or>
    (\<exists>e. fst (json_encode env cfg [v]) = Inl e \<and> env_fault e)"
  using json_encode_spec [OF assms] by blast

definition sample_env :: json_env where
  "sample_env = \<lparr>alloc = (\<lambda>_. True), checkstack = (\<lambda>_. True), dtoa = (\<lambda>_ _. (''15'', 1, False)),
     strtod = (\<lambda>_. (Num (3 / 2), 3)), tointeger = (\<lambda>_. None), num2str = (\<lambda>_. [])\<rparr>"

definition sample_config :: json_config_t where
  "sample_config = (default_config sample)\<lparr>encode_keep_buffer := 1\<rparr>"

lemma sample_config_inv: "cfg_inv sample_config" "env_ok sample_env"
  using sample_inv(1)
  by (auto simp: sample_config_def default_config_def cfg_inv_def sample_env_def env_ok_def decimal_small_def
      sample_def)

theorem json_encode_correct_witness:
  "short_strings (LTable [(lua_int 1, LBool True), (lua_int 2, LStr ''a'')]) \<and>
   (\<exists>r. r = fst (json_encode sample_env sample_config [LTable [(lua_int 1, LBool True), (lua_int 2, LStr ''a'')]]) \<and>
     (r = print_value sample_env sample_config 0 (LTable [(lua_int 1, LBool True), (lua_int 2, LStr ''a'')]) \<or>
      (\<exists>e. r = Inl e \<and> env_fault e)))"
  using json_encode_correct [OF sample_config_inv, of "LTable [(lua_int 1, LBool True), (lua_int 2, LStr ''a'')]"]
  by (simp add: lua_int_def)


subsection \<open>Reachable configurations\<close>

text \<open>The process-wide configuration under any sequence of calls from Lua. A call after which the process has
  ended, or whose behaviour is undefined, has no successor.\<close>

inductive config_step :: "json_env \<Rightarrow> json_config_t \<Rightarrow> json_config_t \<Rightarrow> bool" for env where
  sparse: "json_cfg_encode_sparse_array env cfg args = (r, cfg') \<Longrightarrow> config_step env cfg cfg'"
| encode_depth: "json_cfg_encode_max_depth env cfg args = (r, cfg') \<Longrightarrow> config_step env cfg cfg'"
| decode_depth: "json_cfg_decode_max_depth env cfg args = (r, cfg') \<Longrightarrow> config_step env cfg cfg'"
| precision: "json_cfg_encode_number_precision env cfg args = (r, cfg') \<Longrightarrow> config_step env cfg cfg'"
| keep: "json_cfg_encode_keep_buffer env cfg args = (r, cfg') \<Longrightarrow> survives r \<Longrightarrow> config_step env cfg cfg'"
| invalid: "json_cfg_encode_invalid_numbers cfg args = (r, cfg') \<Longrightarrow> config_step env cfg cfg'"
| dec_invalid: "json_cfg_decode_invalid_numbers cfg args = (r, cfg') \<Longrightarrow> config_step env cfg cfg'"
| encode: "json_encode env cfg args = (r, cfg') \<Longrightarrow> survives r \<Longrightarrow> list_all short_strings args \<Longrightarrow>
    config_step env cfg cfg'"

inductive_cases config_stepE: "config_step env cfg cfg'"

inductive config_reachable :: "json_env \<Rightarrow> json_config_t \<Rightarrow> bool" for env where
  fetch: "json_fetch_config env None = Inr cfg \<Longrightarrow> config_reachable env cfg"
| step: "config_reachable env cfg \<Longrightarrow> config_step env cfg cfg' \<Longrightarrow> config_reachable env cfg'"

lemma json_encode_inv:
  assumes "cfg_inv cfg" "env_ok env" "json_encode env cfg args = (r, cfg')" "survives r" "list_all short_strings args"
  shows "cfg_inv cfg'"
proof (cases "\<exists>v. args = [v]")
  case True
  then obtain v where v: "args = [v]" by blast
  with assms json_encode_spec [OF assms(1,2), of v] show ?thesis
    by (auto simp: survives_def env_fault_def)
next
  case False
  with assms(1,3) show ?thesis by (auto simp: json_encode_def split: list.splits)
qed

lemma config_step_inv:
  assumes "config_step env cfg cfg'" "cfg_inv cfg" "env_ok env"
  shows "cfg_inv cfg'"
  using assms(1)
proof cases
  case (sparse args r)
  then show ?thesis using json_cfg_encode_sparse_array_inv [OF assms(2), of env args] by simp
next
  case (keep args r)
  then show ?thesis using json_cfg_encode_keep_buffer_inv [OF assms(2), of env args] by simp
next
  case (encode args r)
  then show ?thesis using json_encode_inv [OF assms(2,3)] by blast
qed (use json_cfg_simple_inv [OF assms(2)] in \<open>metis snd_conv\<close>)+

text \<open>C24: Whatever sequence of configuration calls and encodings a program makes, succeeding or failing
  with Lua errors, the shared configuration stays well formed: every setting in its range, the buffer
  allocated and well formed exactly while it is kept.\<close>

theorem config_reachable_inv:
  assumes "config_reachable env cfg" "env_ok env"
  shows "cfg_inv cfg"
  using assms(1)
proof induction
  case (fetch cfg)
  then show ?case
    by (auto simp: json_fetch_config_def rbind_eq_Inr default_config_inv split: if_splits)
next
  case (step cfg cfg')
  then show ?case using config_step_inv assms(2) by blast
qed

theorem config_reachable_inv_witness:
  "\<exists>cfg. config_reachable sample_env cfg \<and> encode_keep_buffer cfg = 0 \<and> cfg_inv cfg"
proof -
  obtain b where b: "strbuf_init (alloc sample_env) 0 = Inr b"
    by (simp add: sample_env_def strbuf_init_def malloc_buf_def strbuf_ensure_null_def poke_def)
  have f: "json_fetch_config sample_env None = Inr (default_config b)"
    using b by (simp add: json_fetch_config_def sample_env_def)
  obtain r cfg' where k: "json_cfg_encode_keep_buffer sample_env (default_config b) [LBool False] = (r, cfg')"
    "survives r" "encode_keep_buffer cfg' = 0"
    using strbuf_init_Inr [OF b]
    by (auto simp: json_cfg_encode_keep_buffer_def json_arg_init_def json_enum_option_def default_config_def
        strbuf_free_def survives_def Let_def)
  have "config_reachable sample_env cfg'"
    using config_reachable.step [OF config_reachable.fetch [OF f] config_step.keep [OF k(1,2)]] .
  with config_reachable_inv [OF this sample_config_inv(2)] k(3) show ?thesis by blast
qed


subsection \<open>Two defects\<close>

lemma append_char_unsafe_full:
  assumes "buf s = Some b" "int (length b) \<le> sb_len s"
  shows "strbuf_append_char_unsafe s c = Inl Out_of_bounds"
proof -
  have "\<not> nat (sb_len s) < length b" using assms(2) by linarith
  with assms(1) show ?thesis by (simp add: strbuf_append_char_unsafe_def poke_def)
qed

text \<open>Unchecked writes of more bytes than the allocation has left fail.\<close>

lemma append_chars_overrun:
  "buf s = Some b \<Longrightarrow> 0 \<le> sb_len s \<Longrightarrow> sb_len s \<le> int (length b) \<Longrightarrow> int (length b) \<le> INT_MAX \<Longrightarrow>
     int (length b) < sb_len s + int (length str) \<Longrightarrow>
     fold_res strbuf_append_char_unsafe s str = Inl Out_of_bounds"
proof (induction str arbitrary: s b)
  case (Cons c cs)
  show ?case
  proof (cases "sb_len s = int (length b)")
    case True
    with Cons.prems show ?thesis by (simp add: append_char_unsafe_full)
  next
    case False
    then have l: "nat (sb_len s) < length b" using Cons.prems by linarith
    let ?s = "s\<lparr>buf := Some (b[nat (sb_len s) := Some c]), sb_len := sb_len s + 1\<rparr>"
    have "strbuf_append_char_unsafe s c = Inr ?s"
      using Cons.prems False l by (simp add: strbuf_append_char_unsafe_def poke_def strbuf_extend_length_def)
    moreover have "fold_res strbuf_append_char_unsafe ?s cs = Inl Out_of_bounds"
      using Cons.prems False by (intro Cons.IH [of ?s "b[nat (sb_len s) := Some c]"]) auto
    ultimately show ?thesis by simp
  qed
qed simp

text \<open>A string of 357913941 to 715827882 characters overruns the buffer. The worst case of six bytes per character is
  computed as a \<open>size_t\<close> but passed as an \<open>int\<close>, where it is negative, so nothing is reserved, and characters that
  need no escape are then stored without a check.\<close>

theorem json_append_string_overrun:
  assumes inv: "sb_inv s" and len: "357913941 \<le> length str" "length str \<le> 715827882"
    and plain: "\<forall>c\<in>set str. char2escape c = None" and room: "strbuf_empty_length s < int (length str)"
  shows "json_append_string env s str = Inl Out_of_bounds"
proof -
  from inv obtain b where b: "buf s = Some b" "int (length b) = sb_size s" "0 \<le> sb_len s" "sb_len s < sb_size s"
    "sb_size s \<le> INT_MAX" by (auto elim!: sb_invE)
  let ?n = "int (length str) * 6 + 2"
  have "?n mod 18446744073709551616 = ?n" using len by simp
  moreover have "to_c_int ?n = ?n - 4294967296"
    using len minus_mod_self2 [of "?n + 2147483648" "4294967296"] by (simp add: to_c_int_def)
  ultimately have neg: "to_c_int (?n mod 18446744073709551616) < 0" using len by simp
  then have ens: "strbuf_ensure_empty_length (alloc env) s (to_c_int (?n mod 18446744073709551616)) = Inr s"
    using b(4) by (simp add: strbuf_ensure_empty_length_def strbuf_empty_length_def)
  have esc: "fold_res (json_append_escaped env) s' str = fold_res strbuf_append_char_unsafe s' str" for s'
    using plain by (intro fold_res_cong refl) (simp add: json_append_escaped_def)
  have "json_append_string env s str = rbind (fold_res strbuf_append_char_unsafe s (CHR 0x22 # str))
      (\<lambda>s3. strbuf_append_char_unsafe s3 (CHR 0x22))"
    unfolding json_append_string_def ens by (simp add: esc rbind_assoc)
  also have "fold_res strbuf_append_char_unsafe s (CHR 0x22 # str) = Inl Out_of_bounds"
    using b room by (intro append_chars_overrun [of s b]) (auto simp: strbuf_empty_length_def)
  finally show ?thesis by simp
qed

theorem json_append_string_overrun_witness:
  "\<exists>str. length str = 400000000 \<and> json_append_string sample_env sample str = Inl Out_of_bounds"
proof -
  define str where "str = replicate 400000000 CHR ''a''"
  have n: "length str = 400000000" unfolding str_def by (rule length_replicate)
  have "char2escape CHR ''a'' = None" by (simp add: char2escape_def char2escape_table_def)
  moreover have "set str \<subseteq> {CHR ''a''}" unfolding str_def by (rule set_replicate_conv_if [THEN equalityD1, THEN subset_trans]) auto
  ultimately have p: "\<forall>c\<in>set str. char2escape c = None" by auto
  have "json_append_string sample_env sample str = Inl Out_of_bounds"
    by (rule json_append_string_overrun [OF sample_inv(1) _ _ p])
      (simp_all add: n, simp add: sample_def strbuf_empty_length_def)
  with n show ?thesis by blast
qed

text \<open>\<open>arken::json::encode\<close> takes the length of the text with \<open>strlen\<close>, but nothing terminates the text in
  the buffer: for a boolean in a fresh buffer it reads uninitialised memory.\<close>

theorem arken_json_encode_unterminated:
  assumes "encode_keep_buffer cfg = 0" "\<forall>n. alloc env n"
  shows "fst (arken_json_encode env cfg (LBool x)) = Inl (Sb Out_of_bounds)"
proof -
  let ?t = "if x then ''true'' else ''false''"
  let ?s = "\<lparr>buf = Some (Some NUL # replicate 1022 None), sb_size = 1023, sb_len = 0, increment = - 2,
    dynamic = 0, reallocs = 0, debug = 0\<rparr>"
  have init: "strbuf_init (alloc env) 0 = Inr ?s"
    using assms(2) by (simp add: strbuf_init_def malloc_buf_def strbuf_ensure_null_def poke_def numeral_eq_Suc)
  obtain s' bs where s': "strbuf_append_mem (alloc env) ?s ?t (int (length ?t)) = Inr s'"
      "buf s' = Some (map Some ?t @ None # bs)"
    by (cases x) (auto simp: strbuf_append_mem_def strbuf_ensure_empty_length_def strbuf_empty_length_def
        poke_mem_def strbuf_extend_length_def numeral_eq_Suc)
  have "c_string (map Some ?t @ None # bs) = None" by (cases x) simp_all
  with assms(1) init s' show ?thesis
    by (cases x) (simp_all add: arken_json_encode_def json_append_data.simps sbr_def)
qed

theorem arken_json_encode_unterminated_witness:
  "fst (arken_json_encode sample_env (sample_config\<lparr>encode_keep_buffer := 0\<rparr>) (LBool True)) = Inl (Sb Out_of_bounds)"
  by (rule arken_json_encode_unterminated) (simp_all add: sample_env_def)

end
