(* ===== verification/Json_Decode.thy ===== *)
theory Json_Decode
  imports Json_Encode
begin

text \<open>
  The decoder of \<^verbatim>\<open>src/lua/json/json.c\<close> (from \<open>hexdigit2int\<close> to \<open>json_decode\<close>) and the entry point
  \<open>json::decode\<close> of \<^verbatim>\<open>src/arken/json.cpp\<close>.

  The parser state has the fields of \<open>json_parse_t\<close>; \<open>ptr\<close> is an index into \<open>data\<close>, a Lua string that is
  followed by one terminator. Every character is read with \<open>peek\<close>, which faults beyond that terminator. The text of
  a string token stays in the temporary buffer until \<open>lua_pushlstring\<close> copies it.

  The recursion over values, arrays and objects is bounded by a fuel argument. Two units per character and three
  more always suffice: every array or object consumes the character that opens it, and every further element
  at least its separator.
\<close>

record json_parse_t =
  data :: "char list"
  ptr :: nat
  tmp :: strbuf_t
  current_depth :: int

datatype token_value = V_none | V_string "char list" | V_tmp | V_number double | V_boolean bool

record json_token_t =
  ttype :: json_token_type_t
  tindex :: int
  tvalue :: token_value
  string_len :: int

text \<open>\<open>*(json->ptr + k)\<close>\<close>

definition peek :: "json_parse_t \<Rightarrow> nat \<Rightarrow> json_fault + char" where
  "peek j k =
     (if ptr j + k < length (data j) then Inr (data j ! (ptr j + k))
      else if ptr j + k = length (data j) then Inr NUL else Inl (Sb Out_of_bounds))"

definition advance :: "json_parse_t \<Rightarrow> nat \<Rightarrow> json_parse_t" where
  "advance j k = j\<lparr>ptr := ptr j + k\<rparr>"

text \<open>A fault of the temporary buffer.\<close>

definition sbj :: "sb_fault + 'a \<Rightarrow> json_fault + 'a" where
  "sbj r = (case r of Inl f \<Rightarrow> Inl (Sb f) | Inr x \<Rightarrow> Inr x)"


subsection \<open>Unicode escapes\<close>

definition hexdigit2int :: "char \<Rightarrow> int" where
  "hexdigit2int c =
     (let h = schar c
      in if 48 \<le> h \<and> h \<le> 57 then h - 48
         else let l = h OR 32 in if 97 \<le> l \<and> l \<le> 102 then 10 + l - 97 else - 1)"

text \<open>The loop over the four digits returns at the first that is not hexadecimal.\<close>

fun hex_loop :: "json_parse_t \<Rightarrow> nat \<Rightarrow> nat \<Rightarrow> int list \<Rightarrow> json_fault + int list option" where
  "hex_loop j k 0 ds = Inr (Some ds)"
| "hex_loop j k (Suc n) ds =
     rbind (peek j k) (\<lambda>c. let d = hexdigit2int c in
       if d < 0 then Inr None else hex_loop j (k + 1) n (ds @ [d]))"

definition decode_hex4 :: "json_parse_t \<Rightarrow> nat \<Rightarrow> json_fault + int" where
  "decode_hex4 j k =
     rbind (hex_loop j k 4 []) (\<lambda>r. case r of
         None \<Rightarrow> Inr (- 1)
       | Some digit \<Rightarrow>
           Inr (push_bit 12 (digit ! 0) + push_bit 8 (digit ! 1) + push_bit 4 (digit ! 2) + digit ! 3))"

text \<open>The bytes stored; their number is the return value.\<close>

definition codepoint_to_utf8 :: "int \<Rightarrow> char list" where
  "codepoint_to_utf8 cp =
     (if cp \<le> 0x7F then [char_of cp]
      else if cp \<le> 0x7FF then [char_of (drop_bit 6 cp OR 0xC0), char_of (cp AND 0x3F OR 0x80)]
      else if cp \<le> 0xFFFF
      then [char_of (drop_bit 12 cp OR 0xE0), char_of (drop_bit 6 cp AND 0x3F OR 0x80), char_of (cp AND 0x3F OR 0x80)]
      else if cp \<le> 0x1FFFFF
      then [char_of (drop_bit 18 cp OR 0xF0), char_of (drop_bit 12 cp AND 0x3F OR 0x80),
            char_of (drop_bit 6 cp AND 0x3F OR 0x80), char_of (cp AND 0x3F OR 0x80)]
      else [])"

text \<open>The last part of \<open>json_append_unicode_escape\<close>: append the bytes and advance. The result is 0, or -1 for an
  error.\<close>

definition append_codepoint :: "json_parse_t \<Rightarrow> int \<Rightarrow> nat \<Rightarrow> json_fault + int \<times> json_parse_t" where
  "append_codepoint j cp escape_len =
     (let utf8 = codepoint_to_utf8 cp
      in if utf8 = [] then Inr (- 1, j)
         else rbind (sbj (strbuf_append_mem_unsafe (tmp j) utf8 (int (length utf8)))) (\<lambda>t.
           Inr (0, advance (j\<lparr>tmp := t\<rparr>) escape_len)))"

definition json_append_unicode_escape :: "json_parse_t \<Rightarrow> json_fault + int \<times> json_parse_t" where
  "json_append_unicode_escape j =
     rbind (decode_hex4 j 2) (\<lambda>codepoint.
       if codepoint < 0 then Inr (- 1, j)
       else if codepoint AND 0xF800 = 0xD800
       then if codepoint AND 0x400 \<noteq> 0 then Inr (- 1, j)
            else rbind (peek j 6) (\<lambda>c.
              if c \<noteq> CHR 0x5C then Inr (- 1, j)
              else rbind (peek j 7) (\<lambda>c'.
                if c' \<noteq> CHR ''u'' then Inr (- 1, j)
                else rbind (decode_hex4 j 8) (\<lambda>surrogate_low.
                  if surrogate_low < 0 then Inr (- 1, j)
                  else if surrogate_low AND 0xFC00 \<noteq> 0xDC00 then Inr (- 1, j)
                  else append_codepoint j
                         ((push_bit 10 (codepoint AND 0x3FF) OR (surrogate_low AND 0x3FF)) + 0x10000) 12)))
       else append_codepoint j codepoint 6)"


subsection \<open>Tokens\<close>

definition json_set_token_error :: "json_token_t \<Rightarrow> json_parse_t \<Rightarrow> char list \<Rightarrow> json_token_t" where
  "json_set_token_error tok j errtype = tok\<lparr>ttype := T_ERROR, tindex := int (ptr j), tvalue := V_string errtype\<rparr>"

lemma append_codepoint_ptr:
  "append_codepoint j cp n = Inr (r, j') \<Longrightarrow> data j' = data j \<and> (r = 0 \<longrightarrow> ptr j' = ptr j + n)"
  by (auto simp: append_codepoint_def advance_def Let_def rbind_eq_Inr split: if_splits)

lemma json_append_unicode_escape_ptr:
  "json_append_unicode_escape j = Inr (r, j') \<Longrightarrow> data j' = data j \<and> (r = 0 \<longrightarrow> ptr j + 6 \<le> ptr j')"
  by (auto simp: json_append_unicode_escape_def rbind_eq_Inr split: if_splits dest: append_codepoint_ptr)

lemma peek_nonNUL: "peek j 0 = Inr c \<Longrightarrow> c \<noteq> NUL \<Longrightarrow> ptr j < length (data j)"
  by (auto simp: peek_def split: if_splits)

text \<open>The loop of \<open>json_next_string_token\<close>: it stops at the closing quote, or returns the error token.\<close>

function string_loop ::
  "json_config_t \<Rightarrow> json_parse_t \<Rightarrow> json_token_t \<Rightarrow> json_fault + json_parse_t \<times> json_token_t option" where
  "string_loop cfg j tok =
     rbind (peek j 0) (\<lambda>ch.
       if ch = CHR 0x22 then Inr (j, None)
       else if ch = NUL then Inr (j, Some (json_set_token_error tok j ''unexpected end of string''))
       else if ch = CHR 0x5C
       then rbind (peek j 1) (\<lambda>c.
              let ch' = escape2char cfg ! of_char c
              in if ch' = CHR ''u''
                 then rbind (json_append_unicode_escape j) (\<lambda>(r, j').
                        if r = 0 then string_loop cfg j' tok
                        else Inr (j', Some (json_set_token_error tok j' ''invalid unicode escape code'')))
                 else if ch' = NUL then Inr (j, Some (json_set_token_error tok j ''invalid escape code''))
                 else rbind (sbj (strbuf_append_char_unsafe (tmp j) ch')) (\<lambda>t.
                        string_loop cfg (advance (j\<lparr>tmp := t\<rparr>) 2) tok))
       else rbind (sbj (strbuf_append_char_unsafe (tmp j) ch)) (\<lambda>t.
              string_loop cfg (advance (j\<lparr>tmp := t\<rparr>) 1) tok))"
  by pat_completeness auto
termination
  by (relation "measure (\<lambda>(_, j, _). length (data j) - ptr j)")
    (auto simp: advance_def dest: peek_nonNUL dest!: json_append_unicode_escape_ptr)

declare string_loop.simps [simp del]

definition json_next_string_token ::
  "json_config_t \<Rightarrow> json_parse_t \<Rightarrow> json_token_t \<Rightarrow> json_fault + json_parse_t \<times> json_token_t" where
  "json_next_string_token cfg j tok =
     rbind (string_loop cfg ((advance j 1)\<lparr>tmp := strbuf_reset (tmp j)\<rparr>) tok) (\<lambda>(j1, r).
       case r of
         Some t \<Rightarrow> Inr (j1, t)
       | None \<Rightarrow>
           rbind (sbj (strbuf_ensure_null (tmp j1))) (\<lambda>s.
             Inr ((advance j1 1)\<lparr>tmp := s\<rparr>,
                  tok\<lparr>ttype := T_STRING, tvalue := V_tmp, string_len := sb_len s\<rparr>)))"

text \<open>Comparison with a literal up to the first difference, as \<open>strncmp\<close> and, with lower-cased characters,
  \<open>strncasecmp\<close> do.\<close>

fun match_at :: "(char \<Rightarrow> char) \<Rightarrow> json_parse_t \<Rightarrow> nat \<Rightarrow> char list \<Rightarrow> json_fault + bool" where
  "match_at nf j k [] = Inr True"
| "match_at nf j k (x # xs) =
     rbind (peek j k) (\<lambda>c. if nf c = x then match_at nf j (k + 1) xs else Inr False)"

definition lower :: "char \<Rightarrow> char" where
  "lower c = (let n = of_char c :: nat in if 65 \<le> n \<and> n \<le> 90 then char_of (n + 32) else c)"

definition json_is_invalid_number :: "json_parse_t \<Rightarrow> json_fault + bool" where
  "json_is_invalid_number j =
     rbind (peek j 0) (\<lambda>c0.
       if c0 = CHR ''+'' then Inr True
       else let p = (if c0 = CHR ''-'' then 1 else 0 :: nat)
            in rbind (peek j p) (\<lambda>c.
              if c = CHR ''0''
              then rbind (peek j (p + 1)) (\<lambda>ch2.
                     Inr (schar ch2 OR 0x20 = 120 \<or> 48 \<le> schar ch2 \<and> schar ch2 \<le> 57))
              else if schar c \<le> 57 then Inr False
              else rbind (match_at lower j p ''inf'') (\<lambda>b.
                if b then Inr True else match_at lower j p ''nan'')))"

definition json_next_number_token ::
  "json_env \<Rightarrow> json_parse_t \<Rightarrow> json_token_t \<Rightarrow> json_parse_t \<times> json_token_t" where
  "json_next_number_token env j tok =
     (let (v, n) = strtod env (takeWhile (\<lambda>c. c \<noteq> NUL) (drop (ptr j) (data j)));
          tok' = tok\<lparr>ttype := T_NUMBER, tvalue := V_number v\<rparr>
      in if n = 0 then (j, json_set_token_error tok' j ''invalid number'') else (advance j n, tok'))"

text \<open>The white-space loop of \<open>json_next_token\<close>: the state, the class of the character that ended it and the
  character.\<close>

function skip_whitespace :: "json_config_t \<Rightarrow> json_parse_t \<Rightarrow> json_fault + json_parse_t \<times> json_token_type_t \<times> char" where
  "skip_whitespace cfg j =
     rbind (peek j 0) (\<lambda>ch.
       let ty = ch2token cfg ! of_char ch
       in if ty = T_WHITESPACE \<and> ptr j < length (data j) then skip_whitespace cfg (advance j 1)
          else Inr (j, ty, ch))"
  by pat_completeness auto
termination
  by (relation "measure (\<lambda>(_, j). length (data j) - ptr j)") (auto simp: advance_def)

declare skip_whitespace.simps [simp del]

definition json_next_token ::
  "json_env \<Rightarrow> json_config_t \<Rightarrow> json_parse_t \<Rightarrow> json_token_t \<Rightarrow> json_fault + json_parse_t \<times> json_token_t" where
  "json_next_token env cfg j0 tok0 =
     rbind (skip_whitespace cfg j0) (\<lambda>(j, ty, ch).
       let tok = tok0\<lparr>ttype := ty, tindex := int (ptr j)\<rparr>
       in if ty = T_ERROR then Inr (j, json_set_token_error tok j ''invalid token'')
          else if ty = T_END then Inr (j, tok)
          else if ty \<noteq> T_UNKNOWN then Inr (advance j 1, tok)
          else if ch = CHR 0x22 then json_next_string_token cfg j tok
          else if ch = CHR ''-'' \<or> is_digit ch
          then rbind (if decode_invalid_numbers cfg = 0 then json_is_invalid_number j else Inr False) (\<lambda>bad.
                 if bad then Inr (j, json_set_token_error tok j ''invalid number'')
                 else Inr (json_next_number_token env j tok))
          else rbind (match_at (\<lambda>c. c) j 0 ''true'') (\<lambda>t.
            if t then Inr (advance j 4, tok\<lparr>ttype := T_BOOLEAN, tvalue := V_boolean True\<rparr>)
            else rbind (match_at (\<lambda>c. c) j 0 ''false'') (\<lambda>f.
              if f then Inr (advance j 5, tok\<lparr>ttype := T_BOOLEAN, tvalue := V_boolean False\<rparr>)
              else rbind (match_at (\<lambda>c. c) j 0 ''null'') (\<lambda>n.
                if n then Inr (advance j 4, tok\<lparr>ttype := T_NULL\<rparr>)
                else rbind (if decode_invalid_numbers cfg \<noteq> 0 then json_is_invalid_number j else Inr False) (\<lambda>inv.
                  if inv then Inr (json_next_number_token env j tok)
                  else Inr (j, json_set_token_error tok j ''invalid token''))))))"


subsection \<open>Values\<close>

definition json_throw_parse_error :: "char list \<Rightarrow> json_token_t \<Rightarrow> json_fault + 'a" where
  "json_throw_parse_error expected tok =
     Inl (Parse_error expected
       (if ttype tok = T_ERROR then (case tvalue tok of V_string s \<Rightarrow> s | _ \<Rightarrow> [])
        else json_token_type_name (ttype tok)) (tindex tok + 1))"

definition json_decode_ascend :: "json_parse_t \<Rightarrow> json_parse_t" where
  "json_decode_ascend j = j\<lparr>current_depth := current_depth j - 1\<rparr>"

definition json_decode_descend :: "json_env \<Rightarrow> json_config_t \<Rightarrow> json_parse_t \<Rightarrow> json_fault + json_parse_t" where
  "json_decode_descend env cfg j =
     (let d = current_depth j + 1
      in if d \<le> decode_max_depth cfg \<and> checkstack env d then Inr (j\<lparr>current_depth := d\<rparr>)
         else Inl (Too_many_nested d (ptr j)))"

text \<open>\<open>lua_pushlstring(l, token->value.string, token->string_len)\<close>\<close>

definition push_token_string :: "json_parse_t \<Rightarrow> json_token_t \<Rightarrow> json_fault + lua" where
  "push_token_string j tok = rbind (sbj (push_text (buf (tmp j), string_len tok))) (\<lambda>s. Inr (LStr s))"

fun lua_rawset :: "(lua \<times> lua) list \<Rightarrow> lua \<Rightarrow> lua \<Rightarrow> (lua \<times> lua) list" where
  "lua_rawset [] k v = [(k, v)]"
| "lua_rawset ((k', v') # kvs) k v = (if k' = k then (k, v) # kvs else (k', v') # lua_rawset kvs k v)"

definition new_token :: json_token_t where
  "new_token = \<lparr>ttype = T_ERROR, tindex = 0, tvalue = V_none, string_len = 0\<rparr>"

text \<open>The start of \<open>json_parse_object_context\<close> and \<open>json_parse_array_context\<close>: descend, and handle the empty
  container, which the token type \<open>close\<close> ends at once; \<open>loop\<close> is the rest of the function.\<close>

definition json_open_context ::
  "json_env \<Rightarrow> json_config_t \<Rightarrow> json_parse_t \<Rightarrow> json_token_type_t \<Rightarrow>
     (json_parse_t \<Rightarrow> json_token_t \<Rightarrow> json_fault + json_parse_t \<times> lua) \<Rightarrow> json_fault + json_parse_t \<times> lua" where
  "json_open_context env cfg j close loop =
     rbind (json_decode_descend env cfg j) (\<lambda>j1.
     rbind (json_next_token env cfg j1 new_token) (\<lambda>(j2, tok).
       if ttype tok = close then Inr (json_decode_ascend j2, LTable []) else loop j2 tok))"

text \<open>The end of both loop bodies: the closing token ends the container, a comma goes on with the next
  token.\<close>

definition json_next_element ::
  "json_env \<Rightarrow> json_config_t \<Rightarrow> json_parse_t \<Rightarrow> json_token_t \<Rightarrow> json_token_type_t \<Rightarrow> char list \<Rightarrow> (lua \<times> lua) list \<Rightarrow>
     (json_parse_t \<Rightarrow> json_token_t \<Rightarrow> json_fault + json_parse_t \<times> lua) \<Rightarrow> json_fault + json_parse_t \<times> lua" where
  "json_next_element env cfg j tok close expected tbl loop =
     rbind (json_next_token env cfg j tok) (\<lambda>(j1, tok1).
       if ttype tok1 = close then Inr (json_decode_ascend j1, LTable tbl)
       else if ttype tok1 \<noteq> T_COMMA then json_throw_parse_error expected tok1
       else rbind (json_next_token env cfg j1 tok1) (\<lambda>(j2, tok2). loop j2 tok2))"

text \<open>The middle of the object loop: the colon and the first token of the value.\<close>

definition json_colon_value ::
  "json_env \<Rightarrow> json_config_t \<Rightarrow> json_parse_t \<Rightarrow> json_token_t \<Rightarrow>
     (json_parse_t \<Rightarrow> json_token_t \<Rightarrow> json_fault + json_parse_t \<times> lua) \<Rightarrow> json_fault + json_parse_t \<times> lua" where
  "json_colon_value env cfg j tok rest =
     rbind (json_next_token env cfg j tok) (\<lambda>(j1, tok1).
       if ttype tok1 \<noteq> T_COLON then json_throw_parse_error ''colon'' tok1
       else rbind (json_next_token env cfg j1 tok1) (\<lambda>(j2, tok2). rest j2 tok2))"

fun json_process_value ::
    "json_env \<Rightarrow> json_config_t \<Rightarrow> nat \<Rightarrow> json_parse_t \<Rightarrow> json_token_t \<Rightarrow> json_fault + json_parse_t \<times> lua"
  and json_parse_object_context ::
    "json_env \<Rightarrow> json_config_t \<Rightarrow> nat \<Rightarrow> (lua \<times> lua) list \<Rightarrow> json_parse_t \<Rightarrow> json_token_t \<Rightarrow>
       json_fault + json_parse_t \<times> lua"
  and json_parse_array_context ::
    "json_env \<Rightarrow> json_config_t \<Rightarrow> nat \<Rightarrow> int \<Rightarrow> (lua \<times> lua) list \<Rightarrow> json_parse_t \<Rightarrow> json_token_t \<Rightarrow>
       json_fault + json_parse_t \<times> lua"
where
  "json_process_value env cfg 0 j tok = Inl Out_of_fuel"
| "json_process_value env cfg (Suc n) j tok = (case ttype tok of
       T_STRING \<Rightarrow> rbind (push_token_string j tok) (\<lambda>v. Inr (j, v))
     | T_NUMBER \<Rightarrow> Inr (j, LNum (case tvalue tok of V_number d \<Rightarrow> d | _ \<Rightarrow> NaN))
     | T_BOOLEAN \<Rightarrow> Inr (j, LBool (tvalue tok = V_boolean True))
     | T_OBJ_BEGIN \<Rightarrow> json_open_context env cfg j T_OBJ_END (json_parse_object_context env cfg n [])
     | T_ARR_BEGIN \<Rightarrow> json_open_context env cfg j T_ARR_END (json_parse_array_context env cfg n 1 [])
     | T_NULL \<Rightarrow> Inr (j, LLight True)
     | _ \<Rightarrow> json_throw_parse_error ''value'' tok)"
| "json_parse_object_context env cfg 0 tbl j tok = Inl Out_of_fuel"
| "json_parse_object_context env cfg (Suc n) tbl j tok =
     (if ttype tok \<noteq> T_STRING then json_throw_parse_error ''object key string'' tok
      else rbind (push_token_string j tok) (\<lambda>key.
      json_colon_value env cfg j tok (\<lambda>j1 tok1.
      rbind (json_process_value env cfg n j1 tok1) (\<lambda>(j2, v).
      json_next_element env cfg j2 tok1 T_OBJ_END ''comma or object end'' (lua_rawset tbl key v)
        (json_parse_object_context env cfg n (lua_rawset tbl key v))))))"
| "json_parse_array_context env cfg 0 i tbl j tok = Inl Out_of_fuel"
| "json_parse_array_context env cfg (Suc n) i tbl j tok =
     rbind (json_process_value env cfg n j tok) (\<lambda>(j1, v).
     json_next_element env cfg j1 tok T_ARR_END ''comma or array end'' (lua_rawset tbl (lua_int i) v)
       (json_parse_array_context env cfg n (i + 1) (lua_rawset tbl (lua_int i) v)))"

text \<open>The part shared by the two entry points: parse one value, then expect the end.\<close>

definition parse_document :: "json_env \<Rightarrow> json_config_t \<Rightarrow> char list \<Rightarrow> json_fault + lua" where
  "parse_document env cfg s =
     (if 2 \<le> length s \<and> (s ! 0 = NUL \<or> s ! 1 = NUL) then Inl Unsupported_encoding
      else rbind (sbj (strbuf_new (alloc env) (to_c_int (int (length s) mod 18446744073709551616)))) (\<lambda>t.
      rbind (json_next_token env cfg \<lparr>data = s, ptr = 0, tmp = t, current_depth = 0\<rparr> new_token) (\<lambda>(j, tok).
      rbind (json_process_value env cfg (2 * length s + 3) j tok) (\<lambda>(j1, v).
      rbind (json_next_token env cfg j1 tok) (\<lambda>(j2, tok2).
        if ttype tok2 \<noteq> T_END then json_throw_parse_error ''the end'' tok2 else Inr v)))))"

text \<open>\<open>luaL_checklstring\<close> also accepts a number, as its text.\<close>

definition json_decode :: "json_env \<Rightarrow> json_config_t \<Rightarrow> lua list \<Rightarrow> json_fault + lua" where
  "json_decode env cfg args = (case args of
       [LStr s] \<Rightarrow> parse_document env cfg s
     | [LNum d] \<Rightarrow> parse_document env cfg (num2str env d)
     | [_] \<Rightarrow> Inl (Bad_argument 1 ''string expected'')
     | _ \<Rightarrow> Inl (Bad_argument 1 ''expected 1 argument''))"

text \<open>\<open>arken::json::decode\<close> takes a C string.\<close>

definition arken_json_decode :: "json_env \<Rightarrow> json_config_t \<Rightarrow> char list \<Rightarrow> json_fault + lua" where
  "arken_json_decode env cfg s = parse_document env cfg (takeWhile (\<lambda>c. c \<noteq> NUL) s)"


subsection \<open>The parser stays inside its input and its buffer\<close>

text \<open>The parser's invariant: the pointer is inside the text, and the temporary buffer, well formed, is large
  enough for all of it.\<close>

definition parse_inv :: "json_parse_t \<Rightarrow> bool" where
  "parse_inv j \<longleftrightarrow> ptr j \<le> length (data j) \<and> sb_inv (tmp j) \<and> int (length (data j)) < sb_size (tmp j)"

text \<open>The part of the state that a token does not change.\<close>

abbreviation same_input :: "json_parse_t \<Rightarrow> json_parse_t \<Rightarrow> bool" where
  "same_input j' j \<equiv> data j' = data j \<and> current_depth j' = current_depth j"

lemma peek_inside:
  assumes "ptr j + k \<le> length (data j)"
  shows "\<exists>c. peek j k = Inr c \<and> (c \<noteq> NUL \<longrightarrow> ptr j + k < length (data j))"
  using assms by (auto simp: peek_def)

lemma hexdigit2int_range: "hexdigit2int c < 0 \<or> 0 \<le> hexdigit2int c \<and> hexdigit2int c \<le> 15"
  by (auto simp: hexdigit2int_def Let_def)

lemma hexdigit2int_NUL: "hexdigit2int NUL = - 1"
  by (simp add: hexdigit2int_def schar_def)

lemma hex_loop_inside:
  assumes "ptr j + k \<le> length (data j)"
  shows "\<exists>r. hex_loop j k n ds = Inr r \<and>
    (\<forall>ds'. r = Some ds' \<longrightarrow> ptr j + k + n \<le> length (data j) \<and>
       (\<exists>es. ds' = ds @ es \<and> length es = n \<and> (\<forall>d\<in>set es. 0 \<le> d \<and> d \<le> 15)))"
  using assms
proof (induction n arbitrary: k ds)
  case (Suc n)
  obtain c where c: "peek j k = Inr c" "c \<noteq> NUL \<longrightarrow> ptr j + k < length (data j)"
    using peek_inside [OF Suc.prems] by blast
  show ?case
  proof (cases "hexdigit2int c < 0")
    case True
    with c show ?thesis by simp
  next
    case False
    then have "c \<noteq> NUL" using hexdigit2int_NUL by auto
    with c have "ptr j + (k + 1) \<le> length (data j)" by simp
    from Suc.IH [OF this, of "ds @ [hexdigit2int c]"] obtain r where
      r: "hex_loop j (k + 1) n (ds @ [hexdigit2int c]) = Inr r"
      "\<forall>ds'. r = Some ds' \<longrightarrow> ptr j + (k + 1) + n \<le> length (data j) \<and>
       (\<exists>es. ds' = (ds @ [hexdigit2int c]) @ es \<and> length es = n \<and> (\<forall>d\<in>set es. 0 \<le> d \<and> d \<le> 15))"
      by blast
    have h: "0 \<le> hexdigit2int c \<and> hexdigit2int c \<le> 15" using False hexdigit2int_range [of c] by auto
    have "\<exists>es'. ds' = ds @ es' \<and> length es' = Suc n \<and> (\<forall>d\<in>set es'. 0 \<le> d \<and> d \<le> 15)"
      if "ds' = (ds @ [hexdigit2int c]) @ es" "length es = n" "\<forall>d\<in>set es. 0 \<le> d \<and> d \<le> 15" for ds' es
      using that h by (intro exI [of _ "hexdigit2int c # es"]) auto
    with r c False show ?thesis by (auto simp: Let_def)
  qed
qed simp

lemma decode_hex4_inside:
  assumes "ptr j + k \<le> length (data j)"
  shows "\<exists>v. decode_hex4 j k = Inr v \<and> (0 \<le> v \<longrightarrow> ptr j + k + 4 \<le> length (data j) \<and> v \<le> 65535)"
proof -
  from hex_loop_inside [OF assms, of 4 "[]"] obtain r where r: "hex_loop j k 4 [] = Inr r"
    "\<forall>ds'. r = Some ds' \<longrightarrow> ptr j + k + 4 \<le> length (data j) \<and>
       (\<exists>es. ds' = [] @ es \<and> length es = 4 \<and> (\<forall>d\<in>set es. 0 \<le> d \<and> d \<le> 15))" by blast
  show ?thesis
  proof (cases r)
    case None
    with r show ?thesis by (simp add: decode_hex4_def)
  next
    case (Some ds)
    with r(2) have ds: "length ds = 4" "\<forall>d\<in>set ds. 0 \<le> d \<and> d \<le> 15" "ptr j + k + 4 \<le> length (data j)" by auto
    then have "0 \<le> ds ! i \<and> ds ! i \<le> 15" if "i < 4" for i using that by simp
    from this [of 0] this [of 1] this [of 2] this [of 3]
    have "push_bit 12 (ds ! 0) + push_bit 8 (ds ! 1) + push_bit 4 (ds ! 2) + ds ! 3 \<le> 65535"
      by (simp add: push_bit_eq_mult)
    with r(1) Some ds(3) show ?thesis by (simp add: decode_hex4_def)
  qed
qed

lemma length_codepoint_to_utf8: "length (codepoint_to_utf8 cp) \<le> (if cp \<le> 65535 then 3 else 4)"
  by (simp add: codepoint_to_utf8_def)

text \<open>Inside a string token, the decoded text is never longer than the text read.\<close>

definition string_inv :: "json_parse_t \<Rightarrow> bool" where
  "string_inv j \<longleftrightarrow> parse_inv j \<and> sb_len (tmp j) \<le> int (ptr j)"

lemma append_inside:
  assumes inv: "string_inv j" and k: "length cs \<le> k" "ptr j + k \<le> length (data j)"
  shows "\<exists>t. strbuf_append_mem_unsafe (tmp j) cs (int (length cs)) = Inr t \<and>
    string_inv (advance (j\<lparr>tmp := t\<rparr>) k) \<and> content t = content (tmp j) @ cs"
proof -
  have i: "sb_inv (tmp j)" "int (length (data j)) < sb_size (tmp j)" "sb_len (tmp j) \<le> int (ptr j)"
    using inv by (auto simp: string_inv_def parse_inv_def)
  have "int (length cs) \<le> strbuf_empty_length (tmp j)"
    using i k by (simp add: strbuf_empty_length_def)
  from strbuf_append_mem_unsafe_room [OF i(1) this] i k show ?thesis
    by (auto simp: string_inv_def parse_inv_def advance_def)
qed

lemma append_char_inside:
  assumes "string_inv j" "1 \<le> k" "ptr j + k \<le> length (data j)"
  shows "\<exists>t. strbuf_append_char_unsafe (tmp j) c = Inr t \<and> string_inv (advance (j\<lparr>tmp := t\<rparr>) k) \<and>
    content t = content (tmp j) @ [c]"
  using append_inside [OF assms(1), of "[c]" k] assms(2,3) by (simp add: strbuf_append_char_unsafe_mem)

text \<open>A step of the string loop: it keeps the invariant and the input, and does not go back.\<close>

definition string_step :: "json_parse_t \<Rightarrow> json_parse_t \<Rightarrow> bool" where
  "string_step j j' \<longleftrightarrow> string_inv j' \<and> same_input j' j \<and> ptr j \<le> ptr j'"

lemma append_codepoint_inside:
  assumes inv: "string_inv j" and n: "ptr j + n \<le> length (data j)" "length (codepoint_to_utf8 cp) \<le> n"
  shows "\<exists>r j'. append_codepoint j cp n = Inr (r, j') \<and> string_step j j'"
proof (cases "codepoint_to_utf8 cp = []")
  case True
  with inv show ?thesis by (simp add: append_codepoint_def string_step_def)
next
  case False
  from append_inside [OF inv n(2,1)] obtain t where
    "strbuf_append_mem_unsafe (tmp j) (codepoint_to_utf8 cp) (int (length (codepoint_to_utf8 cp))) = Inr t"
    "string_inv (advance (j\<lparr>tmp := t\<rparr>) n)" by blast
  with False show ?thesis
    by (auto simp: append_codepoint_def sbj_def string_step_def Let_def) (auto simp: advance_def)
qed

lemma json_append_unicode_escape_inside:
  assumes inv: "string_inv j" and u: "ptr j + 2 \<le> length (data j)"
  shows "\<exists>r j'. json_append_unicode_escape j = Inr (r, j') \<and> string_step j j'"
proof -
  have stay: "string_step j j" using inv by (simp add: string_step_def)
  obtain v where v: "decode_hex4 j 2 = Inr v" "0 \<le> v \<longrightarrow> ptr j + 6 \<le> length (data j) \<and> v \<le> 65535"
    using decode_hex4_inside [OF u] by auto
  consider (bad) "v < 0 \<or> v AND 0xF800 = 0xD800 \<and> v AND 0x400 \<noteq> 0" | (plain) "0 \<le> v" "v AND 0xF800 \<noteq> 0xD800"
    | (high) "0 \<le> v" "v AND 0xF800 = 0xD800" "v AND 0x400 = 0" by force
  then show ?thesis
  proof cases
    case bad
    with v stay show ?thesis by (auto simp: json_append_unicode_escape_def)
  next
    case plain
    with v append_codepoint_inside [OF inv, of 6 v] length_codepoint_to_utf8 [of v] show ?thesis
      by (auto simp: json_append_unicode_escape_def split: if_splits)
  next
    case high
    with v obtain c where c: "peek j 6 = Inr c" "c \<noteq> NUL \<longrightarrow> ptr j + 6 < length (data j)"
      using peek_inside [of j 6] by auto
    show ?thesis
    proof (cases "c = CHR 0x5C")
      case False
      with high v c stay show ?thesis by (simp add: json_append_unicode_escape_def)
    next
      case bs: True
      with c obtain c' where c': "peek j 7 = Inr c'" "c' \<noteq> NUL \<longrightarrow> ptr j + 7 < length (data j)"
        using peek_inside [of j 7] by auto
      show ?thesis
      proof (cases "c' = CHR ''u''")
        case False
        with high v c bs c' stay show ?thesis by (simp add: json_append_unicode_escape_def)
      next
        case cu: True
        with c' obtain w where w: "decode_hex4 j 8 = Inr w" "0 \<le> w \<longrightarrow> ptr j + 12 \<le> length (data j)"
          using decode_hex4_inside [of j 8] by auto
        show ?thesis
        proof (cases "w < 0 \<or> w AND 0xFC00 \<noteq> 0xDC00")
          case True
          with high v c bs c' cu w stay show ?thesis by (auto simp: json_append_unicode_escape_def)
        next
          case False
          let ?cp = "(push_bit 10 (v AND 0x3FF) OR (w AND 0x3FF)) + 0x10000"
          have "length (codepoint_to_utf8 ?cp) \<le> 12" using length_codepoint_to_utf8 [of ?cp] by (simp split: if_splits)
          with append_codepoint_inside [OF inv, of 12 ?cp] False w obtain r j' where
            "append_codepoint j ?cp 12 = Inr (r, j')" "string_step j j'" by auto
          with high v c bs c' cu w False show ?thesis by (auto simp: json_append_unicode_escape_def)
        qed
      qed
    qed
  qed
qed

lemma string_step_trans: "string_step j j1 \<Longrightarrow> string_step j1 j2 \<Longrightarrow> string_step j j2"
  by (auto simp: string_step_def)

lemma string_step_advance:
  "string_inv (advance (j\<lparr>tmp := t\<rparr>) k) \<Longrightarrow> string_step j (advance (j\<lparr>tmp := t\<rparr>) k)"
  by (simp add: string_step_def advance_def)

lemma json_set_token_error_type [simp]: "ttype (json_set_token_error tok j e) = T_ERROR"
  by (simp add: json_set_token_error_def)

lemma string_loop_inside:
  assumes "string_inv j" and esc: "escape2char cfg = escape2char_init"
  shows "\<exists>j' r. string_loop cfg j tok = Inr (j', r) \<and> string_step j j' \<and>
    (r = None \<longrightarrow> ptr j' < length (data j')) \<and> (\<forall>t. r = Some t \<longrightarrow> ttype t = T_ERROR)"
  using assms(1)
proof (induction "length (data j) - ptr j" arbitrary: j rule: less_induct)
  case less
  let ?Q = "\<lambda>j x. \<exists>j' r. x = Inr (j', r) \<and> string_step j j' \<and>
    (r = None \<longrightarrow> ptr j' < length (data j')) \<and> (\<forall>t. r = Some t \<longrightarrow> ttype t = T_ERROR)"
  have inv: "string_inv j" by fact
  then have le: "ptr j \<le> length (data j)" by (simp add: string_inv_def parse_inv_def)
  have stay: "string_step j j" using inv by (simp add: string_step_def)
  have cont: "?Q j (string_loop cfg j1 tok)" if "string_step j j1" "ptr j < ptr j1" for j1
  proof -
    have "length (data j1) - ptr j1 < length (data j) - ptr j" "string_inv j1"
      using that by (auto simp: string_step_def string_inv_def parse_inv_def)
    from less.hyps [OF this] obtain j' r where "string_loop cfg j1 tok = Inr (j', r)" "string_step j1 j'"
      "r = None \<longrightarrow> ptr j' < length (data j')" "\<forall>t. r = Some t \<longrightarrow> ttype t = T_ERROR" by blast
    with string_step_trans [OF that(1)] show ?thesis by blast
  qed
  obtain ch where ch: "peek j 0 = Inr ch" "ch \<noteq> NUL \<longrightarrow> ptr j < length (data j)"
    using peek_inside [of j 0] le by auto
  consider (quote) "ch = CHR 0x22" | (fin) "ch = NUL" | (esc) "ch = CHR 0x5C"
    | (plain) "ch \<noteq> CHR 0x22" "ch \<noteq> NUL" "ch \<noteq> CHR 0x5C" by blast
  then show ?case
  proof cases
    case quote
    with ch stay show ?thesis by (simp add: string_loop.simps [of cfg j])
  next
    case fin
    with ch stay show ?thesis by (simp add: string_loop.simps [of cfg j])
  next
    case plain
    with ch obtain t where t: "strbuf_append_char_unsafe (tmp j) ch = Inr t" "string_inv (advance (j\<lparr>tmp := t\<rparr>) 1)"
      using append_char_inside [OF inv, of 1 ch] by auto
    have "?Q j (string_loop cfg (advance (j\<lparr>tmp := t\<rparr>) 1) tok)"
      by (rule cont [OF string_step_advance [OF t(2)]]) (simp add: advance_def)
    with plain ch t show ?thesis by (simp add: string_loop.simps [of cfg j] sbj_def)
  next
    case esc
    with ch obtain c where c: "peek j 1 = Inr c" "c \<noteq> NUL \<longrightarrow> ptr j + 1 < length (data j)"
      using peek_inside [of j 1] by auto
    have tab: "escape2char cfg ! of_char c = unescape c" by (simp add: assms(2) escape2char_init_nth)
    have c0: "unescape c \<noteq> NUL \<Longrightarrow> ptr j + 2 \<le> length (data j)"
      using c by (cases "c = NUL") (auto simp: unescape_def)
    consider (u) "unescape c = CHR ''u''" | (bad) "unescape c = NUL"
      | (single) "unescape c \<noteq> CHR ''u''" "unescape c \<noteq> NUL" by blast
    then show ?thesis
    proof cases
      case u
      with c0 obtain r j1 where r: "json_append_unicode_escape j = Inr (r, j1)" "string_step j j1"
        using json_append_unicode_escape_inside [OF inv] by auto
      show ?thesis
      proof (cases "r = 0")
        case True
        with json_append_unicode_escape_ptr [OF r(1)] have "?Q j (string_loop cfg j1 tok)"
          by (intro cont [OF r(2)]) simp
        with esc ch c tab u r True show ?thesis by (simp add: string_loop.simps [of cfg j])
      next
        case False
        with esc ch c tab u r show ?thesis by (auto simp: string_loop.simps [of cfg j])
      qed
    next
      case bad
      with esc ch c tab stay show ?thesis by (simp add: string_loop.simps [of cfg j])
    next
      case single
      with c0 obtain t where t: "strbuf_append_char_unsafe (tmp j) (unescape c) = Inr t"
        "string_inv (advance (j\<lparr>tmp := t\<rparr>) 2)"
        using append_char_inside [OF inv, of 2] by auto
      have "?Q j (string_loop cfg (advance (j\<lparr>tmp := t\<rparr>) 2) tok)"
        by (rule cont [OF string_step_advance [OF t(2)]]) (simp add: advance_def)
      with single esc ch c tab t show ?thesis by (simp add: string_loop.simps [of cfg j] sbj_def)
    qed
  qed
qed

text \<open>What a token promises: the invariant and the input are kept, only the end and an error do not consume
  input, and the text of a string token can be pushed.\<close>

definition token_ok :: "json_parse_t \<Rightarrow> json_token_t \<Rightarrow> bool" where
  "token_ok j tok \<longleftrightarrow> (ttype tok = T_STRING \<longrightarrow> string_len tok = sb_len (tmp j))"

definition token_step :: "json_parse_t \<Rightarrow> json_parse_t \<times> json_token_t \<Rightarrow> bool" where
  "token_step j x = (case x of (j', tok) \<Rightarrow> parse_inv j' \<and> same_input j' j \<and> ptr j \<le> ptr j' \<and>
     (ttype tok \<noteq> T_ERROR \<and> ttype tok \<noteq> T_END \<longrightarrow> ptr j < ptr j') \<and> token_ok j' tok)"

lemma parse_inv_advance: "parse_inv j \<Longrightarrow> ptr j + k \<le> length (data j) \<Longrightarrow> parse_inv (advance j k)"
  by (simp add: parse_inv_def advance_def)

lemma json_next_string_token_inside:
  assumes inv: "parse_inv j" and p: "ptr j < length (data j)" and esc: "escape2char cfg = escape2char_init"
  shows "\<exists>x. json_next_string_token cfg j tok = Inr x \<and> token_step j x"
proof -
  let ?j = "(advance j 1)\<lparr>tmp := strbuf_reset (tmp j)\<rparr>"
  have "string_inv ?j"
    using inv p by (auto simp: string_inv_def parse_inv_def advance_def strbuf_reset_def sb_inv_def split: option.splits)
  from string_loop_inside [OF this esc, of tok] obtain j' r where
    r: "string_loop cfg ?j tok = Inr (j', r)" "string_step ?j j'"
    "r = None \<longrightarrow> ptr j' < length (data j')" "\<forall>t. r = Some t \<longrightarrow> ttype t = T_ERROR" by blast
  have j': "parse_inv j'" "same_input j' j" "ptr j < ptr j'"
    using r(2) by (auto simp: string_step_def string_inv_def advance_def)
  show ?thesis
  proof (cases r)
    case (Some t)
    with r j' show ?thesis
      by (auto simp: json_next_string_token_def token_step_def token_ok_def)
  next
    case None
    have "sb_inv (tmp j')" using j'(1) by (simp add: parse_inv_def)
    from strbuf_ensure_null_ok [OF this] obtain s b where
      s: "strbuf_ensure_null (tmp j') = Inr s" "sb_inv s" "s = (tmp j')\<lparr>buf := Some b\<rparr>" by blast
    have "parse_inv ((advance j' 1)\<lparr>tmp := s\<rparr>)"
      using j'(1) r(3) None s by (simp add: parse_inv_def advance_def)
    with None r j' s(1) show ?thesis
      by (auto simp: json_next_string_token_def sbj_def token_step_def token_ok_def advance_def)
  qed
qed

lemma match_at_inside:
  assumes "ptr j + k \<le> length (data j)" "nf NUL \<notin> set xs"
  shows "\<exists>b. match_at nf j k xs = Inr b \<and> (b \<longrightarrow> ptr j + k + length xs \<le> length (data j))"
  using assms
proof (induction xs arbitrary: k)
  case (Cons x xs)
  obtain c where c: "peek j k = Inr c" "c \<noteq> NUL \<longrightarrow> ptr j + k < length (data j)"
    using peek_inside [OF Cons.prems(1)] by blast
  show ?case
  proof (cases "nf c = x")
    case True
    with c Cons.prems have "ptr j + (k + 1) \<le> length (data j)" by auto
    with Cons.IH [OF this] Cons.prems(2) c True show ?thesis by auto
  next
    case False
    with c have "match_at nf j k (x # xs) = Inr False" by simp
    then show ?thesis by blast
  qed
qed auto

lemma lower_NUL: "lower NUL = NUL"
  by (simp add: lower_def)

lemma json_is_invalid_number_inside:
  assumes "ptr j < length (data j)"
  shows "\<exists>b. json_is_invalid_number j = Inr b"
proof -
  obtain c0 where c0: "peek j 0 = Inr c0" using peek_inside [of j 0] assms by auto
  define p :: nat where "p = (if c0 = CHR ''-'' then 1 else 0)"
  have p: "ptr j + p \<le> length (data j)" using assms by (simp add: p_def)
  obtain c where c: "peek j p = Inr c" "c \<noteq> NUL \<longrightarrow> ptr j + p < length (data j)"
    using peek_inside [OF p] by blast
  obtain b1 b2 where b: "match_at lower j p ''inf'' = Inr b1" "match_at lower j p ''nan'' = Inr b2"
    using match_at_inside [OF p, of lower "''inf''"] match_at_inside [OF p, of lower "''nan''"] lower_NUL by auto
  obtain d where "c = CHR ''0'' \<Longrightarrow> peek j (p + 1) = Inr d"
    using peek_inside [of j "p + 1"] c by (cases "c = CHR ''0''") auto
  with c0 c b show ?thesis
    unfolding json_is_invalid_number_def c0 by (auto simp: p_def [symmetric] Let_def)
qed

text \<open>\<open>strtod\<close> reads a prefix of its string.\<close>

definition strtod_ok :: "json_env \<Rightarrow> bool" where
  "strtod_ok env \<longleftrightarrow> (\<forall>s. snd (strtod env s) \<le> length s)"

lemma json_next_number_token_inside:
  assumes "parse_inv j" "strtod_ok env"
  shows "token_step j (json_next_number_token env j tok)"
proof -
  let ?s = "takeWhile (\<lambda>c. c \<noteq> NUL) (drop (ptr j) (data j))"
  obtain v n where vn: "strtod env ?s = (v, n)" by (cases "strtod env ?s")
  have "n \<le> length ?s" using assms(2) vn by (metis strtod_ok_def snd_conv)
  also have "length ?s \<le> length (data j) - ptr j" by (metis length_drop length_takeWhile_le)
  finally have "n \<le> length (data j) - ptr j" .
  moreover have "ptr j \<le> length (data j)" using assms(1) by (simp add: parse_inv_def)
  ultimately have "ptr j + n \<le> length (data j)" by linarith
  with parse_inv_advance [OF assms(1) this] assms(1) show ?thesis
    by (auto simp: json_next_number_token_def vn token_step_def token_ok_def Let_def advance_def)
qed

lemma skip_whitespace_inside:
  "parse_inv j \<Longrightarrow> ch2token cfg = ch2token_init \<Longrightarrow>
    \<exists>j' ch. skip_whitespace cfg j = Inr (j', token_class ch, ch) \<and> parse_inv j' \<and> same_input j' j \<and> ptr j \<le> ptr j' \<and>
      token_class ch \<noteq> T_WHITESPACE \<and> (ch \<noteq> NUL \<longrightarrow> ptr j' < length (data j'))"
proof (induction "length (data j) - ptr j" arbitrary: j rule: less_induct)
  case less
  obtain ch where ch: "peek j 0 = Inr ch" "ch \<noteq> NUL \<longrightarrow> ptr j < length (data j)"
    using peek_inside [of j 0] less.prems(1) by (auto simp: parse_inv_def)
  have ty: "ch2token cfg ! of_char ch = token_class ch" by (simp add: less.prems(2) ch2token_init_nth)
  show ?case
  proof (cases "token_class ch = T_WHITESPACE")
    case True
    then have "ch \<noteq> NUL" by (auto simp: token_class_def)
    with ch have l: "ptr j < length (data j)" by simp
    then have "length (data (advance j 1)) - ptr (advance j 1) < length (data j) - ptr j"
      "parse_inv (advance j 1)"
      using parse_inv_advance [OF less.prems(1), of 1] by (simp_all add: advance_def)
    from less.hyps [OF this less.prems(2)] obtain j' d where "skip_whitespace cfg (advance j 1) = Inr (j', token_class d, d)"
      "parse_inv j'" "same_input j' (advance j 1)" "ptr (advance j 1) \<le> ptr j'" "token_class d \<noteq> T_WHITESPACE"
      "d \<noteq> NUL \<longrightarrow> ptr j' < length (data j')"
      by blast
    with True ch ty l show ?thesis by (auto simp: skip_whitespace.simps [of cfg j] advance_def)
  next
    case False
    with ch ty less.prems(1) show ?thesis by (auto simp: skip_whitespace.simps [of cfg j])
  qed
qed

lemma token_step_mono: "token_step j1 x \<Longrightarrow> same_input j1 j \<Longrightarrow> ptr j \<le> ptr j1 \<Longrightarrow> token_step j x"
  by (auto simp: token_step_def)

definition tables_ok :: "json_config_t \<Rightarrow> bool" where
  "tables_ok cfg \<longleftrightarrow> ch2token cfg = ch2token_init \<and> escape2char cfg = escape2char_init"

lemma json_next_token_inside:
  assumes inv: "parse_inv j0" and tab: "tables_ok cfg" and env: "strtod_ok env"
  shows "\<exists>x. json_next_token env cfg j0 tok0 = Inr x \<and> token_step j0 x"
proof -
  obtain j ch where s: "skip_whitespace cfg j0 = Inr (j, token_class ch, ch)" and j: "parse_inv j"
    "same_input j j0" "ptr j0 \<le> ptr j" "token_class ch \<noteq> T_WHITESPACE" "ch \<noteq> NUL \<longrightarrow> ptr j < length (data j)"
    using skip_whitespace_inside [OF inv, of cfg] tab by (auto simp: tables_ok_def)
  define tok where "tok = tok0\<lparr>ttype := token_class ch, tindex := int (ptr j)\<rparr>"
  note step = token_step_mono [OF _ j(2,3)]
  have err: "token_step j0 (j, json_set_token_error t j e)" for t e
    using j by (simp add: token_step_def token_ok_def)
  have adv: "token_step j0 (advance j k, t)" if "0 < k" "ptr j + k \<le> length (data j)" "ttype t \<noteq> T_STRING" for k t
    using j parse_inv_advance [OF j(1) that(2)] that by (auto simp: token_step_def token_ok_def advance_def)
  show ?thesis
  proof (cases "token_class ch = T_UNKNOWN")
    case False
    have ns: "token_class ch \<noteq> T_STRING" by (simp add: token_class_def)
    have "token_class ch \<noteq> T_END \<Longrightarrow> ch \<noteq> NUL" by (auto simp: token_class_def)
    with False s j err adv [of 1 tok] ns show ?thesis
      by (auto simp: json_next_token_def tok_def [symmetric] Let_def token_step_def token_ok_def)
        (auto simp: tok_def)
  next
    case True
    then have "ch \<noteq> NUL" by (auto simp: token_class_def)
    with j(5) have l: "ptr j < length (data j)" by simp
    obtain x where x: "json_next_string_token cfg j tok = Inr x" "token_step j x"
      using json_next_string_token_inside [OF j(1) l, of cfg tok] tab by (auto simp: tables_ok_def)
    obtain b where b: "json_is_invalid_number j = Inr b" using json_is_invalid_number_inside [OF l] by blast
    note num = step [OF json_next_number_token_inside [OF j(1) env, of tok]]
    obtain t f n where lits: "match_at (\<lambda>c. c) j 0 ''true'' = Inr t" "t \<longrightarrow> ptr j + 4 \<le> length (data j)"
      "match_at (\<lambda>c. c) j 0 ''false'' = Inr f" "f \<longrightarrow> ptr j + 5 \<le> length (data j)"
      "match_at (\<lambda>c. c) j 0 ''null'' = Inr n" "n \<longrightarrow> ptr j + 4 \<le> length (data j)"
      using match_at_inside [of j 0 "\<lambda>c. c" "''true''"] match_at_inside [of j 0 "\<lambda>c. c" "''false''"]
        match_at_inside [of j 0 "\<lambda>c. c" "''null''"] l by auto
    have eq: "json_next_token env cfg j0 tok0 =
        (if ch = CHR 0x22 then json_next_string_token cfg j tok
          else if ch = CHR ''-'' \<or> is_digit ch
          then if decode_invalid_numbers cfg = 0 \<and> b then Inr (j, json_set_token_error tok j ''invalid number'')
               else Inr (json_next_number_token env j tok)
          else if t then Inr (advance j 4, tok\<lparr>ttype := T_BOOLEAN, tvalue := V_boolean True\<rparr>)
          else if f then Inr (advance j 5, tok\<lparr>ttype := T_BOOLEAN, tvalue := V_boolean False\<rparr>)
          else if n then Inr (advance j 4, tok\<lparr>ttype := T_NULL\<rparr>)
          else if decode_invalid_numbers cfg \<noteq> 0 \<and> b then Inr (json_next_number_token env j tok)
          else Inr (j, json_set_token_error tok j ''invalid token''))"
      using True s b lits(1,3,5)
      by (simp add: json_next_token_def tok_def [unfolded True, symmetric] Let_def)
    have ok: "t \<Longrightarrow> token_step j0 (advance j 4, tok\<lparr>ttype := T_BOOLEAN, tvalue := V_boolean True\<rparr>)"
      "f \<Longrightarrow> token_step j0 (advance j 5, tok\<lparr>ttype := T_BOOLEAN, tvalue := V_boolean False\<rparr>)"
      "n \<Longrightarrow> token_step j0 (advance j 4, tok\<lparr>ttype := T_NULL\<rparr>)"
      using lits by (auto intro!: adv)
    obtain jn tn where jn: "json_next_number_token env j tok = (jn, tn)" by fastforce
    show ?thesis
      unfolding eq using step [OF x(2)] num err ok
      by (cases "ch = CHR 0x22"; cases "ch = CHR ''-'' \<or> is_digit ch"; cases t; cases f; cases n) (simp_all add: x(1) jn)
  qed
qed


subsection \<open>Decoding ends, and ends well\<close>

text \<open>The errors that the decoder reports to Lua.\<close>

definition reported :: "json_fault \<Rightarrow> bool" where
  "reported e = (case e of Sb _ \<Rightarrow> False | Out_of_fuel \<Rightarrow> False | _ \<Rightarrow> True)"

lemma reported_throw [simp]: "json_throw_parse_error x tok = Inr y \<longleftrightarrow> False"
  "json_throw_parse_error x tok = Inl e \<Longrightarrow> reported e"
  by (auto simp: json_throw_parse_error_def reported_def)

lemma push_token_string_ok:
  assumes "parse_inv j" "token_ok j tok" "ttype tok = T_STRING"
  shows "push_token_string j tok = Inr (LStr (content (tmp j)))"
proof -
  have "push_text (strbuf_string (tmp j)) = Inr (content (tmp j))"
    using assms(1) by (intro push_text_content) (simp add: parse_inv_def)
  with assms(2,3) show ?thesis by (simp add: push_token_string_def sbj_def strbuf_string_def token_ok_def)
qed

definition value_step :: "json_parse_t \<Rightarrow> json_fault + json_parse_t \<times> lua \<Rightarrow> bool" where
  "value_step j r = (case r of
       Inl e \<Rightarrow> reported e
     | Inr (j', v) \<Rightarrow> parse_inv j' \<and> data j' = data j \<and> ptr j \<le> ptr j')"

definition opens :: "json_token_t \<Rightarrow> bool" where
  "opens tok \<longleftrightarrow> ttype tok = T_OBJ_BEGIN \<or> ttype tok = T_ARR_BEGIN"

definition stops :: "json_token_t \<Rightarrow> bool" where
  "stops tok \<longleftrightarrow> ttype tok = T_ERROR \<or> ttype tok = T_END"

text \<open>The input that is left.\<close>

abbreviation left :: "json_parse_t \<Rightarrow> nat" where
  "left j \<equiv> length (data j) - ptr j"

lemma value_step_throw [simp]: "value_step j (json_throw_parse_error e tok)"
  by (simp add: value_step_def json_throw_parse_error_def reported_def)

lemma value_step_mono: "value_step j1 r \<Longrightarrow> data j1 = data j \<Longrightarrow> ptr j \<le> ptr j1 \<Longrightarrow> value_step j r"
  by (auto simp: value_step_def split: sum.splits)

lemma stops_value: "stops tok \<Longrightarrow> \<exists>e. json_process_value env cfg n j tok = Inl e"
  by (cases n) (auto simp: stops_def json_throw_parse_error_def)

lemma token_step_left: "token_step j (j', tok) \<Longrightarrow> left j' \<le> left j"
  "token_step j (j', tok) \<Longrightarrow> \<not> stops tok \<Longrightarrow> left j' + 1 \<le> left j"
  by (auto simp: token_step_def stops_def parse_inv_def)

lemma value_step_bind:
  assumes "value_step j r"
    and "\<And>j' v. r = Inr (j', v) \<Longrightarrow> parse_inv j' \<Longrightarrow> data j' = data j \<Longrightarrow> ptr j \<le> ptr j' \<Longrightarrow> value_step j (f (j', v))"
  shows "value_step j (rbind r f)"
  using assms by (cases r) (auto simp: value_step_def)

lemma descend_step:
  assumes "parse_inv j" "\<And>j'. parse_inv j' \<Longrightarrow> data j' = data j \<Longrightarrow> ptr j' = ptr j \<Longrightarrow> value_step j' (f j')"
  shows "value_step j (rbind (json_decode_descend env cfg j) f)"
  using assms(1) assms(2) [of "j\<lparr>current_depth := current_depth j + 1\<rparr>"]
  by (auto simp: json_decode_descend_def Let_def value_step_def reported_def parse_inv_def split: sum.splits)

lemma token_bind:
  assumes "parse_inv j" "tables_ok cfg" "strtod_ok env"
    and "\<And>j' tok'. token_step j (j', tok') \<Longrightarrow> value_step j' (f (j', tok'))"
  shows "value_step j (rbind (json_next_token env cfg j tok) f)"
proof -
  obtain j' tok' where t: "json_next_token env cfg j tok = Inr (j', tok')" "token_step j (j', tok')"
    using json_next_token_inside [OF assms(1-3), of tok] by auto
  with value_step_mono [OF assms(4) [OF t(2)], of j] show ?thesis by (simp add: token_step_def)
qed

lemma ascend_step: "parse_inv j \<Longrightarrow> value_step j (Inr (json_decode_ascend j, v))"
  by (simp add: value_step_def json_decode_ascend_def parse_inv_def)

lemma token_stepD:
  assumes "token_step j (j', tok)"
  shows "parse_inv j'" "token_ok j' tok" "data j' = data j" "left j' \<le> left j" "\<not> stops tok \<Longrightarrow> left j' + 1 \<le> left j"
  using assms token_step_left [OF assms] by (auto simp: token_step_def)

text \<open>The three pieces of the container functions.\<close>

lemma open_context_step:
  assumes "parse_inv j" "tables_ok cfg" "strtod_ok env"
    and loop: "\<And>j' tok. parse_inv j' \<Longrightarrow> token_ok j' tok \<Longrightarrow> left j' \<le> left j \<Longrightarrow>
      (\<not> stops tok \<Longrightarrow> left j' + 1 \<le> left j) \<Longrightarrow> value_step j' (loop j' tok)"
  shows "value_step j (json_open_context env cfg j close loop)"
  unfolding json_open_context_def
proof (rule descend_step [OF assms(1)], rule token_bind [OF _ assms(2,3)], assumption)
  fix j1 j2 tok
  assume j1: "data j1 = data j" "ptr j1 = ptr j" and t: "token_step j1 (j2, tok)"
  note td = token_stepD [OF t]
  have "value_step j2 (loop j2 tok)" using td j1 by (intro loop td) auto
  with ascend_step [OF td(1)] show "value_step j2 (case (j2, tok) of (j2, tok) \<Rightarrow>
      if ttype tok = close then Inr (json_decode_ascend j2, LTable []) else loop j2 tok)" by simp
qed

lemma next_element_step:
  assumes "parse_inv j" "tables_ok cfg" "strtod_ok env"
    and loop: "\<And>j' tok. parse_inv j' \<Longrightarrow> token_ok j' tok \<Longrightarrow> left j' + 1 \<le> left j \<Longrightarrow>
      (\<not> stops tok \<Longrightarrow> left j' + 2 \<le> left j) \<Longrightarrow> value_step j' (loop j' tok)"
  shows "value_step j (json_next_element env cfg j tok0 close e tbl loop)"
  unfolding json_next_element_def
proof (rule token_bind [OF assms(1-3)])
  fix j1 tok1
  assume t: "token_step j (j1, tok1)"
  note td = token_stepD [OF t]
  have "value_step j1 (rbind (json_next_token env cfg j1 tok1) (\<lambda>(j2, tok2). loop j2 tok2))" if "\<not> stops tok1"
  proof (rule token_bind [OF td(1) assms(2,3)])
    fix j2 tok2
    assume t2: "token_step j1 (j2, tok2)"
    note td2 = token_stepD [OF t2]
    have "value_step j2 (loop j2 tok2)" using td(5) [OF that] td2(4,5) by (intro loop td2) auto
    then show "value_step j2 (case (j2, tok2) of (j2, tok2) \<Rightarrow> loop j2 tok2)" by simp
  qed
  with ascend_step [OF td(1)] show "value_step j1 (case (j1, tok1) of (j1, tok1) \<Rightarrow>
      if ttype tok1 = close then Inr (json_decode_ascend j1, LTable tbl)
      else if ttype tok1 \<noteq> T_COMMA then json_throw_parse_error e tok1
      else rbind (json_next_token env cfg j1 tok1) (\<lambda>(j2, tok2). loop j2 tok2))"
    by (auto simp: stops_def)
qed

lemma colon_value_step:
  assumes "parse_inv j" "tables_ok cfg" "strtod_ok env"
    and rest: "\<And>j' tok. parse_inv j' \<Longrightarrow> token_ok j' tok \<Longrightarrow> left j' \<le> left j \<Longrightarrow> value_step j' (rest j' tok)"
  shows "value_step j (json_colon_value env cfg j tok0 rest)"
  unfolding json_colon_value_def
proof (rule token_bind [OF assms(1-3)])
  fix j1 tok1
  assume t: "token_step j (j1, tok1)"
  note td = token_stepD [OF t]
  have "value_step j1 (rbind (json_next_token env cfg j1 tok1) (\<lambda>(j2, tok2). rest j2 tok2))"
  proof (rule token_bind [OF td(1) assms(2,3)])
    fix j2 tok2
    assume t2: "token_step j1 (j2, tok2)"
    note td2 = token_stepD [OF t2]
    have "value_step j2 (rest j2 tok2)" using td(4) td2(4) by (intro rest td2) auto
    then show "value_step j2 (case (j2, tok2) of (j2, tok2) \<Rightarrow> rest j2 tok2)" by simp
  qed
  then show "value_step j1 (case (j1, tok1) of (j1, tok1) \<Rightarrow>
      if ttype tok1 \<noteq> T_COLON then json_throw_parse_error ''colon'' tok1
      else rbind (json_next_token env cfg j1 tok1) (\<lambda>(j2, tok2). rest j2 tok2))" by simp
qed

lemma json_process_value_step:
  assumes tab: "tables_ok cfg" and env: "strtod_ok env"
  shows "parse_inv j \<Longrightarrow> token_ok j tok \<Longrightarrow> 1 \<le> n \<Longrightarrow> (opens tok \<Longrightarrow> 2 * left j + 3 \<le> n) \<Longrightarrow>
      value_step j (json_process_value env cfg n j tok)"
    and "parse_inv j \<Longrightarrow> token_ok j tok \<Longrightarrow> 1 \<le> n \<Longrightarrow> (\<not> stops tok \<Longrightarrow> 2 * left j + 4 \<le> n) \<Longrightarrow>
      value_step j (json_parse_object_context env cfg n tbl j tok)"
    and "parse_inv j \<Longrightarrow> token_ok j tok \<Longrightarrow> 2 \<le> n \<Longrightarrow> (\<not> stops tok \<Longrightarrow> 2 * left j + 4 \<le> n) \<Longrightarrow>
      value_step j (json_parse_array_context env cfg n i tbl j tok)"
proof (induction n arbitrary: j tok tbl i)
  case (Suc n)
  {
    case 1
    have "value_step j (json_open_context env cfg j T_OBJ_END (json_parse_object_context env cfg n []))"
      "value_step j (json_open_context env cfg j T_ARR_END (json_parse_array_context env cfg n 1 []))" if "opens tok"
      using 1(4) [OF that] by (auto intro!: open_context_step [OF 1(1) tab env] Suc.IH(2,3))
    then show ?case
      using push_token_string_ok [OF 1(1,2)] 1(1)
      by (cases "ttype tok") (simp_all add: opens_def, simp_all add: value_step_def)
  next
    case 2
    show ?case
    proof (cases "ttype tok = T_STRING")
      case True
      then have n: "2 * left j + 4 \<le> Suc n" using 2(4) by (simp add: stops_def)
      have elem: "value_step j2 (json_next_element env cfg j2 tok1 T_OBJ_END e t (json_parse_object_context env cfg n t))"
        if "parse_inv j2" "left j2 \<le> left j" for j2 tok1 e t
        using that n by (auto intro!: next_element_step [OF that(1) tab env] Suc.IH(2))
      have "value_step j (json_colon_value env cfg j tok (\<lambda>j1 tok1.
          rbind (json_process_value env cfg n j1 tok1) (\<lambda>(j2, v).
          json_next_element env cfg j2 tok1 T_OBJ_END ''comma or object end'' (lua_rawset tbl k v)
            (json_parse_object_context env cfg n (lua_rawset tbl k v)))))" for k
      proof (rule colon_value_step [OF 2(1) tab env], rule value_step_bind)
        fix j1 tok1 assume j1: "parse_inv j1" "token_ok j1 tok1" "left j1 \<le> left j"
        show "value_step j1 (json_process_value env cfg n j1 tok1)"
          using j1 n by (intro Suc.IH(1)) auto
        fix j2 v assume j2: "parse_inv j2" "data j2 = data j1" "ptr j1 \<le> ptr j2"
        with j1(3) have "left j2 \<le> left j" by auto
        from value_step_mono [OF elem [OF j2(1) this] j2(2,3)]
        show "value_step j1 (case (j2, v) of (j2, v) \<Rightarrow>
          json_next_element env cfg j2 tok1 T_OBJ_END ''comma or object end'' (lua_rawset tbl k v)
            (json_parse_object_context env cfg n (lua_rawset tbl k v)))" by simp
      qed
      with True push_token_string_ok [OF 2(1,2)] show ?thesis by simp
    qed simp
  next
    case 3
    show ?case
    proof (cases "stops tok")
      case True
      from stops_value [OF this, of env cfg n j] Suc.IH(1) [OF 3(1,2)] 3(3) True show ?thesis
        by (auto simp: value_step_def stops_def opens_def)
    next
      case False
      then have n: "2 * left j + 4 \<le> Suc n" using 3(4) by simp
      have elem: "value_step j1 (json_next_element env cfg j1 tok T_ARR_END e t (json_parse_array_context env cfg n i' t))"
        if "parse_inv j1" "left j1 \<le> left j" for j1 e t i'
        using that n by (auto intro!: next_element_step [OF that(1) tab env] Suc.IH(3))
      show ?thesis
        unfolding json_parse_array_context.simps
      proof (rule value_step_bind)
        show "value_step j (json_process_value env cfg n j tok)" using n by (intro Suc.IH(1) 3) auto
        fix j1 v assume j1: "parse_inv j1" "data j1 = data j" "ptr j \<le> ptr j1"
        then have "left j1 \<le> left j" by auto
        from value_step_mono [OF elem [OF j1(1) this] j1(2,3)]
        show "value_step j (case (j1, v) of (j1, v) \<Rightarrow>
          json_next_element env cfg j1 tok T_ARR_END ''comma or array end'' (lua_rawset tbl (lua_int i) v)
            (json_parse_array_context env cfg n (i + 1) (lua_rawset tbl (lua_int i) v)))" by simp
      qed
    qed
  }
qed simp_all

lemma strbuf_new_Inr:
  "strbuf_new al n = Inr s \<Longrightarrow> n < INT_MAX \<Longrightarrow> sb_inv s \<and> n < sb_size s \<and> sb_len s = 0"
proof -
  assume a: "strbuf_new al n = Inr s" "n < INT_MAX"
  then obtain s0 where s0: "strbuf_init al n = Inr s0" "s = s0\<lparr>dynamic := 1\<rparr>"
    by (auto simp: strbuf_new_def rbind_eq_Inr split: if_splits)
  have "sb_len s0 = int (length (content s0))"
    using length_content [of s0] strbuf_init_Inr [OF s0(1) a(2)] by simp
  then show ?thesis
    using strbuf_init_Inr [OF s0(1) a(2)]
    by (auto simp: s0(2) sb_inv_def strbuf_empty_length_def split: option.splits)
qed

lemma strbuf_new_Inl:
  assumes "strbuf_new al n = Inl f" "n < INT_MAX"
  shows "f = Die ''Out of memory'' \<and> (\<exists>k. \<not> al k)"
  using assms
  by (auto simp: strbuf_new_def strbuf_init_def malloc_buf_def strbuf_ensure_null_def poke_def rbind_eq_Inl Let_def
      c_int_def split: if_splits)

text \<open>The start of a document.\<close>

lemma parse_document_start:
  assumes "int (length s) < INT_MAX" "strbuf_new (alloc env) (to_c_int (int (length s) mod 18446744073709551616)) = Inr t"
  shows "parse_inv \<lparr>data = s, ptr = 0, tmp = t, current_depth = 0\<rparr>"
proof -
  have "to_c_int (int (length s) mod 18446744073709551616) = int (length s)"
    using assms(1) by (simp add: to_c_int_id)
  with strbuf_new_Inr [of "alloc env" "int (length s)" t] assms show ?thesis by (simp add: parse_inv_def)
qed

definition fine :: "json_fault + 'a \<Rightarrow> bool" where
  "fine r = (case r of Inl e \<Rightarrow> reported e | Inr _ \<Rightarrow> True)"

lemma fine_token:
  assumes "parse_inv j" "tables_ok cfg" "strtod_ok env"
    and "\<And>j' tok'. token_step j (j', tok') \<Longrightarrow> fine (f (j', tok'))"
  shows "fine (rbind (json_next_token env cfg j tok) f)"
  using json_next_token_inside [OF assms(1-3), of tok] assms(4) by auto

lemma fine_value:
  "value_step j r \<Longrightarrow> (\<And>j' v. parse_inv j' \<Longrightarrow> fine (f (j', v))) \<Longrightarrow> fine (rbind r f)"
  by (cases r) (auto simp: value_step_def fine_def)

lemma fine_throw: "fine (json_throw_parse_error e tok)"
  by (simp add: fine_def json_throw_parse_error_def reported_def)

lemma parse_document_fine:
  assumes tab: "tables_ok cfg" and env: "strtod_ok env" and len: "int (length s) < INT_MAX"
    and t: "strbuf_new (alloc env) (to_c_int (int (length s) mod 18446744073709551616)) = Inr t"
  shows "fine (parse_document env cfg s)"
proof -
  let ?j = "\<lparr>data = s, ptr = 0, tmp = t, current_depth = 0\<rparr>"
  have "fine (rbind (json_next_token env cfg ?j new_token) (\<lambda>(j, tok).
      rbind (json_process_value env cfg (2 * length s + 3) j tok) (\<lambda>(j1, v).
      rbind (json_next_token env cfg j1 tok) (\<lambda>(j2, tok2).
        if ttype tok2 \<noteq> T_END then json_throw_parse_error ''the end'' tok2 else Inr v))))" (is "fine (rbind _ ?f)")
  proof (rule fine_token [OF parse_document_start [OF len t] tab env])
    fix j tok assume t: "token_step ?j (j, tok)"
    note td = token_stepD [OF t]
    have "value_step j (json_process_value env cfg (2 * length s + 3) j tok)"
      using td(4) by (intro json_process_value_step(1) [OF tab env td(1,2)]) auto
    then show "fine (?f (j, tok))"
      unfolding prod.case
      by (rule fine_value) (auto intro!: fine_token [OF _ tab env] simp: fine_throw, simp add: fine_def)
  qed
  with t show ?thesis
    by (simp add: parse_document_def sbj_def) (simp add: fine_def reported_def)
qed

text \<open>C6: Decoding any text, well formed or not, ends: it gives a value or reports a parse error, excessive nesting or an
  unsupported encoding; apart from that it can only die for lack of memory. It never reads behind the terminator of
  its input, and the characters and Unicode escapes stored without a check never leave the temporary
  buffer. The fuel of the model is always sufficient.\<close>

theorem json_decode_safe:
  assumes "cfg_inv cfg" "strtod_ok env" "int (length s) < INT_MAX"
  shows "(\<exists>v. json_decode env cfg [LStr s] = Inr v) \<or>
    (\<exists>e. json_decode env cfg [LStr s] = Inl e \<and>
       (reported e \<or> e = Sb (Die ''Out of memory'') \<and> (\<exists>n. \<not> alloc env n)))"
proof (cases "strbuf_new (alloc env) (to_c_int (int (length s) mod 18446744073709551616))")
  case (Inl f)
  have "to_c_int (int (length s) mod 18446744073709551616) = int (length s)"
    using assms(3) by (simp add: to_c_int_id)
  with Inl strbuf_new_Inl [of "alloc env" "int (length s)" f] assms(3) show ?thesis
    by (auto simp: json_decode_def parse_document_def sbj_def reported_def)
next
  case (Inr t)
  have "tables_ok cfg" using assms(1) by (simp add: cfg_inv_def tables_ok_def)
  from parse_document_fine [OF this assms(2,3) Inr] show ?thesis
    by (auto simp: json_decode_def fine_def split: sum.splits)
qed

theorem json_decode_safe_witness:
  "\<exists>env. strtod_ok env \<and> ((\<exists>v. json_decode env sample_config [LStr ''[true, }''] = Inr v) \<or>
    (\<exists>e. json_decode env sample_config [LStr ''[true, }''] = Inl e \<and>
       (reported e \<or> e = Sb (Die ''Out of memory'') \<and> (\<exists>n. \<not> alloc env n))))"
proof -
  let ?env = "sample_env\<lparr>strtod := (\<lambda>s. (Num 0, 0))\<rparr>"
  have e: "strtod_ok ?env" by (simp add: strtod_ok_def)
  have "int (length ''[true, }'') < INT_MAX" by simp
  from json_decode_safe [OF sample_config_inv(1) e this] e show ?thesis by blast
qed

end
