(* ===== verification/Json_Roundtrip.thy ===== *)
theory Json_Roundtrip
  imports Json_Decode
begin

text \<open>
  The codec as a whole: what the encoder prints, the decoder reads back.

  JSON documents are the datatype \<open>jv\<close>; \<open>lua_of\<close> is the Lua value that stands for a document: null is the null
  light userdata, an array the table with the keys 1 to n, an object a table with string keys. The empty array
  and the empty object are the same table, which is printed as an object.

  The reading lemmas state what is in front of the pointer: \<open>ahead j xs\<close> says that the rest of the input is \<open>xs\<close>.
\<close>


subsection \<open>Documents\<close>

datatype jv =
    JNull
  | JBool bool
  | JNum double
  | JStr "char list"
  | JArr "jv list"
  | JObj "(char list \<times> jv) list"

fun lua_of :: "jv \<Rightarrow> lua" where
  "lua_of JNull = LLight True"
| "lua_of (JBool b) = LBool b"
| "lua_of (JNum d) = LNum d"
| "lua_of (JStr s) = LStr s"
| "lua_of (JArr vs) = LTable (zip (map lua_int [1..int (length vs)]) (map lua_of vs))"
| "lua_of (JObj kvs) = LTable (map (\<lambda>kv. (LStr (fst kv), lua_of (snd kv))) kvs)"

text \<open>The text of a document, for a way to print numbers.\<close>

fun jprint :: "(double \<Rightarrow> char list) \<Rightarrow> jv \<Rightarrow> char list" where
  "jprint f JNull = ''null''"
| "jprint f (JBool b) = (if b then ''true'' else ''false'')"
| "jprint f (JNum d) = f d"
| "jprint f (JStr s) = print_string s"
| "jprint f (JArr vs) =
     (if vs = [] then ''{}'' else CHR ''['' # commas (map (jprint f) vs) @ [CHR '']''])"
| "jprint f (JObj kvs) =
     CHR ''{'' # commas (map (\<lambda>kv. print_string (fst kv) @ CHR '':'' # jprint f (snd kv)) kvs) @ [CHR ''}'']"

fun jdepth :: "jv \<Rightarrow> int" where
  "jdepth (JArr vs) = 1 + foldr max (map jdepth vs) 0"
| "jdepth (JObj kvs) = 1 + foldr max (map (\<lambda>kv. jdepth (snd kv)) kvs) 0"
| "jdepth _ = 0"

fun jnums :: "jv \<Rightarrow> double list" where
  "jnums (JNum d) = [d]"
| "jnums (JArr vs) = concat (map jnums vs)"
| "jnums (JObj kvs) = concat (map (\<lambda>kv. jnums (snd kv)) kvs)"
| "jnums _ = []"

fun distinct_keys :: "jv \<Rightarrow> bool" where
  "distinct_keys (JArr vs) = (\<forall>v\<in>set vs. distinct_keys v)"
| "distinct_keys (JObj kvs) = (distinct (map fst kvs) \<and> (\<forall>kv\<in>set kvs. distinct_keys (snd kv)))"
| "distinct_keys _ = True"

text \<open>The text that the encoder produces for a number.\<close>

definition num_text :: "json_env \<Rightarrow> json_config_t \<Rightarrow> double \<Rightarrow> char list" where
  "num_text env cfg d =
     the (fpconv_g_fmt (dtoa env d (encode_number_precision cfg)) (encode_number_precision cfg))"

text \<open>A number that survives printing and reading: its digits are as \<open>dtoa\<close> documents them and \<open>strtod\<close> reads the
  printed text back, up to the delimiter that follows.\<close>

definition delimits :: "char list \<Rightarrow> bool" where
  "delimits rest \<longleftrightarrow> rest = [] \<or> hd rest = CHR '','' \<or> hd rest = CHR '']'' \<or> hd rest = CHR ''}''"

definition num_roundtrips :: "json_env \<Rightarrow> json_config_t \<Rightarrow> double \<Rightarrow> bool" where
  "num_roundtrips env cfg d \<longleftrightarrow> dval d \<noteq> None \<and> decimal_ok (dtoa env d (encode_number_precision cfg)) \<and>
     (\<forall>rest. delimits rest \<longrightarrow> strtod env (num_text env cfg d @ rest) = (d, length (num_text env cfg d)))"


subsection \<open>Printing documents\<close>

lemma foldl_max_upto: "0 \<le> n \<Longrightarrow> foldl max 0 [1..n] = n" for n :: int
proof (induction "nat n" arbitrary: n)
  case (Suc k)
  then have n: "n - 1 = int k" "[1..n] = [1..n - 1] @ [n]" by (auto simp: upto_rec2)
  with Suc show ?case by simp
qed simp

lemma array_key_int: "1 \<le> i \<Longrightarrow> array_key (lua_int i) = Some i"
  by (simp add: array_key_def lua_int_def)

lemma array_size_list:
  assumes "cfg_inv cfg"
  shows "array_size cfg (zip (map lua_int [1..int (length vs)]) vs) = Inr (int (length vs))"
proof -
  let ?kvs = "zip (map lua_int [1..int (length vs)]) vs"
  have fst: "map fst ?kvs = map lua_int [1..int (length vs)]" by simp
  have all: "list_all (\<lambda>(k, _). array_key k \<noteq> None) ?kvs"
    by (auto simp: list_all_iff array_key_int dest!: set_zip_leftD)
  have "map (the \<circ> array_key \<circ> fst) ?kvs = map (the \<circ> array_key) (map fst ?kvs)"
    by (simp only: map_map)
  also have "\<dots> = [1..int (length vs)]" unfolding fst map_map by (rule map_idI) (simp add: array_key_int)
  finally have m: "foldl max 0 (map (the \<circ> array_key \<circ> fst) ?kvs) = int (length vs)"
    by (simp add: foldl_max_upto)
  have "\<not> (0 < r \<and> int (length vs) * r < int (length vs))" for r :: int
    using mult_left_mono [of 1 r "int (length vs)"] by auto
  with all m show ?thesis by (auto simp: array_size_def Let_def)
qed

lemma lua_rawgeti_zip:
  "1 \<le> i \<Longrightarrow> nat (i - 1) < length vs \<Longrightarrow>
     lua_rawgeti (zip (map lua_int [s..s + int (length vs) - 1]) vs) (s + i - 1) = vs ! nat (i - 1)"
proof (induction vs arbitrary: s i)
  case (Cons v vs)
  have up: "[s..s + int (length (v # vs)) - 1] = s # [s + 1..(s + 1) + int (length vs) - 1]"
    by (simp add: upto_rec1)
  show ?case
  proof (cases "i = 1")
    case True
    then show ?thesis unfolding up by (simp add: key_is_int_def lua_int_def)
  next
    case False
    with Cons.prems have i: "1 \<le> i - 1" "nat (i - 1 - 1) < length vs" "nat (i - 1) = Suc (nat (i - 1 - 1))" by auto
    have "lua_rawgeti (zip (map lua_int [s + 1..(s + 1) + int (length vs) - 1]) vs) ((s + 1) + (i - 1) - 1)
        = vs ! nat (i - 1 - 1)" by (rule Cons.IH [OF i(1,2)])
    moreover have "\<not> key_is_int (lua_int s) (s + i - 1)" using False by (simp add: key_is_int_def lua_int_def)
    ultimately show ?thesis unfolding up using i(3) by (simp add: algebra_simps)
  qed
qed simp

lemma array_size_object:
  "array_size cfg (map (\<lambda>kv. (LStr (fst kv), f (snd kv))) kvs) = Inr 0"
proof (cases kvs)
  case Nil
  then show ?thesis by (simp add: array_size_def Let_def)
next
  case (Cons kv r)
  then show ?thesis by (simp add: array_size_def array_key_def)
qed

lemma jdepth_bounds:
  "v \<in> set vs \<Longrightarrow> jdepth v + 1 \<le> jdepth (JArr vs)" "kv \<in> set kvs \<Longrightarrow> jdepth (snd kv) + 1 \<le> jdepth (JObj kvs)"
  "0 \<le> jdepth x" "1 \<le> jdepth (JArr vs)" "1 \<le> jdepth (JObj kvs)"
proof -
  have max_ge: "y \<in> set ys \<Longrightarrow> y \<le> foldr max ys 0" "0 \<le> foldr max ys 0" for y and ys :: "int list"
    by (induction ys) auto
  show "v \<in> set vs \<Longrightarrow> jdepth v + 1 \<le> jdepth (JArr vs)"
    using max_ge(1) [of "jdepth v" "map jdepth vs"] by simp
  show "kv \<in> set kvs \<Longrightarrow> jdepth (snd kv) + 1 \<le> jdepth (JObj kvs)"
    using max_ge(1) [of "jdepth (snd kv)" "map (\<lambda>kv. jdepth (snd kv)) kvs"] by force
  show "0 \<le> jdepth x" using max_ge(2) by (cases x) auto
  show "1 \<le> jdepth (JArr vs)" "1 \<le> jdepth (JObj kvs)" using max_ge(2) by auto
qed

text \<open>The depths that the encoder accepts.\<close>

definition depth_ok :: "json_env \<Rightarrow> int \<Rightarrow> int \<Rightarrow> bool" where
  "depth_ok env mx d \<longleftrightarrow> d \<le> mx \<and> (\<forall>i. 1 \<le> i \<and> i \<le> d \<longrightarrow> checkstack env i)"

lemma print_value_lua_of:
  assumes inv: "cfg_inv cfg" and env: "env_ok env"
  shows "depth_ok env (encode_max_depth cfg) (depth + jdepth v) \<Longrightarrow> 0 \<le> depth \<Longrightarrow>
    \<forall>d\<in>set (jnums v). num_roundtrips env cfg d \<Longrightarrow>
    print_value env cfg depth (lua_of v) = Inr (jprint (num_text env cfg) v)"
proof (induction v arbitrary: depth rule: measure_induct_rule [of size])
  case (less v)
  note simps = print_value.simps [of env cfg depth]
  have p: "1 \<le> encode_number_precision cfg" "encode_number_precision cfg \<le> 14"
    using inv by (auto simp: cfg_inv_def)
  show ?case
  proof (cases v)
    case (JNum d)
    then have "dval d \<noteq> None" using less.prems(3) by (simp add: num_roundtrips_def)
    then have "\<not> isnan d" "\<not> isinf d" by (auto simp: isnan_def isinf_def)
    moreover obtain t where "fpconv_g_fmt (dtoa env d (encode_number_precision cfg)) (encode_number_precision cfg) = Some t"
      using g_fmt_bounded [of "dtoa env d (encode_number_precision cfg)" "encode_number_precision cfg"] env p
      by (auto simp: env_ok_def)
    ultimately show ?thesis by (simp add: JNum simps print_number_def num_text_def)
  next
    case (JArr vs)
    have d: "depth + 1 \<le> encode_max_depth cfg \<and> checkstack env (depth + 1)"
      using less.prems(1,2) jdepth_bounds(4) [of vs] JArr by (auto simp: depth_ok_def)
    have elem: "print_value env cfg (depth + 1) (lua_of x) = Inr (jprint (num_text env cfg) x)" if "x \<in> set vs" for x
    proof (rule less.IH)
      show "size x < size v" using that JArr by (auto simp: less_Suc_eq_le intro: size_list_estimation')
      show "depth_ok env (encode_max_depth cfg) (depth + 1 + jdepth x)"
        using less.prems(1) jdepth_bounds(1) [OF that] JArr by (auto simp: depth_ok_def)
    qed (use less.prems that JArr in auto)
    have rg: "lua_rawgeti (zip (map lua_int [1..int (length vs)]) (map lua_of vs)) i = lua_of (vs ! nat (i - 1))"
      if "i \<in> set [1..int (length vs)]" for i
      using that lua_rawgeti_zip [of i "map lua_of vs" 1] by auto
    have "map_res (\<lambda>i. print_value env cfg (depth + 1) (lua_rawgeti (zip (map lua_int [1..int (length vs)]) (map lua_of vs)) i))
        [1..int (length vs)] = Inr (map (\<lambda>i. jprint (num_text env cfg) (vs ! nat (i - 1))) [1..int (length vs)])"
      by (rule map_res_Inr) (auto simp: rg intro!: elem)
    moreover have "map (\<lambda>i. jprint (num_text env cfg) (vs ! nat (i - 1))) [1..int (length vs)] = map (jprint (num_text env cfg)) vs"
      by (rule nth_equalityI) (simp_all add: nth_upto)
    moreover have "array_size cfg (zip (map lua_int [1..int (length vs)]) (map lua_of vs)) = Inr (int (length vs))"
      using array_size_list [OF inv, of "map lua_of vs"] by simp
    ultimately show ?thesis using d by (simp add: JArr simps commas_def)
  next
    case (JObj kvs)
    have d: "depth + 1 \<le> encode_max_depth cfg \<and> checkstack env (depth + 1)"
      using less.prems(1,2) jdepth_bounds(5) [of kvs] JObj by (auto simp: depth_ok_def)
    have elem: "print_value env cfg (depth + 1) (lua_of (snd kv)) = Inr (jprint (num_text env cfg) (snd kv))"
      if "kv \<in> set kvs" for kv
    proof (rule less.IH)
      show "size (snd kv) < size v" using that JObj by (induction kvs arbitrary: v) auto
      show "depth_ok env (encode_max_depth cfg) (depth + 1 + jdepth (snd kv))"
        using less.prems(1) jdepth_bounds(2) [OF that] JObj by (auto simp: depth_ok_def)
    qed (use less.prems that JObj in auto)
    have "map_res (\<lambda>kv. rbind (print_key env cfg (fst kv)) (\<lambda>t. rbind (print_value env cfg (depth + 1) (snd kv)) (\<lambda>u. Inr (t @ u))))
        (map (\<lambda>kv. (LStr (fst kv), lua_of (snd kv))) kvs) =
      Inr (map (\<lambda>kv. print_string (fst kv) @ CHR '':'' # jprint (num_text env cfg) (snd kv)) kvs)"
      using elem by (induction kvs) (auto simp: print_key_def)
    with d show ?thesis
      using array_size_object [of cfg lua_of kvs] by (simp add: JObj simps)
  qed (simp_all add: simps)
qed


subsection \<open>Reading characters\<close>

definition ahead :: "json_parse_t \<Rightarrow> char list \<Rightarrow> bool" where
  "ahead j xs \<longleftrightarrow> parse_inv j \<and> drop (ptr j) (data j) = xs"

lemma ahead_length: "ahead j xs \<Longrightarrow> length (data j) = ptr j + length xs"
  by (auto simp: ahead_def parse_inv_def)

lemma peek_ahead:
  assumes "ahead j xs"
  shows "k < length xs \<Longrightarrow> peek j k = Inr (xs ! k)" "k = length xs \<Longrightarrow> peek j k = Inr NUL"
proof -
  have l: "length (data j) = ptr j + length xs" by (rule ahead_length [OF assms])
  have "drop (ptr j) (data j) ! k = data j ! (ptr j + k)" using l by (intro nth_drop) simp
  then have n: "xs ! k = data j ! (ptr j + k)" using assms by (simp add: ahead_def)
  show "k < length xs \<Longrightarrow> peek j k = Inr (xs ! k)" "k = length xs \<Longrightarrow> peek j k = Inr NUL"
    using l n by (simp_all add: peek_def)
qed

lemma ahead_advance: "ahead j (xs @ ys) \<Longrightarrow> k = length xs \<Longrightarrow> ahead (advance j k) ys"
proof -
  assume a: "ahead j (xs @ ys)" "k = length xs"
  have "drop (k + ptr j) (data j) = drop k (drop (ptr j) (data j))" by simp
  also have "\<dots> = ys" using a by (simp add: ahead_def)
  finally show "ahead (advance j k) ys"
    using a ahead_length [OF a(1)] by (auto simp: ahead_def advance_def parse_inv_def add.commute)
qed

lemma ahead_tmp: "ahead j xs \<Longrightarrow> string_inv (advance (j\<lparr>tmp := t\<rparr>) k) \<Longrightarrow> xs = ys @ zs \<Longrightarrow> k = length ys \<Longrightarrow>
    ahead (advance (j\<lparr>tmp := t\<rparr>) k) zs"
  using ahead_advance [of j ys zs k] by (auto simp: ahead_def string_inv_def advance_def)

lemma ahead_left: "ahead j xs \<Longrightarrow> left j = length xs"
  using ahead_length by auto

lemma match_at_ahead:
  "ahead j xs \<Longrightarrow> k \<le> length xs \<Longrightarrow> NUL \<notin> set ys \<Longrightarrow>
    match_at (\<lambda>c. c) j k ys = Inr (take (length ys) (drop k xs) = ys)"
proof (induction ys arbitrary: k)
  case (Cons y ys)
  show ?case
  proof (cases "k < length xs")
    case True
    with Cons show ?thesis by (auto simp: peek_ahead Cons_nth_drop_Suc [symmetric])
  next
    case False
    with Cons.prems show ?thesis by (auto simp: peek_ahead(2))
  qed
qed simp


subsection \<open>Reading escapes\<close>

text \<open>Four hexadecimal digits ahead.\<close>

lemma decode_hex4_ahead:
  assumes "ahead j (xs @ [a, b, c, d] @ rest)" "k = length xs"
    "0 \<le> hexdigit2int a" "0 \<le> hexdigit2int b" "0 \<le> hexdigit2int c" "0 \<le> hexdigit2int d"
  shows "decode_hex4 j k =
    Inr (4096 * hexdigit2int a + 256 * hexdigit2int b + 16 * hexdigit2int c + hexdigit2int d)"
proof -
  note pk = peek_ahead(1) [OF assms(1)]
  have p: "peek j k = Inr a" "peek j (Suc k) = Inr b" "peek j (Suc (Suc k)) = Inr c" "peek j (Suc (Suc (Suc k))) = Inr d"
    using pk [of k] pk [of "Suc k"] pk [of "Suc (Suc k)"] pk [of "Suc (Suc (Suc k))"] assms(2)
    by (simp_all add: nth_append)
  have "hex_loop j k 4 [] = hex_loop j k (Suc (Suc (Suc (Suc 0)))) []" by (simp only: numeral_eq_Suc pred_numeral_simps Num.BitM.simps)
  then show ?thesis using assms(3-6) by (simp add: decode_hex4_def p push_bit_eq_mult)
qed

text \<open>A string of the input that is decoded to \<open>us\<close>: one step of the string loop.\<close>

definition decodes :: "char list \<Rightarrow> char list \<Rightarrow> bool" where
  "decodes es us \<longleftrightarrow> (\<forall>cfg j tok rest. string_inv j \<longrightarrow> ahead j (es @ rest) \<longrightarrow> escape2char cfg = escape2char_init \<longrightarrow>
     (\<exists>t. string_loop cfg j tok = string_loop cfg (advance (j\<lparr>tmp := t\<rparr>) (length es)) tok \<and>
        string_inv (advance (j\<lparr>tmp := t\<rparr>) (length es)) \<and> content t = content (tmp j) @ us))"

lemma decodes_plain:
  assumes "c \<noteq> CHR 0x22" "c \<noteq> CHR 0x5C" "c \<noteq> NUL"
  shows "decodes [c] [c]"
  unfolding decodes_def
proof (intro allI impI)
  fix cfg j tok rest assume a: "string_inv j" "ahead j ([c] @ rest)"
  have "ptr j + 1 \<le> length (data j)" using ahead_length [OF a(2)] by simp
  from append_char_inside [OF a(1) _ this, of c] obtain t where t: "strbuf_append_char_unsafe (tmp j) c = Inr t"
    "string_inv (advance (j\<lparr>tmp := t\<rparr>) 1)" "content t = content (tmp j) @ [c]" by auto
  have "peek j 0 = Inr c" using peek_ahead(1) [OF a(2), of 0] by simp
  with assms t(1) have "string_loop cfg j tok = string_loop cfg (advance (j\<lparr>tmp := t\<rparr>) 1) tok"
    by (simp add: string_loop.simps [of cfg j] sbj_def)
  with t show "\<exists>t. string_loop cfg j tok = string_loop cfg (advance (j\<lparr>tmp := t\<rparr>) (length [c])) tok \<and>
      string_inv (advance (j\<lparr>tmp := t\<rparr>) (length [c])) \<and> content t = content (tmp j) @ [c]" by auto
qed

lemma decodes_single:
  assumes "unescape x \<noteq> CHR ''u''" "unescape x \<noteq> NUL"
  shows "decodes [CHR 0x5C, x] [unescape x]"
  unfolding decodes_def
proof (intro allI impI)
  fix cfg :: json_config_t and j tok rest
  assume a: "string_inv j" "ahead j ([CHR 0x5C, x] @ rest)" and e: "escape2char cfg = escape2char_init"
  have "ptr j + 2 \<le> length (data j)" using ahead_length [OF a(2)] by simp
  from append_char_inside [OF a(1) _ this, of "unescape x"] obtain t where
    t: "strbuf_append_char_unsafe (tmp j) (unescape x) = Inr t"
    "string_inv (advance (j\<lparr>tmp := t\<rparr>) 2)" "content t = content (tmp j) @ [unescape x]" by auto
  have "peek j 0 = Inr (CHR 0x5C)" "peek j 1 = Inr x"
    using peek_ahead(1) [OF a(2), of 0] peek_ahead(1) [OF a(2), of 1] by simp_all
  with assms t(1) have "string_loop cfg j tok = string_loop cfg (advance (j\<lparr>tmp := t\<rparr>) 2) tok"
    by (simp add: string_loop.simps [of cfg j] sbj_def e escape2char_init_nth)
  with t show "\<exists>t. string_loop cfg j tok = string_loop cfg (advance (j\<lparr>tmp := t\<rparr>) (length [CHR 0x5C, x])) tok \<and>
      string_inv (advance (j\<lparr>tmp := t\<rparr>) (length [CHR 0x5C, x])) \<and> content t = content (tmp j) @ [unescape x]"
    by (auto simp: numeral_2_eq_2)
qed

text \<open>An escape that stands for the code point \<open>cp\<close>.\<close>

lemma decodes_unicode:
  assumes esc: "\<And>j rest. ahead j (CHR 0x5C # CHR ''u'' # es @ rest) \<Longrightarrow>
      json_append_unicode_escape j = append_codepoint j cp n" and n: "n = length es + 2"
    and len: "length (codepoint_to_utf8 cp) \<le> length es + 2" "codepoint_to_utf8 cp \<noteq> []"
  shows "decodes (CHR 0x5C # CHR ''u'' # es) (codepoint_to_utf8 cp)"
  unfolding decodes_def
proof (intro allI impI)
  fix cfg :: json_config_t and j tok rest
  assume a: "string_inv j" "ahead j ((CHR 0x5C # CHR ''u'' # es) @ rest)" and e: "escape2char cfg = escape2char_init"
  have "ptr j + (length es + 2) \<le> length (data j)" using ahead_length [OF a(2)] by simp
  from append_inside [OF a(1) len(1) this] obtain t where
    t: "strbuf_append_mem_unsafe (tmp j) (codepoint_to_utf8 cp) (int (length (codepoint_to_utf8 cp))) = Inr t"
    "string_inv (advance (j\<lparr>tmp := t\<rparr>) (length es + 2))" "content t = content (tmp j) @ codepoint_to_utf8 cp" by auto
  have "peek j 0 = Inr (CHR 0x5C)" "peek j 1 = Inr (CHR ''u'')"
    using peek_ahead(1) [OF a(2), of 0] peek_ahead(1) [OF a(2), of 1] by simp_all
  moreover have "json_append_unicode_escape j = Inr (0, advance (j\<lparr>tmp := t\<rparr>) (length es + 2))"
    using esc [of j rest] a(2) t(1) len(2) n by (simp add: append_codepoint_def sbj_def)
  moreover have "unescape (CHR ''u'') = CHR ''u''" by (simp add: unescape_def)
  ultimately have "string_loop cfg j tok = string_loop cfg (advance (j\<lparr>tmp := t\<rparr>) (length es + 2)) tok"
    by (simp add: string_loop.simps [of cfg j] e escape2char_init_nth)
  with t show "\<exists>t. string_loop cfg j tok = string_loop cfg (advance (j\<lparr>tmp := t\<rparr>) (length (CHR 0x5C # CHR ''u'' # es))) tok \<and>
      string_inv (advance (j\<lparr>tmp := t\<rparr>) (length (CHR 0x5C # CHR ''u'' # es))) \<and>
      content t = content (tmp j) @ codepoint_to_utf8 cp" by auto
qed

lemma decodes_concat:
  assumes "list_all2 decodes ess uss" "string_inv j" "ahead j (concat ess @ rest)" "escape2char cfg = escape2char_init"
  shows "\<exists>t. string_loop cfg j tok = string_loop cfg (advance (j\<lparr>tmp := t\<rparr>) (length (concat ess))) tok \<and>
    string_inv (advance (j\<lparr>tmp := t\<rparr>) (length (concat ess))) \<and> content t = content (tmp j) @ concat uss"
  using assms(1-3)
proof (induction ess uss arbitrary: j rule: list_all2_induct)
  case Nil
  then show ?case by (intro exI [of _ "tmp j"]) (simp add: advance_def)
next
  case (Cons es ess us uss)
  obtain t where t: "string_loop cfg j tok = string_loop cfg (advance (j\<lparr>tmp := t\<rparr>) (length es)) tok"
    "string_inv (advance (j\<lparr>tmp := t\<rparr>) (length es))" "content t = content (tmp j) @ us"
    using Cons.hyps(1) Cons.prems assms(4) unfolding decodes_def by fastforce
  let ?j = "advance (j\<lparr>tmp := t\<rparr>) (length es)"
  have "ahead ?j (concat ess @ rest)" using Cons.prems(2) by (intro ahead_tmp [OF _ t(2)]) auto
  from Cons.IH [OF t(2) this] obtain t' where
    t': "string_loop cfg ?j tok = string_loop cfg (advance (?j\<lparr>tmp := t'\<rparr>) (length (concat ess))) tok"
    "string_inv (advance (?j\<lparr>tmp := t'\<rparr>) (length (concat ess)))" "content t' = content (tmp ?j) @ concat uss" by blast
  moreover have "advance (?j\<lparr>tmp := t'\<rparr>) (length (concat ess)) = advance (j\<lparr>tmp := t'\<rparr>) (length (concat (es # ess)))"
    by (simp add: advance_def add.assoc)
  ultimately show ?case using t(1,3) by (intro exI [of _ t']) (simp add: advance_def add.assoc)
qed


subsection \<open>Reading what the encoder escapes\<close>

text \<open>The entries of the escape table, by the code of their character: none, a single character that reads back, or
  a Unicode escape with that code.\<close>

definition entry_ok :: "nat \<Rightarrow> char list option \<Rightarrow> bool" where
  "entry_ok n e = (case e of
       None \<Rightarrow> n \<noteq> 0 \<and> n \<noteq> 34 \<and> n \<noteq> 92
     | Some es \<Rightarrow> (case es of
         [b, x] \<Rightarrow> b = CHR 0x5C \<and> of_char (unescape x) = n \<and> n \<noteq> 117 \<and> n \<noteq> 0
       | [b, u, z, z', x, y] \<Rightarrow> [b, u, z, z'] = [CHR 0x5C, CHR ''u'', CHR ''0'', CHR ''0''] \<and>
           0 \<le> hexdigit2int x \<and> 0 \<le> hexdigit2int y \<and> 16 * hexdigit2int x + hexdigit2int y = int n \<and> n < 128
       | _ \<Rightarrow> False))"

lemma entries_ok: "list_all (\<lambda>(n, e). entry_ok n e) (enumerate 0 char2escape_table)"
  by code_simp

lemma char2escape_ok: "entry_ok (of_char c) (char2escape c)"
proof -
  have "length char2escape_table = 256" by code_simp
  then have "(of_char c :: nat) < length char2escape_table" using nat_of_char_less_256 [of c] by simp
  then have "(of_char c, char2escape c) \<in> set (enumerate 0 char2escape_table)"
    by (simp add: in_set_enumerate_eq char2escape_def)
  with entries_ok show ?thesis by (auto simp: list_all_iff)
qed

lemma esc_decodes: "decodes (esc c) [c]"
proof (cases "char2escape c")
  case None
  then have "(of_char c :: nat) \<noteq> of_char NUL" "(of_char c :: nat) \<noteq> of_char CHR 0x22"
    "(of_char c :: nat) \<noteq> of_char CHR 0x5C"
    using char2escape_ok [of c] by (auto simp: entry_ok_def)
  with None show ?thesis by (auto simp: esc_def intro!: decodes_plain)
next
  case (Some e)
  with char2escape_ok [of c] consider
    (single) x where "e = [CHR 0x5C, x]" "(of_char (unescape x) :: nat) = of_char c" "(of_char c :: nat) \<noteq> 117" "(of_char c :: nat) \<noteq> 0"
  | (unicode) x y where "e = [CHR 0x5C, CHR ''u'', CHR ''0'', CHR ''0'', x, y]" "0 \<le> hexdigit2int x" "0 \<le> hexdigit2int y"
      "16 * hexdigit2int x + hexdigit2int y = int (of_char c)" "(of_char c :: nat) < 128"
    by (auto simp: entry_ok_def split: list.splits)
  then show ?thesis
  proof cases
    case single
    then have "unescape x = c" by (simp add: of_char_eq_iff)
    moreover have "c \<noteq> CHR ''u''" "c \<noteq> NUL" using single(3,4) by auto
    ultimately show ?thesis using decodes_single [of x] single(1) Some by (simp add: esc_def)
  next
    case unicode
    define cp where "cp = int (of_char c)"
    have cp: "0 \<le> cp" "cp < 128" using unicode(5) by (simp_all add: cp_def)
    have "cp AND 0xF800 \<le> cp" using cp(1) by (rule AND_upper1)
    then have "cp AND 0xF800 \<noteq> 0xD800" using cp(2) by auto
    moreover have "hexdigit2int CHR ''0'' = 0" by (simp add: hexdigit2int_def schar_def)
    ultimately have u: "json_append_unicode_escape j = append_codepoint j cp 6"
      if "ahead j (CHR 0x5C # CHR ''u'' # [CHR ''0'', CHR ''0'', x, y] @ rest)" for j rest
      using decode_hex4_ahead [of j "[CHR 0x5C, CHR ''u'']" "CHR ''0''" "CHR ''0''" x y rest 2] that unicode cp
      by (simp add: json_append_unicode_escape_def cp_def)
    have utf8: "codepoint_to_utf8 cp = [c]" using cp by (simp add: codepoint_to_utf8_def cp_def)
    have "decodes (CHR 0x5C # CHR ''u'' # [CHR ''0'', CHR ''0'', x, y]) (codepoint_to_utf8 cp)"
      by (rule decodes_unicode [OF u]) (simp_all add: utf8)
    then show ?thesis using unicode(1) Some utf8 by (simp add: esc_def)
  qed
qed

text \<open>A string token whose text consists of pieces that decode.\<close>

lemma next_string_token:
  assumes ess: "list_all2 decodes ess uss" and a: "ahead j (CHR 0x22 # concat ess @ CHR 0x22 # rest)"
    and tab: "tables_ok cfg"
  shows "\<exists>j' tok'. json_next_token env cfg j tok = Inr (j', tok') \<and> ahead j' rest \<and> same_input j' j \<and>
    ttype tok' = T_STRING \<and> token_ok j' tok' \<and> content (tmp j') = concat uss"
proof -
  define tok0 where "tok0 = tok\<lparr>ttype := T_UNKNOWN, tindex := int (ptr j)\<rparr>"
  have c: "peek j 0 = Inr (CHR 0x22)" using peek_ahead(1) [OF a, of 0] by simp
  have esc: "escape2char cfg = escape2char_init" using tab by (simp add: tables_ok_def)
  let ?j = "(advance j 1)\<lparr>tmp := strbuf_reset (tmp j)\<rparr>"
  have inv: "string_inv ?j" "content (tmp ?j) = []"
    using a ahead_length [OF a]
    by (auto simp: ahead_def string_inv_def parse_inv_def advance_def strbuf_reset_def sb_inv_def content_def
        split: option.splits)
  have "ahead (advance j 1) (concat ess @ CHR 0x22 # rest)"
    using ahead_advance [of j "[CHR 0x22]" "concat ess @ CHR 0x22 # rest" 1] a by simp
  then have a1: "ahead ?j (concat ess @ CHR 0x22 # rest)" using inv(1) by (simp add: ahead_def string_inv_def)
  from decodes_concat [OF ess inv(1) a1 esc, of tok0] obtain t where
    t: "string_loop cfg ?j tok0 = string_loop cfg (advance (?j\<lparr>tmp := t\<rparr>) (length (concat ess))) tok0"
    "string_inv (advance (?j\<lparr>tmp := t\<rparr>) (length (concat ess)))" "content t = concat uss" using inv(2) by auto
  let ?j2 = "advance (?j\<lparr>tmp := t\<rparr>) (length (concat ess))"
  have a2: "ahead ?j2 (CHR 0x22 # rest)" by (rule ahead_tmp [OF a1 t(2)]) simp_all
  then have "peek ?j2 0 = Inr (CHR 0x22)" using peek_ahead(1) [OF a2, of 0] by simp
  then have sl: "string_loop cfg ?j tok0 = Inr (?j2, None)" unfolding t(1) by (simp add: string_loop.simps)
  have si: "sb_inv (tmp ?j2)" using t(2) by (simp add: string_inv_def parse_inv_def)
  from strbuf_ensure_null_ok [OF this] obtain s b where
    s: "strbuf_ensure_null (tmp ?j2) = Inr s" "sb_inv s" "s = (tmp ?j2)\<lparr>buf := Some b\<rparr>" "content s = content (tmp ?j2)"
    by blast
  have "ahead (advance ?j2 1) rest" using ahead_advance [of ?j2 "[CHR 0x22]" rest 1] a2 by simp
  then have "ahead ((advance ?j2 1)\<lparr>tmp := s\<rparr>) rest"
    using s(2,3) by (auto simp: ahead_def parse_inv_def advance_def)
  moreover have "json_next_token env cfg j tok = json_next_string_token cfg j tok0"
    using c tab by (simp add: json_next_token_def skip_whitespace.simps [of cfg j] tables_ok_def ch2token_init_nth
        token_class_def tok0_def Let_def)
  ultimately show ?thesis
    using sl s(1,4) t(3)
    by (auto simp: json_next_string_token_def sbj_def token_ok_def advance_def)
qed


subsection \<open>Reading the other tokens\<close>

lemma skip_whitespace_ahead:
  assumes "ahead j xs" "tables_ok cfg" "c = (if xs = [] then NUL else hd xs)" "token_class c \<noteq> T_WHITESPACE"
  shows "skip_whitespace cfg j = Inr (j, token_class c, c)"
proof -
  have "peek j 0 = Inr c" using peek_ahead [OF assms(1), of 0] assms(3) by (cases xs) auto
  with assms(2,4) show ?thesis by (simp add: skip_whitespace.simps [of cfg j] tables_ok_def ch2token_init_nth)
qed

lemma next_token_structural:
  assumes "ahead j (c # rest)" "tables_ok cfg" "c \<in> set ''{}[],:''"
  shows "json_next_token env cfg j tok = Inr (advance j 1, tok\<lparr>ttype := token_class c, tindex := int (ptr j)\<rparr>)"
    "ahead (advance j 1) rest"
proof -
  have cls: "token_class c \<noteq> T_WHITESPACE" "token_class c \<noteq> T_ERROR" "token_class c \<noteq> T_END" "token_class c \<noteq> T_UNKNOWN"
    using assms(3) by (auto simp: token_class_def)
  have "skip_whitespace cfg j = Inr (j, token_class c, c)"
    by (rule skip_whitespace_ahead [OF assms(1,2) _ cls(1)]) simp
  with cls show "json_next_token env cfg j tok = Inr (advance j 1, tok\<lparr>ttype := token_class c, tindex := int (ptr j)\<rparr>)"
    by (simp add: json_next_token_def Let_def)
  show "ahead (advance j 1) rest" using ahead_advance [of j "[c]" rest 1] assms(1) by simp
qed

lemma next_token_end:
  assumes "ahead j rest" "tables_ok cfg" "rest = [] \<or> hd rest = NUL"
  shows "json_next_token env cfg j tok = Inr (j, tok\<lparr>ttype := T_END, tindex := int (ptr j)\<rparr>)"
proof -
  have c: "token_class NUL = T_END" by (simp add: token_class_def)
  then have "skip_whitespace cfg j = Inr (j, token_class NUL, NUL)"
    using assms(3) by (intro skip_whitespace_ahead [OF assms(1,2)]) auto
  with c show ?thesis by (simp add: json_next_token_def Let_def)
qed

lemma next_token_literal:
  assumes "ahead j (w @ rest)" "tables_ok cfg" "w \<in> {''true'', ''false'', ''null''}"
  shows "\<exists>tok'. json_next_token env cfg j tok = Inr (advance j (length w), tok') \<and>
      ttype tok' = (if w = ''null'' then T_NULL else T_BOOLEAN) \<and>
      (w \<noteq> ''null'' \<longrightarrow> (tvalue tok' = V_boolean True) = (w = ''true''))"
    "ahead (advance j (length w)) rest"
proof -
  have m: "match_at (\<lambda>c. c) j 0 ys = Inr (take (length ys) (w @ rest) = ys)" if "NUL \<notin> set ys" for ys
    using match_at_ahead [OF assms(1), of 0 ys] that by simp
  have cls: "token_class CHR ''t'' = T_UNKNOWN" "token_class CHR ''f'' = T_UNKNOWN" "token_class CHR ''n'' = T_UNKNOWN"
    "\<not> is_digit CHR ''t''" "\<not> is_digit CHR ''f''" "\<not> is_digit CHR ''n''"
    by (simp_all add: token_class_def is_digit_def)
  show "\<exists>tok'. json_next_token env cfg j tok = Inr (advance j (length w), tok') \<and>
      ttype tok' = (if w = ''null'' then T_NULL else T_BOOLEAN) \<and>
      (w \<noteq> ''null'' \<longrightarrow> (tvalue tok' = V_boolean True) = (w = ''true''))"
    using assms(3) skip_whitespace_ahead [OF assms(1,2), of "hd (w @ rest)"] m [of "''true''"] m [of "''false''"] m [of "''null''"]
    by (auto simp: json_next_token_def Let_def cls numeral_eq_Suc)
  show "ahead (advance j (length w)) rest" by (rule ahead_advance [OF assms(1) refl])
qed

text \<open>A printed number is never one that the strict mode rejects.\<close>

lemma not_invalid_number:
  assumes a: "ahead j (t @ rest)" and t: "json_number t = Some q" and rest: "delimits rest"
  shows "json_is_invalid_number j = Inr False"
proof -
  obtain pre ip r where s: "t = pre @ ip @ r" "pre = [] \<or> pre = ''-''" "ip \<noteq> []" "list_all is_digit ip"
    "hd ip \<noteq> CHR ''0'' \<or> length ip = 1" "r = [] \<or> hd r \<in> set ''.eE''"
    by (rule json_number_shape [OF t])
  then obtain d ds where ip: "ip = d # ds" by (cases ip) auto
  have d: "is_digit d" using s(4) ip by simp
  then have dn: "d \<noteq> CHR ''+''" "d \<noteq> CHR ''-''" by auto
  define p :: nat where "p = length pre"
  have p0: "peek j p = Inr d" using peek_ahead(1) [OF a, of p] s(1) ip by (simp add: p_def nth_append)
  have c0: "peek j 0 = Inr (if pre = [] then d else CHR ''-'')"
    using peek_ahead(1) [OF a, of 0] s(1,2) ip by auto
  have p: "p = (if pre = [] then 0 else 1)" using s(2) by (auto simp: p_def)
  have le: "schar d \<le> 57" using d by (auto simp: is_digit_cases schar_def)
  have eq: "json_is_invalid_number j = (if d = CHR ''0'' then rbind (peek j (p + 1)) (\<lambda>ch2.
      Inr (schar ch2 OR 0x20 = 120 \<or> 48 \<le> schar ch2 \<and> schar ch2 \<le> 57)) else Inr False)"
  proof (cases "pre = []")
    case True
    with c0 p0 p le dn show ?thesis by (simp add: json_is_invalid_number_def)
  next
    case False
    with c0 p0 p le show ?thesis by (simp add: json_is_invalid_number_def)
  qed
  show ?thesis
  proof (cases "d = CHR ''0''")
    case True
    have ds: "ds = []" using s(5) True ip by simp
    have "\<exists>c. peek j (p + 1) = Inr c \<and> c \<in> set (NUL # ''.eE,]}'')"
    proof (cases "r @ rest")
      case Nil
      with peek_ahead(2) [OF a, of "p + 1"] s(1) ip ds show ?thesis by (simp add: p_def)
    next
      case (Cons c cs)
      have "c \<in> set ''.eE,]}''"
        using Cons s(6) rest by (cases r) (auto simp: delimits_def)
      moreover have "peek j (p + 1) = Inr c"
        using peek_ahead(1) [OF a, of "p + 1"] s(1) ip ds Cons by (simp add: p_def nth_append)
      ultimately show ?thesis by simp
    qed
    then obtain c where c: "peek j (p + 1) = Inr c" "c \<in> set (NUL # ''.eE,]}'')" by blast
    from c(2) have "\<not> (schar c OR 0x20 = 120 \<or> 48 \<le> schar c \<and> schar c \<le> 57)" by (auto simp: schar_def)
    with c(1) True show ?thesis by (simp add: eq)
  qed (simp add: eq)
qed

lemma next_token_number:
  assumes a: "ahead j (num_text env cfg d @ rest)" and tab: "tables_ok cfg" and rest: "delimits rest"
    and d: "num_roundtrips env cfg d" and p: "1 \<le> encode_number_precision cfg"
  shows "\<exists>tok'. json_next_token env cfg j tok = Inr (advance j (length (num_text env cfg d)), tok') \<and>
      ttype tok' = T_NUMBER \<and> tvalue tok' = V_number d"
    "ahead (advance j (length (num_text env cfg d))) rest"
proof -
  define t where "t = num_text env cfg d"
  obtain q where q: "json_number t = Some q"
    using g_fmt_json_number [OF _ p, of "dtoa env d (encode_number_precision cfg)"] d
    by (auto simp: num_roundtrips_def t_def num_text_def)
  obtain pre ip r where s: "t = pre @ ip @ r" "pre = [] \<or> pre = ''-''" "ip \<noteq> []" "list_all is_digit ip" "NUL \<notin> set t"
    by (rule json_number_shape [OF q])
  have "\<exists>c cs. pre @ ip @ r = c # cs \<and> (c = CHR ''-'' \<or> is_digit c)" using s(2-4) by (cases ip) auto
  then obtain c cs where c: "t = c # cs" "c = CHR ''-'' \<or> is_digit c" using s(1) by auto
  have cls: "token_class c = T_UNKNOWN" "c \<noteq> CHR 0x22" using c(2) by (auto simp: token_class_def is_digit_cases)
  have a': "ahead j (t @ rest)" using a by (simp add: t_def)
  have "takeWhile (\<lambda>c. c \<noteq> NUL) (t @ rest) = t @ takeWhile (\<lambda>c. c \<noteq> NUL) rest"
    using s(5) by (intro takeWhile_append2) auto
  moreover have "delimits (takeWhile (\<lambda>c. c \<noteq> NUL) rest)" using rest by (cases rest) (auto simp: delimits_def)
  ultimately have "strtod env (takeWhile (\<lambda>c. c \<noteq> NUL) (t @ rest)) = (d, length t)"
    using d by (simp add: num_roundtrips_def t_def)
  moreover have "drop (ptr j) (data j) = t @ rest" using a' by (simp add: ahead_def)
  ultimately have n: "json_next_number_token env j tok0 =
      (advance j (length t), tok0\<lparr>ttype := T_NUMBER, tvalue := V_number d\<rparr>)" for tok0
    using c(1) by (simp add: json_next_number_token_def Let_def)
  have "skip_whitespace cfg j = Inr (j, T_UNKNOWN, c)"
    using skip_whitespace_ahead [OF a' tab, of c] cls(1) c(1) by simp
  with n c(2) cls(2) not_invalid_number [OF a' q rest]
  have "\<exists>tok'. json_next_token env cfg j tok = Inr (advance j (length t), tok') \<and>
      ttype tok' = T_NUMBER \<and> tvalue tok' = V_number d"
    by (auto simp: json_next_token_def Let_def)
  then show "\<exists>tok'. json_next_token env cfg j tok = Inr (advance j (length (num_text env cfg d)), tok') \<and>
      ttype tok' = T_NUMBER \<and> tvalue tok' = V_number d" by (simp add: t_def)
  show "ahead (advance j (length (num_text env cfg d))) rest" by (rule ahead_advance [OF a refl])
qed


subsection \<open>Reading documents\<close>

text \<open>Reading one value: its first token, which closes no container, and the rest.\<close>

definition reads :: "json_env \<Rightarrow> json_config_t \<Rightarrow> nat \<Rightarrow> json_parse_t \<Rightarrow> char list \<Rightarrow> lua \<Rightarrow> bool" where
  "reads env cfg n j rest v \<longleftrightarrow> (\<forall>tok. \<exists>j1 tok1 j2. json_next_token env cfg j tok = Inr (j1, tok1) \<and>
     ttype tok1 \<noteq> T_OBJ_END \<and> ttype tok1 \<noteq> T_ARR_END \<and>
     json_process_value env cfg n j1 tok1 = Inr (j2, v) \<and> ahead j2 rest \<and> same_input j2 j)"

lemma commas_Cons: "commas (t # ts) = t @ (if ts = [] then [] else CHR '','' # commas ts)"
  by (cases ts) (auto simp: commas_def)

lemma lua_rawset_fresh: "k \<notin> set (map fst tbl) \<Longrightarrow> lua_rawset tbl k v = tbl @ [(k, v)]"
  by (induction tbl k v rule: lua_rawset.induct) auto

lemma advance_simps [simp]: "data (advance j k) = data j" "current_depth (advance j k) = current_depth j" "tmp (advance j k) = tmp j"
  by (simp_all add: advance_def)

text \<open>The end of a container, and a further element.\<close>

lemma next_element_close:
  assumes "ahead j (c # rest)" "tables_ok cfg" "c \<in> set ''}]''" "close = token_class c"
  shows "json_next_element env cfg j tok close e tbl loop = Inr (json_decode_ascend (advance j 1), LTable tbl)"
    "ahead (json_decode_ascend (advance j 1)) rest"
proof -
  have c: "c \<in> set ''{}[],:''" using assms(3) by auto
  show "json_next_element env cfg j tok close e tbl loop = Inr (json_decode_ascend (advance j 1), LTable tbl)"
    using next_token_structural(1) [OF assms(1,2) c] assms(4) by (simp add: json_next_element_def)
  show "ahead (json_decode_ascend (advance j 1)) rest"
    using next_token_structural(2) [OF assms(1,2) c] by (simp add: ahead_def parse_inv_def json_decode_ascend_def)
qed

lemma next_element_comma:
  assumes "ahead j (CHR '','' # rest)" "tables_ok cfg" "close \<noteq> T_COMMA"
  shows "\<exists>tok'. json_next_element env cfg j tok close e tbl loop =
      rbind (json_next_token env cfg (advance j 1) tok') (\<lambda>(j2, tok2). loop j2 tok2)"
    "ahead (advance j 1) rest"
proof -
  have "token_class CHR '','' = T_COMMA" by (simp add: token_class_def)
  then show "\<exists>tok'. json_next_element env cfg j tok close e tbl loop =
      rbind (json_next_token env cfg (advance j 1) tok') (\<lambda>(j2, tok2). loop j2 tok2)"
    using next_token_structural(1) [OF assms(1,2), of env tok] assms(3) by (auto simp: json_next_element_def)
  show "ahead (advance j 1) rest" using next_token_structural(2) [OF assms(1,2)] by simp
qed

lemma array_reads:
  assumes tab: "tables_ok cfg"
    and elem: "\<And>x j rest n. x \<in> set vs \<Longrightarrow> ahead j (f x @ rest) \<Longrightarrow> delimits rest \<Longrightarrow> current_depth j = d \<Longrightarrow>
      2 * left j + 3 \<le> n \<Longrightarrow> reads env cfg n j rest (g x)"
  shows "vs \<noteq> [] \<Longrightarrow> ahead j (commas (map f vs) @ CHR '']'' # rest) \<Longrightarrow> current_depth j = d \<Longrightarrow> 2 * left j + 4 \<le> n \<Longrightarrow>
    (\<And>k. k \<in> set (map fst tbl) \<Longrightarrow> \<exists>m<i. k = lua_int m) \<Longrightarrow>
    \<exists>j1 tok1 j2. json_next_token env cfg j tok = Inr (j1, tok1) \<and> ttype tok1 \<noteq> T_ARR_END \<and>
      json_parse_array_context env cfg n i tbl j1 tok1 =
        Inr (j2, LTable (tbl @ zip (map lua_int [i..i + int (length vs) - 1]) (map g vs))) \<and>
      ahead j2 rest \<and> data j2 = data j \<and> current_depth j2 = d - 1"
  using elem
proof (induction vs arbitrary: j n i tbl tok)
  case (Cons v vs)
  obtain m where n: "n = Suc m" using Cons.prems(4) by (cases n) auto
  let ?rest = "(if vs = [] then [] else CHR '','' # commas (map f vs)) @ CHR '']'' # rest"
  have a: "ahead j (f v @ ?rest)" using Cons.prems(2) by (simp add: commas_Cons)
  have "reads env cfg m j ?rest (g v)"
    using Cons.prems(3,4) n by (intro Cons.prems(6) a) (auto simp: delimits_def)
  then obtain j1 tok1 j2 where r: "json_next_token env cfg j tok = Inr (j1, tok1)" "ttype tok1 \<noteq> T_ARR_END"
    "json_process_value env cfg m j1 tok1 = Inr (j2, g v)" "ahead j2 ?rest" "same_input j2 j"
    unfolding reads_def by blast
  have "lua_int i \<notin> set (map fst tbl)" using Cons.prems(5) by (fastforce simp: lua_int_def)
  then have tbl: "lua_rawset tbl (lua_int i) (g v) = tbl @ [(lua_int i, g v)]" by (rule lua_rawset_fresh)
  have up: "[i..i + int (length (v # vs)) - 1] = i # [i + 1..(i + 1) + int (length vs) - 1]"
    by (simp add: upto_rec1)
  have loop: "json_parse_array_context env cfg n i tbl j1 tok1 =
      json_next_element env cfg j2 tok1 T_ARR_END ''comma or array end'' (tbl @ [(lua_int i, g v)])
        (json_parse_array_context env cfg m (i + 1) (tbl @ [(lua_int i, g v)]))"
    by (simp add: n r(3) tbl)
  show ?case
  proof (cases "vs = []")
    case True
    have "token_class CHR '']'' = T_ARR_END" by (simp add: token_class_def)
    then show ?thesis
      unfolding up using next_element_close [of j2 "CHR '']''" rest cfg T_ARR_END] r loop True tab Cons.prems(3)
      by (auto simp: json_decode_ascend_def)
  next
    case False
    have a2: "ahead j2 (CHR '','' # commas (map f vs) @ CHR '']'' # rest)" using r(4) False by simp
    note comma = next_element_comma [OF a2 tab, of T_ARR_END]
    from comma(1) [of env tok1] obtain tok' where tok': "json_next_element env cfg j2 tok1 T_ARR_END ''comma or array end''
        (tbl @ [(lua_int i, g v)]) (json_parse_array_context env cfg m (i + 1) (tbl @ [(lua_int i, g v)])) =
      rbind (json_next_token env cfg (advance j2 1) tok') (\<lambda>(j2, tok2). json_parse_array_context env cfg m (i + 1)
        (tbl @ [(lua_int i, g v)]) j2 tok2)" by (meson json_token_type_t.distinct)
    have "left (advance j2 1) + 1 \<le> left j2" "left j2 \<le> left j"
      using ahead_left [OF a2] ahead_left [OF comma(2)] ahead_left [OF a] False by auto
    then have "2 * left (advance j2 1) + 4 \<le> m" using Cons.prems(4) n by linarith
    moreover have "\<exists>m<i + 1. k = lua_int m" if "k \<in> set (map fst (tbl @ [(lua_int i, g v)]))" for k
    proof (cases "k = lua_int i")
      case True
      then show ?thesis by (intro exI [of _ i]) simp
    next
      case False
      with that Cons.prems(5) [of k] obtain m where "m < i" "k = lua_int m" by auto
      then show ?thesis by (intro exI [of _ m]) simp
    qed
    ultimately obtain j3 tok3 j4 where
      j4: "json_next_token env cfg (advance j2 1) tok' = Inr (j3, tok3)"
      "json_parse_array_context env cfg m (i + 1) (tbl @ [(lua_int i, g v)]) j3 tok3 = Inr (j4,
        LTable ((tbl @ [(lua_int i, g v)]) @ zip (map lua_int [i + 1..(i + 1) + int (length vs) - 1]) (map g vs)))"
      "ahead j4 rest" "data j4 = data (advance j2 1)" "current_depth j4 = d - 1"
      using Cons.IH [OF False comma(2), of m "tbl @ [(lua_int i, g v)]" "i + 1" tok'] Cons.prems(3,6) r(5) by auto
    show ?thesis unfolding up using r(1,2,5) loop tok' j4 by auto
  qed
qed simp

lemma print_string_decodes: "list_all2 decodes (map esc s) (map (\<lambda>c. [c]) s)" "concat (map (\<lambda>c. [c]) s) = s"
  by (induction s) (simp_all add: esc_decodes)

lemma next_token_print_string:
  assumes "ahead j (print_string s @ rest)" "tables_ok cfg"
  shows "\<exists>j' tok'. json_next_token env cfg j tok = Inr (j', tok') \<and> ahead j' rest \<and> same_input j' j \<and>
    ttype tok' = T_STRING \<and> push_token_string j' tok' = Inr (LStr s)"
proof -
  have "ahead j (CHR 0x22 # concat (map esc s) @ CHR 0x22 # rest)" using assms(1) by (simp add: print_string_def)
  from next_string_token [OF print_string_decodes(1) this assms(2), of env tok] obtain j' tok' where
    "json_next_token env cfg j tok = Inr (j', tok')" "ahead j' rest" "same_input j' j" "ttype tok' = T_STRING"
    "token_ok j' tok'" "content (tmp j') = s" by (auto simp: print_string_decodes(2))
  moreover from this have "parse_inv j'" by (simp add: ahead_def)
  ultimately show ?thesis using push_token_string_ok [of j' tok'] by auto
qed

text \<open>One member of an object: key, colon and value.\<close>

lemma member_reads:
  assumes tab: "tables_ok cfg" and a: "ahead j (print_string k @ CHR '':'' # t @ rest)"
    and val: "\<And>j'. ahead j' (t @ rest) \<Longrightarrow> same_input j' j \<Longrightarrow> reads env cfg n j' rest v"
  shows "\<exists>j1 tok1 j2 tok2. json_next_token env cfg j tok = Inr (j1, tok1) \<and> ttype tok1 = T_STRING \<and>
      json_parse_object_context env cfg (Suc n) tbl j1 tok1 =
        json_next_element env cfg j2 tok2 T_OBJ_END ''comma or object end'' (lua_rawset tbl (LStr k) v)
          (json_parse_object_context env cfg n (lua_rawset tbl (LStr k) v)) \<and>
      ahead j2 rest \<and> same_input j2 j"
proof -
  obtain j1 tok1 where j1: "json_next_token env cfg j tok = Inr (j1, tok1)" "ahead j1 (CHR '':'' # t @ rest)"
    "same_input j1 j" "ttype tok1 = T_STRING" "push_token_string j1 tok1 = Inr (LStr k)"
    using next_token_print_string [OF a tab] by blast
  have "token_class CHR '':'' = T_COLON" by (simp add: token_class_def)
  with next_token_structural(1) [OF j1(2) tab, of env tok1] next_token_structural(2) [OF j1(2) tab] obtain tok2 where
    t2: "json_next_token env cfg j1 tok1 = Inr (advance j1 1, tok2)" "ttype tok2 = T_COLON" "ahead (advance j1 1) (t @ rest)"
    by auto
  from val [OF t2(3)] j1(3) obtain j3 tok3 j4 where
    "json_next_token env cfg (advance j1 1) tok2 = Inr (j3, tok3)" "json_process_value env cfg n j3 tok3 = Inr (j4, v)"
    "ahead j4 rest" "same_input j4 (advance j1 1)" unfolding reads_def by (metis advance_simps(1,2))
  with j1 t2 show ?thesis by (auto simp: json_colon_value_def)
qed

lemma object_reads:
  assumes tab: "tables_ok cfg"
    and elem: "\<And>kv j rest n. kv \<in> set kvs \<Longrightarrow> ahead j (f (snd kv) @ rest) \<Longrightarrow> delimits rest \<Longrightarrow> current_depth j = d \<Longrightarrow>
      2 * left j + 3 \<le> n \<Longrightarrow> reads env cfg n j rest (g (snd kv))"
  shows "kvs \<noteq> [] \<Longrightarrow> ahead j (commas (map (\<lambda>kv. print_string (fst kv) @ CHR '':'' # f (snd kv)) kvs) @ CHR ''}'' # rest) \<Longrightarrow>
    current_depth j = d \<Longrightarrow> 2 * left j + 4 \<le> n \<Longrightarrow> distinct (map fst kvs) \<Longrightarrow>
    (\<And>k. k \<in> set (map fst kvs) \<Longrightarrow> LStr k \<notin> set (map fst tbl)) \<Longrightarrow>
    \<exists>j1 tok1 j2. json_next_token env cfg j tok = Inr (j1, tok1) \<and> ttype tok1 = T_STRING \<and>
      json_parse_object_context env cfg n tbl j1 tok1 =
        Inr (j2, LTable (tbl @ map (\<lambda>kv. (LStr (fst kv), g (snd kv))) kvs)) \<and>
      ahead j2 rest \<and> data j2 = data j \<and> current_depth j2 = d - 1"
  using elem
proof (induction kvs arbitrary: j n tbl tok)
  case (Cons kv kvs)
  obtain m where n: "n = Suc m" using Cons.prems(4) by (cases n) auto
  let ?p = "\<lambda>kv. print_string (fst kv) @ CHR '':'' # f (snd kv)"
  let ?rest = "(if kvs = [] then [] else CHR '','' # commas (map ?p kvs)) @ CHR ''}'' # rest"
  let ?tbl = "tbl @ [(LStr (fst kv), g (snd kv))]"
  have a: "ahead j (print_string (fst kv) @ CHR '':'' # f (snd kv) @ ?rest)" using Cons.prems(2) by (simp add: commas_Cons)
  have tbl: "lua_rawset tbl (LStr (fst kv)) (g (snd kv)) = ?tbl"
    using Cons.prems(6) by (intro lua_rawset_fresh) simp
  have "reads env cfg m j' ?rest (g (snd kv))" if j': "ahead j' (f (snd kv) @ ?rest)" "same_input j' j" for j'
  proof (rule Cons.prems(7) [OF _ j'(1)])
    show "2 * left j' + 3 \<le> m" using ahead_left [OF a] ahead_left [OF j'(1)] Cons.prems(4) n by simp
  qed (use j' Cons.prems(3) in \<open>auto simp: delimits_def\<close>)
  from member_reads [OF tab a this, of tok tbl] obtain j1 tok1 j2 tok2 where
    r: "json_next_token env cfg j tok = Inr (j1, tok1)" "ttype tok1 = T_STRING"
    "json_parse_object_context env cfg n tbl j1 tok1 = json_next_element env cfg j2 tok2 T_OBJ_END ''comma or object end'' ?tbl
      (json_parse_object_context env cfg m ?tbl)" "ahead j2 ?rest" "same_input j2 j"
    unfolding tbl n by blast
  show ?case
  proof (cases "kvs = []")
    case True
    have "token_class CHR ''}'' = T_OBJ_END" by (simp add: token_class_def)
    then show ?thesis
      using next_element_close [of j2 "CHR ''}''" rest cfg T_OBJ_END] r True tab Cons.prems(3)
      by (auto simp: json_decode_ascend_def)
  next
    case False
    have a2: "ahead j2 (CHR '','' # commas (map ?p kvs) @ CHR ''}'' # rest)" using r(4) False by simp
    note comma = next_element_comma [OF a2 tab, of T_OBJ_END]
    from comma(1) [of env tok2] obtain tok' where tok': "json_next_element env cfg j2 tok2 T_OBJ_END ''comma or object end''
        ?tbl (json_parse_object_context env cfg m ?tbl) =
      rbind (json_next_token env cfg (advance j2 1) tok') (\<lambda>(j2, tok2). json_parse_object_context env cfg m ?tbl j2 tok2)"
      by (meson json_token_type_t.distinct)
    have "left (advance j2 1) + 1 \<le> left j2" "left j2 \<le> left j"
      using ahead_left [OF a2] ahead_left [OF comma(2)] ahead_left [OF a] False by auto
    then have "2 * left (advance j2 1) + 4 \<le> m" using Cons.prems(4) n by linarith
    then obtain j3 tok3 j4 where
      j4: "json_next_token env cfg (advance j2 1) tok' = Inr (j3, tok3)"
      "json_parse_object_context env cfg m ?tbl j3 tok3 =
        Inr (j4, LTable (?tbl @ map (\<lambda>kv. (LStr (fst kv), g (snd kv))) kvs))"
      "ahead j4 rest" "data j4 = data (advance j2 1)" "current_depth j4 = d - 1"
      using Cons.IH [OF False comma(2), of m ?tbl tok'] Cons.prems(3,5-7) r(5) by auto
    show ?thesis using r(1,2,3,5) tok' j4 by auto
  qed
qed simp

text \<open>A container: the opening token, then whatever reads the inside.\<close>

lemma container_reads:
  assumes tab: "tables_ok cfg" and a: "ahead j (c # ts)"
    and c: "(c, close, loop) = (CHR ''{'', T_OBJ_END, json_parse_object_context env cfg m []) \<or>
      (c, close, loop) = (CHR ''['', T_ARR_END, json_parse_array_context env cfg m 1 [])"
    and d: "depth_ok env (decode_max_depth cfg) (current_depth j + k)" "1 \<le> k" "0 \<le> current_depth j"
    and inner: "\<And>j1. ahead j1 ts \<Longrightarrow> current_depth j1 = current_depth j + 1 \<Longrightarrow> data j1 = data j \<Longrightarrow>
      \<exists>j2 tok2 j3. json_next_token env cfg j1 new_token = Inr (j2, tok2) \<and>
        (if ttype tok2 = close then v = LTable [] \<and> j3 = json_decode_ascend j2 else loop j2 tok2 = Inr (j3, v)) \<and>
        ahead j3 rest \<and> data j3 = data j \<and> current_depth j3 = current_depth j"
  shows "reads env cfg (Suc m) j rest v"
  unfolding reads_def
proof
  fix tok
  have cc: "c = CHR ''{'' \<or> c = CHR ''[''" using c by (simp only: prod.inject) blast
  then have c': "c \<in> set ''{}[],:''" and cls: "token_class c = (if c = CHR ''{'' then T_OBJ_BEGIN else T_ARR_BEGIN)"
    by (elim disjE; simp add: token_class_def)+
  have depth: "current_depth j + 1 \<le> decode_max_depth cfg" "checkstack env (current_depth j + 1)"
    using d by (auto simp: depth_ok_def)
  define j1 where "j1 = (advance j 1)\<lparr>current_depth := current_depth j + 1\<rparr>"
  have "ahead j1 ts"
    using next_token_structural(2) [OF a tab c'] by (simp add: j1_def ahead_def parse_inv_def)
  with inner [of j1] obtain j2 tok2 j3 where i: "json_next_token env cfg j1 new_token = Inr (j2, tok2)"
    "if ttype tok2 = close then v = LTable [] \<and> j3 = json_decode_ascend j2 else loop j2 tok2 = Inr (j3, v)"
    "ahead j3 rest" "data j3 = data j" "current_depth j3 = current_depth j" by (auto simp: j1_def)
  then have "json_open_context env cfg (advance j 1) close loop = Inr (j3, v)"
    using depth by (auto simp: json_open_context_def json_decode_descend_def j1_def)
  with c have "json_process_value env cfg (Suc m) (advance j 1)
      (tok\<lparr>ttype := token_class c, tindex := int (ptr j)\<rparr>) = Inr (j3, v)"
    by (elim disjE) (simp_all add: token_class_def)
  with i(3-5) next_token_structural(1) [OF a tab c', of env tok] cls
  show "\<exists>j1 tok1 j2. json_next_token env cfg j tok = Inr (j1, tok1) \<and> ttype tok1 \<noteq> T_OBJ_END \<and>
      ttype tok1 \<noteq> T_ARR_END \<and> json_process_value env cfg (Suc m) j1 tok1 = Inr (j2, v) \<and> ahead j2 rest \<and> same_input j2 j"
    by auto
qed

lemma empty_object_reads:
  assumes tab: "tables_ok cfg" and a: "ahead j (''{}'' @ rest)"
    and d: "depth_ok env (decode_max_depth cfg) (current_depth j + k)" "1 \<le> k" "0 \<le> current_depth j"
  shows "reads env cfg (Suc m) j rest (LTable [])"
proof (rule container_reads [OF tab _ _ d])
  show "ahead j (CHR ''{'' # CHR ''}'' # rest)" using a by simp
  show "(CHR ''{'', T_OBJ_END, json_parse_object_context env cfg m []) = (CHR ''{'', T_OBJ_END, json_parse_object_context env cfg m []) \<or>
    (CHR ''{'', T_OBJ_END, json_parse_object_context env cfg m []) = (CHR ''['', T_ARR_END, json_parse_array_context env cfg m 1 [])"
    by simp
  fix j1 assume j1: "ahead j1 (CHR ''}'' # rest)" "current_depth j1 = current_depth j + 1" "data j1 = data j"
  have "token_class CHR ''}'' = T_OBJ_END" by (simp add: token_class_def)
  with next_token_structural(1) [OF j1(1) tab, of env new_token] next_token_structural(2) [OF j1(1) tab] j1(2,3)
  show "\<exists>j2 tok2 j3. json_next_token env cfg j1 new_token = Inr (j2, tok2) \<and>
      (if ttype tok2 = T_OBJ_END then LTable [] = LTable [] \<and> j3 = json_decode_ascend j2
       else json_parse_object_context env cfg m [] j2 tok2 = Inr (j3, LTable [])) \<and>
      ahead j3 rest \<and> data j3 = data j \<and> current_depth j3 = current_depth j"
    by (simp add: json_decode_ascend_def ahead_def parse_inv_def)
qed

lemma literal_reads:
  assumes "ahead j (w @ rest)" "tables_ok cfg" "w \<in> {''true'', ''false'', ''null''}"
  shows "reads env cfg (Suc m) j rest (if w = ''null'' then LLight True else LBool (w = ''true''))"
  unfolding reads_def
proof
  fix tok
  from next_token_literal(1) [OF assms, of env tok] next_token_literal(2) [OF assms] obtain tok' where
    "json_next_token env cfg j tok = Inr (advance j (length w), tok')"
    "ttype tok' = (if w = ''null'' then T_NULL else T_BOOLEAN)"
    "w \<noteq> ''null'' \<longrightarrow> (tvalue tok' = V_boolean True) = (w = ''true'')" "ahead (advance j (length w)) rest" by blast
  then show "\<exists>j1 tok1 j2. json_next_token env cfg j tok = Inr (j1, tok1) \<and> ttype tok1 \<noteq> T_OBJ_END \<and>
      ttype tok1 \<noteq> T_ARR_END \<and> json_process_value env cfg (Suc m) j1 tok1 =
        Inr (j2, if w = ''null'' then LLight True else LBool (w = ''true'')) \<and> ahead j2 rest \<and> same_input j2 j"
    by (intro exI [of _ "advance j (length w)"] exI [of _ tok']) auto
qed

lemma number_reads:
  assumes "ahead j (num_text env cfg d @ rest)" "tables_ok cfg" "delimits rest" "num_roundtrips env cfg d"
    "1 \<le> encode_number_precision cfg"
  shows "reads env cfg (Suc m) j rest (LNum d)"
  unfolding reads_def
proof
  fix tok
  from next_token_number(1) [OF assms, of tok] next_token_number(2) [OF assms] obtain tok' where
    "json_next_token env cfg j tok = Inr (advance j (length (num_text env cfg d)), tok')" "ttype tok' = T_NUMBER"
    "tvalue tok' = V_number d" "ahead (advance j (length (num_text env cfg d))) rest" by blast
  then show "\<exists>j1 tok1 j2. json_next_token env cfg j tok = Inr (j1, tok1) \<and> ttype tok1 \<noteq> T_OBJ_END \<and>
      ttype tok1 \<noteq> T_ARR_END \<and> json_process_value env cfg (Suc m) j1 tok1 = Inr (j2, LNum d) \<and> ahead j2 rest \<and> same_input j2 j"
    by auto
qed

lemma string_reads:
  assumes "ahead j (print_string s @ rest)" "tables_ok cfg"
  shows "reads env cfg (Suc m) j rest (LStr s)"
  unfolding reads_def
proof
  fix tok
  from next_token_print_string [OF assms, of env tok] obtain j1 tok1 where
    "json_next_token env cfg j tok = Inr (j1, tok1)" "ahead j1 rest" "same_input j1 j"
    "ttype tok1 = T_STRING" "push_token_string j1 tok1 = Inr (LStr s)" by blast
  then show "\<exists>j1 tok1 j2. json_next_token env cfg j tok = Inr (j1, tok1) \<and> ttype tok1 \<noteq> T_OBJ_END \<and>
      ttype tok1 \<noteq> T_ARR_END \<and> json_process_value env cfg (Suc m) j1 tok1 = Inr (j2, LStr s) \<and> ahead j2 rest \<and> same_input j2 j"
    by auto
qed

lemma array_value_reads:
  assumes tab: "tables_ok cfg" and a: "ahead j (CHR ''['' # commas (map f vs) @ CHR '']'' # rest)" and vs: "vs \<noteq> []"
    and d: "depth_ok env (decode_max_depth cfg) (current_depth j + k)" "1 \<le> k" "0 \<le> current_depth j" and n: "2 * left j + 3 \<le> Suc m"
    and elem: "\<And>x j' r n'. x \<in> set vs \<Longrightarrow> ahead j' (f x @ r) \<Longrightarrow> delimits r \<Longrightarrow> current_depth j' = current_depth j + 1 \<Longrightarrow>
      2 * left j' + 3 \<le> n' \<Longrightarrow> reads env cfg n' j' r (g x)"
  shows "reads env cfg (Suc m) j rest (LTable (zip (map lua_int [1..int (length vs)]) (map g vs)))" (is "reads _ _ _ _ _ ?v")
proof (rule container_reads [OF tab a _ d])
  fix j1 assume j1: "ahead j1 (commas (map f vs) @ CHR '']'' # rest)" "current_depth j1 = current_depth j + 1" "data j1 = data j"
  have "2 * left j1 + 4 \<le> m" using ahead_left [OF j1(1)] ahead_left [OF a] n by simp
  note ar = array_reads [where f = f and g = g and tbl = "[]" and i = 1 and tok = new_token, OF tab elem vs j1(1,2) this]
  have v: "?v = LTable ([] @ zip (map lua_int [1..1 + int (length vs) - 1]) (map g vs))" by simp
  obtain j2 tok2 j3 where "json_next_token env cfg j1 new_token = Inr (j2, tok2)" "ttype tok2 \<noteq> T_ARR_END"
    "json_parse_array_context env cfg m 1 [] j2 tok2 = Inr (j3, ?v)"
    "ahead j3 rest" "data j3 = data j1" "current_depth j3 = current_depth j + 1 - 1" unfolding v using ar by fastforce
  with j1(3) show "\<exists>j2 tok2 j3. json_next_token env cfg j1 new_token = Inr (j2, tok2) \<and>
    (if ttype tok2 = T_ARR_END then ?v = LTable [] \<and> j3 = json_decode_ascend j2
     else json_parse_array_context env cfg m 1 [] j2 tok2 = Inr (j3, ?v)) \<and>
    ahead j3 rest \<and> data j3 = data j \<and> current_depth j3 = current_depth j" by auto
qed simp

lemma object_value_reads:
  assumes tab: "tables_ok cfg"
    and a: "ahead j (CHR ''{'' # commas (map (\<lambda>kv. print_string (fst kv) @ CHR '':'' # f (snd kv)) kvs) @ CHR ''}'' # rest)"
    and kvs: "kvs \<noteq> []" "distinct (map fst kvs)"
    and d: "depth_ok env (decode_max_depth cfg) (current_depth j + k)" "1 \<le> k" "0 \<le> current_depth j" and n: "2 * left j + 3 \<le> Suc m"
    and elem: "\<And>kv j' r n'. kv \<in> set kvs \<Longrightarrow> ahead j' (f (snd kv) @ r) \<Longrightarrow> delimits r \<Longrightarrow>
      current_depth j' = current_depth j + 1 \<Longrightarrow> 2 * left j' + 3 \<le> n' \<Longrightarrow> reads env cfg n' j' r (g (snd kv))"
  shows "reads env cfg (Suc m) j rest (LTable (map (\<lambda>kv. (LStr (fst kv), g (snd kv))) kvs))" (is "reads _ _ _ _ _ ?v")
proof (rule container_reads [OF tab a _ d])
  fix j1 assume j1: "ahead j1 (commas (map (\<lambda>kv. print_string (fst kv) @ CHR '':'' # f (snd kv)) kvs) @ CHR ''}'' # rest)"
    "current_depth j1 = current_depth j + 1" "data j1 = data j"
  have "2 * left j1 + 4 \<le> m" using ahead_left [OF j1(1)] ahead_left [OF a] n by simp
  then obtain j2 tok2 j3 where "json_next_token env cfg j1 new_token = Inr (j2, tok2)" "ttype tok2 = T_STRING"
    "json_parse_object_context env cfg m [] j2 tok2 = Inr (j3, ?v)"
    "ahead j3 rest" "data j3 = data j1" "current_depth j3 = current_depth j"
    using object_reads [where f = f and g = g and tbl = "[]" and n = m and tok = new_token, OF tab elem kvs(1) j1(1,2)] kvs(2)
    by fastforce
  with j1(3) show "\<exists>j2 tok2 j3. json_next_token env cfg j1 new_token = Inr (j2, tok2) \<and>
    (if ttype tok2 = T_OBJ_END then ?v = LTable [] \<and> j3 = json_decode_ascend j2
     else json_parse_object_context env cfg m [] j2 tok2 = Inr (j3, ?v)) \<and>
    ahead j3 rest \<and> data j3 = data j \<and> current_depth j3 = current_depth j" by auto
qed simp

lemma jprint_reads:
  assumes tab: "tables_ok cfg" and p: "1 \<le> encode_number_precision cfg"
  shows "ahead j (jprint (num_text env cfg) v @ rest) \<Longrightarrow> delimits rest \<Longrightarrow> 2 * left j + 3 \<le> n \<Longrightarrow>
    depth_ok env (decode_max_depth cfg) (current_depth j + jdepth v) \<Longrightarrow> 0 \<le> current_depth j \<Longrightarrow>
    \<forall>d\<in>set (jnums v). num_roundtrips env cfg d \<Longrightarrow> distinct_keys v \<Longrightarrow>
    reads env cfg n j rest (lua_of v)"
proof (induction v arbitrary: j n rest rule: measure_induct_rule [of size])
  case (less v)
  let ?f = "jprint (num_text env cfg)"
  obtain m where n: "n = Suc m" using less.prems(3) by (cases n) auto
  note d = less.prems(4) _ less.prems(5)
  have elem: "reads env cfg n' j' r (lua_of x)"
    if "ahead j' (?f x @ r)" "delimits r" "current_depth j' = current_depth j + 1" "2 * left j' + 3 \<le> n'"
      "size x < size v" "jdepth x + 1 \<le> jdepth v" "set (jnums x) \<subseteq> set (jnums v)" "distinct_keys x" for x j' r n'
    using that less.prems(4-6) by (intro less.IH) (auto simp: depth_ok_def)
  show ?case
  proof (cases v)
    case JNull
    then show ?thesis using literal_reads [of j "''null''" rest cfg env m] less.prems(1) tab n by simp
  next
    case (JBool b)
    then show ?thesis
      using literal_reads [of j "if b then ''true'' else ''false''" rest cfg env m] less.prems(1) tab n by (cases b) simp_all
  next
    case (JNum d)
    then show ?thesis using number_reads [of j env cfg d rest m] less.prems(1,2,6) tab n p by simp
  next
    case (JStr s)
    then show ?thesis using string_reads [of j s rest cfg env m] less.prems(1) tab n by simp
  next
    case (JArr vs)
    show ?thesis
    proof (cases "vs = []")
      case True
      then show ?thesis using empty_object_reads [OF tab _ d] less.prems(1) JArr n by simp
    next
      case False
      have a: "ahead j (CHR ''['' # commas (map ?f vs) @ CHR '']'' # rest)" using less.prems(1) JArr False by simp
      have sx: "size x < size v" if "x \<in> set vs" for x
        using that by (auto simp: JArr less_Suc_eq_le intro: size_list_estimation')
      have el: "reads env cfg n' j' r (lua_of x)" if "x \<in> set vs" "ahead j' (?f x @ r)" "delimits r"
          "current_depth j' = current_depth j + 1" "2 * left j' + 3 \<le> n'" for x j' r n'
        using that(1) less.prems(7) jdepth_bounds(1) [OF that(1)] JArr by (intro elem [OF that(2-5) sx]) auto
      have k: "1 \<le> jdepth v" using jdepth_bounds(4) [of vs] JArr by simp
      have "2 * left j + 3 \<le> Suc m" using less.prems(3) n by simp
      then show ?thesis unfolding n JArr lua_of.simps
        by (rule array_value_reads [where f = ?f and g = lua_of, OF tab a False less.prems(4) k less.prems(5) _ el])
    qed
  next
    case (JObj kvs)
    show ?thesis
    proof (cases "kvs = []")
      case True
      then show ?thesis using empty_object_reads [OF tab _ d] less.prems(1) JObj n by (simp add: commas_def)
    next
      case False
      let ?ms = "commas (map (\<lambda>kv. print_string (fst kv) @ CHR '':'' # ?f (snd kv)) kvs)"
      have a: "ahead j (CHR ''{'' # ?ms @ CHR ''}'' # rest)" using less.prems(1) JObj by simp
      have el: "reads env cfg n' j' r (lua_of (snd kv))" if "kv \<in> set kvs" "ahead j' (?f (snd kv) @ r)" "delimits r"
          "current_depth j' = current_depth j + 1" "2 * left j' + 3 \<le> n'" for kv j' r n'
      proof (rule elem [OF that(2-5)])
        show "size (snd kv) < size v" using that(1) JObj by (induction kvs arbitrary: v) auto
      qed (use that(1) less.prems(7) jdepth_bounds(2) [OF that(1)] JObj in auto)
      have k: "1 \<le> jdepth v" using jdepth_bounds(5) [of kvs] JObj by simp
      have kd: "distinct (map fst kvs)" using less.prems(7) JObj by simp
      have "2 * left j + 3 \<le> Suc m" using less.prems(3) n by simp
      then show ?thesis unfolding n JObj lua_of.simps
        by (rule object_value_reads [where f = ?f and g = lua_of, OF tab a False kd less.prems(4) k less.prems(5) _ el])
    qed
  qed
qed


subsection \<open>Round trips\<close>

lemma esc_no_NUL: "NUL \<notin> set (esc c)"
proof -
  have "hexdigit2int NUL < 0" "unescape NUL = NUL" by (simp_all add: hexdigit2int_NUL unescape_def)
  with char2escape_ok [of c] show ?thesis
    by (cases "char2escape c") (auto simp: entry_ok_def esc_def split: list.splits)
qed

lemma commas_no_NUL: "(\<And>t. t \<in> set ts \<Longrightarrow> NUL \<notin> set t) \<Longrightarrow> NUL \<notin> set (commas ts)"
  by (cases ts) (auto simp: commas_def)

lemma jprint_no_NUL:
  assumes p: "1 \<le> encode_number_precision cfg"
  shows "\<forall>d\<in>set (jnums v). num_roundtrips env cfg d \<Longrightarrow> NUL \<notin> set (jprint (num_text env cfg) v)"
proof (induction v rule: measure_induct_rule [of size])
  case (less v)
  have str: "NUL \<notin> set (print_string s)" for s using esc_no_NUL by (auto simp: print_string_def)
  show ?case
  proof (cases v)
    case (JNum d)
    then have "decimal_ok (dtoa env d (encode_number_precision cfg))" using less.prems by (simp add: num_roundtrips_def)
    from g_fmt_json_number [OF this p] obtain q where q: "json_number (num_text env cfg d) = Some q"
      by (auto simp: num_text_def)
    show ?thesis by (rule json_number_shape [OF q]) (simp add: JNum)
  next
    case (JArr vs)
    have "NUL \<notin> set (jprint (num_text env cfg) x)" if "x \<in> set vs" for x
      using that less.prems JArr by (intro less.IH) (auto simp: less_Suc_eq_le intro: size_list_estimation')
    then have "NUL \<notin> set (commas (map (jprint (num_text env cfg)) vs))" by (intro commas_no_NUL) auto
    then show ?thesis by (simp add: JArr)
  next
    case (JObj kvs)
    have "size (snd kv) < size (JObj kvs)" if "kv \<in> set kvs" for kv
      using that by (induction kvs) auto
    then have "NUL \<notin> set (jprint (num_text env cfg) (snd kv))" if "kv \<in> set kvs" for kv
      using that less.prems JObj by (intro less.IH) auto
    then have "NUL \<notin> set (commas (map (\<lambda>kv. print_string (fst kv) @ CHR '':'' # jprint (num_text env cfg) (snd kv)) kvs))"
      by (intro commas_no_NUL) (auto simp: str)
    then show ?thesis by (simp add: JObj)
  qed (auto simp: str)
qed

text \<open>A text that reads as a value up to its end, or up to an embedded terminator.\<close>

definition utf16_like :: "char list \<Rightarrow> bool" where
  "utf16_like s \<longleftrightarrow> 2 \<le> length s \<and> (s ! 0 = NUL \<or> s ! 1 = NUL)"

lemma utf16_like_NUL: "NUL \<notin> set s \<Longrightarrow> \<not> utf16_like s"
proof
  assume nul: "NUL \<notin> set s" and "utf16_like s"
  then have "0 < length s" "1 < length s" "s ! 0 = NUL \<or> s ! 1 = NUL" unfolding utf16_like_def by linarith+
  then have "NUL \<in> set s" using nth_mem [of 0 s] nth_mem [of 1 s] by metis
  with nul show False by blast
qed

lemma parse_document_reads:
  assumes tab: "tables_ok cfg" and len: "int (length s) < INT_MAX" and al: "\<forall>k. alloc env k" and first: "\<not> utf16_like s"
    and rest: "rest = [] \<or> hd rest = NUL"
    and r: "\<And>j. ahead j s \<Longrightarrow> current_depth j = 0 \<Longrightarrow> reads env cfg (2 * length s + 3) j rest v"
  shows "parse_document env cfg s = Inr v"
proof -
  have c: "to_c_int (int (length s) mod 18446744073709551616) = int (length s)" using len by (simp add: to_c_int_id)
  obtain t where t: "strbuf_new (alloc env) (to_c_int (int (length s) mod 18446744073709551616)) = Inr t"
    using strbuf_new_Inl [of "alloc env" "int (length s)"] len al unfolding c
    by (cases "strbuf_new (alloc env) (int (length s))") auto
  let ?j = "\<lparr>data = s, ptr = 0, tmp = t, current_depth = 0\<rparr>"
  have "ahead ?j s" "current_depth ?j = 0" using parse_document_start [OF len t] by (simp_all add: ahead_def)
  from r [OF this] obtain j1 tok1 j2 where r: "json_next_token env cfg ?j new_token = Inr (j1, tok1)"
    "json_process_value env cfg (2 * length s + 3) j1 tok1 = Inr (j2, v)" "ahead j2 rest"
    unfolding reads_def by blast
  show ?thesis
    unfolding parse_document_def if_not_P [OF first [unfolded utf16_like_def]] t
    by (simp add: sbj_def r(1,2) next_token_end [OF r(3) tab rest])
qed

lemma parse_document_jprint:
  assumes inv: "cfg_inv cfg" and depth: "depth_ok env (decode_max_depth cfg) (jdepth v)"
    and nums: "\<forall>d\<in>set (jnums v). num_roundtrips env cfg d" and keys: "distinct_keys v"
    and len: "int (length (jprint (num_text env cfg) v)) < INT_MAX" and al: "\<forall>k. alloc env k"
  shows "parse_document env cfg (jprint (num_text env cfg) v) = Inr (lua_of v)"
proof -
  have tab: "tables_ok cfg" and p: "1 \<le> encode_number_precision cfg"
    using inv by (auto simp: cfg_inv_def tables_ok_def)
  show ?thesis
  proof (rule parse_document_reads [OF tab len al utf16_like_NUL [OF jprint_no_NUL [OF p nums]]])
    fix j assume j: "ahead j (jprint (num_text env cfg) v)" "current_depth j = 0"
    then have "ahead j (jprint (num_text env cfg) v @ [])" by simp
    then show "reads env cfg (2 * length (jprint (num_text env cfg) v) + 3) j [] (lua_of v)"
      using depth nums keys j ahead_left [OF j(1)] by (intro jprint_reads [OF tab p]) (auto simp: delimits_def)
  qed simp
qed

lemma parse_document_encoded:
  assumes "cfg_inv cfg" "env_ok env" "short_strings (lua_of v)" "distinct_keys v"
    "\<forall>d\<in>set (jnums v). num_roundtrips env cfg d" "depth_ok env (encode_max_depth cfg) (jdepth v)"
    "depth_ok env (decode_max_depth cfg) (jdepth v)" "\<forall>k. alloc env k"
    "fst (json_encode env cfg [lua_of v]) = Inr s" "int (length s) < INT_MAX"
  shows "parse_document env cfg s = Inr (lua_of v)"
proof -
  have "print_value env cfg 0 (lua_of v) = Inr (jprint (num_text env cfg) v)"
    using assms(5,6) by (intro print_value_lua_of assms(1,2)) auto
  with json_encode_spec [OF assms(1-3)] assms(9) have "s = jprint (num_text env cfg) v" by auto
  with parse_document_jprint [OF assms(1,7,5,4) _ assms(8)] assms(10) show ?thesis by simp
qed

text \<open>C1: What the encoder produces for a document, the decoder reads back as the same Lua value, whatever the
  configuration (also when \<open>decode_invalid_numbers\<close> is off), for strings with any bytes, nested arrays and objects
  with distinct keys within both depth limits, and numbers whose printed text \<open>strtod\<close> reads back.\<close>

theorem json_roundtrip:
  assumes "cfg_inv cfg" "env_ok env" "short_strings (lua_of v)" "distinct_keys v"
    "\<forall>d\<in>set (jnums v). num_roundtrips env cfg d" "depth_ok env (encode_max_depth cfg) (jdepth v)"
    "depth_ok env (decode_max_depth cfg) (jdepth v)" "\<forall>k. alloc env k"
    "fst (json_encode env cfg [lua_of v]) = Inr s" "int (length s) < INT_MAX"
  shows "json_decode env cfg [LStr s] = Inr (lua_of v)"
  using parse_document_encoded [OF assms] by (simp add: json_decode_def)

definition sample_document :: jv where
  "sample_document = JObj [(''a'', JArr [JNum (Num (3 / 2)), JStr [CHR 0x0A]]), (''b'', JNull)]"

theorem json_roundtrip_witness:
  "\<exists>s. fst (json_encode sample_env sample_config [lua_of sample_document]) = Inr s \<and>
     json_decode sample_env sample_config [LStr s] = Inr (lua_of sample_document)"
proof -
  define s where "s = CHR ''{'' # CHR 0x22 # ''a'' @ CHR 0x22 # '':[1.5,'' @ CHR 0x22 # CHR 0x5C # ''n'' @ CHR 0x22 # ''],'' @
    CHR 0x22 # ''b'' @ CHR 0x22 # '':null}''"
  have e: "fst (json_encode sample_env sample_config [lua_of sample_document]) = Inr s"
    unfolding s_def by code_simp
  have "num_text sample_env sample_config (Num (3 / 2)) = ''1.5''" by code_simp
  moreover have "decimal_ok (dtoa sample_env (Num (3 / 2)) (encode_number_precision sample_config))" by code_simp
  ultimately have n: "\<forall>d\<in>set (jnums sample_document). num_roundtrips sample_env sample_config d"
    by (simp add: sample_document_def num_roundtrips_def) (simp add: sample_env_def)
  have d: "depth_ok sample_env (encode_max_depth sample_config) (jdepth sample_document)"
    "depth_ok sample_env (decode_max_depth sample_config) (jdepth sample_document)"
    by (simp_all add: depth_ok_def sample_document_def sample_config_def default_config_def sample_env_def)
  have "short_strings (lua_of sample_document)" "distinct_keys sample_document" "\<forall>k. alloc sample_env k"
    by (simp_all add: sample_document_def sample_env_def lua_int_def upto.simps)
  with json_roundtrip [OF sample_config_inv _ _ n d _ e] e show ?thesis by (simp add: s_def)
qed

end
