(* ===== verification/Json_Unicode.thy ===== *)
theory Json_Unicode
  imports Json_Roundtrip
begin

text \<open>
  Strings of the decoder: Unicode escapes against reference definitions of escapes and of UTF-8, and the treatment of
  embedded terminators.
\<close>

subsection \<open>Unicode escapes\<close>

text \<open>References: the value of a hexadecimal digit, of a Unicode escape (RFC 8259, with surrogate pairs), and of the
  UTF-8 encoding of one character (RFC 3629: no overlong form, no surrogate).\<close>

definition hex_digit :: "char \<Rightarrow> int option" where
  "hex_digit c = map_of (zip ''0123456789abcdef'' [0..15] @ zip ''ABCDEF'' [10..15]) c"

definition hex4_value :: "char list \<Rightarrow> int option" where
  "hex4_value ds = (case map hex_digit ds of
       [Some a, Some b, Some c, Some d] \<Rightarrow> Some (4096 * a + 256 * b + 16 * c + d)
     | _ \<Rightarrow> None)"

definition escape_value :: "char list \<Rightarrow> int option" where
  "escape_value es =
     (if length es = 6 \<and> take 2 es = [CHR 0x5C, CHR ''u'']
      then (case hex4_value (drop 2 es) of
              None \<Rightarrow> None
            | Some u \<Rightarrow> if 0xD800 \<le> u \<and> u \<le> 0xDFFF then None else Some u)
      else if length es = 12 \<and> take 2 es = [CHR 0x5C, CHR ''u''] \<and> take 2 (drop 6 es) = [CHR 0x5C, CHR ''u'']
      then (case (hex4_value (take 4 (drop 2 es)), hex4_value (drop 8 es)) of
              (Some hi, Some lo) \<Rightarrow>
                if 0xD800 \<le> hi \<and> hi \<le> 0xDBFF \<and> 0xDC00 \<le> lo \<and> lo \<le> 0xDFFF
                then Some (0x10000 + (hi - 0xD800) * 0x400 + (lo - 0xDC00)) else None
            | _ \<Rightarrow> None)
      else None)"

definition utf8_value :: "char list \<Rightarrow> int option" where
  "utf8_value cs =
     (let bs = map of_char cs; cont = (\<lambda>b. 0x80 \<le> b \<and> b \<le> 0xBF)
      in case bs of
        [a] \<Rightarrow> if a \<le> 0x7F then Some a else None
      | [a, b] \<Rightarrow> if 0xC2 \<le> a \<and> a \<le> 0xDF \<and> cont b then Some ((a - 0xC0) * 64 + (b - 0x80)) else None
      | [a, b, c] \<Rightarrow>
          let v = (a - 0xE0) * 4096 + (b - 0x80) * 64 + (c - 0x80)
          in if 0xE0 \<le> a \<and> a \<le> 0xEF \<and> cont b \<and> cont c \<and> 0x800 \<le> v \<and> \<not> (0xD800 \<le> v \<and> v \<le> 0xDFFF)
             then Some v else None
      | [a, b, c, d] \<Rightarrow>
          let v = (a - 0xF0) * 262144 + (b - 0x80) * 4096 + (c - 0x80) * 64 + (d - 0x80)
          in if 0xF0 \<le> a \<and> a \<le> 0xF4 \<and> cont b \<and> cont c \<and> cont d \<and> 0x10000 \<le> v \<and> v \<le> 0x10FFFF
             then Some v else None
      | _ \<Rightarrow> None)"

lemma hexdigit2int_value: "(case hex_digit c of Some d \<Rightarrow> hexdigit2int c = d | None \<Rightarrow> hexdigit2int c = - 1)"
  by (cases c) (auto simp: hex_digit_def hexdigit2int_def schar_def upto.simps)

lemma or_disjoint: "0 \<le> x \<Longrightarrow> x < 2 ^ n \<Longrightarrow> x OR push_bit n y = x + push_bit n y" for x y :: int
proof -
  assume "0 \<le> x" "x < 2 ^ n"
  then have t: "take_bit n x = x" by (simp add: take_bit_int_eq_self)
  have "take_bit n x AND push_bit n y = 0" by (rule bit_eqI) (auto simp: bit_simps)
  with t plus_and_or [of x "push_bit n y"] show ?thesis by simp
qed

lemma and_window: "x AND push_bit n (mask m) = push_bit n (take_bit m (drop_bit n x))" for x :: int
  by (rule bit_eqI) (auto simp: bit_simps)

lemma or_lead:
  "0 \<le> x \<Longrightarrow> x < 32 \<Longrightarrow> x OR 0xC0 = x + 0xC0" "0 \<le> x \<Longrightarrow> x < 16 \<Longrightarrow> x OR 0xE0 = x + 0xE0"
  "0 \<le> x \<Longrightarrow> x < 16 \<Longrightarrow> x OR 0xF0 = x + 0xF0" "0 \<le> x \<Longrightarrow> x < 64 \<Longrightarrow> x OR 0x80 = x + 0x80" for x :: int
  using or_disjoint [of x 5 6] or_disjoint [of x 4 14] or_disjoint [of x 4 15] or_disjoint [of x 6 2] by simp_all

lemma of_char_of: "0 \<le> x \<Longrightarrow> x < 256 \<Longrightarrow> of_char (char_of x) = x" for x :: int
  by simp

lemma cont_byte: "cp AND 0x3F OR 0x80 = cp mod 64 + 0x80" for cp :: int
proof -
  have "cp AND 0x3F = cp mod 64" using take_bit_eq_mask [of 6 cp] by (simp add: take_bit_eq_mod mask_eq_exp_minus_1)
  then show ?thesis using or_lead(4) [of "cp mod 64"] by simp
qed

text \<open>The last three groups of six bits and what is above them.\<close>

lemma six_bit_groups:
  fixes cp :: int
  obtains a b c r0 r1 r2 where "drop_bit 6 cp = a" "drop_bit 12 cp = b" "drop_bit 18 cp = c"
    "cp mod 64 = r0" "a mod 64 = r1" "b mod 64 = r2"
    "cp = 64 * a + r0" "a = 64 * b + r1" "b = 64 * c + r2"
    "0 \<le> r0" "r0 < 64" "0 \<le> r1" "r1 < 64" "0 \<le> r2" "r2 < 64"
proof -
  have "drop_bit 12 cp = drop_bit 6 cp div 64" "drop_bit 18 cp = drop_bit 12 cp div 64"
    by (simp_all add: drop_bit_eq_div zdiv_zmult2_eq [symmetric])
  moreover have "drop_bit 6 cp = cp div 64" by (simp add: drop_bit_eq_div)
  ultimately show ?thesis
    using that [of "drop_bit 6 cp" "drop_bit 12 cp" "drop_bit 18 cp"] by simp
qed

lemma codepoint_to_utf8_value:
  assumes "0 \<le> cp" "cp \<le> 0x10FFFF" "\<not> (0xD800 \<le> cp \<and> cp \<le> 0xDFFF)"
  shows "utf8_value (codepoint_to_utf8 cp) = Some cp"
proof (rule six_bit_groups [of cp])
  fix a b c r0 r1 r2
  assume g: "drop_bit 6 cp = a" "drop_bit 12 cp = b" "drop_bit 18 cp = c" "cp mod 64 = r0" "a mod 64 = r1" "b mod 64 = r2"
    and e: "cp = 64 * a + r0" "a = 64 * b + r1" "b = 64 * c + r2"
    and r: "0 \<le> r0" "r0 < 64" "0 \<le> r1" "r1 < 64" "0 \<le> r2" "r2 < 64"
  note bytes = codepoint_to_utf8_def g(1-3) cont_byte g(4-6) or_lead
  consider "cp \<le> 0x7F" | "0x7F < cp" "cp \<le> 0x7FF" | "0x7FF < cp" "cp \<le> 0xFFFF" | "0xFFFF < cp" by linarith
  then show "utf8_value (codepoint_to_utf8 cp) = Some cp"
  proof cases
    case 1
    with assms(1) show ?thesis by (simp add: codepoint_to_utf8_def utf8_value_def)
  next
    case 2
    then have b: "2 \<le> a" "a < 32" "64 * a + r0 = cp" using e r by linarith+
    then have "codepoint_to_utf8 cp = [char_of (a + 0xC0), char_of (r0 + 0x80)]" using 2 by (simp add: bytes)
    with b r show ?thesis by (simp add: utf8_value_def)
  next
    case 3
    then have b: "0 \<le> b" "b < 16" "4096 * b + 64 * r1 + r0 = cp" using e r by linarith+
    then have "codepoint_to_utf8 cp = [char_of (b + 0xE0), char_of (r1 + 0x80), char_of (r0 + 0x80)]"
      using 3 by (simp add: bytes)
    moreover have "b * 4096 + (r1 * 64 + r0) = cp" using b(3) by simp
    ultimately show ?thesis using b(1,2) r 3 assms(3) by (simp add: utf8_value_def Let_def)
  next
    case 4
    then have b: "0 \<le> c" "c < 5" "262144 * c + 4096 * r2 + 64 * r1 + r0 = cp" using e r assms(2) by linarith+
    then have "codepoint_to_utf8 cp =
        [char_of (c + 0xF0), char_of (r2 + 0x80), char_of (r1 + 0x80), char_of (r0 + 0x80)]"
      using 4 assms(2) by (simp add: bytes)
    with b r 4 assms(2) show ?thesis by (simp add: utf8_value_def Let_def)
  qed
qed

lemma hex4_valueD:
  assumes "hex4_value ds = Some u"
  obtains a b c d where "ds = [a, b, c, d]" "0 \<le> hexdigit2int a" "0 \<le> hexdigit2int b" "0 \<le> hexdigit2int c" "0 \<le> hexdigit2int d"
    "u = 4096 * hexdigit2int a + 256 * hexdigit2int b + 16 * hexdigit2int c + hexdigit2int d" "0 \<le> u" "u \<le> 0xFFFF"
proof -
  have h: "hex_digit x = Some n \<Longrightarrow> hexdigit2int x = n \<and> 0 \<le> n \<and> n \<le> 15" for x n
    using hexdigit2int_value [of x] by (auto simp: hex_digit_def upto.simps split: if_splits)
  from assms obtain a b c d na nb nc nd where ds: "ds = [a, b, c, d]" "hex_digit a = Some na" "hex_digit b = Some nb"
    "hex_digit c = Some nc" "hex_digit d = Some nd" "u = 4096 * na + 256 * nb + 16 * nc + nd"
    by (auto simp: hex4_value_def split: list.splits option.splits)
  with h [OF ds(2)] h [OF ds(3)] h [OF ds(4)] h [OF ds(5)] that [of a b c d] show ?thesis by simp
qed

lemma surrogate_masks:
  fixes x :: int
  shows "x AND 0xF800 = x div 2048 mod 32 * 2048" "x AND 0x400 = x div 1024 mod 2 * 1024"
    "x AND 0xFC00 = x div 1024 mod 64 * 1024" "x AND 0x3FF = x mod 1024"
  using and_window [of x 11 5] and_window [of x 10 1] and_window [of x 10 6] take_bit_eq_mask [of 10 x]
  by (simp_all add: mask_eq_exp_minus_1 push_bit_eq_mult take_bit_eq_mod drop_bit_eq_div)

lemma surrogates:
  fixes x :: int
  shows "0 \<le> x \<Longrightarrow> x \<le> 0xFFFF \<Longrightarrow> \<not> (0xD800 \<le> x \<and> x \<le> 0xDFFF) \<Longrightarrow> x AND 0xF800 \<noteq> 0xD800"
    "0xD800 \<le> x \<Longrightarrow> x \<le> 0xDBFF \<Longrightarrow> x AND 0xF800 = 0xD800 \<and> x AND 0x400 = 0 \<and> x AND 0x3FF = x - 0xD800"
    "0xDC00 \<le> x \<Longrightarrow> x \<le> 0xDFFF \<Longrightarrow> x AND 0xFC00 = 0xDC00 \<and> x AND 0x3FF = x - 0xDC00"
proof -
  show "0 \<le> x \<Longrightarrow> x \<le> 0xFFFF \<Longrightarrow> \<not> (0xD800 \<le> x \<and> x \<le> 0xDFFF) \<Longrightarrow> x AND 0xF800 \<noteq> 0xD800"
  proof -
    assume a: "0 \<le> x" "x \<le> 0xFFFF" "\<not> (0xD800 \<le> x \<and> x \<le> 0xDFFF)"
    then have "0 \<le> x div 2048" "x div 2048 < 32" by (simp_all add: pos_imp_zdiv_nonneg_iff int_div_less)
    moreover have "x div 2048 \<noteq> 27" using a(3) div_mult_mod_eq [of x 2048] pos_mod_bound [of 2048 x] pos_mod_sign [of 2048 x] by linarith
    ultimately show ?thesis by (simp add: surrogate_masks)
  qed
  show "x AND 0xF800 = 0xD800 \<and> x AND 0x400 = 0 \<and> x AND 0x3FF = x - 0xD800" if "0xD800 \<le> x" "x \<le> 0xDBFF"
  proof -
    define y where "y = x - 0xD800"
    have y: "0 \<le> y" "y < 1024" "x = y + 54 * 1024" "x = y + 27 * 2048" using that by (simp_all add: y_def)
    have "x div 1024 = 54" using y(1,2) unfolding y(3) by (subst div_mult_self1) simp_all
    moreover have "x div 2048 = 27" using y(1,2) unfolding y(4) by (subst div_mult_self1) simp_all
    moreover have "x mod 1024 = y" using y(1,2) unfolding y(3) by (subst mod_mult_self1) simp
    ultimately show ?thesis by (simp add: surrogate_masks y_def)
  qed
  show "x AND 0xFC00 = 0xDC00 \<and> x AND 0x3FF = x - 0xDC00" if "0xDC00 \<le> x" "x \<le> 0xDFFF"
  proof -
    define y where "y = x - 0xDC00"
    have y: "0 \<le> y" "y < 1024" "x = y + 55 * 1024" using that by (simp_all add: y_def)
    have "x div 1024 = 55" using y(1,2) unfolding y(3) by (subst div_mult_self1) simp_all
    moreover have "x mod 1024 = y" using y(1,2) unfolding y(3) by (subst mod_mult_self1) simp
    ultimately show ?thesis by (simp add: surrogate_masks y_def)
  qed
qed

lemma append_unicode_bmp:
  assumes "hex4_value ds = Some u" "\<not> (0xD800 \<le> u \<and> u \<le> 0xDFFF)" "ahead j (CHR 0x5C # CHR ''u'' # ds @ rest)"
  shows "json_append_unicode_escape j = append_codepoint j u 6"
proof (rule hex4_valueD [OF assms(1)])
  fix a b c d
  assume h: "ds = [a, b, c, d]" "0 \<le> hexdigit2int a" "0 \<le> hexdigit2int b" "0 \<le> hexdigit2int c" "0 \<le> hexdigit2int d"
    "u = 4096 * hexdigit2int a + 256 * hexdigit2int b + 16 * hexdigit2int c + hexdigit2int d" "0 \<le> u" "u \<le> 0xFFFF"
  have "decode_hex4 j 2 = Inr u"
    using decode_hex4_ahead [of j "[CHR 0x5C, CHR ''u'']" a b c d rest 2] assms(3) h by simp
  with surrogates(1) [OF h(7,8) assms(2)] h(7) show ?thesis by (simp add: json_append_unicode_escape_def)
qed

lemma append_unicode_pair:
  assumes hex: "hex4_value ds = Some hi" "hex4_value es = Some lo"
    and r: "0xD800 \<le> hi" "hi \<le> 0xDBFF" "0xDC00 \<le> lo" "lo \<le> 0xDFFF"
    and a: "ahead j (CHR 0x5C # CHR ''u'' # (ds @ CHR 0x5C # CHR ''u'' # es) @ rest)"
  shows "json_append_unicode_escape j = append_codepoint j (0x10000 + (hi - 0xD800) * 0x400 + (lo - 0xDC00)) 12"
proof -
  obtain d0 d1 d2 d3 where d: "ds = [d0, d1, d2, d3]" "0 \<le> hexdigit2int d0" "0 \<le> hexdigit2int d1" "0 \<le> hexdigit2int d2"
    "0 \<le> hexdigit2int d3" "hi = 4096 * hexdigit2int d0 + 256 * hexdigit2int d1 + 16 * hexdigit2int d2 + hexdigit2int d3"
    by (rule hex4_valueD [OF hex(1)])
  obtain e0 e1 e2 e3 where e: "es = [e0, e1, e2, e3]" "0 \<le> hexdigit2int e0" "0 \<le> hexdigit2int e1" "0 \<le> hexdigit2int e2"
    "0 \<le> hexdigit2int e3" "lo = 4096 * hexdigit2int e0 + 256 * hexdigit2int e1 + 16 * hexdigit2int e2 + hexdigit2int e3"
    by (rule hex4_valueD [OF hex(2)])
  have "decode_hex4 j 2 = Inr hi"
    using decode_hex4_ahead [of j "[CHR 0x5C, CHR ''u'']" d0 d1 d2 d3 _ 2] a d by simp
  moreover have "decode_hex4 j 8 = Inr lo"
    using decode_hex4_ahead [of j "[CHR 0x5C, CHR ''u'', d0, d1, d2, d3, CHR 0x5C, CHR ''u'']" e0 e1 e2 e3 rest 8] a d(1) e by simp
  moreover have "peek j 6 = Inr (CHR 0x5C)" "peek j 7 = Inr (CHR ''u'')"
    using peek_ahead(1) [OF a, of 6] peek_ahead(1) [OF a, of 7] d(1) e(1) by simp_all
  moreover have "push_bit 10 (hi - 0xD800) OR (lo - 0xDC00) = (hi - 0xD800) * 0x400 + (lo - 0xDC00)"
    using or_disjoint [of "lo - 0xDC00" 10 "hi - 0xD800"] r by (simp add: or.commute push_bit_eq_mult)
  then have eq: "(push_bit 10 (hi AND 0x3FF) OR (lo AND 0x3FF)) + 0x10000 = 0x10000 + (hi - 0xD800) * 0x400 + (lo - 0xDC00)"
    using surrogates(2) [OF r(1,2)] surrogates(3) [OF r(3,4)] by simp
  moreover have "hi AND 0xF800 = 0xD800" "hi AND 0x400 = 0" "lo AND 0xFC00 = 0xDC00"
    using surrogates(2) [OF r(1,2)] surrogates(3) [OF r(3,4)] by simp_all
  ultimately have "json_append_unicode_escape j =
      append_codepoint j ((push_bit 10 (hi AND 0x3FF) OR (lo AND 0x3FF)) + 0x10000) 12"
    using r by (simp add: json_append_unicode_escape_def)
  then show ?thesis by (simp only: eq)
qed

lemma escape_value_cases:
  assumes "escape_value es = Some cp"
  obtains (bmp) ds where "es = CHR 0x5C # CHR ''u'' # ds" "hex4_value ds = Some cp" "\<not> (0xD800 \<le> cp \<and> cp \<le> 0xDFFF)"
  | (pair) ds fs hi lo where "es = CHR 0x5C # CHR ''u'' # ds @ CHR 0x5C # CHR ''u'' # fs" "hex4_value ds = Some hi"
      "hex4_value fs = Some lo" "0xD800 \<le> hi" "hi \<le> 0xDBFF" "0xDC00 \<le> lo" "lo \<le> 0xDFFF"
      "cp = 0x10000 + (hi - 0xD800) * 0x400 + (lo - 0xDC00)"
proof (cases "length es = 6")
  case True
  with assms have "es = take 2 es @ drop 2 es" "take 2 es = [CHR 0x5C, CHR ''u'']" "hex4_value (drop 2 es) = Some cp"
    "\<not> (0xD800 \<le> cp \<and> cp \<le> 0xDFFF)" by (auto simp: escape_value_def split: if_splits option.splits)
  then show ?thesis using bmp [of "drop 2 es"] by simp
next
  case False
  with assms obtain hi lo where h: "length es = 12" "take 2 es = [CHR 0x5C, CHR ''u'']" "take 2 (drop 6 es) = [CHR 0x5C, CHR ''u'']"
    "hex4_value (take 4 (drop 2 es)) = Some hi" "hex4_value (drop 8 es) = Some lo" "0xD800 \<le> hi" "hi \<le> 0xDBFF" "0xDC00 \<le> lo" "lo \<le> 0xDFFF"
    "cp = 0x10000 + (hi - 0xD800) * 0x400 + (lo - 0xDC00)"
    by (auto simp: escape_value_def split: if_splits option.splits)
  have "es = take 2 es @ take 4 (drop 2 es) @ take 2 (drop 6 es) @ drop 8 es"
    using append_take_drop_id [of 2 es] append_take_drop_id [of 4 "drop 2 es"] append_take_drop_id [of 2 "drop 6 es"]
    by (simp del: append_take_drop_id)
  then show ?thesis using pair [of "take 4 (drop 2 es)" "drop 8 es" hi lo] h by simp
qed

lemma escape_value_decodes:
  assumes "escape_value es = Some cp"
  shows "decodes es (codepoint_to_utf8 cp) \<and> utf8_value (codepoint_to_utf8 cp) = Some cp \<and> NUL \<notin> set es"
proof -
  have nul: "NUL \<notin> set ds" if "hex4_value ds = Some u" for ds u
    using that by (rule hex4_valueD) (auto simp: hexdigit2int_NUL)
  from assms show ?thesis
  proof (cases rule: escape_value_cases)
    case (bmp ds)
    then obtain r: "0 \<le> cp" "cp \<le> 0xFFFF" "length ds = 4" by (auto elim: hex4_valueD)
    have v: "utf8_value (codepoint_to_utf8 cp) = Some cp" using bmp(3) r by (intro codepoint_to_utf8_value) auto
    have "decodes es (codepoint_to_utf8 cp)"
      unfolding bmp(1)
    proof (rule decodes_unicode [OF append_unicode_bmp [OF bmp(2,3)]])
      show "length (codepoint_to_utf8 cp) \<le> length ds + 2" using length_codepoint_to_utf8 [of cp] r by (simp split: if_splits)
      show "codepoint_to_utf8 cp \<noteq> []" using v by (auto simp: utf8_value_def)
    qed (simp_all add: r)
    with v nul [OF bmp(2)] show ?thesis by (simp add: bmp(1))
  next
    case (pair ds fs hi lo)
    have l: "length ds = 4" "length fs = 4" using pair(2,3) by (auto elim: hex4_valueD)
    have v: "utf8_value (codepoint_to_utf8 cp) = Some cp" using pair(4-8) by (intro codepoint_to_utf8_value) auto
    have "decodes es (codepoint_to_utf8 cp)"
      unfolding pair(1)
    proof (rule decodes_unicode)
      show "json_append_unicode_escape j = append_codepoint j cp 12"
        if "ahead j (CHR 0x5C # CHR ''u'' # (ds @ CHR 0x5C # CHR ''u'' # fs) @ rest)" for j rest
        unfolding pair(8) by (rule append_unicode_pair [OF pair(2-7) that])
      show "length (codepoint_to_utf8 cp) \<le> length (ds @ CHR 0x5C # CHR ''u'' # fs) + 2"
        using length_codepoint_to_utf8 [of cp] l by (simp split: if_splits)
      show "codepoint_to_utf8 cp \<noteq> []" using v by (auto simp: utf8_value_def)
    qed (simp_all add: l)
    with v nul [OF pair(2)] nul [OF pair(3)] show ?thesis by (simp add: pair(1))
  qed
qed

text \<open>C25: Every well-formed Unicode escape decodes to the UTF-8 encoding of the character it stands for: four hexadecimal
  digits of either case outside the surrogates, or a pair of surrogates, in any sequence inside a string. The decoded
  text is well-formed UTF-8 (no overlong forms, no surrogates).\<close>

theorem json_unicode_escapes:
  assumes inv: "cfg_inv cfg" and al: "\<forall>k. alloc env k"
    and es: "list_all2 (\<lambda>es cp. escape_value es = Some cp) ess cps" and len: "int (length (concat ess)) + 2 < INT_MAX"
  shows "\<exists>us. json_decode env cfg [LStr (CHR 0x22 # concat ess @ [CHR 0x22])] = Inr (LStr (concat us)) \<and>
    list_all2 (\<lambda>u cp. utf8_value u = Some cp) us cps"
proof -
  let ?us = "map codepoint_to_utf8 cps"
  let ?s = "CHR 0x22 # concat ess @ [CHR 0x22]"
  have tab: "tables_ok cfg" using inv by (simp add: cfg_inv_def tables_ok_def)
  from es have d: "list_all2 decodes ess ?us" "list_all2 (\<lambda>u cp. utf8_value u = Some cp) ?us cps" "NUL \<notin> set (concat ess)"
    by (induction rule: list_all2_induct) (auto dest: escape_value_decodes)
  have "parse_document env cfg ?s = Inr (LStr (concat ?us))"
  proof (rule parse_document_reads [OF tab _ al utf16_like_NUL])
    fix j assume "ahead j ?s"
    then have "ahead j (CHR 0x22 # concat ess @ CHR 0x22 # [])" by simp
    from next_string_token [OF d(1) this tab] push_token_string_ok
    show "reads env cfg (2 * length ?s + 3) j [] (LStr (concat ?us))"
      unfolding reads_def by (fastforce simp: numeral_eq_Suc ahead_def)
  qed (use d(3) len in auto)
  with d(2) show ?thesis by (auto simp: json_decode_def)
qed

theorem json_unicode_escapes_witness:
  "\<exists>us. json_decode sample_env sample_config
      [LStr (CHR 0x22 # concat [CHR 0x5C # ''ud83d'' @ CHR 0x5C # ''uDE00'', CHR 0x5C # ''u00e9''] @ [CHR 0x22])] =
        Inr (LStr (concat us)) \<and> list_all2 (\<lambda>u cp. utf8_value u = Some cp) us [0x1F600, 0xE9]"
proof (rule json_unicode_escapes [OF sample_config_inv(1)])
  show "\<forall>k. alloc sample_env k" by (simp add: sample_env_def)
  show "list_all2 (\<lambda>es cp. escape_value es = Some cp) [CHR 0x5C # ''ud83d'' @ CHR 0x5C # ''uDE00'', CHR 0x5C # ''u00e9'']
    [0x1F600, 0xE9]" by code_simp
qed simp


subsection \<open>Embedded terminators\<close>

text \<open>The check that no input is left after the value stops at a NUL character: a literal followed by NUL and any
  garbage is accepted, although the code looks only for NUL among the first two characters to refuse other
  encodings.\<close>

theorem json_decode_ignores_after_NUL:
  assumes inv: "cfg_inv cfg" and al: "\<forall>k. alloc env k" and w: "w \<in> {''true'', ''false'', ''null''}"
    and len: "int (length garbage) + 6 < INT_MAX"
  shows "json_decode env cfg [LStr (w @ NUL # garbage)] = Inr (if w = ''null'' then LLight True else LBool (w = ''true''))"
proof -
  let ?v = "if w = ''null'' then LLight True else LBool (w = ''true'')"
  have tab: "tables_ok cfg" using inv by (simp add: cfg_inv_def tables_ok_def)
  have "parse_document env cfg (w @ NUL # garbage) = Inr ?v"
  proof (rule parse_document_reads [OF tab _ al])
    fix j assume a: "ahead j (w @ NUL # garbage)"
    have "2 * length (w @ NUL # garbage) + 3 = Suc (2 * length (w @ NUL # garbage) + 2)" by simp
    with literal_reads [OF a tab w, of env] show "reads env cfg (2 * length (w @ NUL # garbage) + 3) j (NUL # garbage) ?v"
      by (simp only:)
  qed (use w len in \<open>auto simp: utf16_like_def\<close>)
  then show ?thesis by (simp add: json_decode_def)
qed

theorem json_decode_ignores_after_NUL_witness:
  "json_decode sample_env sample_config [LStr (''true'' @ NUL # ''}[garbage'')] = Inr (LBool True)"
proof -
  have "\<forall>k. alloc sample_env k" by (simp add: sample_env_def)
  from json_decode_ignores_after_NUL [OF sample_config_inv(1) this, of "''true''" "''}[garbage''"] show ?thesis by simp
qed

end
