(* ===== verification/Cstr.thy ===== *)
theory Cstr
  imports Prelude
begin

text \<open>
  The memory that the static functions of \<^verbatim>\<open>src/arken/string.cpp\<close> use.

  An argument is a C string: the list of its characters before the terminator. \<open>rd\<close> reads \<open>string[i]\<close> and
  faults outside the string and its terminator. A result is allocated with \<open>new char[n]\<close> and filled from left
  to right: \<open>outbuf\<close> holds the size of the allocation and the characters stored so far, so that
  the index of the code is the length of that list, and \<open>put\<close> faults at the end of the allocation. What a caller
  sees is the text before the first terminator.

  Lengths are held in \<open>int\<close> by most of the functions: the strings of the model are shorter than 2 GiB. The
  characters are classified as the C locale does.
\<close>

datatype str_fault = Read_bounds | Write_bounds | Bad_alloc | Int_overflow

abbreviation len :: "'a list \<Rightarrow> int" where
  "len xs \<equiv> int (length xs)"

definition rd :: "char list \<Rightarrow> int \<Rightarrow> str_fault + char" where
  "rd s i = (if 0 \<le> i \<and> i < len s then Inr (s ! nat i) else if i = len s then Inr NUL else Inl Read_bounds)"

record outbuf =
  ob_size :: int
  ob :: "char list"

definition new_buf :: "int \<Rightarrow> str_fault + outbuf" where
  "new_buf n = (if n < 0 then Inl Bad_alloc else Inr \<lparr>ob_size = n, ob = []\<rparr>)"

definition put :: "outbuf \<Rightarrow> char \<Rightarrow> str_fault + outbuf" where
  "put b c = (if len (ob b) < ob_size b then Inr (b\<lparr>ob := ob b @ [c]\<rparr>) else Inl Write_bounds)"

abbreviation puts :: "outbuf \<Rightarrow> char list \<Rightarrow> str_fault + outbuf" where
  "puts \<equiv> fold_res put"

definition c_str :: "char list \<Rightarrow> char list" where
  "c_str cs = takeWhile (\<lambda>c. c \<noteq> NUL) cs"

text \<open>\<open>result[j] = '\0'; return result;\<close>\<close>

definition close_buf :: "outbuf \<Rightarrow> str_fault + char list" where
  "close_buf b = rbind (put b NUL) (\<lambda>b'. Inr (c_str (ob b')))"


subsection \<open>Characters\<close>

definition isupper :: "char \<Rightarrow> bool" where
  "isupper c \<longleftrightarrow> 65 \<le> (of_char c :: nat) \<and> (of_char c :: nat) \<le> 90"

definition islower :: "char \<Rightarrow> bool" where
  "islower c \<longleftrightarrow> 97 \<le> (of_char c :: nat) \<and> (of_char c :: nat) \<le> 122"

definition toupper :: "char \<Rightarrow> char" where
  "toupper c = (if islower c then char_of ((of_char c :: nat) - 32) else c)"

definition tolower :: "char \<Rightarrow> char" where
  "tolower c = (if isupper c then char_of ((of_char c :: nat) + 32) else c)"

text \<open>\<open>chr >= 0 and chr <= 32\<close>, as in \<open>squish_special_char\<close> and \<open>trim_special_char\<close>\<close>

definition blank_char :: "char \<Rightarrow> bool" where
  "blank_char c \<longleftrightarrow> 0 \<le> schar c \<and> schar c \<le> 32"

lemma toupper_NUL [simp]: "toupper NUL = NUL" "tolower NUL = NUL"
  by (simp_all add: toupper_def tolower_def islower_def isupper_def)

lemma of_char_tolower: "isupper c \<Longrightarrow> (of_char (tolower c) :: nat) = of_char c + 32"
  by (simp add: tolower_def isupper_def)

lemma of_char_toupper: "islower c \<Longrightarrow> (of_char (toupper c) :: nat) = of_char c - 32"
  by (auto simp: toupper_def islower_def intro!: mod_less)

lemma tolower_NUL_iff [simp]: "tolower c = NUL \<longleftrightarrow> c = NUL" "toupper c = NUL \<longleftrightarrow> c = NUL"
proof -
  have "tolower c \<noteq> NUL" if "isupper c"
  proof
    assume "tolower c = NUL"
    with of_char_tolower [OF that] show False by simp
  qed
  then show "tolower c = NUL \<longleftrightarrow> c = NUL" by (cases "isupper c") (auto simp: tolower_def isupper_def)
  have "toupper c \<noteq> NUL" if "islower c"
  proof
    assume "toupper c = NUL"
    with of_char_toupper [OF that] that show False by (simp add: islower_def)
  qed
  then show "toupper c = NUL \<longleftrightarrow> c = NUL" by (cases "islower c") (auto simp: toupper_def islower_def)
qed

lemma not_isupper_tolower [simp]: "\<not> isupper (tolower c)"
  using of_char_tolower [of c] by (auto simp: isupper_def tolower_def)

lemma schar_code: "schar c = (if (of_char c :: nat) < 128 then int (of_char c) else int (of_char c) - 256)"
proof -
  have "(of_char c :: int) = int (of_char c)" by (simp only: of_nat_of_char)
  then show ?thesis unfolding schar_def Let_def by (simp only: of_nat_less_numeral_iff)
qed

lemma blank_char_code: "blank_char c \<longleftrightarrow> (of_char c :: nat) \<le> 32"
proof -
  have "\<not> 256 \<le> (of_char c :: nat)" using nat_of_char_less_256 [of c] by linarith
  then show ?thesis by (auto simp: blank_char_def schar_code)
qed


subsection \<open>Reading and writing\<close>

lemma rd_inside [simp]: "i < length s \<Longrightarrow> rd s (int i) = Inr (s ! i)"
  by (simp add: rd_def)

lemma rd_end [simp]: "rd s (len s) = Inr NUL"
  by (simp add: rd_def)

lemma rd_zero: "rd s 0 = Inr (case s of [] \<Rightarrow> NUL | c # _ \<Rightarrow> c)"
  by (cases s) (simp_all add: rd_def)

lemma rd_negative [simp]: "i < 0 \<Longrightarrow> rd s i = Inl Read_bounds"
  by (simp add: rd_def)

interpretation out_sink: bounded_sink "\<lambda>b. len (ob b) \<le> ob_size b" ob "\<lambda>b. ob_size b - len (ob b)" ob_size "\<lambda>c. [c]" put
  by unfold_locales (auto simp: put_def)

text \<open>Exactly the writes that fit succeed.\<close>

lemma puts_eq:
  assumes "len (ob b) \<le> ob_size b"
  shows "puts b cs = (if len (ob b) + len cs \<le> ob_size b then Inr (b\<lparr>ob := ob b @ cs\<rparr>) else Inl Write_bounds)"
proof (cases "len (ob b) + len cs \<le> ob_size b")
  case True
  with out_sink.put_all [OF assms, of cs] obtain b' where
    "puts b cs = Inr b'" "ob b' = ob b @ cs" "ob_size b' = ob_size b" by auto
  with True show ?thesis by (cases b'; cases b) simp
next
  case False
  have "len (ob b) \<le> ob_size b \<Longrightarrow> ob_size b < len (ob b) + len cs \<Longrightarrow> puts b cs = Inl Write_bounds"
  proof (induction cs arbitrary: b)
    case (Cons c cs)
    then show ?case by (simp add: put_def)
  qed simp
  with False assms show ?thesis by simp
qed

lemma put_eq: "put b c = (if len (ob b) + 1 \<le> ob_size b then Inr (b\<lparr>ob := ob b @ [c]\<rparr>) else Inl Write_bounds)"
  by (simp add: put_def)

lemma c_str_append: "NUL \<notin> set cs \<Longrightarrow> c_str (cs @ NUL # xs) = cs"
  unfolding c_str_def by (subst takeWhile_append2) auto

lemma c_str_id: "NUL \<notin> set cs \<Longrightarrow> c_str cs = cs"
  unfolding c_str_def by (subst takeWhile_eq_all_conv) auto

lemma close_buf_eq:
  "close_buf b = (if len (ob b) < ob_size b then Inr (c_str (ob b)) else Inl Write_bounds)"
proof -
  have "c_str (cs @ [NUL]) = c_str cs" for cs by (induction cs) (auto simp: c_str_def)
  then show ?thesis by (simp add: close_buf_def put_def)
qed

text \<open>Filling a fresh allocation of just the right size, or of a larger one.\<close>

lemma fill_new:
  assumes "len cs < n" "NUL \<notin> set cs"
  shows "rbind (new_buf n) (\<lambda>b. rbind (puts b cs) close_buf) = Inr cs"
  using assms by (simp add: new_buf_def puts_eq close_buf_eq c_str_id)

lemma fill_rest:
  assumes "ob b @ cs = t" "len t < ob_size b" "NUL \<notin> set t"
  shows "rbind (puts b cs) close_buf = Inr t"
proof -
  have "len (ob b) + len cs = len t" using assms(1) by (metis length_append of_nat_add)
  with assms show ?thesis by (simp add: puts_eq close_buf_eq c_str_id)
qed

lemma fill_overrun:
  assumes "0 \<le> n" "n \<le> len cs"
  shows "rbind (new_buf n) (\<lambda>b. rbind (puts b cs) close_buf) = Inl Write_bounds"
  using assms by (simp add: new_buf_def puts_eq close_buf_eq)

lemma puts_append: "rbind (puts b xs) (\<lambda>b'. rbind (puts b' ys) f) = rbind (puts b (xs @ ys)) f"
  by (simp add: fold_res_append rbind_assoc)

end
