(* ===== verification/Str_Search.thy ===== *)
theory Str_Search
  imports Cstr
begin

text \<open>
  Searching, cutting and replacing in \<^verbatim>\<open>src/arken/string.cpp\<close>: \<open>contains\<close>, \<open>count\<close>, \<open>indexOf\<close>,
  \<open>lastIndexOf\<close>, \<open>startsWith\<close>, \<open>endsWith\<close>, \<open>prefix\<close>, \<open>suffix\<close>, \<open>remove\<close>, \<open>replace\<close> and \<open>split\<close>.

  The reference is \<open>occurs_at\<close>: a text occurs in a string at a position. The theorems cover the searching functions,
  replacement by a text that cannot overlap itself, and splitting; three functions turn out to leave their
  buffers.
\<close>


subsection \<open>Searching\<close>

text \<open>The inner loop: the number of characters of \<open>str\<close> that match at \<open>i\<close>.\<close>

fun match_count :: "char list \<Rightarrow> int \<Rightarrow> char list \<Rightarrow> str_fault + int" where
  "match_count s i [] = Inr 0"
| "match_count s i (p # ps) =
     rbind (rd s i) (\<lambda>c. if c \<noteq> p then Inr 0 else rbind (match_count s (i + 1) ps) (\<lambda>n. Inr (n + 1)))"

function contains_loop :: "char list \<Rightarrow> char list \<Rightarrow> int \<Rightarrow> str_fault + bool" where
  "contains_loop s str i =
     (if i < len s
      then rbind (match_count s i str) (\<lambda>j. if j = len str then Inr True else contains_loop s str (i + 1))
      else Inr False)"
  by pat_completeness auto
termination
  by (relation "measure (\<lambda>(s, str, i). nat (len s - i))") auto

definition string_contains :: "char list \<Rightarrow> char list \<Rightarrow> str_fault + bool" where
  "string_contains s str = contains_loop s str 0"

text \<open>\<open>strncmp(&str1[i], str2, len2) == 0\<close>: it stops at the first difference.\<close>

definition matches_at :: "char list \<Rightarrow> int \<Rightarrow> char list \<Rightarrow> str_fault + bool" where
  "matches_at s i str = rbind (match_count s i str) (\<lambda>n. Inr (n = len str))"

definition string_count :: "char list \<Rightarrow> char list \<Rightarrow> str_fault + int" where
  "string_count s str =
     fold_res (\<lambda>result i. rbind (matches_at s i str) (\<lambda>m. Inr (if m then result + 1 else result))) 0 [0..len s - 1]"

function index_loop :: "char list \<Rightarrow> char list \<Rightarrow> int \<Rightarrow> str_fault + int" where
  "index_loop s str i =
     (if i < len s
      then rbind (match_count s i str) (\<lambda>c. if c = len str then Inr i else index_loop s str (i + 1))
      else Inr (- 1))"
  by pat_completeness auto
termination
  by (relation "measure (\<lambda>(s, str, i). nat (len s - i))") auto

definition string_indexOf :: "char list \<Rightarrow> char list \<Rightarrow> int \<Rightarrow> str_fault + int" where
  "string_indexOf s str i = (if i < 0 then Inr (- 1) else index_loop s str i)"

function last_index_loop :: "char list \<Rightarrow> char list \<Rightarrow> int \<Rightarrow> str_fault + int" where
  "last_index_loop s str i =
     (if 0 \<le> i
      then rbind (match_count s i str) (\<lambda>c. if c = len str then Inr i else last_index_loop s str (i - 1))
      else Inr (- 1))"
  by pat_completeness auto
termination
  by (relation "measure (\<lambda>(s, str, i). nat (i + 1))") auto

definition string_lastIndexOf :: "char list \<Rightarrow> char list \<Rightarrow> str_fault + int" where
  "string_lastIndexOf s str = last_index_loop s str (len s - len str)"

definition string_startsWith :: "char list \<Rightarrow> char list \<Rightarrow> str_fault + bool" where
  "string_startsWith s str = matches_at s 0 str"

text \<open>The loop runs from the terminators to the front.\<close>

function ends_loop :: "char list \<Rightarrow> char list \<Rightarrow> int \<Rightarrow> str_fault + bool" where
  "ends_loop s str i =
     (if i \<le> len str
      then rbind (rd s (len s - i)) (\<lambda>c. rbind (rd str (len str - i)) (\<lambda>d.
             if c \<noteq> d then Inr False else ends_loop s str (i + 1)))
      else Inr True)"
  by pat_completeness auto
termination
  by (relation "measure (\<lambda>(s, str, i). nat (len str + 1 - i))") auto

definition string_endsWith :: "char list \<Rightarrow> char list \<Rightarrow> str_fault + bool" where
  "string_endsWith s str = ends_loop s str 0"

declare contains_loop.simps [simp del] index_loop.simps [simp del] last_index_loop.simps [simp del] ends_loop.simps [simp del]


subsection \<open>Cutting\<close>

text \<open>\<open>new char[n]\<close>, filled with the characters of \<open>cs\<close> and terminated.\<close>

definition fill :: "int \<Rightarrow> char list \<Rightarrow> str_fault + char list" where
  "fill n cs = rbind (new_buf n) (\<lambda>b. rbind (puts b cs) close_buf)"

definition string_suffix :: "char list \<Rightarrow> char list \<Rightarrow> str_fault + char list" where
  "string_suffix raw pattern =
     rbind (string_lastIndexOf raw pattern) (\<lambda>index.
       if index = - 1 then Inr []
       else let j = len pattern + index in fill (len raw - j + 1) (drop (nat j) raw))"

definition string_prefix :: "char list \<Rightarrow> char list \<Rightarrow> str_fault + char list" where
  "string_prefix raw pattern =
     rbind (string_indexOf raw pattern 0) (\<lambda>index.
       if index = - 1 then Inr [] else fill (index + 1) (take (nat index) raw))"


subsection \<open>Removing and replacing\<close>

text \<open>\<open>while( (pos = indexOf(string, before, pos)) != -1 ) { pos++; count++; }\<close>: the count and the last
  position.\<close>

lemma index_loop_range: "index_loop s str i = Inr r \<Longrightarrow> r = - 1 \<or> i \<le> r \<and> r < len s"
proof (induction s str i rule: index_loop.induct)
  case (1 s str i)
  then show ?case
    by (subst (asm) (2) index_loop.simps) (auto simp: rbind_eq_Inr split: if_splits)
qed

lemma string_indexOf_range: "string_indexOf s str i = Inr r \<Longrightarrow> r = - 1 \<or> 0 \<le> i \<and> i \<le> r \<and> r < len s"
  by (auto simp: string_indexOf_def dest: index_loop_range split: if_splits)

function count_loop :: "char list \<Rightarrow> char list \<Rightarrow> int \<Rightarrow> int \<Rightarrow> str_fault + int \<times> int" where
  "count_loop s str pos count =
     rbind (string_indexOf s str pos) (\<lambda>p. if p = - 1 then Inr (count, p) else count_loop s str (p + 1) (count + 1))"
  by pat_completeness auto
termination
  by (relation "measure (\<lambda>(s, str, pos, _). nat (len s - pos))") (auto dest!: string_indexOf_range)

text \<open>\<open>result[i] = c; i++;\<close> with \<open>i\<close> an \<open>int\<close>, for the characters of a text.\<close>

definition put_int :: "outbuf \<Rightarrow> char \<Rightarrow> str_fault + outbuf" where
  "put_int b c = rbind (put b c) (\<lambda>b'. if len (ob b') \<le> INT_MAX then Inr b' else Inl Int_overflow)"

abbreviation puts_int :: "outbuf \<Rightarrow> char list \<Rightarrow> str_fault + outbuf" where
  "puts_int \<equiv> fold_res put_int"

text \<open>The copying loop \<open>while( j < pos )\<close>, which reads outside the string when \<open>j\<close> is negative.\<close>

definition copy_upto :: "char list \<Rightarrow> int \<Rightarrow> int \<Rightarrow> outbuf \<Rightarrow> str_fault + outbuf" where
  "copy_upto s j pos b =
     (if j < 0 \<and> j < pos then Inl Read_bounds else puts_int b (take (nat (pos - j)) (drop (nat j) s)))"

text \<open>The second loop: \<open>j\<close> is the position behind the part of the string already copied or skipped. The sum \<open>j += before_len\<close> is of
  type \<open>size_t\<close> and converted back to \<open>int\<close>.\<close>

function replace_loop ::
  "char list \<Rightarrow> char list \<Rightarrow> char list \<Rightarrow> int \<Rightarrow> int \<Rightarrow> outbuf \<Rightarrow> str_fault + int \<times> outbuf" where
  "replace_loop s before after pos j b =
     rbind (string_indexOf s before pos) (\<lambda>p.
       if p = - 1 then Inr (j, b)
       else rbind (copy_upto s j p b) (\<lambda>b1.
            rbind (puts_int b1 after) (\<lambda>b2.
            replace_loop s before after (p + 1) (to_c_int (max j p + len before)) b2)))"
  by pat_completeness auto
termination
  by (relation "measure (\<lambda>(s, before, after, pos, j, b). nat (len s - pos))") (auto dest!: string_indexOf_range)

declare count_loop.simps [simp del] replace_loop.simps [simp del]

text \<open>In the last loop \<open>j\<close> is compared as an unsigned number, so that a negative one is beyond the string.\<close>

definition string_replace :: "char list \<Rightarrow> char list \<Rightarrow> char list \<Rightarrow> int \<Rightarrow> str_fault + char list" where
  "string_replace s before after start0 =
     (let start = (if start0 < 0 then to_c_int (len s + start0) else start0)
      in rbind (count_loop s before start 0) (\<lambda>(count, _).
         rbind (new_buf (len s + (len after - len before) * count + 1)) (\<lambda>b.
         rbind (replace_loop s before after start 0 b) (\<lambda>(j, b1).
         rbind (puts_int b1 (if j < 0 then [] else drop (nat j) s)) close_buf))))"

text \<open>\<open>remove\<close> does not set \<open>pos\<close> back before its second loop, and terminates the text at \<open>reslen\<close>.\<close>

definition string_remove :: "char list \<Rightarrow> char list \<Rightarrow> int \<Rightarrow> str_fault + char list" where
  "string_remove s rep start =
     rbind (count_loop s rep start 0) (\<lambda>(count, pos).
       let reslen = len s - len rep * count
       in rbind (new_buf (reslen + 1)) (\<lambda>b.
          rbind (replace_loop s rep [] pos 0 b) (\<lambda>(j, b1).
          rbind (puts b1 (drop (nat j) s)) (\<lambda>b2. Inr (c_str (take (nat reslen) (ob b2)))))))"


subsection \<open>Splitting\<close>

text \<open>The loop of \<open>split\<close>: \<open>flag\<close> is the position behind the last separator, \<open>acc\<close> the list so far.\<close>

function split_loop :: "char list \<Rightarrow> char list \<Rightarrow> int \<Rightarrow> int \<Rightarrow> char list list \<Rightarrow> str_fault + int \<times> char list list" where
  "split_loop raw pattern i flag acc =
     (if i < len raw
      then rbind (matches_at raw i pattern) (\<lambda>m.
        if m then split_loop raw pattern (i + 1) (i + len pattern)
                    (if 0 < i - flag then acc @ [take (nat (i - flag)) (drop (nat flag) raw)] else acc)
        else split_loop raw pattern (i + 1) flag acc)
      else Inr (flag, acc))"
  by pat_completeness auto
termination
  by (relation "measure (\<lambda>(raw, pattern, i, _). nat (len raw - i))") auto

declare split_loop.simps [simp del]

definition string_split :: "char list \<Rightarrow> char list \<Rightarrow> str_fault + char list list" where
  "string_split raw pattern =
     rbind (split_loop raw pattern 0 0 []) (\<lambda>(flag, acc).
       Inr (if flag < len raw then acc @ [drop (nat flag) raw] else acc))"


subsection \<open>Occurrences\<close>

definition occurs_at :: "char list \<Rightarrow> char list \<Rightarrow> int \<Rightarrow> bool" where
  "occurs_at p s i \<longleftrightarrow> 0 \<le> i \<and> i + len p \<le> len s \<and> take (length p) (drop (nat i) s) = p"

lemma occurs_at_iff: "occurs_at p s i \<longleftrightarrow> (\<exists>us vs. s = us @ p @ vs \<and> i = len us)"
proof
  assume o: "occurs_at p s i"
  then have "s = take (nat i) s @ p @ drop (length p) (drop (nat i) s)"
    by (metis append_take_drop_id occurs_at_def)
  moreover have "i = len (take (nat i) s)" using o by (auto simp: occurs_at_def)
  ultimately show "\<exists>us vs. s = us @ p @ vs \<and> i = len us" by blast
qed (auto simp: occurs_at_def)

lemma match_count_spec:
  assumes "NUL \<notin> set p" "0 \<le> i" "i \<le> len s"
  shows "\<exists>n. match_count s i p = Inr n \<and> 0 \<le> n \<and> n \<le> len p \<and> (n = len p \<longleftrightarrow> occurs_at p s i)"
  using assms
proof (induction p arbitrary: i)
  case (Cons x p)
  show ?case
  proof (cases "i = len s")
    case True
    then show ?thesis using Cons.prems by (auto simp: occurs_at_def)
  next
    case False
    then have i: "nat i < length s" "0 \<le> i" "nat (i + 1) = Suc (nat i)" using Cons.prems by auto
    have "drop (nat i) s = s ! nat i # drop (Suc (nat i)) s" using i by (simp add: Cons_nth_drop_Suc)
    then have o: "occurs_at (x # p) s i \<longleftrightarrow> s ! nat i = x \<and> occurs_at p s (i + 1)"
      using i by (auto simp: occurs_at_def)
    have r: "rd s i = Inr (s ! nat i)" using rd_inside [OF i(1)] i(2) by simp
    obtain n where "match_count s (i + 1) p = Inr n" "0 \<le> n" "n \<le> len p" "n = len p \<longleftrightarrow> occurs_at p s (i + 1)"
      using Cons.IH [of "i + 1"] Cons.prems False by auto
    with r o show ?thesis by (cases "s ! nat i = x") auto
  qed
qed (auto simp: occurs_at_def)

lemma matches_at_spec: "NUL \<notin> set p \<Longrightarrow> 0 \<le> i \<Longrightarrow> i \<le> len s \<Longrightarrow> matches_at s i p = Inr (occurs_at p s i)"
  using match_count_spec [of p i s] by (auto simp: matches_at_def)

text \<open>The first position from \<open>i\<close> on, and the last position up to \<open>i\<close>, where a condition holds.\<close>

definition first_from :: "(int \<Rightarrow> bool) \<Rightarrow> int \<Rightarrow> int \<Rightarrow> int" where
  "first_from P i n = (case find P [i..n - 1] of None \<Rightarrow> - 1 | Some j \<Rightarrow> j)"

definition last_upto :: "(int \<Rightarrow> bool) \<Rightarrow> int \<Rightarrow> int" where
  "last_upto P i = (case find P (rev [0..i]) of None \<Rightarrow> - 1 | Some j \<Rightarrow> j)"

lemma first_from_step:
  "first_from P i n = (if i < n then if P i then i else first_from P (i + 1) n else - 1)"
  by (simp add: first_from_def upto_rec1)

lemma last_upto_step:
  "last_upto P i = (if 0 \<le> i then if P i then i else last_upto P (i - 1) else - 1)"
  by (simp add: last_upto_def upto_rec2)

lemma first_from_cases:
  assumes "0 \<le> i"
  shows "first_from P i n = - 1 \<and> (\<forall>j. i \<le> j \<and> j < n \<longrightarrow> \<not> P j) \<or>
    i \<le> first_from P i n \<and> first_from P i n < n \<and> P (first_from P i n) \<and> (\<forall>j. i \<le> j \<and> j < first_from P i n \<longrightarrow> \<not> P j)"
  using assms
proof (induction "nat (n - i)" arbitrary: i)
  case (Suc k)
  then have k: "k = nat (n - (i + 1))" "0 \<le> i + 1" "i < n" by auto
  show ?case
  proof (cases "P i")
    case True
    then show ?thesis using k(3) first_from_step [of P i n] by auto
  next
    case False
    then have eq: "first_from P i n = first_from P (i + 1) n" using k(3) first_from_step [of P i n] by simp
    have first: "\<forall>j. i \<le> j \<and> j < m \<longrightarrow> \<not> P j" if "\<forall>j. i + 1 \<le> j \<and> j < m \<longrightarrow> \<not> P j" for m
    proof (intro allI impI)
      fix j assume "i \<le> j \<and> j < m"
      with that False show "\<not> P j" by (cases "j = i") auto
    qed
    from Suc(1) [OF k(1,2)] show ?thesis
    proof
      assume "first_from P (i + 1) n = - 1 \<and> (\<forall>j. i + 1 \<le> j \<and> j < n \<longrightarrow> \<not> P j)"
      with first [of n] eq show ?thesis by simp
    next
      assume r: "i + 1 \<le> first_from P (i + 1) n \<and> first_from P (i + 1) n < n \<and> P (first_from P (i + 1) n) \<and>
        (\<forall>j. i + 1 \<le> j \<and> j < first_from P (i + 1) n \<longrightarrow> \<not> P j)"
      with first [of "first_from P (i + 1) n"] have "\<forall>j. i \<le> j \<and> j < first_from P (i + 1) n \<longrightarrow> \<not> P j" by blast
      moreover have "i \<le> first_from P (i + 1) n" using r by linarith
      ultimately show ?thesis unfolding eq using r by blast
    qed
  qed
qed (auto simp: first_from_step)

lemma index_loop_spec:
  "NUL \<notin> set p \<Longrightarrow> 0 \<le> i \<Longrightarrow> index_loop s p i = Inr (first_from (occurs_at p s) i (len s))"
proof (induction s p i rule: index_loop.induct)
  case (1 s p i)
  show ?case
  proof (cases "i < len s")
    case True
    from match_count_spec [of p i s] 1(2,3) True obtain c where
      c: "match_count s i p = Inr c" "c = len p \<longleftrightarrow> occurs_at p s i" by auto
    have "index_loop s p i = (if occurs_at p s i then Inr i else index_loop s p (i + 1))"
      using True c by (simp add: index_loop.simps [of s p i])
    with 1(1) [OF True c(1)] 1(2,3) c True show ?thesis by (simp add: first_from_step [of _ i])
  qed (simp add: index_loop.simps [of s p i] first_from_step [of _ i])
qed

lemma string_indexOf_spec:
  "NUL \<notin> set p \<Longrightarrow> string_indexOf s p i = Inr (if i < 0 then - 1 else first_from (occurs_at p s) i (len s))"
  by (simp add: string_indexOf_def index_loop_spec)

lemma last_index_loop_spec:
  "NUL \<notin> set p \<Longrightarrow> i \<le> len s \<Longrightarrow> last_index_loop s p i = Inr (last_upto (occurs_at p s) i)"
proof (induction s p i rule: last_index_loop.induct)
  case (1 s p i)
  show ?case
  proof (cases "0 \<le> i")
    case True
    from match_count_spec [of p i s] 1(2,3) True obtain c where
      c: "match_count s i p = Inr c" "c = len p \<longleftrightarrow> occurs_at p s i" by auto
    have "last_index_loop s p i = (if occurs_at p s i then Inr i else last_index_loop s p (i - 1))"
      using True c by (simp add: last_index_loop.simps [of s p i])
    with 1(1) [OF True c(1)] 1(2,3) c True show ?thesis by (simp add: last_upto_step [of _ i])
  qed (simp add: last_index_loop.simps [of s p i] last_upto_step [of _ i])
qed

lemma contains_loop_spec:
  "NUL \<notin> set p \<Longrightarrow> 0 \<le> i \<Longrightarrow> contains_loop s p i = Inr (\<exists>j. i \<le> j \<and> j < len s \<and> occurs_at p s j)"
proof (induction s p i rule: contains_loop.induct)
  case (1 s p i)
  show ?case
  proof (cases "i < len s")
    case True
    from match_count_spec [of p i s] 1(2,3) True obtain c where
      c: "match_count s i p = Inr c" "c = len p \<longleftrightarrow> occurs_at p s i" by auto
    have step: "contains_loop s p i = (if occurs_at p s i then Inr True else contains_loop s p (i + 1))"
      using True c by (simp add: contains_loop.simps [of s p i])
    have "(\<exists>j. i \<le> j \<and> j < len s \<and> occurs_at p s j) \<longleftrightarrow>
        occurs_at p s i \<or> (\<exists>j. i + 1 \<le> j \<and> j < len s \<and> occurs_at p s j)"
      using True by (metis add1_zle_eq order.order_iff_strict)
    with 1(1) [OF True c(1)] 1(2,3) c step show ?thesis by simp
  qed (simp add: contains_loop.simps [of s p i])
qed

lemma string_count_spec:
  assumes "NUL \<notin> set p"
  shows "string_count s p = Inr (len (filter (occurs_at p s) [0..len s - 1]))"
proof -
  have "fold_res (\<lambda>r i. rbind (matches_at s i p) (\<lambda>m. Inr (if m then r + 1 else r))) r is =
      Inr (r + len (filter (occurs_at p s) is))" if "\<forall>i\<in>set is. 0 \<le> i \<and> i \<le> len s" for r "is"
    using that by (induction "is" arbitrary: r) (auto simp: matches_at_spec assms)
  from this [of "[0..len s - 1]" 0] show ?thesis by (simp add: string_count_def)
qed

lemma occurs_at_last: "last_upto (occurs_at p s) (len s - len p) = - 1 \<or>
    0 \<le> last_upto (occurs_at p s) (len s - len p) \<and> last_upto (occurs_at p s) (len s - len p) + len p \<le> len s"
proof -
  have "last_upto P i = - 1 \<or> 0 \<le> last_upto P i \<and> last_upto P i \<le> i" for P i
    by (auto simp: last_upto_def find_Some_iff2 split: option.split)
      (metis atLeastAtMost_iff find_Some_iff nth_mem set_rev set_upto)+
  from this [of "occurs_at p s" "len s - len p"] show ?thesis by linarith
qed

text \<open>The first and the last occurrence as positions of the string.\<close>

lemma string_cut_spec:
  assumes "NUL \<notin> set s" "NUL \<notin> set p"
  shows "string_prefix s p = Inr (let i = first_from (occurs_at p s) 0 (len s) in if i = - 1 then [] else take (nat i) s)"
    and "string_suffix s p = Inr (let i = last_upto (occurs_at p s) (len s - len p) in if i = - 1 then [] else drop (nat (len p + i)) s)"
proof -
  have n: "NUL \<notin> set (take k s)" "NUL \<notin> set (drop k s)" for k
    using assms(1) by (auto dest: in_set_takeD in_set_dropD)
  show "string_prefix s p = Inr (let i = first_from (occurs_at p s) 0 (len s) in if i = - 1 then [] else take (nat i) s)"
    using assms(2) n first_from_cases [of 0 "occurs_at p s" "len s"]
    by (auto simp: string_prefix_def string_indexOf_spec fill_def fill_new Let_def)
  show "string_suffix s p = Inr (let i = last_upto (occurs_at p s) (len s - len p) in if i = - 1 then [] else drop (nat (len p + i)) s)"
    using assms(2) n occurs_at_last [of p s]
    by (auto simp: string_suffix_def string_lastIndexOf_def last_index_loop_spec fill_def fill_new Let_def)
qed

text \<open>C26: The searching functions find what they promise, on strings shorter than 2 GiB: \<open>indexOf\<close> the first occurrence from a
  position on, \<open>lastIndexOf\<close> the last one, \<open>contains\<close> whether there is one inside the string, \<open>count\<close> their number, overlapping ones
  included, \<open>startsWith\<close> one at the front, \<open>prefix\<close> the text before the first occurrence and \<open>suffix\<close> the text behind the
  last one (the empty text when there is none). None of them reads behind the terminator or writes beyond its result.\<close>

theorem string_search_correct:
  assumes "NUL \<notin> set s" "NUL \<notin> set str" "len s \<le> 2147483646" "len str \<le> 2147483646"
  shows "string_indexOf s str i = Inr (if i < 0 then - 1 else first_from (occurs_at str s) i (len s)) \<and>
    string_lastIndexOf s str = Inr (last_upto (occurs_at str s) (len s - len str)) \<and>
    string_contains s str = Inr (\<exists>j. 0 \<le> j \<and> j < len s \<and> occurs_at str s j) \<and>
    string_count s str = Inr (len (filter (occurs_at str s) [0..len s - 1])) \<and>
    string_startsWith s str = Inr (occurs_at str s 0) \<and>
    string_prefix s str = Inr (let i = first_from (occurs_at str s) 0 (len s) in if i = - 1 then [] else take (nat i) s) \<and>
    string_suffix s str =
      Inr (let i = last_upto (occurs_at str s) (len s - len str) in if i = - 1 then [] else drop (nat (len str + i)) s)"
  using assms string_cut_spec [OF assms(1,2)]
  by (simp add: string_indexOf_spec string_lastIndexOf_def last_index_loop_spec string_contains_def
      contains_loop_spec string_count_spec string_startsWith_def matches_at_spec)

theorem string_search_correct_witness:
  "string_indexOf ''banana'' ''ana'' 2 = Inr 3 \<and> string_lastIndexOf ''banana'' ''an'' = Inr 3 \<and>
   string_count ''banana'' ''ana'' = Inr 2 \<and> string_prefix ''banana'' ''an'' = Inr ''b'' \<and> string_suffix ''banana'' ''an'' = Inr ''a''"
proof -
  have n: "NUL \<notin> set ''banana''" "NUL \<notin> set ''ana''" "NUL \<notin> set ''an''" by simp_all
  have "first_from (occurs_at ''ana'' ''banana'') 2 (len ''banana'') = 3" by code_simp
  moreover have "first_from (occurs_at ''an'' ''banana'') 0 (len ''banana'') = 1" by code_simp
  moreover have "last_upto (occurs_at ''an'' ''banana'') (len ''banana'' - len ''an'') = 3" by code_simp
  moreover have "len (filter (occurs_at ''ana'' ''banana'') [0..len ''banana'' - 1]) = 2" by code_simp
  moreover have "nat (len ''an'' + 3) = 5" by simp
  ultimately show ?thesis
    using string_search_correct [OF n(1,2), of 2] string_search_correct [OF n(1,3)] by (simp add: Let_def)
qed


subsection \<open>Replacing a text that cannot overlap itself\<close>

text \<open>The reference: replace the occurrences from left to right.\<close>

function replace_all :: "char list \<Rightarrow> char list \<Rightarrow> char list \<Rightarrow> char list" where
  "replace_all before after s =
     (case s of
        [] \<Rightarrow> []
      | c # cs \<Rightarrow>
          if before \<noteq> [] \<and> take (length before) s = before then after @ replace_all before after (drop (length before) s)
          else c # replace_all before after cs)"
  by pat_completeness auto
termination
  by (relation "measure (\<lambda>(_, _, s). length s)") (auto simp: length_greater_0_conv [symmetric] simp del: length_greater_0_conv)

declare replace_all.simps [simp del]

text \<open>No proper prefix of the text is also a suffix of it.\<close>

definition border_free :: "char list \<Rightarrow> bool" where
  "border_free p \<longleftrightarrow> p \<noteq> [] \<and> (\<forall>k\<in>{1..<length p}. take (length p - k) p \<noteq> drop k p)"

lemma occurs_apart:
  assumes "border_free p" "occurs_at p s i" "occurs_at p s j" "i < j"
  shows "i + len p \<le> j"
proof (rule ccontr)
  assume "\<not> i + len p \<le> j"
  define k where "k = nat (j - i)"
  have k: "1 \<le> k" "k < length p" "nat j = k + nat i" using assms(2,4) \<open>\<not> i + len p \<le> j\<close> by (auto simp: k_def occurs_at_def)
  have "drop k p = drop k (take (length p) (drop (nat i) s))" using assms(2) by (simp add: occurs_at_def)
  also have "\<dots> = take (length p - k) (drop (nat j) s)" using k(3) by (simp add: drop_take)
  also have "\<dots> = take (length p - k) (take (length p) (drop (nat j) s))" by simp
  also have "\<dots> = take (length p - k) p" using assms(3) by (simp add: occurs_at_def)
  finally have "take (length p - k) p = drop k p" by simp
  moreover have "k \<in> {1..<length p}" using k(1,2) by simp
  ultimately show False using assms(1) unfolding border_free_def by blast
qed

lemma first_from_skip:
  assumes "\<And>j. i \<le> j \<Longrightarrow> j < k \<Longrightarrow> \<not> P j" "i \<le> k"
  shows "first_from P i n = first_from P k n"
  using assms
proof (induction "nat (k - i)" arbitrary: i)
  case (Suc m)
  then have i: "i < k" "m = nat (k - (i + 1))" by auto
  have step: "first_from P (i + 1) n = first_from P k n" using Suc i by (intro Suc(1)) auto
  have "\<not> P i" using Suc.prems i by auto
  show ?case
  proof (cases "i < n")
    case True
    with step \<open>\<not> P i\<close> show ?thesis by (simp add: first_from_step [of P i])
  next
    case False
    with i have "\<not> k < n" by auto
    with False show ?thesis by (simp add: first_from_step)
  qed
qed simp

lemma occurs_at_drop:
  "0 \<le> j \<Longrightarrow> j \<le> len s \<Longrightarrow> i \<le> length (drop (nat j) s) \<Longrightarrow>
     take (length p) (drop i (drop (nat j) s)) = p \<longleftrightarrow> occurs_at p s (j + int i)"
proof -
  assume a: "0 \<le> j" "j \<le> len s" "i \<le> length (drop (nat j) s)"
  have "nat (j + int i) = i + nat j" using a(1) by simp
  moreover have "length p \<le> length s - (i + nat j) \<longleftrightarrow> j + int i + len p \<le> len s" using a by auto
  moreover have "take (length p) t = p \<Longrightarrow> length p \<le> length t" for t by (metis length_take min.cobounded1)
  ultimately show ?thesis using a(1) by (fastforce simp: occurs_at_def)
qed

lemma replace_all_skip:
  "k \<le> length t \<Longrightarrow> (\<And>i. i < k \<Longrightarrow> take (length p) (drop i t) \<noteq> p) \<Longrightarrow>
     replace_all p a t = take k t @ replace_all p a (drop k t)"
proof (induction k arbitrary: t)
  case (Suc k)
  then obtain c cs where t: "t = c # cs" by (cases t) auto
  have "take (length p) t \<noteq> p" using Suc.prems(2) [of 0] by simp
  moreover have "replace_all p a cs = take k cs @ replace_all p a (drop k cs)"
    using Suc.prems(1) Suc.prems(2) [of "Suc i" for i] t by (intro Suc.IH) auto
  ultimately show ?case by (simp add: t replace_all.simps [of p a "c # cs"])
qed simp

lemma replace_all_match: "p \<noteq> [] \<Longrightarrow> take (length p) t = p \<Longrightarrow> replace_all p a t = a @ replace_all p a (drop (length p) t)"
  by (cases t) (simp, subst replace_all.simps, simp)

text \<open>One round of the reference: up to the next occurrence, or to the end.\<close>

lemma replace_all_round:
  assumes "p \<noteq> []" "0 \<le> j" "j \<le> len s"
  defines "q \<equiv> first_from (occurs_at p s) j (len s)"
  shows "q = - 1 \<Longrightarrow> replace_all p a (drop (nat j) s) = drop (nat j) s"
    and "q \<noteq> - 1 \<Longrightarrow> j \<le> q \<and> occurs_at p s q \<and> q + len p \<le> len s \<and>
      replace_all p a (drop (nat j) s) = take (nat (q - j)) (drop (nat j) s) @ a @ replace_all p a (drop (nat (q + len p)) s)"
proof -
  have none: "take (length p) (drop i (drop (nat j) s)) \<noteq> p" if "j + int i \<le> len s" "\<not> occurs_at p s (j + int i)" for i
    using occurs_at_drop [OF assms(2,3), of i p] that assms(2) by simp
  have at_end: "\<not> occurs_at p s (len s)" using assms(1) by (auto simp: occurs_at_def)
  note fc = first_from_cases [OF assms(2), of "occurs_at p s" "len s", folded q_def]
  {
    assume "q = - 1"
    with fc assms(2) have n: "\<forall>i. j \<le> i \<and> i < len s \<longrightarrow> \<not> occurs_at p s i" by auto
    have "replace_all p a (drop (nat j) s) = take (length (drop (nat j) s)) (drop (nat j) s) @
        replace_all p a (drop (length (drop (nat j) s)) (drop (nat j) s))"
    proof (rule replace_all_skip)
      show "take (length p) (drop i (drop (nat j) s)) \<noteq> p" if "i < length (drop (nat j) s)" for i
        using that n assms(2) by (intro none) auto
    qed simp
    then show "replace_all p a (drop (nat j) s) = drop (nat j) s" by (simp add: replace_all.simps)
  next
    assume "q \<noteq> - 1"
    with fc have q: "j \<le> q" "q < len s" "occurs_at p s q" "\<forall>i. j \<le> i \<and> i < q \<longrightarrow> \<not> occurs_at p s i" by auto
    let ?k = "nat (q - j)"
    have d: "drop ?k (drop (nat j) s) = drop (nat q) s" using q(1) assms(2) by (simp add: nat_diff_distrib)
    have "replace_all p a (drop (nat j) s) = take ?k (drop (nat j) s) @ replace_all p a (drop ?k (drop (nat j) s))"
    proof (rule replace_all_skip)
      show "take (length p) (drop i (drop (nat j) s)) \<noteq> p" if "i < ?k" for i
        using that q assms(2) by (intro none) auto
    qed (use q assms(2) in auto)
    moreover have "replace_all p a (drop (nat q) s) = a @ replace_all p a (drop (length p) (drop (nat q) s))"
      using q(3) assms(1) by (intro replace_all_match) (simp_all add: occurs_at_def)
    ultimately show "j \<le> q \<and> occurs_at p s q \<and> q + len p \<le> len s \<and>
      replace_all p a (drop (nat j) s) = take (nat (q - j)) (drop (nat j) s) @ a @ replace_all p a (drop (nat (q + len p)) s)"
      using q(1,3) assms(2) unfolding d by (simp add: occurs_at_def nat_add_distrib add.commute)
  }
qed

text \<open>Behind an occurrence the search may start where the occurrence ends.\<close>

lemma indexOf_behind:
  assumes "NUL \<notin> set p" "border_free p" "occurs_at p s q"
  shows "string_indexOf s p (q + 1) = string_indexOf s p (q + len p)"
proof -
  have "1 \<le> len p" "0 \<le> q" using assms(2,3) by (auto simp: border_free_def occurs_at_def Suc_le_eq)
  moreover have "first_from (occurs_at p s) (q + 1) (len s) = first_from (occurs_at p s) (q + len p) (len s)"
    using occurs_apart [OF assms(2,3)] calculation by (intro first_from_skip) fastforce+
  ultimately show ?thesis using assms(1) by (simp add: string_indexOf_spec)
qed

text \<open>The part of a string between two positions.\<close>

definition between :: "char list \<Rightarrow> int \<Rightarrow> int \<Rightarrow> char list" where
  "between s i j = take (nat (j - i)) (drop (nat i) s)"

lemma between_simps:
  assumes "0 \<le> i" "i \<le> j" "j \<le> len s"
  shows "between s i i = []" "len (between s i j) = j - i" "between s i j @ drop (nat j) s = drop (nat i) s"
    "between s 0 j = take (nat j) s" "j \<le> k \<Longrightarrow> between s i j @ between s j k = between s i k"
proof -
  have d: "drop (nat j) s = drop (nat (j - i)) (drop (nat i) s)" using assms by (simp add: nat_diff_distrib)
  show "between s i j @ drop (nat j) s = drop (nat i) s" unfolding between_def d by (rule append_take_drop_id)
  show "between s i j @ between s j k = between s i k" if "j \<le> k"
  proof -
    have "nat (k - i) = nat (j - i) + nat (k - j)" using assms that by simp
    then show ?thesis unfolding between_def d by (simp only: take_add)
  qed
qed (use assms in \<open>auto simp: between_def\<close>)

lemma puts_int_eq: "len (ob b) + len cs \<le> INT_MAX \<Longrightarrow> puts_int b cs = puts b cs"
  by (induction cs arbitrary: b) (auto simp: put_int_def put_def)

lemma replace_loops:
  assumes p: "NUL \<notin> set p" "border_free p" and s: "len s \<le> INT_MAX"
  shows "0 \<le> j \<Longrightarrow> j \<le> len s \<Longrightarrow> \<exists>k. 0 \<le> k \<and> (\<forall>c. count_loop s p j c = Inr (c + k, - 1)) \<and>
    len (replace_all p a (drop (nat j) s)) = len s - j + (len a - len p) * k \<and>
    (\<forall>i b. 0 \<le> i \<and> i \<le> j \<and> len (ob b) + (j - i) + len (replace_all p a (drop (nat j) s)) \<le> min (ob_size b) INT_MAX \<longrightarrow>
      (\<exists>j' b'. replace_loop s p a j i b = Inr (j', b') \<and> ob_size b' = ob_size b \<and> 0 \<le> j' \<and>
        ob b' @ drop (nat j') s = ob b @ between s i j @ replace_all p a (drop (nat j) s)))"
proof (induction "nat (len s - j)" arbitrary: j rule: less_induct)
  case less
  have pn: "p \<noteq> []" using p(2) by (simp add: border_free_def)
  define q where "q = first_from (occurs_at p s) j (len s)"
  note round = replace_all_round [OF pn less.prems, folded q_def, of a]
  have idx: "string_indexOf s p j = Inr q" using less.prems p(1) by (simp add: string_indexOf_spec q_def)
  show ?case
  proof (cases "q = - 1")
    case True
    have "count_loop s p j c = Inr (c + 0, - 1)" "replace_loop s p a j i b = Inr (i, b)" for c i b
      using idx True by (simp_all add: count_loop.simps [of s p j] replace_loop.simps [of s p a j])
    then show ?thesis using round(1) [OF True] less.prems between_simps(3) by (intro exI [of _ 0]) auto
  next
    case False
    let ?j = "q + len p"
    have q: "j \<le> q" "occurs_at p s q" "?j \<le> len s" "0 \<le> ?j" "nat (len s - ?j) < nat (len s - j)"
      using round(2) [OF False] less.prems(1) pn by (auto simp: length_greater_0_conv [symmetric] simp del: length_greater_0_conv)
    from less.hyps [OF q(5,4,3)] obtain k where k: "0 \<le> k" "\<And>c. count_loop s p ?j c = Inr (c + k, - 1)"
      "len (replace_all p a (drop (nat ?j) s)) = len s - ?j + (len a - len p) * k"
      "\<And>i b. 0 \<le> i \<Longrightarrow> i \<le> ?j \<Longrightarrow> len (ob b) + (?j - i) + len (replace_all p a (drop (nat ?j) s)) \<le> min (ob_size b) INT_MAX \<Longrightarrow>
        \<exists>j' b'. replace_loop s p a ?j i b = Inr (j', b') \<and> ob_size b' = ob_size b \<and> 0 \<le> j' \<and>
          ob b' @ drop (nat j') s = ob b @ between s i ?j @ replace_all p a (drop (nat ?j) s)" by blast
    note behind = indexOf_behind [OF p q(2)]
    have "count_loop s p j c = Inr (c + (k + 1), - 1)" for c
      using k(2) [of "c + 1"] idx False behind
      by (simp add: count_loop.simps [of s p j] count_loop.simps [of s p "q + 1"] count_loop.simps [of s p ?j])
    moreover have R: "replace_all p a (drop (nat j) s) = between s j q @ a @ replace_all p a (drop (nat ?j) s)"
      using round(2) [OF False] by (simp add: between_def)
    have bq: "len (between s j q) = q - j" using between_simps(2) [of j q s] less.prems q by simp
    then have "len (replace_all p a (drop (nat j) s)) = len s - j + (len a - len p) * (k + 1)"
      using k(3) unfolding R by (simp add: algebra_simps)
    moreover have "\<exists>j' b'. replace_loop s p a j i b = Inr (j', b') \<and> ob_size b' = ob_size b \<and> 0 \<le> j' \<and>
        ob b' @ drop (nat j') s = ob b @ between s i j @ replace_all p a (drop (nat j) s)"
      if i: "0 \<le> i" "i \<le> j" and fits: "len (ob b) + (j - i) + len (replace_all p a (drop (nat j) s)) \<le> min (ob_size b) INT_MAX" for i b
    proof -
      have iq: "between s i j @ between s j q = between s i q" "len (between s i q) = q - i"
        using between_simps(5) [of i j s q] between_simps(2) [of i q s] i q less.prems by auto
      let ?b = "b\<lparr>ob := ob b @ between s i q @ a\<rparr>"
      have "len (ob b) + (q - i) + len a \<le> min (ob_size b) INT_MAX" using fits bq unfolding R by simp
      then have "rbind (copy_upto s i q b) (\<lambda>b1. puts_int b1 a) = Inr ?b"
        using i q(1) iq(2) by (simp add: copy_upto_def between_def [symmetric] puts_int_eq puts_eq)
      then have "replace_loop s p a j i b = replace_loop s p a (q + 1) ?j ?b"
        using idx False q i s
        by (simp add: replace_loop.simps [of s p a j] rbind_assoc [symmetric] max_absorb2 to_c_int_id)
      also have "\<dots> = replace_loop s p a ?j ?j ?b"
        using behind by (simp add: replace_loop.simps [of s p a "q + 1"] replace_loop.simps [of s p a ?j])
      finally show ?thesis
        using k(4) [of ?j ?b] fits q iq bq between_simps(1) [of ?j ?j s] unfolding R iq(1) [symmetric] by auto
    qed
    ultimately show ?thesis using k(1) by (intro exI [of _ "k + 1"]) auto
  qed
qed

lemma set_replace_all: "set (replace_all p a s) \<subseteq> set a \<union> set s"
proof (induction p a s rule: replace_all.induct)
  case (1 p a s)
  show ?case
  proof (cases s)
    case (Cons c cs)
    show ?thesis
    proof (cases "p \<noteq> [] \<and> take (length p) s = p")
      case True
      with 1(1) [OF Cons] Cons set_drop_subset [of "length p" s] show ?thesis
        by (subst replace_all.simps) auto
    next
      case False
      with 1(2) [OF Cons] Cons show ?thesis by (subst replace_all.simps) auto
    qed
  qed (simp add: replace_all.simps)
qed

text \<open>C27: For a text that cannot overlap itself, \<open>replace\<close> replaces the occurrences from the start position on, from left
  to right, by any other text: the counting pass sizes the result exactly, and nothing is written beyond it. A
  negative start counts from the end. The string and the result have at most 2147483647 characters, which is
  what the indices of type \<open>int\<close> can address.\<close>

theorem string_replace_correct:
  assumes nul: "NUL \<notin> set s" "NUL \<notin> set before" "NUL \<notin> set after" and before: "border_free before"
    and start: "- len s \<le> start" "start \<le> len s" "n = nat (if start < 0 then len s + start else start)"
    and size: "len s \<le> 2147483647" "len (take n s @ replace_all before after (drop n s)) \<le> 2147483647"
  shows "string_replace s before after start = Inr (take n s @ replace_all before after (drop n s))"
proof -
  define j where "j = (if start < 0 then to_c_int (len s + start) else start)"
  have j: "0 \<le> j" "j \<le> len s" "n = nat j" using start size(1) by (auto simp: j_def to_c_int_id)
  let ?r = "replace_all before after (drop (nat j) s)"
  from replace_loops [OF nul(2) before size(1) j(1,2), of after] obtain k where
    k: "0 \<le> k" "count_loop s before j 0 = Inr (k, - 1)" "len ?r = len s - j + (len after - len before) * k"
    "\<And>i b. 0 \<le> i \<Longrightarrow> i \<le> j \<Longrightarrow> len (ob b) + (j - i) + len ?r \<le> min (ob_size b) INT_MAX \<Longrightarrow>
       \<exists>j' b'. replace_loop s before after j i b = Inr (j', b') \<and> ob_size b' = ob_size b \<and> 0 \<le> j' \<and>
         ob b' @ drop (nat j') s = ob b @ between s i j @ ?r" by auto
  define m where "m = len s + (len after - len before) * k + 1"
  have m: "m = len (take (nat j) s @ ?r) + 1" using k(3) j by (simp add: m_def)
  let ?b = "\<lparr>ob_size = m, ob = []\<rparr>"
  obtain j' b' where r: "replace_loop s before after j 0 ?b = Inr (j', b')" "ob_size b' = m" "0 \<le> j'"
      "ob b' @ drop (nat j') s = take (nat j) s @ ?r"
    using k(4) [of 0 ?b] m j size between_simps(4) [of 0 j s] by auto
  have "NUL \<notin> set (take (nat j) s @ ?r)"
    using set_replace_all [of before after "drop (nat j) s"] nul by (auto dest: in_set_takeD in_set_dropD)
  with fill_rest [OF r(4)] m r(2) have fill: "rbind (puts b' (drop (nat j') s)) close_buf = Inr (take n s @ replace_all before after (drop n s))"
    by (simp add: j(3))
  have "len (ob b') + len (drop (nat j') s) = len (take (nat j) s @ ?r)" using r(4) by (metis length_append of_nat_add)
  with size(2) j(3) fill puts_int_eq [of b' "drop (nat j') s"]
  have "rbind (puts_int b' (if j' < 0 then [] else drop (nat j') s)) close_buf = Inr (take n s @ replace_all before after (drop n s))"
    using r(3) by simp
  moreover have "new_buf m = Inr ?b" using m by (simp add: new_buf_def)
  ultimately show ?thesis using k(2) r(1) unfolding string_replace_def j_def [symmetric] Let_def by (simp add: m_def [symmetric])
qed

theorem string_replace_correct_witness:
  "string_replace ''this is a test'' ''is'' ''is not'' 0 = Inr ''this not is not a test''"
proof -
  have b: "border_free ''is''" by code_simp
  have "replace_all ''is'' ''is not'' ''this is a test'' = ''this not is not a test''" by code_simp
  then show ?thesis using string_replace_correct [OF _ _ _ b, of "''this is a test''" "''is not''" 0 0] by simp
qed

text \<open>A text that overlaps itself is counted more often than it is replaced: the result is allocated too small.\<close>

theorem string_replace_overrun: "string_replace ''aaa'' ''aa'' ''b'' 0 = Inl Write_bounds"
  by code_simp


subsection \<open>Removing\<close>

lemma count_loop_total:
  "NUL \<notin> set p \<Longrightarrow> \<exists>k. count_loop s p pos c = Inr (c + k, - 1) \<and> 0 \<le> k \<and>
    (0 \<le> pos \<and> (\<exists>i. pos \<le> i \<and> i < len s \<and> occurs_at p s i) \<longrightarrow> 0 < k)"
proof (induction s p pos c rule: count_loop.induct)
  case (1 s p pos c)
  define q where "q = (if pos < 0 then - 1 else first_from (occurs_at p s) pos (len s))"
  have idx: "string_indexOf s p pos = Inr q" using 1(2) by (simp add: string_indexOf_spec q_def)
  show ?case
  proof (cases "q = - 1")
    case True
    with idx first_from_cases [of pos "occurs_at p s" "len s"] show ?thesis
      by (intro exI [of _ 0]) (auto simp: count_loop.simps [of s p pos] q_def split: if_splits)
  next
    case False
    with 1(1) [OF idx False] 1(2) obtain k where "count_loop s p (q + 1) (c + 1) = Inr (c + 1 + k, - 1)" "0 \<le> k" by blast
    with idx False show ?thesis by (intro exI [of _ "k + 1"]) (simp add: count_loop.simps [of s p pos])
  qed
qed

text \<open>\<open>remove\<close> never removes anything: its second loop starts with the position \<open>-1\<close> that ended the first one. When the
  text occurs, the whole string is copied into the smaller result, which overruns it; only a single occurrence of
  a single character just fits, and then the last character of the string is cut off instead.\<close>

theorem string_remove_overrun:
  assumes nul: "NUL \<notin> set s" "NUL \<notin> set rep" and occ: "rep \<noteq> []" "occurs_at rep s i" "0 \<le> start" "start \<le> i"
  shows "string_remove s rep start = Inl Write_bounds \<or> string_remove s rep start = Inl Bad_alloc \<or>
    length rep = 1 \<and> string_remove s rep start = Inr (butlast s)"
proof -
  have r1: "1 \<le> len rep" using occ(1) by (simp add: Suc_le_eq)
  moreover have "i < len s" using occ(2) r1 by (simp add: occurs_at_def)
  ultimately have rep: "1 \<le> len rep" "i < len s" .
  from count_loop_total [OF nul(2), of s start 0] occ(2-4) rep(2) obtain k where
    k: "count_loop s rep start 0 = Inr (k, - 1)" "1 \<le> k" by fastforce
  define n where "n = len s - len rep * k"
  have loop: "replace_loop s rep [] (- 1) 0 b = Inr (0, b)" for b
    by (simp add: replace_loop.simps [of s rep] string_indexOf_def)
  have eq: "string_remove s rep start = rbind (new_buf (n + 1)) (\<lambda>b. rbind (puts b s) (\<lambda>b2. Inr (c_str (take (nat n) (ob b2)))))"
    by (simp add: string_remove_def k(1) loop Let_def n_def)
  show ?thesis
  proof (cases "len rep * k = 1")
    case True
    with rep k(2) have one: "len rep = 1" "k = 1" by (auto simp: zmult_eq_1_iff)
    then have n: "n = len s - 1" "0 \<le> n" using rep occ(2) by (auto simp: n_def occurs_at_def)
    then have "nat n = length s - 1" by simp
    then have "take (nat n) s = butlast s" by (simp add: butlast_conv_take)
    with n nul(1) one show ?thesis
      by (simp add: eq new_buf_def puts_eq c_str_id in_set_butlastD) (auto dest: in_set_butlastD intro!: c_str_id)
  next
    case False
    have "1 * 1 \<le> len rep * k" using rep(1) k(2) by (intro mult_mono) auto
    with False have "n + 1 < len s" by (simp add: n_def)
    then show ?thesis by (simp add: eq new_buf_def puts_eq)
  qed
qed

theorem string_remove_overrun_witness:
  "string_remove ''abcabc'' ''bc'' 0 = Inl Write_bounds \<or> string_remove ''abcabc'' ''bc'' 0 = Inl Bad_alloc \<or>
   length ''bc'' = 1 \<and> string_remove ''abcabc'' ''bc'' 0 = Inr (butlast ''abcabc'')"
proof (rule string_remove_overrun [where i = 1])
  show "occurs_at ''bc'' ''abcabc'' 1" by code_simp
qed simp_all


subsection \<open>Comparing the ends\<close>

text \<open>What the loop does, on the reversed strings: it also compares the character before the string.\<close>

fun ends_rev :: "char list \<Rightarrow> char list \<Rightarrow> str_fault + bool" where
  "ends_rev xs [] = Inr True"
| "ends_rev [] (y # ys) = Inl Read_bounds"
| "ends_rev (x # xs) (y # ys) = (if x \<noteq> y then Inr False else ends_rev xs ys)"

lemma rd_rev: "k < length s \<Longrightarrow> rd s (len s - (int k + 1)) = Inr (rev s ! k)"
  using rd_inside [of "length s - Suc k" s] by (simp add: rev_nth of_nat_diff algebra_simps)

lemma ends_loop_rev:
  "k \<le> length s \<Longrightarrow> k \<le> length str \<Longrightarrow>
     ends_loop s str (int k + 1) = ends_rev (drop k (rev s)) (drop k (rev str))"
proof (induction "length str - k" arbitrary: k)
  case 0
  then show ?case by (simp add: ends_loop.simps)
next
  case (Suc n)
  then have k: "k < length str" by simp
  have ds: "drop k (rev str) = rev str ! k # drop (Suc k) (rev str)" using k by (simp add: Cons_nth_drop_Suc)
  show ?case
  proof (cases "k < length s")
    case True
    then have "drop k (rev s) = rev s ! k # drop (Suc k) (rev s)" by (simp add: Cons_nth_drop_Suc)
    moreover have "ends_loop s str (int k + 1) =
        (if rev s ! k \<noteq> rev str ! k then Inr False else ends_loop s str (int (Suc k) + 1))"
    proof -
      have i: "int (Suc k) + 1 = int k + 1 + 1" "int k + 1 \<le> len str" using k by simp_all
      show ?thesis unfolding i(1)
        by (subst ends_loop.simps) (simp only: i(2) rd_rev [OF True] rd_rev [OF k] rbind_Inr if_True)
    qed
    moreover have "ends_loop s str (int (Suc k) + 1) = ends_rev (drop (Suc k) (rev s)) (drop (Suc k) (rev str))"
      using Suc(2) True k by (intro Suc(1)) auto
    ultimately show ?thesis by (simp only: ds ends_rev.simps)
  next
    case False
    then have "k = length s" using Suc(3) by simp
    with k have "ends_loop s str (int k + 1) = Inl Read_bounds" by (subst ends_loop.simps) simp
    with \<open>k = length s\<close> ds show ?thesis by simp
  qed
qed

lemma string_endsWith_rev: "string_endsWith s str = ends_rev (rev s) (rev str)"
proof -
  have "ends_loop s str 0 = ends_loop s str (int 0 + 1)" by (simp add: ends_loop.simps [of s str 0])
  with ends_loop_rev [of 0 s str] show ?thesis by (simp add: string_endsWith_def)
qed

lemma ends_rev_cases:
  "length ys \<le> length xs \<Longrightarrow> ends_rev xs ys = Inr (take (length ys) xs = ys)"
  "ys \<noteq> [] \<Longrightarrow> ends_rev xs (xs @ ys) = Inl Read_bounds"
proof (induction xs ys rule: ends_rev.induct)
  case (2 y ys)
  { case 1 then show ?case by simp next case 2 then show ?case by simp }
next
  case (3 x xs y ys)
  { case 1 with "3.IH"(1) show ?case by auto next case 2 show ?case by (induction xs) (use 2 in \<open>auto simp: neq_Nil_conv\<close>) }
next
  case (1 xs)
  { case 1 then show ?case by simp next case 2 then show ?case by simp }
qed

text \<open>When the string is a proper suffix of the text that it should end with, the character before it is read.\<close>

theorem string_endsWith_cases:
  shows "length str \<le> length s \<Longrightarrow> string_endsWith s str = Inr (drop (length s - length str) s = str)"
    and "xs \<noteq> [] \<Longrightarrow> string_endsWith s (xs @ s) = Inl Read_bounds"
proof -
  show "string_endsWith s str = Inr (drop (length s - length str) s = str)" if "length str \<le> length s"
  proof -
    have "rev (drop (length s - length str) s) = take (length str) (rev s)" using that by (simp add: take_rev)
    then have "take (length str) (rev s) = rev str \<longleftrightarrow> drop (length s - length str) s = str" by (metis rev_rev_ident)
    with ends_rev_cases(1) [of "rev str" "rev s"] that show ?thesis by (simp add: string_endsWith_rev)
  qed
  show "string_endsWith s (xs @ s) = Inl Read_bounds" if "xs \<noteq> []"
    using ends_rev_cases(2) [of "rev xs" "rev s"] that by (simp add: string_endsWith_rev)
qed


subsection \<open>Splitting\<close>

text \<open>The reference: the non-empty pieces between the separators. \<open>w\<close> is the piece being read.\<close>

fun pieces :: "(char \<Rightarrow> bool) \<Rightarrow> char list \<Rightarrow> char list \<Rightarrow> char list list" where
  "pieces sep w [] = (if w = [] then [] else [w])"
| "pieces sep w (c # cs) = (if sep c then (if w = [] then [] else [w]) @ pieces sep [] cs else pieces sep (w @ [c]) cs)"

definition joined :: "char \<Rightarrow> char list list \<Rightarrow> char list" where
  "joined c ws = (case ws of [] \<Rightarrow> [] | v # vs \<Rightarrow> v @ concat (map (\<lambda>u. c # u) vs))"

lemma occurs_at_single: "0 \<le> i \<Longrightarrow> i < len s \<Longrightarrow> occurs_at [c] s i \<longleftrightarrow> s ! nat i = c"
proof -
  assume "0 \<le> i" "i < len s"
  then have "nat i < length s" by simp
  then have "drop (nat i) s = s ! nat i # drop (Suc (nat i)) s" by (simp add: Cons_nth_drop_Suc)
  with \<open>0 \<le> i\<close> \<open>i < len s\<close> show ?thesis by (auto simp: occurs_at_def)
qed

lemma split_loop_single:
  assumes "c \<noteq> NUL"
  shows "0 \<le> flag \<Longrightarrow> flag \<le> i \<Longrightarrow> i \<le> len raw \<Longrightarrow>
    rbind (split_loop raw [c] i flag acc) (\<lambda>(flag, acc). Inr (if flag < len raw then acc @ [drop (nat flag) raw] else acc)) =
    Inr (acc @ pieces (\<lambda>x. x = c) (between raw flag i) (drop (nat i) raw))"
proof (induction "nat (len raw - i)" arbitrary: i flag acc)
  case 0
  then have i: "i = len raw" by simp
  then have b: "between raw flag i = drop (nat flag) raw" by (simp add: between_def)
  have "drop (nat flag) raw = [] \<longleftrightarrow> \<not> flag < len raw" using 0 by auto
  then show ?case by (simp add: split_loop.simps [of raw "[c]"] i b [unfolded i])
next
  case (Suc n)
  then have i: "i < len raw" "nat i < length raw" "n = nat (len raw - (i + 1))" by auto
  have d: "drop (nat i) raw = raw ! nat i # drop (nat (i + 1)) raw"
    using i Suc.prems by (simp add: Cons_nth_drop_Suc nat_add_distrib)
  have m: "matches_at raw i [c] = Inr (raw ! nat i = c)"
    using matches_at_spec [of "[c]" i raw] occurs_at_single [of i raw c] i Suc.prems assms by auto
  have bl: "between raw flag i = [] \<longleftrightarrow> \<not> 0 < i - flag"
    using Suc.prems i by (auto simp: between_def)
  have bn: "between raw flag (i + 1) = between raw flag i @ [raw ! nat i]"
    using between_simps(5) [of flag i raw "i + 1"] Suc.prems i d by (simp add: between_def)
  show ?case
  proof (cases "raw ! nat i = c")
    case True
    let ?acc = "if 0 < i - flag then acc @ [between raw flag i] else acc"
    have "split_loop raw [c] i flag acc = split_loop raw [c] (i + 1) (i + 1) ?acc"
      using i(1) m True by (simp add: split_loop.simps [of raw "[c]" i] between_def)
    moreover have "between raw (i + 1) (i + 1) = []" by (simp add: between_def)
    ultimately show ?thesis using Suc(1) [OF i(3), of "i + 1" ?acc] Suc.prems i True bl by (simp add: d)
  next
    case False
    have "split_loop raw [c] i flag acc = split_loop raw [c] (i + 1) flag acc"
      using i(1) m False by (simp add: split_loop.simps [of raw "[c]" i])
    with Suc(1) [OF i(3), of flag acc] Suc.prems i False bn show ?thesis by (simp add: d)
  qed
qed

lemma string_split_single: "c \<noteq> NUL \<Longrightarrow> string_split raw [c] = Inr (pieces (\<lambda>x. x = c) [] raw)"
  using split_loop_single [of c 0 0 raw "[]"] by (simp add: string_split_def between_def)

lemma pieces_word: "(\<And>c. c \<in> set v \<Longrightarrow> \<not> P c) \<Longrightarrow> pieces P w (v @ s) = pieces P (w @ v) s"
  by (induction v arbitrary: w) auto

lemma joined_Cons: "joined c (v # vs) = v @ (if vs = [] then [] else c # joined c vs)"
  by (cases vs) (simp_all add: joined_def)

lemma pieces_joined:
  "\<forall>w\<in>set ws. w \<noteq> [] \<and> c \<notin> set w \<Longrightarrow> pieces (\<lambda>x. x = c) [] (joined c ws) = ws"
proof (induction ws)
  case (Cons v vs)
  have "pieces (\<lambda>x. x = c) [] (v @ s) = pieces (\<lambda>x. x = c) v s" for s
    using Cons.prems pieces_word [of v "\<lambda>x. x = c" "[]" s] by auto
  with Cons show ?case by (simp add: joined_Cons)
qed (simp add: joined_def)

end
