(* ===== verification/Str_Edit.thy ===== *)
theory Str_Edit
  imports Str_Search
begin

text \<open>
  The other static functions of \<^verbatim>\<open>src/arken/string.cpp\<close>: joining, padding, escaping, trimming, case and
  word conversion, slicing and the hash.

  Loops over all characters are folds over the list of characters; loops that advance the index inside their body recurse
  over the rest of the string, whose head is the character at the index, or the terminator when the rest is empty.
\<close>

definition string_append :: "char list \<Rightarrow> char list \<Rightarrow> str_fault + char list" where
  "string_append s ba =
     rbind (new_buf (len s + len ba + 1)) (\<lambda>b. rbind (puts b s) (\<lambda>b1. rbind (puts b1 ba) close_buf))"

text \<open>\<open>str[i] > 32\<close> ends the loop.\<close>

definition string_blank :: "char list \<Rightarrow> bool" where
  "string_blank s = list_all (\<lambda>c. \<not> 32 < schar c) s"

definition string_empty :: "char list \<Rightarrow> bool" where
  "string_empty s = (len s = 0)"

definition string_equals :: "char list \<Rightarrow> char list \<Rightarrow> bool" where
  "string_equals s t = (s = t)"

text \<open>The character at the index.\<close>

definition at_index :: "char list \<Rightarrow> char" where
  "at_index r = (case r of [] \<Rightarrow> NUL | c # _ \<Rightarrow> c)"

definition string_camelCase_special_char :: "char \<Rightarrow> bool" where
  "string_camelCase_special_char c \<longleftrightarrow> c = CHR ''_'' \<or> c = CHR '' ''"

function camel_loop :: "bool \<Rightarrow> char list \<Rightarrow> outbuf \<Rightarrow> str_fault + outbuf" where
  "camel_loop flag r b =
     (if r = [] then Inr b
      else let (flag1, r1) = (if string_camelCase_special_char (at_index r) then (True, tl r) else (flag, r))
           in if at_index r1 = CHR ''/''
              then rbind (put b (CHR ''.'')) (\<lambda>b1.
                   rbind (put b1 (toupper (at_index (tl r1)))) (\<lambda>b2. camel_loop False (tl (tl r1)) b2))
              else rbind (put b (if flag1 then toupper (at_index r1) else at_index r1)) (\<lambda>b1.
                   camel_loop False (tl r1) b1))"
  by pat_completeness auto
termination
  by (relation "measure (\<lambda>(_, r, _). length r)") (auto split: if_splits simp: less_Suc_eq_le neq_Nil_conv)

declare camel_loop.simps [simp del]

text \<open>For an empty string, \<open>lcfirst\<close> lowers a cell that the terminator overwrites right away.\<close>

definition string_camelCase :: "char list \<Rightarrow> bool \<Rightarrow> str_fault + char list" where
  "string_camelCase s lcfirst =
     rbind (new_buf (len s + 1)) (\<lambda>b. rbind (camel_loop True s b) (\<lambda>b1.
       close_buf (if lcfirst then b1\<lparr>ob := (ob b1)[0 := tolower (ob b1 ! 0)]\<rparr> else b1)))"

text \<open>\<open>strncpy\<close> of the whole string, then the first character again.\<close>

definition string_capitalize :: "char list \<Rightarrow> str_fault + char list" where
  "string_capitalize s =
     rbind (new_buf (len s + 1)) (\<lambda>b. rbind (puts b (s @ [NUL])) (\<lambda>b1.
       Inr (c_str ((ob b1)[0 := toupper (at_index s)]))))"


subsection \<open>Padding\<close>

text \<open>The loop that writes \<open>n\<close> characters of the padding, over and over; \<open>j\<close> is the position in the padding.\<close>

fun pad_loop :: "char list \<Rightarrow> nat \<Rightarrow> nat \<Rightarrow> outbuf \<Rightarrow> str_fault + outbuf" where
  "pad_loop pad 0 j b = Inr b"
| "pad_loop pad (Suc n) j b =
     (let j1 = (if length pad \<le> j then 0 else j) in rbind (put b (pad ! j1)) (pad_loop pad n (j1 + 1)))"

definition string_center :: "char list \<Rightarrow> nat \<Rightarrow> char list \<Rightarrow> str_fault + char list" where
  "string_center s sz pad =
     (if sz < length s \<or> length pad = 0 then fill (len s + 1) s
      else let mid_len = (sz - length s) div 2
           in rbind (new_buf (int sz + 1)) (\<lambda>b.
              rbind (pad_loop pad mid_len 0 b) (\<lambda>b1.
              rbind (puts b1 s) (\<lambda>b2.
              rbind (pad_loop pad (sz - (mid_len + length s)) 0 b2) close_buf))))"

definition string_padLeft :: "char list \<Rightarrow> nat \<Rightarrow> char list \<Rightarrow> str_fault + char list" where
  "string_padLeft s sz pad =
     (if sz < length s \<or> length pad = 0 then fill (len s + 1) s
      else rbind (new_buf (int sz + 1)) (\<lambda>b.
           rbind (puts b s) (\<lambda>b1.
           rbind (pad_loop pad (sz - length s) 0 b1) close_buf)))"

definition string_padRight :: "char list \<Rightarrow> nat \<Rightarrow> char list \<Rightarrow> str_fault + char list" where
  "string_padRight s sz pad =
     (if sz < length s \<or> length pad = 0 then fill (len s + 1) s
      else rbind (new_buf (int sz + 1)) (\<lambda>b.
           rbind (pad_loop pad (sz - length s) 0 b) (\<lambda>b1.
           rbind (puts b1 s) close_buf)))"


subsection \<open>Escaping\<close>

definition escape_quoted :: "char \<Rightarrow> bool" where
  "escape_quoted c \<longleftrightarrow> c = CHR 0x22 \<or> c = CHR 0x27 \<or> c = CHR 0x5C"

definition string_escape :: "char list \<Rightarrow> char \<Rightarrow> str_fault + char list" where
  "string_escape s chr =
     (let count = foldl (\<lambda>n c. if escape_quoted c then n + 1 + 1 else n + 1) 0 s
      in rbind (new_buf (count + 1)) (\<lambda>b.
         rbind (fold_res (\<lambda>b c. if escape_quoted c then rbind (put b chr) (\<lambda>b1. put b1 c) else put b c) b s) close_buf))"

definition html_count :: "char \<Rightarrow> int" where
  "html_count c =
     (if c = CHR 0x26 then 5 else if c = CHR 0x22 then 6 else if c = CHR 0x27 then 6
      else if c = CHR 0x3C then 4 else if c = CHR 0x3E then 4 else 1)"

definition html_text :: "char \<Rightarrow> char list" where
  "html_text c =
     (if c = CHR 0x26 then ''&amp;'' else if c = CHR 0x22 then ''&quot;'' else if c = CHR 0x27 then ''&#039;''
      else if c = CHR 0x3C then ''&lt;'' else if c = CHR 0x3E then ''&gt;'' else [c])"

definition string_escapeHtml :: "char list \<Rightarrow> str_fault + char list" where
  "string_escapeHtml s =
     (let count = foldl (\<lambda>n c. n + html_count c) 0 s
      in rbind (new_buf (count + 1)) (\<lambda>b. rbind (fold_res (\<lambda>b c. puts b (html_text c)) b s) close_buf))"

text \<open>\<open>hash = (hash * seed) + (data[i])\<close> on \<open>size_t\<close>, with a signed \<open>char\<close>.\<close>

definition string_hash :: "char list \<Rightarrow> 64 word" where
  "string_hash s = foldl (\<lambda>hash c. hash * 131 + word_of_int (schar c)) 0 s AND 0x7FFFFFFF"


subsection \<open>Slices\<close>

definition string_chop :: "char list \<Rightarrow> str_fault + char list" where
  "string_chop s =
     (if s = [] then Inr []
      else let n = len s - 1
           in rbind (rd s (n - 1)) (\<lambda>c. let m = (if c = CHR 0x0D then n - 1 else n) in fill (m + 1) (take (nat m) s)))"

definition string_insert :: "char list \<Rightarrow> int \<Rightarrow> char list \<Rightarrow> str_fault + char list" where
  "string_insert s n ba =
     (let n1 = (if len s < n then 0 else n)
      in rbind (new_buf (len s + len ba + 1)) (\<lambda>b.
         rbind (puts b (take (nat n1) s)) (\<lambda>b1.
         rbind (puts b1 ba) (\<lambda>b2.
         rbind (puts b2 (drop (nat n1) s)) close_buf))))"

definition string_left :: "char list \<Rightarrow> int \<Rightarrow> str_fault + char list" where
  "string_left s n =
     (let n1 = (if n < 0 then len s + n else n)
      in if n1 < 0 then Inr []
         else let n2 = (if len s < n1 then len s else n1) in fill (n2 + 1) (take (nat n2) s))"

definition string_right :: "char list \<Rightarrow> int \<Rightarrow> str_fault + char list" where
  "string_right s n =
     (let n1 = (if len s < n \<or> n < 0 then len s else n) in fill (n1 + 1) (drop (nat (len s - n1)) s))"

text \<open>The length that \<open>mid\<close> computes; a negative one counts from the end of the string.\<close>

definition mid_length :: "int \<Rightarrow> int \<Rightarrow> int \<Rightarrow> int" where
  "mid_length string_len pos n =
     (let n1 = (if n < 0 then string_len + (n + 1) - pos else n);
          n2 = (if n1 < 0 then 0 else n1);
          n3 = (if string_len < n2 then string_len else n2)
      in if string_len \<le> pos then 0 else n3)"

text \<open>\<open>mid\<close> stores its length through \<open>_len\<close>; the result is the block of that many characters. The early return for
  a negative position leaves \<open>_len\<close> alone: no length.\<close>

definition string_mid :: "char list \<Rightarrow> int \<Rightarrow> int \<Rightarrow> str_fault + char list \<times> int option" where
  "string_mid s pos n =
     (if pos < 0 then Inr ([], None)
      else let m = mid_length (len s) pos n
           in rbind (new_buf (m + 1)) (\<lambda>b.
              rbind (fold_res (\<lambda>b i. rbind (rd s (pos + i)) (put b)) b [0..m - 1]) (\<lambda>b1.
              rbind (put b1 NUL) (\<lambda>_. Inr (ob b1, Some m)))))"


subsection \<open>Single characters\<close>

definition string_normalize_special_char :: "char \<Rightarrow> bool" where
  "string_normalize_special_char c \<longleftrightarrow> c = CHR ''['' \<or> c = CHR '']''"

fun normalize_loop :: "bool \<Rightarrow> char list \<Rightarrow> outbuf \<Rightarrow> str_fault + outbuf" where
  "normalize_loop flag [] b = Inr b"
| "normalize_loop flag (c # cs) b =
     (if string_normalize_special_char c
      then if flag then rbind (put b (CHR ''_'')) (normalize_loop False cs) else normalize_loop flag cs b
      else rbind (put b c) (normalize_loop True cs))"

text \<open>The test of \<open>result[j-1]\<close> reads before the result when nothing was stored.\<close>

definition string_normalize :: "char list \<Rightarrow> str_fault + char list" where
  "string_normalize s =
     rbind (new_buf (len s + 1)) (\<lambda>b. rbind (normalize_loop True s b) (\<lambda>b1.
       if ob b1 = [] then Inl Read_bounds
       else if last (ob b1) = CHR ''_'' then Inr (c_str (butlast (ob b1))) else close_buf b1))"

text \<open>The start position of \<open>removeChar\<close> and \<open>replaceChar\<close>.\<close>

definition char_start :: "char list \<Rightarrow> int \<Rightarrow> int" where
  "char_start s start = (let st = (if start < 0 then len s + start else start) in if len s < st then len s else st)"

definition string_removeChar :: "char list \<Rightarrow> char \<Rightarrow> int \<Rightarrow> str_fault + char list" where
  "string_removeChar s rep start =
     (let st = char_start s start
      in rbind (new_buf (len s + 1)) (\<lambda>b.
         if st < 0 then Inl Read_bounds
         else rbind (puts b (take (nat st) s)) (\<lambda>b1.
              rbind (fold_res (\<lambda>b c. if c \<noteq> rep then put b c else Inr b) b1 (drop (nat st) s)) close_buf)))"

definition string_replaceChar :: "char list \<Rightarrow> char \<Rightarrow> char \<Rightarrow> int \<Rightarrow> str_fault + char list" where
  "string_replaceChar s before after start =
     (let st = char_start s start
      in rbind (new_buf (len s + 1)) (\<lambda>b.
         if st < 0 then Inl Read_bounds
         else rbind (puts b (take (nat st) s)) (\<lambda>b1.
              rbind (fold_res (\<lambda>b c. if c = before then if after \<noteq> NUL then put b after else Inr b else put b c)
                b1 (drop (nat st) s)) close_buf)))"

text \<open>The loop of \<open>repeated\<close> copies whole strings. An empty string has no loop: its result is empty.\<close>

function repeat_loop :: "char list \<Rightarrow> int \<Rightarrow> outbuf \<Rightarrow> str_fault + outbuf" where
  "repeat_loop s result_len b =
     (if s \<noteq> [] \<and> len (ob b) < result_len then rbind (puts b s) (repeat_loop s result_len) else Inr b)"
  by pat_completeness auto

lemma puts_ob: "puts b cs = Inr b' \<Longrightarrow> ob b' = ob b @ cs"
  by (induction cs arbitrary: b) (auto simp: put_def rbind_eq_Inr split: if_splits)

termination repeat_loop
  by (relation "measure (\<lambda>(s, n, b). nat (n - len (ob b)))") (auto dest!: puts_ob)

declare repeat_loop.simps [simp del]

definition string_repeated :: "char list \<Rightarrow> int \<Rightarrow> str_fault + char list" where
  "string_repeated s n =
     (let result_len = len s * n
      in if result_len < - 2147483648 \<or> 2147483647 \<le> result_len then Inl Int_overflow
         else rbind (new_buf (result_len + 1)) (\<lambda>b. rbind (repeat_loop s result_len b) close_buf))"


subsection \<open>Trimming\<close>

text \<open>The two loops that skip characters at both ends, for a class of characters.\<close>

definition skip_left :: "(char \<Rightarrow> bool) \<Rightarrow> char list \<Rightarrow> int" where
  "skip_left special s = len (takeWhile special s)"

definition skip_right :: "(char \<Rightarrow> bool) \<Rightarrow> char list \<Rightarrow> int" where
  "skip_right special s = len s - len (takeWhile special (rev s))"

definition string_trim :: "char list \<Rightarrow> str_fault + char list" where
  "string_trim s =
     (let i = skip_left blank_char s; n = skip_right blank_char s
      in if n - i \<le> 0 then Inr [] else fill (n - i + 1) (between s i n))"

text \<open>\<open>trimLeft\<close> also copies the terminator.\<close>

definition string_trimLeft :: "char list \<Rightarrow> str_fault + char list" where
  "string_trimLeft s =
     (let i = skip_left blank_char s
      in if len s - i \<le> 0 then Inr [] else fill (len s - i + 2) (drop (nat i) s @ [NUL]))"

definition string_trimRight :: "char list \<Rightarrow> str_fault + char list" where
  "string_trimRight s =
     (let n = skip_right blank_char s
      in if n \<le> 0 then Inr [] else fill (n + 2) (take (nat n) s))"

fun squish_loop :: "bool \<Rightarrow> char list \<Rightarrow> outbuf \<Rightarrow> str_fault + outbuf" where
  "squish_loop f [] b = Inr b"
| "squish_loop f (c # cs) b =
     (if blank_char c
      then if f then squish_loop f cs b else rbind (put b (CHR '' '')) (squish_loop True cs)
      else rbind (put b c) (squish_loop False cs))"

definition string_squish :: "char list \<Rightarrow> str_fault + char list" where
  "string_squish s =
     (let i = skip_left blank_char s; n = skip_right blank_char s
      in if n - i \<le> 0 then Inr []
         else rbind (new_buf (n + 1)) (\<lambda>b. rbind (squish_loop False (between s i n) b) close_buf))"

definition parameterize_special_char :: "char \<Rightarrow> bool" where
  "parameterize_special_char c \<longleftrightarrow>
     \<not> (48 \<le> schar c \<and> schar c \<le> 57 \<or> 65 \<le> schar c \<and> schar c \<le> 90 \<or> 97 \<le> schar c \<and> schar c \<le> 122)"

fun parameterize_loop :: "bool \<Rightarrow> char list \<Rightarrow> outbuf \<Rightarrow> str_fault + outbuf" where
  "parameterize_loop f [] b = Inr b"
| "parameterize_loop f (c # cs) b =
     (if parameterize_special_char c
      then if f then parameterize_loop f cs b else rbind (put b (CHR ''-'')) (parameterize_loop True cs)
      else rbind (put b (tolower c)) (parameterize_loop False cs))"

text \<open>The loop runs up to and including position \<open>len\<close>; the test behind it reads the argument at the length of the
  result.\<close>

definition string_parameterize :: "char list \<Rightarrow> str_fault + char list" where
  "string_parameterize s =
     (let i = skip_left parameterize_special_char s; n = skip_right parameterize_special_char s
      in if n - i \<le> 0 then Inr []
         else rbind (new_buf (n + 1)) (\<lambda>b. rbind (rd s n) (\<lambda>e.
              rbind (parameterize_loop False (between s i n @ [e]) b) (\<lambda>b1.
              rbind (rd s (len (ob b1))) (\<lambda>c.
                if parameterize_special_char c then Inr (c_str (butlast (ob b1))) else close_buf b1)))))"

text \<open>The search for the separator, from the cut backwards.\<close>

function separator_loop :: "char list \<Rightarrow> char \<Rightarrow> int \<Rightarrow> str_fault + int" where
  "separator_loop s separator i =
     (if 0 < i then rbind (rd s i) (\<lambda>c. if c = separator then Inr i else separator_loop s separator (i - 1)) else Inr i)"
  by pat_completeness auto
termination
  by (relation "measure (\<lambda>(_, _, i). nat i)") auto

declare separator_loop.simps [simp del]

text \<open>\<open>omission\<close> may be the null pointer.\<close>

definition string_truncate :: "char list \<Rightarrow> int \<Rightarrow> char list option \<Rightarrow> char \<Rightarrow> str_fault + char list" where
  "string_truncate s pos omission separator =
     (if len s < pos then fill (len s + 1) s
      else let om = (case omission of None \<Rightarrow> [] | Some om \<Rightarrow> om); cut = pos - len om
           in rbind (if separator \<noteq> NUL then separator_loop s separator cut else Inr 0) (\<lambda>i.
              let p = (if 0 < i then i else cut)
              in rbind (new_buf (p + len om + 1)) (\<lambda>b.
                 rbind (puts b (take (nat p) s)) (\<lambda>b1. rbind (puts b1 om) close_buf))))"


subsection \<open>Words\<close>

text \<open>\<open>dasherize\<close> and \<open>underscore\<close> differ in the separator and in the characters that they treat as separators.\<close>

definition arken_string_dasherize_special_char :: "char \<Rightarrow> bool" where
  "arken_string_dasherize_special_char c \<longleftrightarrow> c \<in> {CHR ''/'', CHR ''_'', CHR ''.'', CHR '' '', CHR ''-''}"

definition arken_string_underscore_special_char :: "char \<Rightarrow> bool" where
  "arken_string_underscore_special_char c \<longleftrightarrow> c \<in> {CHR ''/'', CHR ''_'', CHR ''.'', CHR '' ''}"

fun words_len :: "(char \<Rightarrow> bool) \<Rightarrow> bool \<Rightarrow> bool \<Rightarrow> char list \<Rightarrow> int \<Rightarrow> int" where
  "words_len special flag1 flag2 [] j = j"
| "words_len special flag1 flag2 (c # cs) j =
     (if isupper c then words_len special flag1 False cs (j + (if flag1 then 0 else 1) + 1)
      else if special c
      then if flag2 then words_len special flag1 flag2 cs j else words_len special True True cs (j + 1)
      else words_len special False False cs (j + 1))"

fun words_loop :: "(char \<Rightarrow> bool) \<Rightarrow> char \<Rightarrow> bool \<Rightarrow> bool \<Rightarrow> char list \<Rightarrow> outbuf \<Rightarrow> str_fault + outbuf" where
  "words_loop special sep flag1 flag2 [] b = Inr b"
| "words_loop special sep flag1 flag2 (c # cs) b =
     (if isupper c
      then rbind (if flag1 then Inr b else put b sep) (\<lambda>b1.
           rbind (put b1 (tolower c)) (words_loop special sep flag1 False cs))
      else if special c
      then if flag2 then words_loop special sep flag1 flag2 cs b else rbind (put b sep) (words_loop special sep True True cs)
      else rbind (put b c) (words_loop special sep False False cs))"

text \<open>The tests behind both loops read the last character of the string.\<close>

definition words_size :: "(char \<Rightarrow> bool) \<Rightarrow> char list \<Rightarrow> str_fault + int" where
  "words_size special s =
     rbind (rd s (len s - 1)) (\<lambda>c.
       let j = words_len special True True s 0 in Inr ((if special c then j - 1 else j) + 1))"

definition words_text :: "(char \<Rightarrow> bool) \<Rightarrow> char \<Rightarrow> char list \<Rightarrow> str_fault + char list" where
  "words_text special sep s =
     rbind (words_size special s) (\<lambda>n.
     rbind (new_buf (n + 1)) (\<lambda>b.
     rbind (words_loop special sep True True s b) (\<lambda>b1.
     rbind (rd s (len s - 1)) (\<lambda>c.
       if special c then if ob b1 = [] then Inl Write_bounds else Inr (c_str (butlast (ob b1)))
       else close_buf b1))))"

definition string_dasherize :: "char list \<Rightarrow> str_fault + char list" where
  "string_dasherize s = words_text arken_string_dasherize_special_char (CHR ''-'') s"

definition string_underscore :: "char list \<Rightarrow> str_fault + char list" where
  "string_underscore s = words_text arken_string_underscore_special_char (CHR ''_'') s"


subsection \<open>Joining and slicing\<close>

lemma mid_loop_eq:
  "0 \<le> pos + k \<Longrightarrow> pos + m \<le> len s \<Longrightarrow>
     fold_res (\<lambda>b i. rbind (rd s (pos + i)) (put b)) b [k..m - 1] = puts b (between s (pos + k) (pos + m))"
proof (induction "nat (m - k)" arbitrary: k b)
  case 0
  then show ?case by (simp add: between_def)
next
  case (Suc n)
  then have k: "n = nat (m - (k + 1))" "k < m" "nat (pos + k) < length s" by auto
  have u: "[k..m - 1] = k # [k + 1..m - 1]" using k(2) by (simp add: upto_rec1)
  have "rd s (pos + k) = Inr (s ! nat (pos + k))" using k(3) Suc.prems(1) rd_inside [of "nat (pos + k)" s] by simp
  moreover have "between s (pos + k) (pos + m) = s ! nat (pos + k) # between s (pos + (k + 1)) (pos + m)"
  proof -
    have "nat (pos + (k + 1)) = Suc (nat (pos + k))" "nat (m - k) = Suc (nat (m - (k + 1)))" using Suc.prems k by auto
    then show ?thesis using k(3) by (simp add: between_def take_Suc_nth_drop)
  qed
  ultimately show ?case using Suc(1) [OF k(1)] Suc.prems unfolding u by (simp add: algebra_simps cong: rbind_cong)
qed

lemma string_mid_inside:
  assumes "0 \<le> pos" "0 \<le> n" "pos + n \<le> len s" "pos < len s"
  shows "string_mid s pos n = Inr (take (nat n) (drop (nat pos) s), Some n)"
proof -
  have "mid_length (len s) pos n = n" using assms by (simp add: mid_length_def)
  moreover have "len (between s pos (pos + n)) = n" using between_simps(2) [of pos "pos + n" s] assms by simp
  ultimately show ?thesis
    using assms mid_loop_eq [of pos 0 n s]
    by (simp add: string_mid_def new_buf_def puts_eq put_eq) (simp add: between_def)
qed

text \<open>Concatenation, insertion and the slices at both ends give the lists they name, for every position and length,
  negative and too large ones included, and \<open>mid\<close> the part of the string inside it, within the memory they allocate.\<close>

theorem string_slices_correct:
  assumes "NUL \<notin> set s" "NUL \<notin> set t"
  shows "string_append s t = Inr (s @ t) \<and>
    string_insert s n t = Inr (if len s < n then t @ s else take (nat n) s @ t @ drop (nat n) s) \<and>
    string_left s n = Inr (take (nat (if n < 0 then len s + n else n)) s) \<and>
    string_right s n = Inr (if n < 0 then s else drop (length s - nat n) s) \<and>
    (0 \<le> pos \<and> 0 \<le> n \<and> pos < len s \<and> pos + n \<le> len s \<longrightarrow>
      string_mid s pos n = Inr (take (nat n) (drop (nat pos) s), Some n))"
proof -
  have sub: "NUL \<notin> set (take k s)" "NUL \<notin> set (drop k s)" for k
    using assms(1) by (auto dest: in_set_takeD in_set_dropD)
  have "string_append s t = Inr (s @ t)"
    using assms by (simp add: string_append_def new_buf_def puts_eq close_buf_eq c_str_id)
  moreover have "string_insert s n t = Inr (if len s < n then t @ s else take (nat n) s @ t @ drop (nat n) s)"
    using assms sub by (auto simp: string_insert_def new_buf_def puts_eq close_buf_eq c_str_id Let_def)
  moreover have "string_left s n = Inr (take (nat (if n < 0 then len s + n else n)) s)"
    using assms sub by (auto simp: string_left_def fill_def fill_new Let_def)
  moreover have "string_right s n = Inr (if n < 0 then s else drop (length s - nat n) s)"
    using assms sub by (auto simp: string_right_def fill_def fill_new Let_def nat_diff_distrib')
  ultimately show ?thesis using string_mid_inside [of pos n s] by blast
qed

theorem string_slices_correct_witness:
  "string_insert ''abc'' 2 ''xy'' = Inr ''abxyc'' \<and> string_left ''abc'' (- 1) = Inr ''ab'' \<and> string_right ''abc'' 2 = Inr ''bc'' \<and>
   string_mid ''abc'' 1 2 = Inr (''bc'', Some 2)"
  using string_slices_correct [of "''abc''" "''xy''" 2 1] string_slices_correct [of "''abc''" "''xy''" "- 1" 1] by simp


subsection \<open>Padding\<close>

definition cyclic :: "char list \<Rightarrow> nat \<Rightarrow> char list" where
  "cyclic pad n = map (\<lambda>i. pad ! (i mod length pad)) [0..<n]"

lemma pad_loop_eq:
  "pad \<noteq> [] \<Longrightarrow> j \<le> length pad \<Longrightarrow> j mod length pad = k mod length pad \<Longrightarrow>
     pad_loop pad n j b = puts b (map (\<lambda>i. pad ! (i mod length pad)) [k..<k + n])"
proof (induction n arbitrary: j k b)
  case (Suc n)
  define j1 where "j1 = (if length pad \<le> j then 0 else j)"
  have j1: "j1 < length pad" "j1 = k mod length pad"
    using Suc.prems by (auto simp: j1_def le_antisym)
  have u: "[k..<k + Suc n] = k # [Suc k..<Suc k + n]" by (simp add: upt_rec)
  have e: "pad_loop pad n (j1 + 1) = (\<lambda>b'. puts b' (map (\<lambda>i. pad ! (i mod length pad)) [Suc k..<Suc k + n]))"
    using j1 by (intro ext Suc.IH Suc.prems(1)) (auto simp: mod_Suc_eq)
  show ?case
    unfolding u list.map fold_res.simps pad_loop.simps j1_def [symmetric] Let_def e using j1(2) by simp
qed simp

lemma pad_loop_cyclic: "pad \<noteq> [] \<Longrightarrow> pad_loop pad n 0 b = puts b (cyclic pad n)"
  using pad_loop_eq [of pad 0 0 n b] by (simp add: cyclic_def)

lemma cyclic_simps [simp]: "length (cyclic pad n) = n" "pad \<noteq> [] \<Longrightarrow> NUL \<notin> set pad \<Longrightarrow> NUL \<notin> set (cyclic pad n)"
proof -
  show "NUL \<notin> set (cyclic pad n)" if "pad \<noteq> []" "NUL \<notin> set pad"
  proof
    assume "NUL \<in> set (cyclic pad n)"
    then obtain i where "pad ! (i mod length pad) = NUL" by (auto simp: cyclic_def)
    moreover have "i mod length pad < length pad" using that by simp
    ultimately show False using that(2) by (metis nth_mem)
  qed
qed (simp add: cyclic_def)

text \<open>The padding functions: the result has the requested width, the string at the left, at the right or in the middle with
  the smaller half before it, and the padding repeated from its start on each side. A string that is too long and an
  empty padding leave the string as it is.\<close>

theorem string_padding_correct:
  assumes "NUL \<notin> set s" "NUL \<notin> set pad"
  shows "string_padLeft s n pad = Inr (if n < length s \<or> pad = [] then s else s @ cyclic pad (n - length s)) \<and>
    string_padRight s n pad = Inr (if n < length s \<or> pad = [] then s else cyclic pad (n - length s) @ s) \<and>
    string_center s n pad = Inr (if n < length s \<or> pad = [] then s
      else cyclic pad ((n - length s) div 2) @ s @ cyclic pad (n - length s - (n - length s) div 2))"
proof (cases "n < length s \<or> pad = []")
  case True
  then show ?thesis
    using fill_new [of s "len s + 1"] assms
    by (auto simp: string_padLeft_def string_padRight_def string_center_def fill_def)
next
  case False
  then have pad: "pad \<noteq> []" and le: "length s \<le> n" by auto
  have half: "(n - length s) div 2 \<le> n - length s" by simp
  have eq: "n - ((n - length s) div 2 + length s) = n - length s - (n - length s) div 2" by simp
  show ?thesis
    using False le half assms pad
    by (simp add: string_padLeft_def string_padRight_def string_center_def pad_loop_cyclic puts_append eq
        rbind_assoc [symmetric] new_buf_def puts_eq close_buf_eq c_str_id Let_def)
qed

theorem string_padding_correct_witness:
  "string_center ''ab'' 7 ''+-'' = Inr ''+-ab+-+'' \<and> string_padLeft ''ab'' 5 ''*'' = Inr ''ab***''"
proof -
  have "cyclic ''+-'' 2 = ''+-''" "cyclic ''+-'' 3 = ''+-+''" "cyclic ''*'' 3 = ''***''" by code_simp+
  then show ?thesis
    using string_padding_correct [of "''ab''" "''+-''" 7] string_padding_correct [of "''ab''" "''*''" 5] by simp
qed


subsection \<open>Escaping\<close>

lemma fold_puts: "fold_res (\<lambda>b c. puts b (f c)) b s = puts b (concat (map f s))"
  by (induction s arbitrary: b) (simp_all add: fold_res_append)

lemma string_escape_eq:
  assumes "NUL \<notin> set s" "chr \<noteq> NUL"
  shows "string_escape s chr = Inr (concat (map (\<lambda>c. if escape_quoted c then [chr, c] else [c]) s))"
proof -
  let ?f = "\<lambda>c. if escape_quoted c then [chr, c] else [c]"
  have "foldl (\<lambda>n c. if escape_quoted c then n + 1 + 1 else n + 1) k s = k + len (concat (map ?f s))" for k :: int
    by (induction s arbitrary: k) auto
  moreover have "fold_res (\<lambda>b c. if escape_quoted c then rbind (put b chr) (\<lambda>b1. put b1 c) else put b c) b s =
      puts b (concat (map ?f s))" for b
    unfolding fold_puts [symmetric] by (intro fold_res_cong refl) (simp add: rbind_def split: sum.splits)
  moreover have "NUL \<notin> set (concat (map ?f s))" using assms by (auto split: if_splits)
  ultimately show ?thesis
    using fill_new [of "concat (map ?f s)" "len (concat (map ?f s)) + 1"] by (simp add: string_escape_def)
qed

text \<open>The reference for HTML: reading the entities.\<close>

definition entities :: "(char list \<times> char) list" where
  "entities = [(''&amp;'', CHR 0x26), (''&quot;'', CHR 0x22), (''&#039;'', CHR 0x27), (''&lt;'', CHR 0x3C), (''&gt;'', CHR 0x3E)]"

definition entity_at :: "char list \<Rightarrow> (char list \<times> char) option" where
  "entity_at s = find (\<lambda>(e, _). take (length e) s = e) entities"

lemma entity_at_length: "entity_at s = Some (e, c) \<Longrightarrow> 0 < length e"
  by (auto simp: entity_at_def entities_def split: if_splits)

function html_unescape :: "char list \<Rightarrow> char list option" where
  "html_unescape s =
     (case s of
        [] \<Rightarrow> Some []
      | c # cs \<Rightarrow>
          if c \<noteq> CHR 0x26 then map_option ((#) c) (html_unescape cs)
          else (case entity_at s of
              None \<Rightarrow> None
            | Some (e, d) \<Rightarrow> map_option ((#) d) (html_unescape (drop (length e) s))))"
  by pat_completeness auto
termination
  by (relation "measure length") (auto dest!: entity_at_length)

declare html_unescape.simps [simp del]

lemma html_unescape_text: "html_unescape (html_text c @ r) = map_option ((#) c) (html_unescape r)"
  by (subst html_unescape.simps) (auto simp: html_text_def entity_at_def entities_def)

interpretation html: codec "\<lambda>_. True" "\<lambda>s. concat (map html_text s)" html_unescape
proof
  show "html_unescape (concat (map html_text s)) = Some s" for s
    by (induction s) (simp add: html_unescape.simps, simp add: html_unescape_text)
qed

text \<open>\<open>escapeHtml\<close> sizes its result exactly, and replaces each special character by its entity: reading the entities
  gives the string back, and no quote or angle bracket is left in the result.\<close>

theorem string_escapeHtml_correct:
  assumes "NUL \<notin> set s"
  shows "\<exists>t. string_escapeHtml s = Inr t \<and> html_unescape t = Some s \<and>
    (\<forall>c\<in>{CHR 0x22, CHR 0x27, CHR 0x3C, CHR 0x3E}. c \<notin> set t)"
proof (intro exI conjI)
  let ?t = "concat (map html_text s)"
  have "foldl (\<lambda>n c. n + html_count c) k s = k + len ?t" for k
    by (induction s arbitrary: k) (auto simp: html_count_def html_text_def)
  moreover have "NUL \<notin> set ?t" using assms by (auto simp: html_text_def split: if_splits)
  ultimately show "string_escapeHtml s = Inr ?t"
    using fill_new [of ?t "len ?t + 1"] by (simp add: string_escapeHtml_def fold_puts)
  show "html_unescape ?t = Some s" by (rule html.dec_enc) simp
  show "\<forall>c\<in>{CHR 0x22, CHR 0x27, CHR 0x3C, CHR 0x3E}. c \<notin> set ?t" by (auto simp: html_text_def)
qed

theorem string_escapeHtml_correct_witness:
  "\<exists>t. string_escapeHtml ''<a href='x'>&</a>'' = Inr t \<and> html_unescape t = Some ''<a href='x'>&</a>'' \<and>
    (\<forall>c\<in>{CHR 0x22, CHR 0x27, CHR 0x3C, CHR 0x3E}. c \<notin> set t)"
  by (rule string_escapeHtml_correct) simp


subsection \<open>Trimming\<close>

definition trim_left :: "char list \<Rightarrow> char list" where
  "trim_left s = dropWhile blank_char s"

definition trim_right :: "char list \<Rightarrow> char list" where
  "trim_right s = rev (dropWhile blank_char (rev s))"

lemma trim_right_take: "trim_right s = take (nat (skip_right blank_char s)) s"
proof -
  have "dropWhile blank_char (rev s) = drop (length (takeWhile blank_char (rev s))) (rev s)" by (rule dropWhile_eq_drop)
  moreover have "nat (skip_right blank_char s) = length s - length (takeWhile blank_char (rev s))"
    by (simp add: skip_right_def nat_diff_distrib')
  ultimately show ?thesis by (simp add: trim_right_def rev_drop)
qed

lemma trim_left_drop: "trim_left s = drop (nat (skip_left blank_char s)) s"
  by (simp add: trim_left_def skip_left_def dropWhile_eq_drop)

text \<open>The ends do not meet when there is something to keep.\<close>

lemma skip_order:
  assumes "\<exists>c\<in>set s. \<not> special c"
  shows "0 \<le> skip_left special s" "skip_left special s < skip_right special s" "skip_right special s \<le> len s"
proof -
  from assms obtain i where i: "i < length s" "\<not> special (s ! i)" by (auto simp: in_set_conv_nth)
  have "length (takeWhile special s) \<le> i" using i by (rule takeWhile_length_le)
  moreover have "length (takeWhile special (rev s)) \<le> length s - Suc i"
    using i by (intro takeWhile_length_le) (auto simp: rev_nth)
  ultimately show "0 \<le> skip_left special s" "skip_left special s < skip_right special s" "skip_right special s \<le> len s"
    using i by (auto simp: skip_left_def skip_right_def)
qed

lemma skip_none:
  assumes "\<forall>c\<in>set s. special c"
  shows "skip_left special s = len s" "skip_right special s = 0"
  using assms by (simp_all add: skip_left_def skip_right_def takeWhile_eq_all_conv [THEN iffD2])

fun squeeze :: "bool \<Rightarrow> char list \<Rightarrow> char list" where
  "squeeze f [] = []"
| "squeeze f (c # cs) =
     (if blank_char c then if f then squeeze f cs else CHR '' '' # squeeze True cs else c # squeeze False cs)"

lemma squish_loop_squeeze: "squish_loop f cs b = puts b (squeeze f cs)"
  by (induction f cs b rule: squish_loop.induct) (auto intro!: rbind_cong)

lemma squeeze_bounds: "length (squeeze f cs) \<le> length cs" "NUL \<notin> set cs \<Longrightarrow> NUL \<notin> set (squeeze f cs)"
  by (induction f cs rule: squeeze.induct) auto

lemma pieces_nonempty: "w \<noteq> [] \<or> (\<exists>c\<in>set cs. \<not> P c) \<Longrightarrow> pieces P w cs \<noteq> []"
  by (induction P w cs rule: pieces.induct) auto

text \<open>Where no blank ends the text, the loop writes the words with one blank between them.\<close>

lemma squeeze_joined:
  "(cs \<noteq> [] \<longrightarrow> \<not> blank_char (last cs)) \<Longrightarrow>
    (w \<noteq> [] \<longrightarrow> w @ squeeze False cs = joined (CHR '' '') (pieces blank_char w cs)) \<and>
    squeeze True cs = joined (CHR '' '') (pieces blank_char [] cs)"
proof (induction cs arbitrary: w)
  case (Cons c cs)
  have IH: "v \<noteq> [] \<Longrightarrow> v @ squeeze False cs = joined (CHR '' '') (pieces blank_char v cs)"
    "squeeze True cs = joined (CHR '' '') (pieces blank_char [] cs)" for v
    using Cons.IH Cons.prems by (auto split: if_splits)
  have "pieces blank_char [] cs \<noteq> []" if "blank_char c"
    using Cons.prems that by (intro pieces_nonempty) (auto intro!: bexI [of _ "last cs"] split: if_splits)
  with IH(1) [of "w @ [c]"] IH(1) [of "[c]"] IH(2) show ?case by (auto simp: joined_Cons)
qed (simp add: joined_def)

lemma pieces_trim:
  "pieces P [] (dropWhile P s) = pieces P [] s"
  "\<forall>c\<in>set bs. P c \<Longrightarrow> pieces P w (s @ bs) = pieces P w s"
proof -
  show "pieces P [] (dropWhile P s) = pieces P [] s" by (induction s) auto
  assume bs: "\<forall>c\<in>set bs. P c"
  then have "pieces P w bs = pieces P w []" for w
    by (induction bs arbitrary: w) auto
  then show "pieces P w (s @ bs) = pieces P w s" by (induction P w s rule: pieces.induct) auto
qed

lemma trim_right_rest: "\<exists>bs. s = trim_right s @ bs \<and> (\<forall>c\<in>set bs. blank_char c)"
proof (intro exI conjI)
  have "rev s = takeWhile blank_char (rev s) @ dropWhile blank_char (rev s)" by simp
  then show "s = trim_right s @ rev (takeWhile blank_char (rev s))"
    unfolding trim_right_def by (metis rev_append rev_rev_ident)
qed (auto dest: set_takeWhileD)

lemma between_trim: "between s (skip_left blank_char s) (skip_right blank_char s) = trim_left (trim_right s)"
proof (cases "\<exists>c\<in>set s. \<not> blank_char c")
  case True
  obtain bs where bs: "s = trim_right s @ bs" "\<forall>c\<in>set bs. blank_char c" using trim_right_rest by blast
  with True have "\<exists>c\<in>set (trim_right s). \<not> blank_char c" by (metis Un_iff set_append)
  then have "skip_left blank_char s = skip_left blank_char (trim_right s)"
    unfolding skip_left_def by (subst bs(1)) (auto simp: takeWhile_append1)
  then show ?thesis
    using skip_order [OF True] unfolding trim_left_drop
    by (simp add: trim_right_take between_def drop_take nat_diff_distrib')
next
  case False
  then have "trim_right s = []" by (auto simp: trim_right_def)
  with False skip_none [of s blank_char] show ?thesis by (auto simp: between_def trim_left_def)
qed

lemma trim_ends:
  "t = trim_left (trim_right s) \<Longrightarrow> t \<noteq> [] \<Longrightarrow> \<not> blank_char (hd t) \<and> \<not> blank_char (last t)"
proof
  assume t: "t = trim_left (trim_right s)" "t \<noteq> []"
  then show "\<not> blank_char (hd t)" unfolding trim_left_def by (metis hd_dropWhile)
  have r: "trim_right s \<noteq> []" using t by (auto simp: trim_left_def)
  have "last t = last (trim_right s)"
    using t r by (metis last_appendR takeWhile_dropWhile_id trim_left_def)
  also have "\<dots> = hd (dropWhile blank_char (rev s))" using r by (simp add: trim_right_def last_rev)
  finally show "\<not> blank_char (last t)" using r by (metis hd_dropWhile trim_right_def rev.simps(1))
qed

lemma pieces_trimmed: "pieces blank_char [] (trim_left (trim_right s)) = pieces blank_char [] s"
  using trim_right_rest [of s] unfolding trim_left_def pieces_trim(1) by (metis pieces_trim(2))

text \<open>C28: The trimming functions drop exactly the characters up to the space at the ends, and \<open>squish\<close> gives the words of
  the string with one space between two of them, for every string; all stay inside their allocations.\<close>

theorem string_trim_correct:
  assumes "NUL \<notin> set s"
  shows "string_trim s = Inr (trim_left (trim_right s)) \<and> string_trimLeft s = Inr (trim_left s) \<and>
    string_trimRight s = Inr (trim_right s) \<and> string_squish s = Inr (joined (CHR '' '') (pieces blank_char [] s))"
proof (cases "\<exists>c\<in>set s. \<not> blank_char c")
  case True
  define i n t where "i = skip_left blank_char s" and "n = skip_right blank_char s" and "t = trim_left (trim_right s)"
  note order = skip_order [OF True, folded i_def n_def]
  have b: "between s i n = t" by (simp only: i_def n_def t_def between_trim)
  have len_t: "len t = n - i" using b order by (auto simp: between_def)
  have nul: "NUL \<notin> set t" "NUL \<notin> set (take k s)" "NUL \<notin> set (drop k s)" for k
    using assms b by (auto simp: between_def dest!: in_set_takeD in_set_dropD)
  have "string_trim s = Inr t"
    using order b len_t nul by (simp add: string_trim_def i_def [symmetric] n_def [symmetric] fill_def fill_new)
  moreover have "string_trimLeft s = Inr (trim_left s)"
    using order nul
    by (simp add: string_trimLeft_def trim_left_drop i_def [symmetric] fill_def new_buf_def puts_eq close_buf_eq c_str_append)
  moreover have "string_trimRight s = Inr (trim_right s)"
    using order nul by (simp add: string_trimRight_def trim_right_take n_def [symmetric] fill_def fill_new)
  moreover have "squeeze False t = joined (CHR '' '') (pieces blank_char [] s)"
  proof -
    from len_t order obtain c cs where t: "t = c # cs" by (cases t) auto
    with trim_ends [OF t_def] squeeze_joined [of cs "[c]"] pieces_trimmed [of s, folded t_def]
    show ?thesis by (auto split: if_splits)
  qed
  then have "string_squish s = Inr (joined (CHR '' '') (pieces blank_char [] s))"
    using order b len_t squeeze_bounds [where f = False and cs = t] nul fill_new [of "squeeze False t" "n + 1"]
    by (simp add: string_squish_def i_def [symmetric] n_def [symmetric] squish_loop_squeeze)
  ultimately show ?thesis by (simp add: t_def)
next
  case False
  then have "trim_right s = []" "trim_left s = []" "pieces blank_char [] s = []"
    using pieces_trim(2) [of s blank_char "[]" "[]"] by (auto simp: trim_right_def trim_left_def)
  moreover have "trim_left [] = []" by (simp add: trim_left_def)
  ultimately show ?thesis
    using False skip_none [of s blank_char]
    by (simp add: string_trim_def string_trimLeft_def string_trimRight_def string_squish_def joined_def)
qed

theorem string_trim_correct_witness:
  "string_trim ''  a  b '' = Inr ''a  b'' \<and> string_squish ''  a  b '' = Inr ''a b''"
proof -
  have "trim_left (trim_right ''  a  b '') = ''a  b''" "joined (CHR '' '') (pieces blank_char [] ''  a  b '') = ''a b''"
    by code_simp+
  with string_trim_correct [of "''  a  b ''"] show ?thesis by simp
qed


subsection \<open>Words\<close>

fun words_out :: "(char \<Rightarrow> bool) \<Rightarrow> char \<Rightarrow> bool \<Rightarrow> bool \<Rightarrow> char list \<Rightarrow> char list" where
  "words_out special sep flag1 flag2 [] = []"
| "words_out special sep flag1 flag2 (c # cs) =
     (if isupper c then (if flag1 then [] else [sep]) @ tolower c # words_out special sep flag1 False cs
      else if special c
      then if flag2 then words_out special sep flag1 flag2 cs else sep # words_out special sep True True cs
      else c # words_out special sep False False cs)"

text \<open>Both passes follow the same text.\<close>

lemma words_loop_out: "words_loop special sep flag1 flag2 cs b = puts b (words_out special sep flag1 flag2 cs)"
  by (induction special sep flag1 flag2 cs b rule: words_loop.induct) (auto intro!: rbind_cong)

lemma words_len_out: "words_len special flag1 flag2 cs j = j + len (words_out special sep flag1 flag2 cs)"
  by (induction special flag1 flag2 cs j rule: words_len.induct) auto

text \<open>Text in lower case with single separators inside; \<open>edge\<close> says that no separator may come next.\<close>

fun slug :: "(char \<Rightarrow> bool) \<Rightarrow> char \<Rightarrow> bool \<Rightarrow> char list \<Rightarrow> bool" where
  "slug special sep edge [] \<longleftrightarrow> \<not> edge"
| "slug special sep edge (c # cs) \<longleftrightarrow>
     \<not> isupper c \<and> (if special c then c = sep \<and> \<not> edge \<and> slug special sep True cs else slug special sep False cs)"

lemma slug_fixed: "slug special sep f2 cs \<Longrightarrow> words_out special sep f1 f2 cs = cs"
  by (induction special sep f2 cs arbitrary: f1 rule: slug.induct) (auto split: if_splits)

lemma slug_cut:
  "slug special sep edge (cs @ [c, x]) \<Longrightarrow> slug special sep edge (if special c then cs else cs @ [c])"
  by (induction special sep edge cs rule: slug.induct) (auto split: if_splits)

lemma slug_last: "slug special sep edge cs \<Longrightarrow> cs \<noteq> [] \<Longrightarrow> \<not> special (last cs)"
proof (induction special sep edge cs rule: slug.induct)
  case (2 special sep edge c cs)
  then show ?case by (cases cs) (auto split: if_splits)
qed simp

text \<open>The characters that separate words, and the one written for them.\<close>

locale word_separators =
  fixes special :: "char \<Rightarrow> bool" and sep :: char
  assumes sep: "special sep" "sep \<noteq> NUL"
    and not_upper: "special c \<Longrightarrow> \<not> isupper c"
    and letters: "isupper c \<Longrightarrow> \<not> special (tolower c)"
begin

text \<open>What follows the text decides whether it ends in a separator: a letter put behind it makes it a slug.\<close>

lemma words_out_slug:
  assumes "\<not> special x" "\<not> isupper x" "f2 \<Longrightarrow> f1"
  shows "slug special sep f2 (words_out special sep f1 f2 cs @ [x])"
  using assms(3)
proof (induction cs arbitrary: f1 f2)
  case (Cons c cs)
  have step: "slug special sep False (words_out special sep f1 False cs @ [x])" for f1 by (rule Cons.IH) simp
  have step1: "slug special sep True (words_out special sep True True cs @ [x])" by (rule Cons.IH) simp
  show ?case using Cons.prems step step1 sep not_upper [of sep] letters [of c] by (cases f2) auto
qed (use assms in simp)

lemma words_out_last:
  "cs \<noteq> [] \<Longrightarrow> f2 \<longrightarrow> (\<exists>c\<in>set cs. \<not> special c) \<Longrightarrow>
     \<exists>t c. words_out special sep f1 f2 cs = t @ [c] \<and> (special c \<longleftrightarrow> special (last cs))"
proof (induction cs arbitrary: f1 f2)
  case (Cons c cs)
  let ?all = "\<forall>c\<in>set cs. special c"
  have skip: "?all \<Longrightarrow> words_out special sep f True cs = []" for f
    using not_upper by (induction cs) auto
  consider "cs = []" | "cs \<noteq> []" "?all" | "cs \<noteq> []" "\<not> ?all" by blast
  then show ?case
  proof cases
    case 1
    then show ?thesis using Cons.prems sep not_upper [of c] letters [of c] by auto
  next
    case 2
    then have "special (last cs)" by simp
    with 2 skip Cons.IH [of False] sep(1) Cons.prems(2) show ?thesis by (cases "special c") (auto; metis append_Cons)+
  next
    case 3
    then have "\<exists>t d. words_out special sep f1 f2 cs = t @ [d] \<and> (special d \<longleftrightarrow> special (last cs))" for f1 f2
      using Cons.IH by blast
    with 3(1) show ?thesis by (auto; metis append_Cons)
  qed
qed simp

lemma words_out_letters:
  "filter (\<lambda>c. \<not> special c) (words_out special sep f1 f2 cs) = map tolower (filter (\<lambda>c. \<not> special c) cs)"
proof (induction cs arbitrary: f1 f2)
  case (Cons c cs)
  have "\<not> isupper c \<Longrightarrow> tolower c = c" by (simp add: tolower_def)
  then show ?case using Cons sep letters [of c] not_upper [of c] by auto
qed simp

lemma words_out_NUL: "NUL \<notin> set cs \<Longrightarrow> NUL \<notin> set (words_out special sep f1 f2 cs)"
  using sep(2) by (induction cs arbitrary: f1 f2) (auto simp: eq_commute [of NUL])

lemma words_text_eq:
  assumes "NUL \<notin> set s" "\<exists>c\<in>set s. \<not> special c"
  shows "words_text special sep s = Inr (let t = words_out special sep True True s in if special (last s) then butlast t else t)"
proof -
  define t where "t = words_out special sep True True s"
  have s: "s \<noteq> []" using assms(2) by auto
  have last: "rd s (len s - 1) = Inr (last s)"
    using s rd_inside [of "length s - 1" s] by (simp add: last_conv_nth of_nat_diff Suc_le_eq)
  have t: "t \<noteq> []" using words_out_last [OF s, of True True] assms(2) by (auto simp: t_def)
  have "words_size special s = Inr ((if special (last s) then len t - 1 else len t) + 1)"
    using last words_len_out [of special True True s 0 sep] by (simp add: words_size_def t_def Let_def)
  moreover have nul: "NUL \<notin> set t" "NUL \<notin> set (butlast t)"
    using words_out_NUL [OF assms(1)] by (auto simp: t_def dest: in_set_butlastD)
  ultimately show ?thesis
    using last t by (simp add: words_text_def new_buf_def words_loop_out t_def [symmetric] puts_eq close_buf_eq c_str_id)
qed

lemma words_text_slug:
  assumes "NUL \<notin> set s" "\<exists>c\<in>set s. \<not> special c"
  shows "\<exists>t. words_text special sep s = Inr t \<and> slug special sep True t \<and>
    filter (\<lambda>c. \<not> special c) t = map tolower (filter (\<lambda>c. \<not> special c) s) \<and> words_text special sep t = Inr t"
proof -
  define t where "t = words_out special sep True True s"
  have s: "s \<noteq> []" using assms(2) by auto
  obtain u c where u: "t = u @ [c]" "special c \<longleftrightarrow> special (last s)"
    using words_out_last [OF s] assms(2) unfolding t_def by blast
  define r where "r = (if special c then u else u @ [c])"
  have r: "words_text special sep s = Inr r"
    using words_text_eq [OF assms] u by (simp add: t_def [symmetric] r_def)
  have "isupper (CHR ''A'')" by (simp add: isupper_def)
  then have "slug special sep True (t @ [tolower (CHR ''A'')])"
    unfolding t_def by (intro words_out_slug letters not_isupper_tolower) simp_all
  then have slug: "slug special sep True r"
    using slug_cut [of special sep True u c "tolower (CHR ''A'')"] u(1) by (simp add: r_def)
  have flt: "filter (\<lambda>c. \<not> special c) r = map tolower (filter (\<lambda>c. \<not> special c) s)"
    using words_out_letters [of True True s] u(1) by (auto simp: t_def [symmetric] r_def)
  have "r \<noteq> []" using slug by auto
  moreover have "\<not> special (last r)" using slug_last [OF slug] \<open>r \<noteq> []\<close> .
  moreover have "NUL \<notin> set r" using words_out_NUL [OF assms(1), of True True] u(1) by (auto simp: t_def [symmetric] r_def)
  moreover have "\<exists>c\<in>set r. \<not> special c" using calculation(1,2) last_in_set by blast
  ultimately have "words_text special sep r = Inr r"
    using words_text_eq [of r] slug_fixed [OF slug, of True] by simp
  with r slug flt show ?thesis by blast
qed

end

interpretation dashes: word_separators arken_string_dasherize_special_char "CHR ''-''"
proof
  show "\<not> arken_string_dasherize_special_char (tolower c)" if "isupper c" for c
    using of_char_tolower [OF that] that by (auto simp: arken_string_dasherize_special_char_def isupper_def)
qed (auto simp: arken_string_dasherize_special_char_def isupper_def)

interpretation underscores: word_separators arken_string_underscore_special_char "CHR ''_''"
proof
  show "\<not> arken_string_underscore_special_char (tolower c)" if "isupper c" for c
    using of_char_tolower [OF that] that by (auto simp: arken_string_underscore_special_char_def isupper_def)
qed (auto simp: arken_string_underscore_special_char_def isupper_def)

text \<open>\<open>underscore\<close> and \<open>dasherize\<close> on a string with some character that is no separator: the result keeps the other
  characters in order, in lower case, with single separators inside and none at the ends, fits the size
  that the first pass computes, and is left as it is by a second application.\<close>

theorem string_words_correct:
  assumes "NUL \<notin> set s"
  shows "((\<exists>c\<in>set s. \<not> arken_string_underscore_special_char c) \<longrightarrow>
      (\<exists>t. string_underscore s = Inr t \<and> slug arken_string_underscore_special_char (CHR ''_'') True t \<and>
        filter (\<lambda>c. \<not> arken_string_underscore_special_char c) t =
          map tolower (filter (\<lambda>c. \<not> arken_string_underscore_special_char c) s) \<and>
        string_underscore t = Inr t)) \<and>
    ((\<exists>c\<in>set s. \<not> arken_string_dasherize_special_char c) \<longrightarrow>
      (\<exists>t. string_dasherize s = Inr t \<and> slug arken_string_dasherize_special_char (CHR ''-'') True t \<and>
        filter (\<lambda>c. \<not> arken_string_dasherize_special_char c) t =
          map tolower (filter (\<lambda>c. \<not> arken_string_dasherize_special_char c) s) \<and>
        string_dasherize t = Inr t))"
  unfolding string_underscore_def string_dasherize_def
  using underscores.words_text_slug [OF assms] dashes.words_text_slug [OF assms] by blast

theorem string_words_correct_witness:
  "\<exists>t. string_underscore ''HTTPRequest Header.Name'' = Inr t \<and> slug arken_string_underscore_special_char (CHR ''_'') True t"
proof -
  have "\<exists>c\<in>set ''HTTPRequest Header.Name''. \<not> arken_string_underscore_special_char c"
    by (simp add: arken_string_underscore_special_char_def)
  moreover have "NUL \<notin> set ''HTTPRequest Header.Name''" by simp
  ultimately show ?thesis using string_words_correct by blast
qed


subsection \<open>Accesses outside the memory\<close>

text \<open>A slash at the end makes \<open>camelCase\<close> store the terminator behind it as a character: one write too many.\<close>

lemma string_camelCase_overrun: "string_camelCase ''a/'' False = Inl Write_bounds"
  by code_simp

lemma string_camelCase_examples:
  "string_camelCase ''foo_bar'' False = Inr ''FooBar''" "string_camelCase ''foo/bar_baz'' True = Inr ''foo.BarBaz''"
  by code_simp+

text \<open>Nothing stored: the character before the result is tested, or overwritten.\<close>

lemma string_normalize_empty: "string_normalize [] = Inl Read_bounds" "string_normalize ''a[b][c]'' = Inr ''a_b_c''"
  by code_simp+

lemma string_words_separators_only: "string_underscore [] = Inl Read_bounds" "string_underscore ''_'' = Inl Write_bounds"
  by code_simp+

text \<open>\<open>chop\<close> looks at the wrong character: it should test for a carriage return before the line feed that it drops.\<close>

lemma string_chop_single: "string_chop [c] = Inl Read_bounds"
  by (simp add: string_chop_def Let_def)

lemma string_chop_line: "string_chop ''ab\<newline>'' = Inr ''ab''" "string_chop [CHR ''a'', CHR 0x0D, CHR ''b''] = Inr ''a''"
  by code_simp+

text \<open>The result of \<open>parameterize\<close> is one longer than the text that it cuts off.\<close>

lemma string_parameterize_overread: "string_parameterize ''ab'' = Inl Read_bounds"
  by code_simp

lemma string_mid_overread: "string_mid ''abc'' 2 3 = Inl Read_bounds" "string_mid ''abcdef'' 2 3 = Inr (''cde'', Some 3)"
  by code_simp+

lemma string_truncate_short: "string_truncate ''abcd'' 2 (Some ''...'') NUL = Inl Write_bounds"
  by code_simp

lemma string_repeated_negative: "string_repeated ''a'' (- 5) = Inl Bad_alloc" "string_repeated ''ab'' 3 = Inr ''ababab''"
  by code_simp+

text \<open>Characters above 127 are negative: a string of them is blank.\<close>

lemma string_blank_high: "string_blank [CHR 0xC3, CHR 0xA9]"
  by code_simp

end
