(* ===== verification/Char_Heap.thy ===== *)
theory Char_Heap
  imports Str_Edit
begin

text \<open>
  The memory of the class \<open>string\<close>: blocks of characters that \<open>new char[n]\<close> allocates and \<open>delete[]\<close> frees. A pointer
  is null or the number of a block (the code never keeps a pointer into the middle of one), a cell that was not
  written has no value, and the number of a freed block is not used again. Each access that C++ leaves undefined is a
  fault of its own.
\<close>

datatype mem_fault = Null_pointer | Freed | Outside | Indeterminate | Wrong_delete | Text_fault str_fault

type_synonym cells = "char option list"

type_synonym ptr = "nat option"

record heap =
  lim :: nat
  blocks :: "nat \<Rightarrow> cells option"

definition h_empty :: heap where
  "h_empty = \<lparr>lim = 0, blocks = (\<lambda>_. None)\<rparr>"

definition h_alloc :: "heap \<Rightarrow> cells \<Rightarrow> ptr \<times> heap" where
  "h_alloc h cs = (Some (lim h), \<lparr>lim = lim h + 1, blocks = (blocks h)(lim h := Some cs)\<rparr>)"

abbreviation h_new :: "heap \<Rightarrow> nat \<Rightarrow> ptr \<times> heap" where
  "h_new h n \<equiv> h_alloc h (replicate n None)"

definition h_block :: "heap \<Rightarrow> ptr \<Rightarrow> mem_fault + cells" where
  "h_block h p = (case p of None \<Rightarrow> Inl Null_pointer
     | Some a \<Rightarrow> (case blocks h a of None \<Rightarrow> Inl Freed | Some cs \<Rightarrow> Inr cs))"

text \<open>\<open>delete[]\<close> does nothing to the null pointer.\<close>

definition h_delete :: "heap \<Rightarrow> ptr \<Rightarrow> mem_fault + heap" where
  "h_delete h p = (case p of None \<Rightarrow> Inr h
     | Some a \<Rightarrow> rbind (h_block h p) (\<lambda>_. Inr (h\<lparr>blocks := (blocks h)(a := None)\<rparr>)))"

definition h_get :: "heap \<Rightarrow> ptr \<Rightarrow> nat \<Rightarrow> mem_fault + char" where
  "h_get h p i = rbind (h_block h p) (\<lambda>cs.
     if i < length cs then (case cs ! i of None \<Rightarrow> Inl Indeterminate | Some c \<Rightarrow> Inr c) else Inl Outside)"

definition store :: "heap \<Rightarrow> nat \<Rightarrow> cells \<Rightarrow> heap" where
  "store h a cs = h\<lparr>blocks := (blocks h)(a := Some cs)\<rparr>"

definition h_put :: "heap \<Rightarrow> ptr \<Rightarrow> nat \<Rightarrow> char \<Rightarrow> mem_fault + heap" where
  "h_put h p i c = rbind (h_block h p) (\<lambda>cs.
     if i < length cs then Inr (store h (the p) (cs[i := Some c])) else Inl Outside)"

text \<open>\<open>for(k = 0; k < n; k++) d[i + k] = s[j + k];\<close> and \<open>memcpy\<close>\<close>

fun h_copy :: "heap \<Rightarrow> ptr \<Rightarrow> nat \<Rightarrow> ptr \<Rightarrow> nat \<Rightarrow> nat \<Rightarrow> mem_fault + heap" where
  "h_copy h d i s j 0 = Inr h"
| "h_copy h d i s j (Suc n) = rbind (h_get h s j) (\<lambda>c. rbind (h_put h d i c) (\<lambda>h1. h_copy h1 d (i + 1) s (j + 1) n))"

text \<open>\<open>strncpy\<close> fills the rest with terminators once it has copied one.\<close>

fun h_strncpy :: "heap \<Rightarrow> bool \<Rightarrow> ptr \<Rightarrow> ptr \<Rightarrow> nat \<Rightarrow> nat \<Rightarrow> mem_fault + heap" where
  "h_strncpy h stop d s i 0 = Inr h"
| "h_strncpy h stop d s i (Suc n) =
     rbind (if stop then Inr NUL else h_get h s i) (\<lambda>c.
     rbind (h_put h d i c) (\<lambda>h1. h_strncpy h1 (stop \<or> c = NUL) d s (i + 1) n))"

fun cells_text :: "cells \<Rightarrow> mem_fault + char list" where
  "cells_text [] = Inl Outside"
| "cells_text (None # cs) = Inl Indeterminate"
| "cells_text (Some c # cs) = (if c = NUL then Inr [] else rbind (cells_text cs) (\<lambda>t. Inr (c # t)))"

text \<open>The C string at a pointer, and \<open>strlen\<close>.\<close>

definition h_text :: "heap \<Rightarrow> ptr \<Rightarrow> mem_fault + char list" where
  "h_text h p = rbind (h_block h p) cells_text"

definition h_strlen :: "heap \<Rightarrow> ptr \<Rightarrow> mem_fault + nat" where
  "h_strlen h p = rbind (h_text h p) (\<lambda>t. Inr (length t))"


subsection \<open>Effects\<close>

lemma store_simps [simp]:
  "blocks (store h a cs) = (blocks h)(a := Some cs)" "lim (store h a cs) = lim h"
  "store (store h a cs) a ds = store h a ds"
  by (simp_all add: store_def)

lemma store_same [simp]: "blocks h a = Some cs \<Longrightarrow> store h a cs = h"
  by (simp add: store_def fun_upd_idem)

lemma h_block_Some [simp]: "blocks h a = Some cs \<Longrightarrow> h_block h (Some a) = Inr cs"
  by (simp add: h_block_def)

lemma h_get_at: "blocks h a = Some (us @ Some c # vs) \<Longrightarrow> i = length us \<Longrightarrow> h_get h (Some a) i = Inr c"
  by (simp add: h_get_def)

lemma h_put_at: "blocks h a = Some (us @ x # vs) \<Longrightarrow> i = length us \<Longrightarrow> h_put h (Some a) i c = Inr (store h a (us @ Some c # vs))"
  by (simp add: h_put_def)

lemma h_copy_text:
  "blocks h a = Some (us @ xs @ vs) \<Longrightarrow> blocks h b = Some (ps @ map Some cs @ qs) \<Longrightarrow> a \<noteq> b \<Longrightarrow>
   i = length us \<Longrightarrow> j = length ps \<Longrightarrow> n = length cs \<Longrightarrow> length xs = n \<Longrightarrow>
   h_copy h (Some a) i (Some b) j n = Inr (store h a (us @ map Some cs @ vs))"
proof (induction cs arbitrary: h us xs ps i j n)
  case (Cons c cs)
  then obtain x ys where xs: "xs = x # ys" by (cases xs) auto
  let ?h = "store h a (us @ Some c # ys @ vs)"
  have get: "h_get h (Some b) j = Inr c" using Cons.prems h_get_at [of h b ps c "map Some cs @ qs"] by simp
  have put: "h_put h (Some a) i c = Inr ?h" using Cons.prems xs h_put_at [of h a us x "ys @ vs"] by simp
  have "h_copy ?h (Some a) (i + 1) (Some b) (j + 1) (length cs) = Inr (store ?h a ((us @ [Some c]) @ map Some cs @ vs))"
    using Cons.prems xs by (intro Cons.IH [of ?h "us @ [Some c]" ys "ps @ [Some c]"]) auto
  then show ?case using get put Cons.prems(6) by simp
qed simp

text \<open>What \<open>strncpy\<close> leaves in the first \<open>n\<close> cells.\<close>

definition strncpy_text :: "nat \<Rightarrow> char list \<Rightarrow> char list" where
  "strncpy_text n cs = take n (c_str cs) @ replicate (n - length (c_str cs)) NUL"

lemma h_strncpy_zeros:
  "blocks h a = Some (us @ xs @ vs) \<Longrightarrow> i = length us \<Longrightarrow> length xs = n \<Longrightarrow>
   h_strncpy h True (Some a) s i n = Inr (store h a (us @ map Some (replicate n NUL) @ vs))"
proof (induction n arbitrary: h us xs i)
  case (Suc n)
  then obtain x ys where xs: "xs = x # ys" "length ys = n" by (cases xs) auto
  let ?h = "store h a (us @ Some NUL # ys @ vs)"
  have put: "h_put h (Some a) i NUL = Inr ?h" using Suc.prems xs h_put_at [of h a us x "ys @ vs"] by simp
  have "h_strncpy ?h True (Some a) s (i + 1) n = Inr (store ?h a ((us @ [Some NUL]) @ map Some (replicate n NUL) @ vs))"
    using Suc.prems xs by (intro Suc.IH [of ?h "us @ [Some NUL]" ys]) auto
  then show ?case using put by simp
qed simp

lemma h_strncpy_text:
  "blocks h a = Some (us @ xs @ vs) \<Longrightarrow> blocks h b = Some (ps @ map Some cs @ qs) \<Longrightarrow> a \<noteq> b \<Longrightarrow>
   i = length us \<Longrightarrow> length ps = i \<Longrightarrow> n = length cs \<Longrightarrow> length xs = n \<Longrightarrow>
   h_strncpy h False (Some a) (Some b) i n = Inr (store h a (us @ map Some (strncpy_text n cs) @ vs))"
proof (induction cs arbitrary: h us xs ps i n)
  case (Cons c cs)
  then obtain x ys where xs: "xs = x # ys" "length ys = length cs" by (cases xs) auto
  let ?h = "store h a (us @ Some c # ys @ vs)"
  have get: "h_get h (Some b) i = Inr c" using Cons.prems h_get_at [of h b ps c "map Some cs @ qs"] by simp
  have put: "h_put h (Some a) i c = Inr ?h" using Cons.prems xs h_put_at [of h a us x "ys @ vs"] by simp
  have t: "strncpy_text (Suc (length cs)) (c # cs) =
      c # (if c = NUL then replicate (length cs) NUL else strncpy_text (length cs) cs)"
    by (simp add: strncpy_text_def c_str_def)
  show ?case
  proof (cases "c = NUL")
    case True
    then show ?thesis
      using get put t Cons.prems(6) xs(2) h_strncpy_zeros [of ?h a "us @ [Some c]" ys vs "i + 1" "length cs"] Cons.prems(4) by simp
  next
    case False
    have "h_strncpy ?h False (Some a) (Some b) (i + 1) (length cs) =
        Inr (store ?h a ((us @ [Some c]) @ map Some (strncpy_text (length cs) cs) @ vs))"
      using Cons.prems xs by (intro Cons.IH [of ?h "us @ [Some c]" ys "ps @ [Some c]"]) auto
    then show ?thesis using get put t Cons.prems(6) False by simp
  qed
qed (simp add: strncpy_text_def)

lemma cells_text_eq: "cells_text (map Some cs @ Some NUL # ys) = Inr (c_str cs)"
  by (induction cs) (auto simp: c_str_def)

lemma length_c_str: "length (c_str cs) \<le> length cs"
  by (simp add: c_str_def length_takeWhile_le)

end
