(* ===== verification/Str_Class.thy ===== *)
theory Str_Class
  imports Char_Heap
begin

text \<open>
  The class \<open>string\<close> of \<^verbatim>\<open>src/arken/string.cpp\<close>: constructors, destructor, growth, assignment, the methods that call
  the static functions, and comparison, on the memory of \<open>Char_Heap\<close>.

  Sizes are natural numbers: the invariant bounds \<open>m_reserve\<close> by twice the allocated capacity plus 1024, so that
  the sums the code forms in \<open>size_t\<close> wrap only for blocks of some 2 EiB.
\<close>

record arken_string =
  m_data :: ptr
  m_size :: nat
  m_capacity :: nat
  m_reserve :: nat

abbreviation sized :: "ptr \<Rightarrow> nat \<Rightarrow> arken_string" where
  "sized p n \<equiv> \<lparr>m_data = p, m_size = n, m_capacity = n, m_reserve = n\<rparr>"


subsection \<open>Construction\<close>

text \<open>\<open>string()\<close>\<close>

definition string_ctor :: "heap \<Rightarrow> mem_fault + heap \<times> arken_string" where
  "string_ctor h = (let (p, h1) = h_alloc h [Some NUL] in Inr (h1, sized p 0))"

text \<open>\<open>string(const char * data, size_t size)\<close>\<close>

definition string_ctor_data :: "heap \<Rightarrow> ptr \<Rightarrow> nat \<Rightarrow> mem_fault + heap \<times> arken_string" where
  "string_ctor_data h data size1 =
     (let (p, h1) = h_new h (size1 + 1)
      in rbind (h_copy h1 p 0 data 0 size1) (\<lambda>h2. rbind (h_put h2 p size1 NUL) (\<lambda>h3. Inr (h3, sized p size1))))"

text \<open>\<open>string(const char * data)\<close>\<close>

definition string_ctor_cstr :: "heap \<Rightarrow> ptr \<Rightarrow> mem_fault + heap \<times> arken_string" where
  "string_ctor_cstr h data =
     rbind (h_strlen h data) (\<lambda>n.
       let (p, h1) = h_new h (n + 1) in rbind (h_strncpy h1 False p data 0 (n + 1)) (\<lambda>h2. Inr (h2, sized p n)))"

text \<open>\<open>string(string && str)\<close>: the new object and what is left of \<open>str\<close>\<close>

definition string_ctor_move :: "arken_string \<Rightarrow> arken_string \<times> arken_string" where
  "string_ctor_move str = (sized (m_data str) (m_size str), str\<lparr>m_data := None\<rparr>)"

text \<open>\<open>string(char * && data)\<close> and \<open>string(char * && data, size_t size)\<close> take a block over.\<close>

definition string_ctor_adopt :: "heap \<Rightarrow> ptr \<Rightarrow> mem_fault + arken_string" where
  "string_ctor_adopt h data = rbind (h_strlen h data) (\<lambda>n. Inr (sized data n))"

definition string_ctor_adopt_size :: "ptr \<Rightarrow> nat \<Rightarrow> arken_string" where
  "string_ctor_adopt_size data size1 = sized data size1"

text \<open>\<open>string(const arken::string & str)\<close>\<close>

definition string_ctor_copy :: "heap \<Rightarrow> arken_string \<Rightarrow> mem_fault + heap \<times> arken_string" where
  "string_ctor_copy h str =
     (let (p, h1) = h_new h (m_capacity str + 1)
      in rbind (h_copy h1 p 0 (m_data str) 0 (m_size str)) (\<lambda>h2.
         rbind (h_put h2 p (m_size str) NUL) (\<lambda>h3. Inr (h3, str\<lparr>m_data := p\<rparr>))))"

text \<open>A \<open>std::string\<close> is a value of its own; \<open>c_str()\<close> is a block that lives as long as it does.\<close>

definition with_std :: "heap \<Rightarrow> char list \<Rightarrow> (heap \<Rightarrow> ptr \<Rightarrow> mem_fault + heap \<times> 'a) \<Rightarrow> mem_fault + heap \<times> 'a" where
  "with_std h str f =
     (let (p, h1) = h_alloc h (map Some str @ [Some NUL])
      in rbind (f h1 p) (\<lambda>(h2, r). rbind (h_delete h2 p) (\<lambda>h3. Inr (h3, r))))"

text \<open>\<open>string(const std::string & str)\<close>\<close>

definition string_ctor_std :: "heap \<Rightarrow> char list \<Rightarrow> mem_fault + heap \<times> arken_string" where
  "string_ctor_std h str = with_std h str (\<lambda>h1 p. string_ctor_data h1 p (length str))"

definition string_dtor :: "heap \<Rightarrow> arken_string \<Rightarrow> mem_fault + heap" where
  "string_dtor h s = h_delete h (m_data s)"


subsection \<open>Growth\<close>

definition string_reserve :: "heap \<Rightarrow> arken_string \<Rightarrow> nat \<Rightarrow> mem_fault + heap \<times> arken_string" where
  "string_reserve h s reserve =
     (if m_capacity s \<le> reserve
      then let tmp = m_data s; capacity = reserve + m_reserve s; (p, h1) = h_new h (capacity + 1)
           in rbind (h_copy h1 p 0 tmp 0 (m_size s)) (\<lambda>h2.
              rbind (h_put h2 p (m_size s) NUL) (\<lambda>h3.
              rbind (h_delete h3 tmp) (\<lambda>h4.
                Inr (h4, s\<lparr>m_data := p, m_capacity := capacity, m_reserve := reserve + m_reserve s * 2\<rparr>))))
      else Inr (h, s))"

definition string_append_char :: "heap \<Rightarrow> arken_string \<Rightarrow> char \<Rightarrow> mem_fault + heap \<times> arken_string" where
  "string_append_char h s chr =
     rbind (string_reserve h s (m_size s + 1)) (\<lambda>(h1, s1).
     rbind (h_put h1 (m_data s1) (m_size s1) chr) (\<lambda>h2.
     rbind (h_put h2 (m_data s1) (m_size s1 + 1) NUL) (\<lambda>h3. Inr (h3, s1\<lparr>m_size := m_size s1 + 1\<rparr>))))"

definition string_append_data :: "heap \<Rightarrow> arken_string \<Rightarrow> ptr \<Rightarrow> nat \<Rightarrow> mem_fault + heap \<times> arken_string" where
  "string_append_data h s data n =
     rbind (string_reserve h s (m_size s + n)) (\<lambda>(h1, s1).
     rbind (h_copy h1 (m_data s1) (m_size s1) data 0 n) (\<lambda>h2.
     rbind (h_put h2 (m_data s1) (m_size s1 + n) NUL) (\<lambda>h3. Inr (h3, s1\<lparr>m_size := m_size s1 + n\<rparr>))))"

definition string_append_cstr :: "heap \<Rightarrow> arken_string \<Rightarrow> ptr \<Rightarrow> mem_fault + heap \<times> arken_string" where
  "string_append_cstr h s data = rbind (h_strlen h data) (\<lambda>n. string_append_data h s data n)"

definition string_append_std :: "heap \<Rightarrow> arken_string \<Rightarrow> char list \<Rightarrow> mem_fault + heap \<times> arken_string" where
  "string_append_std h s str = with_std h str (\<lambda>h1 p. string_append_data h1 s p (length str))"

definition string_prepend :: "heap \<Rightarrow> arken_string \<Rightarrow> ptr \<Rightarrow> mem_fault + heap \<times> arken_string" where
  "string_prepend h s data =
     rbind (h_strlen h data) (\<lambda>n.
       let capacity = m_size s + n + m_reserve s; (tmp, h1) = h_new h (capacity + 1)
       in rbind (h_copy h1 tmp 0 data 0 n) (\<lambda>h2.
          rbind (h_copy h2 tmp n (m_data s) 0 (m_size s)) (\<lambda>h3.
          rbind (h_delete h3 (m_data s)) (\<lambda>h4.
          rbind (h_put h4 tmp (n + m_size s) NUL) (\<lambda>h5.
            Inr (h5, s\<lparr>m_data := tmp, m_size := n + m_size s, m_capacity := capacity\<rparr>))))))"

definition string_clear :: "heap \<Rightarrow> arken_string \<Rightarrow> mem_fault + heap \<times> arken_string" where
  "string_clear h s =
     rbind (h_delete h (m_data s)) (\<lambda>h1.
       let (p, h2) = h_alloc h1 [Some NUL] in Inr (h2, \<lparr>m_data = p, m_size = 0, m_capacity = 0, m_reserve = 1024\<rparr>))"

definition string_release :: "arken_string \<Rightarrow> ptr \<times> arken_string" where
  "string_release s = (m_data s, s\<lparr>m_data := None\<rparr>)"


subsection \<open>Assignment\<close>

text \<open>\<open>operator=(string && str)\<close>: the object and what is left of \<open>str\<close>\<close>

definition string_assign_move :: "heap \<Rightarrow> arken_string \<Rightarrow> arken_string \<Rightarrow> mem_fault + heap \<times> arken_string \<times> arken_string" where
  "string_assign_move h s str =
     rbind (h_delete h (m_data s)) (\<lambda>h1. Inr (h1, sized (m_data str) (m_size str), str\<lparr>m_data := None\<rparr>))"

text \<open>\<open>operator=(const string &a)\<close> and \<open>operator=(const string * str)\<close>, which have the same body; the argument may be the
  object itself.\<close>

definition string_assign :: "heap \<Rightarrow> arken_string \<Rightarrow> arken_string \<Rightarrow> mem_fault + heap \<times> arken_string" where
  "string_assign h s a =
     rbind (h_delete h (m_data s)) (\<lambda>h1.
       let (p, h2) = h_new h1 (m_size a + 1)
       in rbind (h_strncpy h2 False p (m_data a) 0 (m_size a)) (\<lambda>h3.
          rbind (h_put h3 p (m_size a) NUL) (\<lambda>h4.
            Inr (h4, \<lparr>m_data = p, m_size = m_size a, m_capacity = m_size a, m_reserve = 1024\<rparr>))))"

definition string_assign_cstr :: "heap \<Rightarrow> arken_string \<Rightarrow> ptr \<Rightarrow> mem_fault + heap \<times> arken_string" where
  "string_assign_cstr h s data =
     rbind (h_delete h (m_data s)) (\<lambda>h1.
     rbind (h_strlen h1 data) (\<lambda>n.
       let (p, h2) = h_new h1 (n + 1)
       in rbind (h_strncpy h2 False p data 0 (n + 1)) (\<lambda>h3.
            Inr (h3, \<lparr>m_data = p, m_size = n, m_capacity = n, m_reserve = 1024\<rparr>))))"


subsection \<open>Methods\<close>

text \<open>A method that returns a string hands its characters to the static function, and the block of the result to a
  new object. The block is modelled with just the characters and the terminator. Arguments that are C strings are
  given by their characters.\<close>

definition text_method ::
  "heap \<Rightarrow> arken_string \<Rightarrow> (char list \<Rightarrow> str_fault + char list) \<Rightarrow> mem_fault + heap \<times> arken_string" where
  "text_method h s f =
     rbind (h_text h (m_data s)) (\<lambda>t.
       case f t of
         Inl e \<Rightarrow> Inl (Text_fault e)
       | Inr r \<Rightarrow> (let (p, h1) = h_alloc h (map Some r @ [Some NUL]) in rbind (string_ctor_adopt h1 p) (\<lambda>s1. Inr (h1, s1))))"

text \<open>A method that returns a number or a truth value.\<close>

definition query_method :: "heap \<Rightarrow> arken_string \<Rightarrow> (char list \<Rightarrow> str_fault + 'a) \<Rightarrow> mem_fault + 'a" where
  "query_method h s f = rbind (h_text h (m_data s)) (\<lambda>t. case f t of Inl e \<Rightarrow> Inl (Text_fault e) | Inr r \<Rightarrow> Inr r)"

definition method_camelCase :: "heap \<Rightarrow> arken_string \<Rightarrow> bool \<Rightarrow> mem_fault + heap \<times> arken_string" where
  "method_camelCase h s lcfirst = text_method h s (\<lambda>t. string_camelCase t lcfirst)"

definition method_capitalize :: "heap \<Rightarrow> arken_string \<Rightarrow> mem_fault + heap \<times> arken_string" where
  "method_capitalize h s = text_method h s string_capitalize"

definition method_center :: "heap \<Rightarrow> arken_string \<Rightarrow> nat \<Rightarrow> char list \<Rightarrow> mem_fault + heap \<times> arken_string" where
  "method_center h s size1 pad = text_method h s (\<lambda>t. string_center t size1 pad)"

definition method_chop :: "heap \<Rightarrow> arken_string \<Rightarrow> mem_fault + heap \<times> arken_string" where
  "method_chop h s = text_method h s string_chop"

definition method_dasherize :: "heap \<Rightarrow> arken_string \<Rightarrow> mem_fault + heap \<times> arken_string" where
  "method_dasherize h s = text_method h s string_dasherize"

definition method_escape :: "heap \<Rightarrow> arken_string \<Rightarrow> char \<Rightarrow> mem_fault + heap \<times> arken_string" where
  "method_escape h s chr = text_method h s (\<lambda>t. string_escape t chr)"

definition method_escapeHtml :: "heap \<Rightarrow> arken_string \<Rightarrow> mem_fault + heap \<times> arken_string" where
  "method_escapeHtml h s = text_method h s string_escapeHtml"

definition method_insert :: "heap \<Rightarrow> arken_string \<Rightarrow> int \<Rightarrow> char list \<Rightarrow> mem_fault + heap \<times> arken_string" where
  "method_insert h s n ba = text_method h s (\<lambda>t. string_insert t n ba)"

definition method_left :: "heap \<Rightarrow> arken_string \<Rightarrow> int \<Rightarrow> mem_fault + heap \<times> arken_string" where
  "method_left h s n = text_method h s (\<lambda>t. string_left t n)"

definition method_padLeft :: "heap \<Rightarrow> arken_string \<Rightarrow> nat \<Rightarrow> char list \<Rightarrow> mem_fault + heap \<times> arken_string" where
  "method_padLeft h s size1 pad = text_method h s (\<lambda>t. string_padLeft t size1 pad)"

definition method_normalize :: "heap \<Rightarrow> arken_string \<Rightarrow> mem_fault + heap \<times> arken_string" where
  "method_normalize h s = text_method h s string_normalize"

definition method_prefix :: "heap \<Rightarrow> arken_string \<Rightarrow> char list \<Rightarrow> mem_fault + heap \<times> arken_string" where
  "method_prefix h s pattern = text_method h s (\<lambda>t. string_prefix t pattern)"

definition method_squish :: "heap \<Rightarrow> arken_string \<Rightarrow> mem_fault + heap \<times> arken_string" where
  "method_squish h s = text_method h s string_squish"

definition method_parameterize :: "heap \<Rightarrow> arken_string \<Rightarrow> mem_fault + heap \<times> arken_string" where
  "method_parameterize h s = text_method h s string_parameterize"

definition method_remove :: "heap \<Rightarrow> arken_string \<Rightarrow> char list \<Rightarrow> int \<Rightarrow> mem_fault + heap \<times> arken_string" where
  "method_remove h s rep start = text_method h s (\<lambda>t. string_remove t rep start)"

definition method_removeChar :: "heap \<Rightarrow> arken_string \<Rightarrow> char \<Rightarrow> int \<Rightarrow> mem_fault + heap \<times> arken_string" where
  "method_removeChar h s rep start = text_method h s (\<lambda>t. string_removeChar t rep start)"

definition method_repeated :: "heap \<Rightarrow> arken_string \<Rightarrow> int \<Rightarrow> mem_fault + heap \<times> arken_string" where
  "method_repeated h s n = text_method h s (\<lambda>t. string_repeated t n)"

definition method_replace :: "heap \<Rightarrow> arken_string \<Rightarrow> char list \<Rightarrow> char list \<Rightarrow> int \<Rightarrow> mem_fault + heap \<times> arken_string" where
  "method_replace h s before after start = text_method h s (\<lambda>t. string_replace t before after start)"

definition method_replaceChar :: "heap \<Rightarrow> arken_string \<Rightarrow> char \<Rightarrow> char \<Rightarrow> int \<Rightarrow> mem_fault + heap \<times> arken_string" where
  "method_replaceChar h s before after start = text_method h s (\<lambda>t. string_replaceChar t before after start)"

definition method_right :: "heap \<Rightarrow> arken_string \<Rightarrow> int \<Rightarrow> mem_fault + heap \<times> arken_string" where
  "method_right h s n = text_method h s (\<lambda>t. string_right t n)"

definition method_padRight :: "heap \<Rightarrow> arken_string \<Rightarrow> nat \<Rightarrow> char list \<Rightarrow> mem_fault + heap \<times> arken_string" where
  "method_padRight h s size1 pad = text_method h s (\<lambda>t. string_padRight t size1 pad)"

definition method_suffix :: "heap \<Rightarrow> arken_string \<Rightarrow> char list \<Rightarrow> mem_fault + heap \<times> arken_string" where
  "method_suffix h s pattern = text_method h s (\<lambda>t. string_suffix t pattern)"

definition method_trim :: "heap \<Rightarrow> arken_string \<Rightarrow> mem_fault + heap \<times> arken_string" where
  "method_trim h s = text_method h s string_trim"

definition method_trimLeft :: "heap \<Rightarrow> arken_string \<Rightarrow> mem_fault + heap \<times> arken_string" where
  "method_trimLeft h s = text_method h s string_trimLeft"

definition method_trimRight :: "heap \<Rightarrow> arken_string \<Rightarrow> mem_fault + heap \<times> arken_string" where
  "method_trimRight h s = text_method h s string_trimRight"

definition method_truncate :: "heap \<Rightarrow> arken_string \<Rightarrow> int \<Rightarrow> char list option \<Rightarrow> char \<Rightarrow> mem_fault + heap \<times> arken_string" where
  "method_truncate h s pos omission separator = text_method h s (\<lambda>t. string_truncate t pos omission separator)"

definition method_underscore :: "heap \<Rightarrow> arken_string \<Rightarrow> mem_fault + heap \<times> arken_string" where
  "method_underscore h s = text_method h s string_underscore"

definition method_blank :: "heap \<Rightarrow> arken_string \<Rightarrow> mem_fault + bool" where
  "method_blank h s = query_method h s (\<lambda>t. Inr (string_blank t))"

definition method_contains :: "heap \<Rightarrow> arken_string \<Rightarrow> char list \<Rightarrow> mem_fault + bool" where
  "method_contains h s str = query_method h s (\<lambda>t. string_contains t str)"

definition method_count :: "heap \<Rightarrow> arken_string \<Rightarrow> char list \<Rightarrow> mem_fault + int" where
  "method_count h s str = query_method h s (\<lambda>t. string_count t str)"

definition method_equals :: "heap \<Rightarrow> arken_string \<Rightarrow> char list \<Rightarrow> mem_fault + bool" where
  "method_equals h s data = query_method h s (\<lambda>t. Inr (string_equals t data))"

definition method_indexOf :: "heap \<Rightarrow> arken_string \<Rightarrow> char list \<Rightarrow> int \<Rightarrow> mem_fault + int" where
  "method_indexOf h s str i = query_method h s (\<lambda>t. string_indexOf t str i)"

definition method_endsWith :: "heap \<Rightarrow> arken_string \<Rightarrow> char list \<Rightarrow> mem_fault + bool" where
  "method_endsWith h s ba = query_method h s (\<lambda>t. string_endsWith t ba)"

definition method_lastIndexOf :: "heap \<Rightarrow> arken_string \<Rightarrow> char list \<Rightarrow> mem_fault + int" where
  "method_lastIndexOf h s str = query_method h s (\<lambda>t. string_lastIndexOf t str)"

definition method_startsWith :: "heap \<Rightarrow> arken_string \<Rightarrow> char list \<Rightarrow> mem_fault + bool" where
  "method_startsWith h s str = query_method h s (\<lambda>t. string_startsWith t str)"

text \<open>The methods that use \<open>m_size\<close> see the characters behind a terminator inside the string.\<close>

definition string_bytes :: "heap \<Rightarrow> arken_string \<Rightarrow> mem_fault + char list" where
  "string_bytes h s = map_res (h_get h (m_data s)) [0..<m_size s]"

definition method_hash :: "heap \<Rightarrow> arken_string \<Rightarrow> mem_fault + 64 word" where
  "method_hash h s = rbind (string_bytes h s) (\<lambda>t. Inr (string_hash t))"

definition method_split :: "heap \<Rightarrow> arken_string \<Rightarrow> char list \<Rightarrow> mem_fault + char list list" where
  "method_split h s pattern =
     rbind (string_bytes h s) (\<lambda>t. case string_split t pattern of Inl e \<Rightarrow> Inl (Text_fault e) | Inr ps \<Rightarrow> Inr ps)"

text \<open>For a negative position \<open>mid\<close> leaves the local variable \<open>size\<close> without a value.\<close>

definition method_mid :: "heap \<Rightarrow> arken_string \<Rightarrow> int \<Rightarrow> int \<Rightarrow> mem_fault + heap \<times> arken_string" where
  "method_mid h s pos n =
     rbind (string_bytes h s) (\<lambda>t.
       case string_mid t pos n of
         Inl e \<Rightarrow> Inl (Text_fault e)
       | Inr (r, None) \<Rightarrow> Inl Indeterminate
       | Inr (r, Some size1) \<Rightarrow>
           (let (p, h1) = h_alloc h (map Some r @ [Some NUL]) in Inr (h1, string_ctor_adopt_size p (nat size1))))"


subsection \<open>Comparison\<close>

text \<open>\<open>strcmp\<close> compares unsigned characters.\<close>

fun strcmp_less :: "char list \<Rightarrow> char list \<Rightarrow> bool" where
  "strcmp_less xs [] \<longleftrightarrow> False"
| "strcmp_less [] (y # ys) \<longleftrightarrow> True"
| "strcmp_less (x # xs) (y # ys) \<longleftrightarrow> (of_char x :: nat) < of_char y \<or> x = y \<and> strcmp_less xs ys"

definition string_less :: "heap \<Rightarrow> arken_string \<Rightarrow> arken_string \<Rightarrow> mem_fault + bool" where
  "string_less h s str = rbind (h_text h (m_data s)) (\<lambda>t. rbind (h_text h (m_data str)) (\<lambda>u. Inr (strcmp_less t u)))"

definition string_equal :: "heap \<Rightarrow> arken_string \<Rightarrow> arken_string \<Rightarrow> mem_fault + bool" where
  "string_equal h s str = rbind (h_text h (m_data s)) (\<lambda>t. rbind (h_text h (m_data str)) (\<lambda>u. Inr (t = u)))"


subsection \<open>Representation\<close>

text \<open>Nothing is stored above the limit, so a new block is a fresh one.\<close>

definition heap_ok :: "heap \<Rightarrow> bool" where
  "heap_ok h \<longleftrightarrow> (\<forall>a. lim h \<le> a \<longrightarrow> blocks h a = None)"

text \<open>The object \<open>s\<close> owns the block \<open>a\<close>, which holds the text \<open>xs\<close> and its terminator within the capacity.\<close>

definition repr :: "heap \<Rightarrow> arken_string \<Rightarrow> nat \<Rightarrow> char list \<Rightarrow> bool" where
  "repr h s a xs \<longleftrightarrow>
     m_data s = Some a \<and> m_size s = length xs \<and> length xs \<le> m_capacity s \<and> m_reserve s \<le> 2 * m_capacity s + 1024 \<and>
     (\<exists>ys. blocks h a = Some (map Some xs @ Some NUL # ys) \<and> m_capacity s \<le> length xs + length ys)"

text \<open>The block \<open>a\<close> takes the place of the block at \<open>p\<close>: it is that block or a new one, and then that block is freed;
  all others are left as they are.\<close>

definition replaces :: "heap \<Rightarrow> ptr \<Rightarrow> heap \<Rightarrow> nat \<Rightarrow> bool" where
  "replaces h p h' a \<longleftrightarrow>
     heap_ok h' \<and> lim h \<le> lim h' \<and> (p = Some a \<or> lim h \<le> a \<and> (\<forall>b. p = Some b \<longrightarrow> blocks h' b = None)) \<and>
     (\<forall>b. p \<noteq> Some b \<and> b \<noteq> a \<longrightarrow> blocks h' b = blocks h b)"

definition yields :: "heap \<Rightarrow> ptr \<Rightarrow> mem_fault + heap \<times> arken_string \<Rightarrow> char list \<Rightarrow> bool" where
  "yields h p r xs \<longleftrightarrow> (\<exists>h' s' a. r = Inr (h', s') \<and> repr h' s' a xs \<and> replaces h p h' a)"

definition added :: "heap \<Rightarrow> cells \<Rightarrow> heap" where
  "added h cs = \<lparr>lim = lim h + 1, blocks = (blocks h)(lim h := Some cs)\<rparr>"

definition dropped :: "heap \<Rightarrow> nat \<Rightarrow> heap" where
  "dropped h a = h\<lparr>blocks := (blocks h)(a := None)\<rparr>"

lemma added_simps [simp]:
  "h_alloc h cs = (Some (lim h), added h cs)" "lim (added h cs) = Suc (lim h)"
  "blocks (added h cs) = (blocks h)(lim h := Some cs)" "store (added h cs) (lim h) ds = added h ds"
  by (simp_all add: h_alloc_def added_def store_def)

lemma dropped_simps [simp]:
  "blocks (dropped h a) = (blocks h)(a := None)" "lim (dropped h a) = lim h"
  "blocks h a = Some cs \<Longrightarrow> h_delete h (Some a) = Inr (dropped h a)" "h_delete h None = Inr h"
  by (simp_all add: dropped_def h_delete_def)

lemma heap_ok_simps [simp]:
  "heap_ok h \<Longrightarrow> heap_ok (added h cs)" "heap_ok h \<Longrightarrow> heap_ok (dropped h a)" "heap_ok h_empty"
  "heap_ok h \<Longrightarrow> blocks h (lim h) = None" "heap_ok h \<Longrightarrow> blocks h a = Some cs \<Longrightarrow> heap_ok (store h a ds)"
  "heap_ok h \<Longrightarrow> blocks h a = Some cs \<Longrightarrow> a \<noteq> lim h"
  by (auto simp: heap_ok_def h_empty_def not_le [symmetric])

lemma replaces_added: "heap_ok h \<Longrightarrow> replaces h None (added h cs) (lim h)"
  by (simp add: replaces_def)

lemma replaces_moved:
  "heap_ok h \<Longrightarrow> a \<noteq> lim h \<Longrightarrow> replaces h (Some a) (dropped (added h cs) a) (lim h)"
  "heap_ok h \<Longrightarrow> a \<noteq> lim h \<Longrightarrow> replaces h (Some a) (added (dropped h a) cs) (lim h)"
  by (auto simp: replaces_def)

lemma replaces_store: "heap_ok h \<Longrightarrow> blocks h a = Some cs \<Longrightarrow> replaces h (Some a) (store h a ds) a"
  by (simp add: replaces_def)

lemma repr_data: "repr h s a xs \<Longrightarrow> m_data s = Some a" "repr h s a xs \<Longrightarrow> m_size s = length xs"
  by (simp_all add: repr_def)

lemma repr_block:
  assumes "repr h s a xs"
  obtains ys where "blocks h a = Some (map Some xs @ Some NUL # ys)" "m_capacity s \<le> length xs + length ys"
    "length xs \<le> m_capacity s" "m_reserve s \<le> 2 * m_capacity s + 1024"
  using assms by (auto simp: repr_def)

text \<open>The C string at the front of the text.\<close>

lemma c_str_split: "\<exists>zs. cs @ [NUL] = c_str cs @ NUL # zs"
proof (induction cs)
  case (Cons c cs)
  then show ?case by (cases "c = NUL") (auto simp: c_str_def)
qed (simp add: c_str_def)

lemma repr_text:
  assumes "repr h s a xs"
  shows "h_text h (m_data s) = Inr (c_str xs)" "h_strlen h (m_data s) = Inr (length (c_str xs))"
    "\<exists>zs. blocks h a = Some (map Some (c_str xs @ [NUL]) @ zs)"
proof -
  obtain ys where ys: "blocks h a = Some (map Some xs @ Some NUL # ys)" using repr_block [OF assms] by metis
  then show "h_text h (m_data s) = Inr (c_str xs)" using assms by (simp add: repr_data h_text_def cells_text_eq)
  then show "h_strlen h (m_data s) = Inr (length (c_str xs))" by (simp add: h_strlen_def)
  obtain zs where "xs @ [NUL] = c_str xs @ NUL # zs" using c_str_split by blast
  then have "map Some xs @ [Some NUL] = map Some (c_str xs @ [NUL]) @ map Some zs"
    by (metis append.assoc append_Cons append_Nil list.simps(8) list.simps(9) map_append)
  then have "map Some xs @ Some NUL # ys = map Some (c_str xs @ [NUL]) @ map Some zs @ ys"
    by (metis append.assoc append_Cons append_Nil)
  then show "\<exists>zs. blocks h a = Some (map Some (c_str xs @ [NUL]) @ zs)" using ys by metis
qed

text \<open>Filling a new block from another one.\<close>

lemma copy_added:
  assumes "heap_ok h" "blocks h b = Some (map Some cs @ qs)" "length cs \<le> k"
  shows "h_copy (added h (replicate (Suc k) None)) (Some (lim h)) 0 (Some b) 0 (length cs) =
    Inr (added h (map Some cs @ None # replicate (k - length cs) None))"
proof -
  have "replicate (Suc k) None = replicate (length cs) None @ (None :: char option) # replicate (k - length cs) None"
    using assms(3) by (metis Suc_diff_le replicate_Suc replicate_add le_add_diff_inverse le_SucI)
  moreover have "b \<noteq> lim h" using assms(1,2) by simp
  ultimately show ?thesis
    using h_copy_text [of "added h (replicate (Suc k) None)" "lim h" "[]" "replicate (length cs) None" _ b "[]" cs qs]
      assms(2) by simp
qed

lemma put_added: "i = length us \<Longrightarrow> h_put (added h (us @ x # vs)) (Some (lim h)) i c = Inr (added h (us @ Some c # vs))"
  using h_put_at [of "added h (us @ x # vs)" "lim h" us x vs] by simp

lemma h_put_end: "i = length cs \<Longrightarrow> h_put (added h (map Some cs @ x # vs)) (Some (lim h)) i c = Inr (added h (map Some cs @ Some c # vs))"
  by (simp add: put_added)

lemma repr_added:
  "m_capacity s = k \<Longrightarrow> m_data s = Some (lim h) \<Longrightarrow> m_size s = length cs \<Longrightarrow> length cs \<le> k \<Longrightarrow> m_reserve s \<le> 2 * k + 1024 \<Longrightarrow>
   repr (added h (map Some cs @ Some NUL # replicate (k - length cs) x)) s (lim h) cs"
  by (simp add: repr_def)


subsection \<open>Operations\<close>

lemma yieldsI: "r = Inr (h', s') \<Longrightarrow> repr h' s' a xs \<Longrightarrow> replaces h p h' a \<Longrightarrow> yields h p r xs"
  by (auto simp: yields_def)

lemma yields_added:
  "heap_ok h \<Longrightarrow> r = Inr (added h (map Some cs @ Some NUL # replicate (k - length cs) x), s) \<Longrightarrow> m_capacity s = k \<Longrightarrow>
   m_data s = Some (lim h) \<Longrightarrow> m_size s = length cs \<Longrightarrow> length cs \<le> k \<Longrightarrow> m_reserve s \<le> 2 * k + 1024 \<Longrightarrow> yields h None r cs"
  using repr_added [of s k h cs x] replaces_added by (auto intro!: yieldsI)

lemma string_ctor_yields: "heap_ok h \<Longrightarrow> yields h None (string_ctor h) []"
  by (rule yields_added [of h _ _ 0 None "sized (Some (lim h)) 0"]) (simp_all add: string_ctor_def)

lemma string_ctor_data_yields:
  assumes "heap_ok h" "blocks h b = Some (map Some cs @ qs)"
  shows "yields h None (string_ctor_data h (Some b) (length cs)) cs"
  using assms copy_added [OF assms le_refl] 
  by (intro yields_added [where k = "length cs" and x = None and s = "sized (Some (lim h)) (length cs)"])
    (simp_all add: string_ctor_data_def h_put_end)

lemma string_ctor_copy_yields:
  assumes "heap_ok h" "repr h s a xs"
  shows "yields h None (string_ctor_copy h s) xs"
proof -
  obtain ys where ys: "blocks h a = Some (map Some xs @ Some NUL # ys)" "length xs \<le> m_capacity s"
    "m_reserve s \<le> 2 * m_capacity s + 1024" using repr_block [OF assms(2)] by metis
  show ?thesis
    using assms ys copy_added [OF assms(1) ys(1,2)]
    by (intro yields_added [where k = "m_capacity s" and x = None and s = "s\<lparr>m_data := Some (lim h)\<rparr>"]) (simp_all add: string_ctor_copy_def h_put_end repr_data)
qed

lemma strncpy_text_terminated: "NUL \<notin> set t \<Longrightarrow> strncpy_text (Suc (length t)) (t @ [NUL]) = t @ [NUL]"
  by (simp add: strncpy_text_def c_str_append)

lemma strncpy_added:
  assumes "heap_ok h" "blocks h b = Some (map Some cs @ qs)"
  shows "h_strncpy (added h (replicate (length cs) None @ vs)) False (Some (lim h)) (Some b) 0 (length cs) =
    Inr (added h (map Some (strncpy_text (length cs) cs) @ vs))"
  using h_strncpy_text [of "added h (replicate (length cs) None @ vs)" "lim h" "[]" "replicate (length cs) None" vs b "[]" cs qs]
    assms heap_ok_simps(6) [OF assms] by simp

lemma NUL_c_str [simp]: "NUL \<notin> set (c_str cs)"
  by (auto simp: c_str_def dest: set_takeWhileD)

text \<open>Copying a C string with its terminator.\<close>

lemma strncpy_cstr:
  assumes "heap_ok h" "repr h t b ys"
  shows "h_strncpy (added h (replicate (Suc (length (c_str ys))) None)) False (Some (lim h)) (m_data t) 0 (Suc (length (c_str ys))) =
    Inr (added h (map Some (c_str ys) @ [Some NUL]))"
proof -
  obtain zs where "blocks h b = Some (map Some (c_str ys @ [NUL]) @ zs)" using repr_text(3) [OF assms(2)] by blast
  with strncpy_added [OF assms(1) this, of "[]"] show ?thesis using assms(2)
    by (simp add: repr_data strncpy_text_terminated del: map_append replicate_Suc) simp
qed

lemma string_ctor_cstr_yields:
  assumes "heap_ok h" "repr h t b ys"
  shows "yields h None (string_ctor_cstr h (m_data t)) (c_str ys)"
  using assms(1) strncpy_cstr [OF assms] repr_text(2) [OF assms(2)]
  by (intro yields_added [where k = "length (c_str ys)" and x = None and s = "sized (Some (lim h)) (length (c_str ys))"]) (simp_all add: string_ctor_cstr_def)

lemma string_clear_yields:
  assumes "heap_ok h" "repr h s a xs"
  shows "yields h (Some a) (string_clear h s) []"
proof -
  obtain ys where ys: "blocks h a = Some (map Some xs @ Some NUL # ys)" using repr_block [OF assms(2)] by metis
  then have "string_clear h s = Inr (added (dropped h a) [Some NUL], \<lparr>m_data = Some (lim h), m_size = 0, m_capacity = 0, m_reserve = 1024\<rparr>)"
    using assms(2) by (simp add: string_clear_def repr_data)
  moreover have "a \<noteq> lim h" using assms(1) ys by simp
  ultimately show ?thesis
    using assms(1) replaces_moved(2) by (intro yieldsI [where a = "lim h"]) (auto simp: repr_def)
qed

lemma string_reserve_yields:
  assumes "heap_ok h" "repr h s a xs" "length xs \<le> n"
  shows "\<exists>h' s' a'. string_reserve h s n = Inr (h', s') \<and> repr h' s' a' xs \<and> replaces h (Some a) h' a' \<and> n \<le> m_capacity s'"
proof (cases "m_capacity s \<le> n")
  case False
  with assms(1,2) show ?thesis using replaces_def [of h "Some a" h a] by (auto simp: string_reserve_def)
next
  case True
  let ?k = "n + m_reserve s" and ?s = "s\<lparr>m_data := Some (lim h), m_capacity := n + m_reserve s, m_reserve := n + m_reserve s * 2\<rparr>"
  obtain ys where ys: "blocks h a = Some (map Some xs @ Some NUL # ys)" using repr_block [OF assms(2)] by metis
  have a: "a \<noteq> lim h" using assms(1) ys by simp
  have le: "length xs \<le> ?k" using assms(3) by simp
  let ?h = "added h (map Some xs @ Some NUL # replicate (?k - length xs) None)"
  have "string_reserve h s n = Inr (dropped ?h a, ?s)"
    using True copy_added [OF assms(1) ys le] assms(2) a ys by (simp add: string_reserve_def repr_data h_put_end Let_def)
  moreover have "repr ?h ?s (lim h) xs" using assms(2,3) by (intro repr_added) (simp_all add: repr_data)
  then have "repr (dropped ?h a) ?s (lim h) xs" using a by (simp add: repr_def)
  ultimately show ?thesis using replaces_moved(1) [OF assms(1) a] by (intro exI conjI) auto
qed

lemma replaces_trans:
  assumes "heap_ok h" "replaces h (Some a) h1 b" "replaces h1 (Some b) h2 b"
  shows "replaces h (Some a) h2 b"
  using assms by (auto simp: replaces_def)

text \<open>Writing behind the text, within the capacity.\<close>

lemma extend_repr:
  assumes "heap_ok h" "repr h s a xs" "length xs + length cs \<le> m_capacity s" "blocks h b = Some (map Some cs @ qs)" "b \<noteq> a"
  shows "\<exists>h'. rbind (h_copy h (Some a) (length xs) (Some b) 0 (length cs)) (\<lambda>h2. h_put h2 (Some a) (length xs + length cs) NUL) = Inr h' \<and>
    repr h' (s\<lparr>m_size := length xs + length cs\<rparr>) a (xs @ cs) \<and> replaces h (Some a) h' a"
proof -
  obtain ys where ys: "blocks h a = Some (map Some xs @ Some NUL # ys)" "m_capacity s \<le> length xs + length ys"
    using repr_block [OF assms(2)] by metis
  let ?u = "Some NUL # ys"
  have len: "length cs < length ?u" using assms(3) ys(2) by simp
  have u: "?u = take (length cs) ?u @ drop (length cs) ?u" by simp
  obtain x vs where vs: "drop (length cs) ?u = x # vs" using len by (metis Cons_nth_drop_Suc)
  have lv: "length vs = length ys - length cs" using arg_cong [OF vs, of length] by simp
  let ?h1 = "store h a (map Some xs @ map Some cs @ x # vs)"
  have "h_copy h (Some a) (length xs) (Some b) 0 (length cs) = Inr ?h1"
    using assms(4,5) ys(1) u vs len h_copy_text [of h a "map Some xs" "take (length cs) ?u" "x # vs" b "[]" cs qs] by simp
  moreover have "h_put ?h1 (Some a) (length xs + length cs) NUL = Inr (store h a (map Some (xs @ cs) @ Some NUL # vs))"
    using h_put_at [of ?h1 a "map Some xs @ map Some cs" x vs] by simp
  moreover have "repr (store h a (map Some (xs @ cs) @ Some NUL # vs)) (s\<lparr>m_size := length xs + length cs\<rparr>) a (xs @ cs)"
    using assms(2,3) ys(2) lv by (auto simp: repr_def)
  ultimately show ?thesis using replaces_store [OF assms(1) ys(1)] by simp
qed

lemma string_append_data_yields:
  assumes "heap_ok h" "repr h s a xs" "blocks h b = Some (map Some cs @ qs)" "b \<noteq> a"
  shows "yields h (Some a) (string_append_data h s (Some b) (length cs)) (xs @ cs)"
proof -
  obtain h1 s1 a1 where r: "string_reserve h s (length xs + length cs) = Inr (h1, s1)" "repr h1 s1 a1 xs"
    "replaces h (Some a) h1 a1" "length xs + length cs \<le> m_capacity s1"
    using string_reserve_yields [OF assms(1,2), of "length xs + length cs"] by auto
  have b: "b \<noteq> a1" "blocks h1 b = blocks h b" using r(3) assms by (auto simp: replaces_def heap_ok_def)
  obtain h' where "rbind (h_copy h1 (Some a1) (length xs) (Some b) 0 (length cs)) (\<lambda>h2. h_put h2 (Some a1) (length xs + length cs) NUL) = Inr h'"
    "repr h' (s1\<lparr>m_size := length xs + length cs\<rparr>) a1 (xs @ cs)" "replaces h1 (Some a1) h' a1"
    using extend_repr [OF _ r(2,4), of b qs] b assms(3) r(3) by (auto simp: replaces_def)
  moreover from this(3) have "replaces h (Some a) h' a1" using replaces_trans [OF assms(1) r(3)] by blast
  ultimately show ?thesis
    using r(1,2) assms(2) by (intro yieldsI) (auto simp: string_append_data_def repr_data rbind_eq_Inr)
qed

lemma string_append_cstr_yields:
  assumes "heap_ok h" "repr h s a xs" "repr h t b ys" "b \<noteq> a"
  shows "yields h (Some a) (string_append_cstr h s (m_data t)) (xs @ c_str ys)"
proof -
  obtain zs where "blocks h b = Some (map Some (c_str ys @ [NUL]) @ zs)" using repr_text(3) [OF assms(3)] by blast
  then have "blocks h b = Some (map Some (c_str ys) @ Some NUL # zs)" by simp
  from string_append_data_yields [OF assms(1,2) this assms(4)] show ?thesis
    using repr_text(2) [OF assms(3)] assms(3) by (simp add: string_append_cstr_def repr_data)
qed

lemma string_append_char_yields:
  assumes "heap_ok h" "repr h s a xs"
  shows "yields h (Some a) (string_append_char h s c) (xs @ [c])"
proof -
  obtain h1 s1 a1 where r: "string_reserve h s (length xs + 1) = Inr (h1, s1)" "repr h1 s1 a1 xs"
    "replaces h (Some a) h1 a1" "length xs + 1 \<le> m_capacity s1"
    using string_reserve_yields [OF assms(1,2), of "length xs + 1"] by auto
  obtain ys where ys: "blocks h1 a1 = Some (map Some xs @ Some NUL # ys)" "m_capacity s1 \<le> length xs + length ys"
    using repr_block [OF r(2)] by metis
  with r(4) obtain y zs where zs: "ys = y # zs" by (cases ys) auto
  let ?h2 = "store h1 a1 (map Some xs @ Some c # y # zs)" and ?h3 = "store h1 a1 (map Some (xs @ [c]) @ Some NUL # zs)"
  have "h_put h1 (Some a1) (length xs) c = Inr ?h2" using h_put_at [of h1 a1 "map Some xs"] ys(1) zs by simp
  moreover have "h_put ?h2 (Some a1) (length xs + 1) NUL = Inr ?h3"
    using h_put_at [of ?h2 a1 "map Some xs @ [Some c]" y zs] by simp
  ultimately have "string_append_char h s c = Inr (?h3, s1\<lparr>m_size := length xs + 1\<rparr>)"
    using r(1,2) assms(2) by (simp add: string_append_char_def repr_data)
  moreover have "repr ?h3 (s1\<lparr>m_size := length xs + 1\<rparr>) a1 (xs @ [c])" using r(2,4) ys(2) zs by (auto simp: repr_def)
  moreover have "replaces h1 (Some a1) ?h3 a1" using r(3) ys(1) by (intro replaces_store) (auto simp: replaces_def)
  ultimately show ?thesis using replaces_trans [OF assms(1) r(3)] by (auto intro: yieldsI)
qed

text \<open>A temporary \<open>std::string\<close> is gone at the end.\<close>

lemma with_std_yields:
  assumes "heap_ok h" "p \<noteq> Some (lim h)"
    and "yields (added h (map Some str @ [Some NUL])) p (f (added h (map Some str @ [Some NUL])) (Some (lim h))) xs"
  shows "yields h p (with_std h str f) xs"
proof -
  let ?h1 = "added h (map Some str @ [Some NUL])"
  from assms(3) obtain h' s' a where r: "f ?h1 (Some (lim h)) = Inr (h', s')" "repr h' s' a xs" "replaces ?h1 p h' a"
    by (auto simp: yields_def)
  have a: "a \<noteq> lim h" using r(3) assms(2) by (auto simp: replaces_def)
  with r(3) assms(2) have tmp: "blocks h' (lim h) = Some (map Some str @ [Some NUL])" by (simp add: replaces_def)
  have "with_std h str f = Inr (dropped h' (lim h), s')" using r(1) tmp by (simp add: with_std_def)
  moreover have "repr (dropped h' (lim h)) s' a xs" using r(2) a by (simp add: repr_def)
  moreover have "replaces h p (dropped h' (lim h)) a" using r(3) assms(1,2) a by (auto simp: replaces_def)
  ultimately show ?thesis by (rule yieldsI)
qed

lemma string_ctor_std_yields: "heap_ok h \<Longrightarrow> yields h None (string_ctor_std h str) str"
  unfolding string_ctor_std_def
  by (rule with_std_yields) (auto intro!: string_ctor_data_yields)

lemma repr_added_other: "heap_ok h \<Longrightarrow> repr h s a xs \<Longrightarrow> repr (added h cs) s a xs"
  by (auto simp: repr_def)

lemma string_append_std_yields:
  assumes "heap_ok h" "repr h s a xs"
  shows "yields h (Some a) (string_append_std h s str) (xs @ str)"
proof -
  have "a \<noteq> lim h" using assms by (auto elim!: repr_block)
  then show ?thesis
    unfolding string_append_std_def using assms
    by (intro with_std_yields string_append_data_yields) (auto intro: repr_added_other)
qed

lemma string_prepend_yields:
  assumes "heap_ok h" "repr h s a xs" "repr h t b ys"
  shows "yields h (Some a) (string_prepend h s (m_data t)) (c_str ys @ xs)"
proof -
  define t' where "t' = c_str ys"
  let ?k = "length xs + length t' + m_reserve s"
  obtain zs where "blocks h b = Some (map Some (t' @ [NUL]) @ zs)" using repr_text(3) [OF assms(3)] unfolding t'_def by blast
  then have zs: "blocks h b = Some (map Some t' @ Some NUL # zs)" by simp
  obtain us where us: "blocks h a = Some (map Some xs @ Some NUL # us)" using repr_block [OF assms(2)] by metis
  have a: "a \<noteq> lim h" using assms(1) us by simp
  let ?r = "replicate (m_reserve s) None"
  let ?h2 = "added h (map Some t' @ None # replicate (length xs) None @ ?r)"
  have "h_copy (added h (replicate (Suc ?k) None)) (Some (lim h)) 0 (Some b) 0 (length t') = Inr ?h2"
    using copy_added [OF assms(1) zs, of ?k] by (simp add: replicate_add [symmetric])
  moreover have "h_copy ?h2 (Some (lim h)) (length t') (Some a) 0 (length xs) = Inr (added h (map Some (t' @ xs) @ None # ?r))"
  proof -
    have "None # replicate (length xs) None @ ?r = replicate (length xs) None @ None # ?r"
      by (metis append_Cons replicate_append_same append.assoc append_Nil)
    then show ?thesis
      using h_copy_text [of ?h2 "lim h" "map Some t'" "replicate (length xs) None" "None # ?r" a "[]" xs "Some NUL # us"
          "length t'" 0 "length xs"] us a by simp
  qed
  moreover have "h_put (dropped (added h (map Some (t' @ xs) @ None # ?r)) a) (Some (lim h)) (length t' + length xs) NUL =
      Inr (dropped (added h (map Some (t' @ xs) @ Some NUL # ?r)) a)"
  proof -
    have "store (dropped (added h cs) a) (lim h) ds = dropped (added h ds) a" for cs ds
      using a by (simp add: store_def dropped_def added_def fun_upd_twist)
    then show ?thesis
      using h_put_at [of "dropped (added h (map Some (t' @ xs) @ None # ?r)) a" "lim h" "map Some (t' @ xs)" None ?r] a by simp
  qed
  ultimately have "string_prepend h s (m_data t) = Inr (dropped (added h (map Some (t' @ xs) @ Some NUL # ?r)) a,
      s\<lparr>m_data := Some (lim h), m_size := length t' + length xs, m_capacity := ?k\<rparr>)"
    using repr_text(2) [OF assms(3), folded t'_def] assms(2,3) us a
    by (simp add: string_prepend_def repr_data Let_def add.commute add.left_commute)
  moreover have "repr (dropped (added h (map Some (t' @ xs) @ Some NUL # ?r)) a)
      (s\<lparr>m_data := Some (lim h), m_size := length t' + length xs, m_capacity := ?k\<rparr>) (lim h) (t' @ xs)"
    using assms(2) a by (simp add: repr_def)
  ultimately show ?thesis unfolding t'_def [symmetric] using replaces_moved(1) [OF assms(1) a] by (rule yieldsI)
qed

text \<open>Assignment frees the old block first: the source has to be another one.\<close>

lemma yields_dropped:
  "heap_ok h \<Longrightarrow> blocks h a = Some cs \<Longrightarrow> yields (dropped h a) None r xs \<Longrightarrow> yields h (Some a) r xs"
  unfolding yields_def replaces_def by (auto; metis)

lemma repr_frame: "blocks h' a = blocks h a \<Longrightarrow> repr h s a xs \<Longrightarrow> repr h' s a xs"
  by (simp add: repr_def)

definition freed :: "heap \<Rightarrow> ptr \<Rightarrow> heap" where
  "freed h p = (case p of None \<Rightarrow> h | Some a \<Rightarrow> dropped h a)"

lemma freed_delete:
  assumes "heap_ok h" "\<And>a. p = Some a \<Longrightarrow> \<exists>cs. blocks h a = Some cs"
  shows "h_delete h p = Inr (freed h p)" "heap_ok (freed h p)" "yields (freed h p) None r xs \<Longrightarrow> yields h p r xs"
    "p \<noteq> Some b \<Longrightarrow> repr h t b ys \<Longrightarrow> repr (freed h p) t b ys"
  using assms yields_dropped [of h] repr_frame [of "freed h p" b h t ys]
  by (auto simp: freed_def split: option.splits)

lemma string_assign_yields:
  assumes "heap_ok h" "\<And>a. m_data s = Some a \<Longrightarrow> \<exists>cs. blocks h a = Some cs" "repr h t b ys" "m_data s \<noteq> Some b"
  shows "yields h (m_data s) (string_assign h s t) (strncpy_text (length ys) ys)"
proof (rule freed_delete(3) [OF assms(1,2)])
  let ?h = "freed h (m_data s)"
  note f = freed_delete [OF assms(1,2)]
  have t: "repr ?h t b ys" using f(4) [OF _ assms(4,3)] by blast
  obtain zs where zs: "blocks ?h b = Some (map Some ys @ Some NUL # zs)" using repr_block [OF t] by metis
  have len: "length (strncpy_text (length ys) ys) = length ys" by (simp add: strncpy_text_def length_c_str)
  have ok: "heap_ok ?h" using f(2) by blast
  have "string_assign h s t = Inr (added ?h (map Some (strncpy_text (length ys) ys) @ [Some NUL]),
      \<lparr>m_data = Some (lim ?h), m_size = length ys, m_capacity = length ys, m_reserve = 1024\<rparr>)"
    using f(1) strncpy_added [OF ok zs, of "[None]"] t len
    by (simp add: string_assign_def repr_data replicate_append_same [symmetric] h_put_end del: replicate_append_same)
  then show "yields ?h None (string_assign h s t) (strncpy_text (length ys) ys)"
    by (intro yields_added [where k = "length ys" and x = None, OF ok]) (simp_all add: len, simp_all)
qed

lemma string_assign_cstr_yields:
  assumes "heap_ok h" "\<And>a. m_data s = Some a \<Longrightarrow> \<exists>cs. blocks h a = Some cs" "repr h t b ys" "m_data s \<noteq> Some b"
  shows "yields h (m_data s) (string_assign_cstr h s (m_data t)) (c_str ys)"
proof (rule freed_delete(3) [OF assms(1,2)])
  let ?h = "freed h (m_data s)"
  note f = freed_delete [OF assms(1,2)]
  have t: "repr ?h t b ys" using f(4) [OF _ assms(4,3)] by blast
  have ok: "heap_ok ?h" using f(2) by blast
  have "string_assign_cstr h s (m_data t) = Inr (added ?h (map Some (c_str ys) @ [Some NUL]),
      \<lparr>m_data = Some (lim ?h), m_size = length (c_str ys), m_capacity = length (c_str ys), m_reserve = 1024\<rparr>)"
    using f(1) strncpy_cstr [OF ok t] repr_text(2) [OF t] by (simp add: string_assign_cstr_def)
  then show "yields ?h None (string_assign_cstr h s (m_data t)) (c_str ys)"
    by (intro yields_added [where k = "length (c_str ys)" and x = None, OF ok]) (simp_all, simp_all)
qed

lemma text_method_yields:
  assumes "heap_ok h" "repr h s a xs" "f (c_str xs) = Inr r"
  shows "yields h None (text_method h s f) (c_str r)"
proof -
  let ?h = "added h (map Some r @ [Some NUL])" and ?s = "sized (Some (lim h)) (length (c_str r))"
  have "h_strlen ?h (Some (lim h)) = Inr (length (c_str r))" by (simp add: h_strlen_def h_text_def cells_text_eq)
  then have "text_method h s f = Inr (?h, ?s)"
    using repr_text(1) [OF assms(2)] assms(3) by (simp add: text_method_def string_ctor_adopt_def)
  moreover have "repr ?h ?s (lim h) (c_str r)"
  proof -
    obtain zs where zs: "r @ [NUL] = c_str r @ NUL # zs" using c_str_split by blast
    then have "map Some r @ [Some NUL] = map Some (c_str r) @ Some NUL # map Some zs"
      by (metis list.simps(8,9) map_append)
    then show ?thesis by (auto simp: repr_def)
  qed
  ultimately show ?thesis using replaces_added [OF assms(1)] by (rule yieldsI)
qed

text \<open>The characters that the methods with \<open>m_size\<close> see.\<close>

lemma string_bytes_eq: "repr h s a xs \<Longrightarrow> string_bytes h s = Inr xs"
proof -
  assume r: "repr h s a xs"
  obtain ys where "blocks h a = Some (map Some xs @ Some NUL # ys)" using repr_block [OF r] by metis
  then have "i < length xs \<Longrightarrow> h_get h (Some a) i = Inr (xs ! i)" for i by (simp add: h_get_def nth_append)
  then have "map_res (h_get h (Some a)) [0..<length xs] = Inr (map ((!) xs) [0..<length xs])" by (intro map_res_Inr) simp
  then show ?thesis using r by (simp add: string_bytes_def repr_data map_nth)
qed


subsection \<open>Programs with strings\<close>

text \<open>Objects in variables, and the operations of a program on them: constructing in a new variable from nothing, a
  \<open>std::string\<close>, the characters of another object, a copy, a move or the result of a method; changing the object
  of a variable; and destroying it.\<close>

record pool =
  mem :: heap
  objs :: "nat \<Rightarrow> arken_string option"

datatype string_op =
    New nat | New_std nat "char list" | New_cstr nat nat | New_copy nat nat | New_move nat nat
  | New_method nat nat "char list \<Rightarrow> str_fault + char list"
  | Append nat nat | Append_char nat char | Append_std nat "char list" | Prepend nat nat | Clear nat | Reserve nat nat
  | Assign nat nat | Assign_cstr nat nat | Assign_move nat nat | Delete nat

definition obj :: "pool \<Rightarrow> nat \<Rightarrow> mem_fault + arken_string" where
  "obj P x = (case objs P x of None \<Rightarrow> Inl Null_pointer | Some s \<Rightarrow> Inr s)"

definition into :: "pool \<Rightarrow> nat \<Rightarrow> mem_fault + heap \<times> arken_string \<Rightarrow> mem_fault + pool" where
  "into P x r = rbind r (\<lambda>(h, s). Inr (P\<lparr>mem := h, objs := (objs P)(x := Some s)\<rparr>))"

fun run :: "string_op \<Rightarrow> pool \<Rightarrow> mem_fault + pool" where
  "run (New x) P = into P x (string_ctor (mem P))"
| "run (New_std x cs) P = into P x (string_ctor_std (mem P) cs)"
| "run (New_cstr x y) P = rbind (obj P y) (\<lambda>t. into P x (string_ctor_cstr (mem P) (m_data t)))"
| "run (New_copy x y) P = rbind (obj P y) (\<lambda>t. into P x (string_ctor_copy (mem P) t))"
| "run (New_move x y) P =
     rbind (obj P y) (\<lambda>t. let (s, t') = string_ctor_move t in Inr (P\<lparr>objs := (objs P)(x := Some s, y := Some t')\<rparr>))"
| "run (New_method x y f) P = rbind (obj P y) (\<lambda>t. into P x (text_method (mem P) t f))"
| "run (Append x y) P =
     rbind (obj P x) (\<lambda>s. rbind (obj P y) (\<lambda>t. into P x (string_append_cstr (mem P) s (m_data t))))"
| "run (Append_char x c) P = rbind (obj P x) (\<lambda>s. into P x (string_append_char (mem P) s c))"
| "run (Append_std x cs) P = rbind (obj P x) (\<lambda>s. into P x (string_append_std (mem P) s cs))"
| "run (Prepend x y) P =
     rbind (obj P x) (\<lambda>s. rbind (obj P y) (\<lambda>t. into P x (string_prepend (mem P) s (m_data t))))"
| "run (Clear x) P = rbind (obj P x) (\<lambda>s. into P x (string_clear (mem P) s))"
| "run (Reserve x n) P = rbind (obj P x) (\<lambda>s. into P x (string_reserve (mem P) s n))"
| "run (Assign x y) P = rbind (obj P x) (\<lambda>s. rbind (obj P y) (\<lambda>t. into P x (string_assign (mem P) s t)))"
| "run (Assign_cstr x y) P =
     rbind (obj P x) (\<lambda>s. rbind (obj P y) (\<lambda>t. into P x (string_assign_cstr (mem P) s (m_data t))))"
| "run (Assign_move x y) P =
     rbind (obj P x) (\<lambda>s. rbind (obj P y) (\<lambda>t. rbind (string_assign_move (mem P) s t) (\<lambda>(h, s', t').
       Inr (P\<lparr>mem := h, objs := (objs P)(x := Some s', y := Some t')\<rparr>))))"
| "run (Delete x) P =
     rbind (obj P x) (\<lambda>s. rbind (string_dtor (mem P) s) (\<lambda>h. Inr (P\<lparr>mem := h, objs := (objs P)(x := None)\<rparr>)))"

text \<open>The specification: a variable holds a list of characters, or nothing after a move. \<open>None\<close> marks the programs that C++
  or the class gives no meaning: using a variable that holds nothing, and appending or assigning an object to itself.\<close>

type_synonym texts = "nat \<Rightarrow> char list option option"

definition put_new :: "texts \<Rightarrow> nat \<Rightarrow> char list option \<Rightarrow> texts option" where
  "put_new A x v = (if A x = None then Some (A(x := Some v)) else None)"

definition change :: "texts \<Rightarrow> nat \<Rightarrow> (char list \<Rightarrow> char list) \<Rightarrow> texts option" where
  "change A x f = (case A x of Some (Some xs) \<Rightarrow> Some (A(x := Some (Some (f xs)))) | _ \<Rightarrow> None)"

definition from_text :: "texts \<Rightarrow> nat \<Rightarrow> (char list \<Rightarrow> texts option) \<Rightarrow> texts option" where
  "from_text A y f = (case A y of Some (Some ys) \<Rightarrow> f ys | _ \<Rightarrow> None)"

fun spec :: "string_op \<Rightarrow> texts \<Rightarrow> texts option" where
  "spec (New x) A = put_new A x (Some [])"
| "spec (New_std x cs) A = put_new A x (Some cs)"
| "spec (New_cstr x y) A = from_text A y (\<lambda>ys. put_new A x (Some (c_str ys)))"
| "spec (New_copy x y) A = from_text A y (\<lambda>ys. put_new A x (Some ys))"
| "spec (New_move x y) A = (case A y of None \<Rightarrow> None | Some v \<Rightarrow> if A x = None then Some (A(x := Some v, y := Some None)) else None)"
| "spec (New_method x y f) A =
     from_text A y (\<lambda>ys. case f (c_str ys) of Inl _ \<Rightarrow> None | Inr r \<Rightarrow> put_new A x (Some (c_str r)))"
| "spec (Append x y) A = (if x = y then None else from_text A y (\<lambda>ys. change A x (\<lambda>xs. xs @ c_str ys)))"
| "spec (Append_char x c) A = change A x (\<lambda>xs. xs @ [c])"
| "spec (Append_std x cs) A = change A x (\<lambda>xs. xs @ cs)"
| "spec (Prepend x y) A = from_text A y (\<lambda>ys. change A x (\<lambda>xs. c_str ys @ xs))"
| "spec (Clear x) A = change A x (\<lambda>_. [])"
| "spec (Reserve x n) A = from_text A x (\<lambda>xs. if length xs \<le> n then Some A else None)"
| "spec (Assign x y) A =
     (if x = y \<or> A x = None then None else from_text A y (\<lambda>ys. Some (A(x := Some (Some (strncpy_text (length ys) ys))))))"
| "spec (Assign_cstr x y) A = (if x = y \<or> A x = None then None else from_text A y (\<lambda>ys. Some (A(x := Some (Some (c_str ys))))))"
| "spec (Assign_move x y) A =
     (if x = y \<or> A x = None then None else case A y of None \<Rightarrow> None | Some v \<Rightarrow> Some (A(x := Some v, y := Some None)))"
| "spec (Delete x) A = (if A x = None then None else Some (A(x := None)))"


subsection \<open>Simulation\<close>

text \<open>The memory of a program: each object holds the text of the specification in a block of its own, and every
  block belongs to an object.\<close>

definition holds_text :: "heap \<Rightarrow> arken_string \<Rightarrow> char list option \<Rightarrow> bool" where
  "holds_text h s v \<longleftrightarrow> (case m_data s of None \<Rightarrow> v = None | Some a \<Rightarrow> \<exists>xs. v = Some xs \<and> repr h s a xs)"

definition own_data :: "pool \<Rightarrow> nat \<Rightarrow> ptr" where
  "own_data P x = (case objs P x of None \<Rightarrow> None | Some s \<Rightarrow> m_data s)"

definition sim :: "pool \<Rightarrow> texts \<Rightarrow> bool" where
  "sim P A \<longleftrightarrow> heap_ok (mem P) \<and> (\<forall>x. rel_option (holds_text (mem P)) (objs P x) (A x)) \<and>
     (\<forall>x y a. own_data P x = Some a \<and> own_data P y = Some a \<longrightarrow> x = y) \<and>
     (\<forall>a cs. blocks (mem P) a = Some cs \<longrightarrow> (\<exists>x. own_data P x = Some a))"

lemma simD:
  assumes "sim P A"
  shows "heap_ok (mem P)" "rel_option (holds_text (mem P)) (objs P x) (A x)"
    "own_data P x = Some a \<Longrightarrow> own_data P y = Some a \<Longrightarrow> x = y"
    "blocks (mem P) a = Some cs \<Longrightarrow> \<exists>x. own_data P x = Some a"
  using assms unfolding sim_def by blast+

lemma sim_obj:
  assumes "sim P A" "A x = Some v"
  obtains s where "obj P x = Inr s" "objs P x = Some s" "own_data P x = m_data s" "holds_text (mem P) s v"
  using simD(2) [OF assms(1), of x] assms(2) by (auto simp: option_rel_Some2 obj_def own_data_def)

lemma sim_new: "sim P A \<Longrightarrow> A x = None \<Longrightarrow> objs P x = None \<and> own_data P x = None"
  using simD(2) [of P A x] by (auto simp: own_data_def)

lemma holds_text_Some: "holds_text h s (Some xs) \<Longrightarrow> \<exists>a. m_data s = Some a \<and> repr h s a xs"
  by (auto simp: holds_text_def split: option.splits)

lemma holds_text_frame:
  "holds_text h s v \<Longrightarrow> (\<And>a. m_data s = Some a \<Longrightarrow> blocks h' a = blocks h a) \<Longrightarrow> holds_text h' s v"
  by (auto simp: holds_text_def intro: repr_frame split: option.splits)

lemma rel_holds_frame:
  assumes "rel_option (holds_text h) (objs P y) v" "\<And>a. own_data P y = Some a \<Longrightarrow> blocks h' a = blocks h a"
  shows "rel_option (holds_text h') (objs P y) v"
proof (cases "objs P y")
  case (Some t)
  with assms(1) obtain w where w: "v = Some w" "holds_text h t w" by (auto simp: option_rel_Some1)
  have "holds_text h' t w" by (rule holds_text_frame [OF w(2)]) (use assms(2) Some in \<open>simp add: own_data_def\<close>)
  then show ?thesis using Some w(1) by simp
qed (use assms(1) in simp)

lemma holds_text_block: "holds_text h s v \<Longrightarrow> m_data s = Some a \<Longrightarrow> \<exists>cs. blocks h a = Some cs"
  by (auto simp: holds_text_def repr_def)

lemma sim_repr:
  assumes "sim P A" "A x = Some (Some xs)"
  obtains s a where "obj P x = Inr s" "own_data P x = Some a" "m_data s = Some a" "repr (mem P) s a xs"
  using sim_obj [OF assms] holds_text_Some by metis

lemma sim_own_block: "sim P A \<Longrightarrow> own_data P x = Some a \<Longrightarrow> \<exists>cs. blocks (mem P) a = Some cs"
  using simD(2) [of P A x] holds_text_block by (auto simp: own_data_def option_rel_Some1 split: option.splits)

text \<open>An operation on one object leaves the others alone.\<close>

lemma sim_others:
  assumes "sim P A" "replaces (mem P) (own_data P x) h a" "own_data P y = Some b" "y \<noteq> x"
  shows "b \<noteq> a" "blocks h b = blocks (mem P) b"
proof -
  have "\<not> lim (mem P) \<le> b" using simD(1) [OF assms(1)] sim_own_block [OF assms(1,3)] by (auto simp: heap_ok_def)
  moreover have "own_data P x \<noteq> Some b" using simD(3) [OF assms(1)] assms(3,4) by blast
  ultimately show "b \<noteq> a" "blocks h b = blocks (mem P) b" using assms(2) by (auto simp: replaces_def)
qed

lemma own_data_upd [simp]:
  "own_data (P\<lparr>mem := h, objs := (objs P)(x := Some s)\<rparr>) y = (if y = x then m_data s else own_data P y)"
  by (simp add: own_data_def)

lemma sim_into:
  assumes "sim P A" "yields (mem P) (own_data P x) r xs"
  shows "\<exists>P'. into P x r = Inr P' \<and> sim P' (A(x := Some (Some xs)))"
proof -
  from assms(2) obtain h s a where r: "r = Inr (h, s)" "repr h s a xs" "replaces (mem P) (own_data P x) h a"
    by (auto simp: yields_def)
  note others = sim_others [OF assms(1) r(3)] and s = repr_data(1) [OF r(2)]
  let ?P = "P\<lparr>mem := h, objs := (objs P)(x := Some s)\<rparr>"
  have "sim ?P (A(x := Some (Some xs)))"
    unfolding sim_def
  proof (intro conjI allI impI, goal_cases)
    case 1
    then show ?case using r(3) by (simp add: replaces_def)
  next
    case (2 y)
    have "holds_text h s (Some xs)" using r(2) s by (simp add: holds_text_def)
    moreover have "rel_option (holds_text h) (objs P y) (A y)" if "y \<noteq> x"
      using simD(2) [OF assms(1), of y] others(2) [OF _ that] by (rule rel_holds_frame)
    ultimately show ?case by simp
  next
    case (3 y z b)
    then show ?case using simD(3) [OF assms(1)] others(1) [of y b] others(1) [of z b] s by (auto split: if_splits)
  next
    case (4 b cs)
    show ?case
    proof (cases "b = a")
      case True
      then show ?thesis using s by auto
    next
      case False
      with 4 r(3) have b: "own_data P x \<noteq> Some b" by (auto simp: replaces_def)
      with 4 r(3) False have "blocks (mem P) b = Some cs" by (simp add: replaces_def)
      then obtain y where "own_data P y = Some b" using simD(4) [OF assms(1)] by blast
      with b show ?thesis by (intro exI [of _ y]) auto
    qed
  qed
  with r(1) show ?thesis by (simp add: into_def)
qed

lemma sim_change:
  assumes "sim P A" "change A x f = Some A'"
    and "\<And>s a xs. repr (mem P) s a xs \<Longrightarrow> own_data P x = Some a \<Longrightarrow> yields (mem P) (Some a) (r s) (f xs)"
  shows "\<exists>P'. rbind (obj P x) (\<lambda>s. into P x (r s)) = Inr P' \<and> sim P' A'"
proof -
  from assms(2) obtain xs where xs: "A x = Some (Some xs)" "A' = A(x := Some (Some (f xs)))"
    by (auto simp: change_def split: option.splits)
  then obtain s a where s: "obj P x = Inr s" "own_data P x = Some a" "repr (mem P) s a xs" using sim_repr [OF assms(1)] by metis
  with assms(3) have "yields (mem P) (own_data P x) (r s) (f xs)" by simp
  from sim_into [OF assms(1) this] s(1) xs(2) show ?thesis by simp
qed

lemma sim_put_new:
  assumes "sim P A" "put_new A x (Some xs) = Some A'" "yields (mem P) None r xs"
  shows "\<exists>P'. into P x r = Inr P' \<and> sim P' A'"
proof -
  from assms(2) have "A x = None" "A' = A(x := Some (Some xs))" by (auto simp: put_new_def split: if_splits)
  with sim_into [OF assms(1), of x r xs] sim_new [OF assms(1)] assms(3) show ?thesis by simp
qed

text \<open>Freeing the block of an object, and handing it to another one.\<close>

lemma freed_simps [simp]:
  "blocks (freed h p) a = (if p = Some a then None else blocks h a)" "lim (freed h p) = lim h"
  by (auto simp: freed_def split: option.splits)

lemma own_data_free [simp]:
  "own_data (P\<lparr>mem := h, objs := (objs P)(x := None)\<rparr>) y = (if y = x then None else own_data P y)"
  "own_data (P\<lparr>mem := h, objs := (objs P)(x := Some s, z := Some t)\<rparr>) y =
     (if y = z then m_data t else if y = x then m_data s else own_data P y)"
  by (simp_all add: own_data_def)

lemma sim_freed_other:
  assumes "sim P A" "y \<noteq> x"
  shows "rel_option (holds_text (freed (mem P) (own_data P x))) (objs P y) (A y)"
proof (rule rel_holds_frame [OF simD(2) [OF assms(1)]])
  fix a
  assume "own_data P y = Some a"
  with simD(3) [OF assms(1), of x a y] assms(2) show "blocks (freed (mem P) (own_data P x)) a = blocks (mem P) a" by auto
qed

lemma sim_delete:
  assumes "sim P A"
  shows "sim (P\<lparr>mem := freed (mem P) (own_data P x), objs := (objs P)(x := None)\<rparr>) (A(x := None))"
  unfolding sim_def
proof (intro conjI allI impI, goal_cases)
  case 1
  then show ?case using simD(1) [OF assms] by (simp add: heap_ok_def)
next
  case (2 y)
  then show ?case using sim_freed_other [OF assms, of y x] by auto
next
  case (3 y z a)
  then show ?case using simD(3) [OF assms] by (auto split: if_splits)
next
  case (4 a cs)
  then show ?case using simD(4) [OF assms, of a] by (auto split: if_splits; metis)
qed

lemma repr_sized: "repr h t a ys \<Longrightarrow> repr h (sized (Some a) (length ys)) a ys"
  by (auto simp: repr_def)

lemma sim_move:
  assumes "sim P A" "objs P y = Some t" "A y = Some v" "x \<noteq> y"
  shows "sim (P\<lparr>mem := freed (mem P) (own_data P x),
      objs := (objs P)(x := Some (sized (m_data t) (m_size t)), y := Some (t\<lparr>m_data := None\<rparr>))\<rparr>) (A(x := Some v, y := Some None))"
    (is "sim ?P ?A")
  unfolding sim_def
proof (intro conjI allI impI, goal_cases)
  case 1
  then show ?case using simD(1) [OF assms(1)] by (simp add: heap_ok_def)
next
  case (2 z)
  have "holds_text (freed (mem P) (own_data P x)) t v"
    using sim_freed_other [OF assms(1), of y x] assms(2-4) by simp
  then have "holds_text (freed (mem P) (own_data P x)) (sized (m_data t) (m_size t)) v"
    by (auto simp: holds_text_def repr_data intro: repr_sized split: option.splits)
  moreover have "holds_text h (t\<lparr>m_data := None\<rparr>) None" for h by (simp add: holds_text_def)
  ultimately show ?case using sim_freed_other [OF assms(1), of z x] assms(4) by auto
next
  case (3 z w a)
  have "own_data P y = m_data t" using assms(2) by (simp add: own_data_def)
  with 3 show ?case using simD(3) [OF assms(1)] assms(4) by (auto split: if_splits)
next
  case (4 a cs)
  then have a: "own_data P x \<noteq> Some a" "blocks (mem P) a = Some cs" by (auto split: if_splits)
  then obtain z where z: "own_data P z = Some a" using simD(4) [OF assms(1)] by blast
  with a(1) assms(2) show ?case
    by (intro exI [of _ "if z = y then x else z"]) (auto simp: assms(4) own_data_def)
qed

text \<open>One operation. The specification gives the guard under which nothing can go wrong.\<close>

lemma run_new:
  assumes "sim P A" "from_text A y g = Some A'"
    and "\<And>t b ys. A y = Some (Some ys) \<Longrightarrow> g ys = Some A' \<Longrightarrow> repr (mem P) t b ys \<Longrightarrow> own_data P y = Some b \<Longrightarrow> obj P y = Inr t \<Longrightarrow>
      \<exists>P'. f t = Inr P' \<and> sim P' A'"
  shows "\<exists>P'. rbind (obj P y) f = Inr P' \<and> sim P' A'"
proof -
  from assms(2) obtain ys where ys: "A y = Some (Some ys)" "g ys = Some A'" by (auto simp: from_text_def split: option.splits)
  then obtain t b where "obj P y = Inr t" "own_data P y = Some b" "repr (mem P) t b ys" using sim_repr [OF assms(1)] by metis
  with assms(3) [OF ys] show ?thesis by simp
qed

lemma yields_reserve: "heap_ok h \<Longrightarrow> repr h s a xs \<Longrightarrow> length xs \<le> n \<Longrightarrow> yields h (Some a) (string_reserve h s n) xs"
  using string_reserve_yields [of h s a xs n] by (auto intro: yieldsI)

lemma run_new_ops:
  assumes "sim P A"
  shows "spec (New x) A = Some A' \<Longrightarrow> \<exists>P'. run (New x) P = Inr P' \<and> sim P' A'"
    "spec (New_std x cs) A = Some A' \<Longrightarrow> \<exists>P'. run (New_std x cs) P = Inr P' \<and> sim P' A'"
    "spec (New_cstr x y) A = Some A' \<Longrightarrow> \<exists>P'. run (New_cstr x y) P = Inr P' \<and> sim P' A'"
    "spec (New_copy x y) A = Some A' \<Longrightarrow> \<exists>P'. run (New_copy x y) P = Inr P' \<and> sim P' A'"
    "spec (New_method x y f) A = Some A' \<Longrightarrow> \<exists>P'. run (New_method x y f) P = Inr P' \<and> sim P' A'"
proof -
  note ok = simD(1) [OF assms] and new = sim_put_new [OF assms]
  show "spec (New x) A = Some A' \<Longrightarrow> \<exists>P'. run (New x) P = Inr P' \<and> sim P' A'"
    using new string_ctor_yields [OF ok] by simp
  show "spec (New_std x cs) A = Some A' \<Longrightarrow> \<exists>P'. run (New_std x cs) P = Inr P' \<and> sim P' A'"
    using new string_ctor_std_yields [OF ok] by simp
  show "spec (New_cstr x y) A = Some A' \<Longrightarrow> \<exists>P'. run (New_cstr x y) P = Inr P' \<and> sim P' A'"
    unfolding spec.simps run.simps by (erule run_new [OF assms]) (rule new, assumption, rule string_ctor_cstr_yields [OF ok])
  show "spec (New_copy x y) A = Some A' \<Longrightarrow> \<exists>P'. run (New_copy x y) P = Inr P' \<and> sim P' A'"
    unfolding spec.simps run.simps by (erule run_new [OF assms]) (rule new, assumption, rule string_ctor_copy_yields [OF ok])
  show "spec (New_method x y f) A = Some A' \<Longrightarrow> \<exists>P'. run (New_method x y f) P = Inr P' \<and> sim P' A'"
    unfolding spec.simps run.simps
  proof (erule run_new [OF assms])
    fix t b ys
    assume "(case f (c_str ys) of Inl x \<Rightarrow> None | Inr r \<Rightarrow> put_new A x (Some (c_str r))) = Some A'" "repr (mem P) t b ys"
    then show "\<exists>P'. into P x (text_method (mem P) t f) = Inr P' \<and> sim P' A'"
      using new text_method_yields [OF ok] by (auto split: sum.splits)
  qed
qed

lemma run_change_ops:
  assumes "sim P A"
  shows "spec (Append x y) A = Some A' \<Longrightarrow> \<exists>P'. run (Append x y) P = Inr P' \<and> sim P' A'"
    "spec (Append_char x c) A = Some A' \<Longrightarrow> \<exists>P'. run (Append_char x c) P = Inr P' \<and> sim P' A'"
    "spec (Append_std x cs) A = Some A' \<Longrightarrow> \<exists>P'. run (Append_std x cs) P = Inr P' \<and> sim P' A'"
    "spec (Prepend x y) A = Some A' \<Longrightarrow> \<exists>P'. run (Prepend x y) P = Inr P' \<and> sim P' A'"
    "spec (Clear x) A = Some A' \<Longrightarrow> \<exists>P'. run (Clear x) P = Inr P' \<and> sim P' A'"
    "spec (Reserve x n) A = Some A' \<Longrightarrow> \<exists>P'. run (Reserve x n) P = Inr P' \<and> sim P' A'"
proof -
  note ok = simD(1) [OF assms] and change = sim_change [OF assms]
  have swap: "rbind (obj P x) (\<lambda>s. rbind (obj P y) (f s)) = rbind (obj P y) (\<lambda>t. rbind (obj P x) (\<lambda>s. f s t))"
    if "obj P y = Inr t" for f :: "arken_string \<Rightarrow> arken_string \<Rightarrow> mem_fault + pool" and t using that by simp
  show "\<exists>P'. run (Append x y) P = Inr P' \<and> sim P' A'" if "spec (Append x y) A = Some A'"
  proof -
    from that have xy: "x \<noteq> y" and ft: "from_text A y (\<lambda>ys. change A x (\<lambda>xs. xs @ c_str ys)) = Some A'" by (auto split: if_splits)
    have "\<exists>P'. rbind (obj P y) (\<lambda>t. rbind (obj P x) (\<lambda>s. into P x (string_append_cstr (mem P) s (m_data t)))) = Inr P' \<and> sim P' A'"
      using ft
    proof (rule run_new [OF assms])
      fix t b ys
      assume t: "change A x (\<lambda>xs. xs @ c_str ys) = Some A'" "repr (mem P) t b ys" "own_data P y = Some b"
      show "\<exists>P'. rbind (obj P x) (\<lambda>s. into P x (string_append_cstr (mem P) s (m_data t))) = Inr P' \<and> sim P' A'"
        using t(1) by (rule change) (use t(2,3) xy simD(3) [OF assms, of y b x] string_append_cstr_yields [OF ok] in blast)
    qed
    moreover obtain t where "obj P y = Inr t" using ft sim_repr [OF assms, of y] by (auto simp: from_text_def split: option.splits)
    ultimately show ?thesis by (simp add: swap)
  qed
  show "\<exists>P'. run (Prepend x y) P = Inr P' \<and> sim P' A'" if "spec (Prepend x y) A = Some A'"
  proof -
    from that have ft: "from_text A y (\<lambda>ys. change A x (\<lambda>xs. c_str ys @ xs)) = Some A'" by simp
    have "\<exists>P'. rbind (obj P y) (\<lambda>t. rbind (obj P x) (\<lambda>s. into P x (string_prepend (mem P) s (m_data t)))) = Inr P' \<and> sim P' A'"
      using ft by (rule run_new [OF assms]) (erule change, erule string_prepend_yields [OF ok])
    moreover obtain t where "obj P y = Inr t" using ft sim_repr [OF assms, of y] by (auto simp: from_text_def split: option.splits)
    ultimately show ?thesis by (simp add: swap)
  qed
  show "spec (Append_char x c) A = Some A' \<Longrightarrow> \<exists>P'. run (Append_char x c) P = Inr P' \<and> sim P' A'"
    unfolding spec.simps run.simps by (erule change) (rule string_append_char_yields [OF ok])
  show "spec (Append_std x cs) A = Some A' \<Longrightarrow> \<exists>P'. run (Append_std x cs) P = Inr P' \<and> sim P' A'"
    unfolding spec.simps run.simps by (erule change) (rule string_append_std_yields [OF ok])
  show "spec (Clear x) A = Some A' \<Longrightarrow> \<exists>P'. run (Clear x) P = Inr P' \<and> sim P' A'"
    unfolding spec.simps run.simps by (erule change) (rule string_clear_yields [OF ok])
  show "spec (Reserve x n) A = Some A' \<Longrightarrow> \<exists>P'. run (Reserve x n) P = Inr P' \<and> sim P' A'"
    unfolding spec.simps run.simps
  proof (erule run_new [OF assms])
    fix s a xs
    assume s: "A x = Some (Some xs)" "(if length xs \<le> n then Some A else None) = Some A'" "repr (mem P) s a xs" "own_data P x = Some a"
    then have "yields (mem P) (own_data P x) (string_reserve (mem P) s n) xs"
      using yields_reserve [OF ok] by (simp split: if_splits)
    moreover have "A' = A(x := Some (Some xs))" using s(1,2) by (auto split: if_splits)
    ultimately show "\<exists>P'. into P x (string_reserve (mem P) s n) = Inr P' \<and> sim P' A'" using sim_into [OF assms] by simp
  qed
qed

lemma run_assign_ops:
  assumes "sim P A"
  shows "spec (Assign x y) A = Some A' \<Longrightarrow> \<exists>P'. run (Assign x y) P = Inr P' \<and> sim P' A'"
    "spec (Assign_cstr x y) A = Some A' \<Longrightarrow> \<exists>P'. run (Assign_cstr x y) P = Inr P' \<and> sim P' A'"
    "spec (Assign_move x y) A = Some A' \<Longrightarrow> \<exists>P'. run (Assign_move x y) P = Inr P' \<and> sim P' A'"
    "spec (New_move x y) A = Some A' \<Longrightarrow> \<exists>P'. run (New_move x y) P = Inr P' \<and> sim P' A'"
    "spec (Delete x) A = Some A' \<Longrightarrow> \<exists>P'. run (Delete x) P = Inr P' \<and> sim P' A'"
proof -
  note ok = simD(1) [OF assms]
  have target: "\<exists>s. obj P z = Inr s \<and> objs P z = Some s \<and> own_data P z = m_data s \<and>
      (\<forall>a. m_data s = Some a \<longrightarrow> (\<exists>cs. blocks (mem P) a = Some cs))" if "A z \<noteq> None" for z
    using that sim_obj [OF assms, of z] holds_text_block by (metis option.exhaust)
  have del: "h_delete (mem P) (own_data P z) = Inr (freed (mem P) (own_data P z))" for z
    using freed_delete(1) [OF ok] sim_own_block [OF assms] by blast
  have assign: "\<exists>P'. rbind (obj P x) (\<lambda>s. rbind (obj P y) (\<lambda>t. into P x (f s t))) = Inr P' \<and> sim P' A'"
    if "(if x = y \<or> A x = None then None else from_text A y (\<lambda>ys. Some (A(x := Some (Some (g ys)))))) = Some A'"
      and f: "\<And>s t b ys. (\<And>a. m_data s = Some a \<Longrightarrow> \<exists>cs. blocks (mem P) a = Some cs) \<Longrightarrow> repr (mem P) t b ys \<Longrightarrow>
        m_data s \<noteq> Some b \<Longrightarrow> yields (mem P) (m_data s) (f s t) (g ys)" for f g
  proof -
    from that(1) obtain ys where ys: "x \<noteq> y" "A x \<noteq> None" "A y = Some (Some ys)" "A' = A(x := Some (Some (g ys)))"
      by (auto simp: from_text_def split: if_splits option.splits)
    obtain s where s: "obj P x = Inr s" "own_data P x = m_data s" "\<And>a. m_data s = Some a \<Longrightarrow> \<exists>cs. blocks (mem P) a = Some cs"
      using target [OF ys(2)] by blast
    obtain t b where t: "obj P y = Inr t" "own_data P y = Some b" "repr (mem P) t b ys" using sim_repr [OF assms ys(3)] by metis
    have "m_data s \<noteq> Some b" using simD(3) [OF assms, of x b y] s(2) t(2) ys(1) by auto
    with f [OF s(3) t(3)] s(2) have "yields (mem P) (own_data P x) (f s t) (g ys)" by simp
    from sim_into [OF assms this] s(1) t(1) ys(4) show ?thesis by simp
  qed
  show "spec (Assign x y) A = Some A' \<Longrightarrow> \<exists>P'. run (Assign x y) P = Inr P' \<and> sim P' A'"
    unfolding spec.simps run.simps by (erule assign) (rule string_assign_yields [OF ok])
  show "spec (Assign_cstr x y) A = Some A' \<Longrightarrow> \<exists>P'. run (Assign_cstr x y) P = Inr P' \<and> sim P' A'"
    unfolding spec.simps run.simps by (erule assign) (rule string_assign_cstr_yields [OF ok])
  show "\<exists>P'. run (Assign_move x y) P = Inr P' \<and> sim P' A'" if "spec (Assign_move x y) A = Some A'"
  proof -
    from that obtain v where v: "x \<noteq> y" "A x \<noteq> None" "A y = Some v" "A' = A(x := Some v, y := Some None)"
      by (auto split: if_splits option.splits)
    obtain s where "obj P x = Inr s" "own_data P x = m_data s" using target [OF v(2)] by blast
    moreover obtain t where "obj P y = Inr t" "objs P y = Some t" using target [of y] v(3) by auto
    ultimately show ?thesis using sim_move [OF assms _ v(3,1)] del [of x] v(4) by (simp add: string_assign_move_def)
  qed
  show "\<exists>P'. run (New_move x y) P = Inr P' \<and> sim P' A'" if "spec (New_move x y) A = Some A'"
  proof -
    from that obtain v where v: "A x = None" "A y = Some v" "A' = A(x := Some v, y := Some None)"
      by (auto split: if_splits option.splits)
    then obtain t where t: "obj P y = Inr t" "objs P y = Some t" using target [of y] by auto
    have "x \<noteq> y" using v by auto
    then have "sim (P\<lparr>mem := mem P, objs := (objs P)(x := Some (sized (m_data t) (m_size t)), y := Some (t\<lparr>m_data := None\<rparr>))\<rparr>) A'"
      using sim_move [OF assms t(2) v(2), of x] sim_new [OF assms v(1)] v(3) by (simp add: freed_def)
    moreover have "P\<lparr>mem := mem P, objs := Y\<rparr> = P\<lparr>objs := Y\<rparr>" for Y by (cases P) simp
    ultimately show ?thesis using t(1) by (simp add: string_ctor_move_def)
  qed
  show "\<exists>P'. run (Delete x) P = Inr P' \<and> sim P' A'" if "spec (Delete x) A = Some A'"
  proof -
    from that have x: "A x \<noteq> None" "A' = A(x := None)" by (auto split: if_splits)
    then obtain s where "obj P x = Inr s" "own_data P x = m_data s" using target [of x] by auto
    then show ?thesis using sim_delete [OF assms, of x] del [of x] x(2) by (simp add: string_dtor_def)
  qed
qed

lemma run_step: "sim P A \<Longrightarrow> spec op A = Some A' \<Longrightarrow> \<exists>P'. run op P = Inr P' \<and> sim P' A'"
  by (cases op; hypsubst; (rule run_new_ops run_change_ops run_assign_ops; assumption))


subsection \<open>Theorems\<close>

definition empty_pool :: pool where
  "empty_pool = \<lparr>mem = h_empty, objs = (\<lambda>_. None)\<rparr>"

definition run_all :: "string_op list \<Rightarrow> pool \<Rightarrow> mem_fault + pool" where
  "run_all ops P = fold_res (\<lambda>P op. run op P) P ops"

fun spec_all :: "string_op list \<Rightarrow> texts \<Rightarrow> texts option" where
  "spec_all [] A = Some A"
| "spec_all (op # ops) A = (case spec op A of None \<Rightarrow> None | Some A1 \<Rightarrow> spec_all ops A1)"

lemma sim_empty: "sim empty_pool (\<lambda>_. None)"
  by (simp add: sim_def empty_pool_def own_data_def h_empty_def heap_ok_def)

lemma run_all_sim: "sim P A \<Longrightarrow> spec_all ops A = Some A' \<Longrightarrow> \<exists>P'. run_all ops P = Inr P' \<and> sim P' A'"
proof (induction ops arbitrary: P A)
  case (Cons op ops)
  from Cons.prems(2) obtain A1 where A1: "spec op A = Some A1" "spec_all ops A1 = Some A'" by (auto split: option.splits)
  from run_step [OF Cons.prems(1) A1(1)] obtain P1 where "run op P = Inr P1" "sim P1 A1" by blast
  with Cons.IH [OF _ A1(2)] show ?case by (simp add: run_all_def)
qed (simp add: run_all_def)

text \<open>C2: Each operation of the class implements its meaning on lists of characters: whenever the specification allows an
  operation on the values of the objects, the code performs it without a memory fault, leaves the specified
  text in the object, and keeps every object in a terminated block of its own with no block lost.\<close>

theorem string_ops_refine:
  assumes "sim P A" "spec op A = Some A'"
  shows "\<exists>P'. run op P = Inr P' \<and> sim P' A'"
  using assms by (rule run_step)

theorem string_ops_refine_witness:
  "\<exists>P'. run (New_std 0 ''abc'') empty_pool = Inr P' \<and> sim P' ((\<lambda>_. None)(0 := Some (Some ''abc'')))"
  by (rule string_ops_refine [OF sim_empty]) (simp add: put_new_def)

text \<open>C17: Programs with strings: a sequence of operations that the specification allows runs without a memory fault from
  the empty memory, every object holds the specified characters and its size at the end, and once all objects are
  destroyed no block is left.\<close>

theorem string_programs_safe:
  assumes "spec_all ops (\<lambda>_. None) = Some A"
  shows "\<exists>P. run_all ops empty_pool = Inr P \<and>
    (\<forall>x xs. A x = Some (Some xs) \<longrightarrow>
       (\<exists>s. objs P x = Some s \<and> string_bytes (mem P) s = Inr xs \<and> m_size s = length xs \<and> h_text (mem P) (m_data s) = Inr (c_str xs))) \<and>
    ((\<forall>x. A x = None) \<longrightarrow> (\<forall>a. blocks (mem P) a = None))"
proof -
  obtain P where P: "run_all ops empty_pool = Inr P" "sim P A" using run_all_sim [OF sim_empty assms] by blast
  have "\<exists>s. objs P x = Some s \<and> string_bytes (mem P) s = Inr xs \<and> m_size s = length xs \<and> h_text (mem P) (m_data s) = Inr (c_str xs)"
    if x: "A x = Some (Some xs)" for x xs
  proof -
    obtain s a where "obj P x = Inr s" "repr (mem P) s a xs" using sim_repr [OF P(2) x] by metis
    then show ?thesis using string_bytes_eq repr_data repr_text by (auto simp: obj_def split: option.splits)
  qed
  moreover have "blocks (mem P) a = None" if "\<forall>x. A x = None" for a
  proof (rule ccontr)
    assume "blocks (mem P) a \<noteq> None"
    then obtain x where "own_data P x = Some a" using simD(4) [OF P(2)] by blast
    with sim_new [OF P(2)] that show False by auto
  qed
  ultimately show ?thesis using P(1) by blast
qed

theorem string_programs_safe_witness:
  "\<exists>P. run_all [New 0, New_std 1 ''ab'', Append 0 1, Append_char 0 (CHR ''c''), Prepend 0 0, Delete 0, Delete 1] empty_pool = Inr P \<and>
    (\<forall>a. blocks (mem P) a = None)"
proof -
  let ?ops = "[New 0, New_std 1 ''ab'', Append 0 1, Append_char 0 (CHR ''c''), Prepend 0 0, Delete 0, Delete 1]"
  have "spec_all ?ops (\<lambda>_. None) = Some (\<lambda>_. None)"
    by (simp add: put_new_def from_text_def change_def fun_upd_def fun_eq_iff cong: if_cong)
  from string_programs_safe [OF this] show ?thesis by blast
qed


subsection \<open>Where the specification has no meaning\<close>

definition fault :: "'e + 'a \<Rightarrow> 'e option" where
  "fault r = (case r of Inl e \<Rightarrow> Some e | Inr _ \<Rightarrow> None)"

text \<open>Appending a string to itself reads the block that growing has freed.\<close>

lemma string_append_self: "fault (run_all [New_std 0 ''ab'', Append 0 0] empty_pool) = Some Freed"
  by code_simp

text \<open>Assigning a string to itself, too.\<close>

lemma string_assign_self: "fault (run_all [New_std 0 ''ab'', Assign 0 0] empty_pool) = Some Freed"
  by code_simp

text \<open>A string that was moved from keeps its size.\<close>

lemma string_append_moved: "fault (run_all [New_std 0 ''ab'', New_move 1 0, Append_char 0 (CHR ''c'')] empty_pool) = Some Null_pointer"
  by code_simp

text \<open>Assignment copies with \<open>strncpy\<close>: what follows a terminator inside the string is lost, the size is kept.\<close>

lemma string_assign_truncates: "strncpy_text 3 [CHR ''a'', NUL, CHR ''b''] = [CHR ''a'', NUL, NUL]"
  by code_simp

text \<open>Equal strings can have different hash values: \<open>strcmp\<close> stops at a terminator, the hash does not.\<close>

lemma string_equal_hash:
  assumes "repr h s a [CHR ''a'', NUL, CHR ''b'']" "repr h t b [CHR ''a'', NUL, CHR ''c'']"
  shows "string_equal h s t = Inr True" "method_hash h s \<noteq> method_hash h t"
proof -
  show "string_equal h s t = Inr True"
    using repr_text(1) [OF assms(1)] repr_text(1) [OF assms(2)] by (simp add: string_equal_def c_str_def)
  have "string_hash [CHR ''a'', NUL, CHR ''b''] \<noteq> string_hash [CHR ''a'', NUL, CHR ''c'']" by code_simp
  then show "method_hash h s \<noteq> method_hash h t"
    using string_bytes_eq [OF assms(1)] string_bytes_eq [OF assms(2)] by (simp add: method_hash_def)
qed

text \<open>\<open>mid\<close> with a negative position returns an object with an undetermined size.\<close>

lemma method_mid_negative: "repr h s a xs \<Longrightarrow> pos < 0 \<Longrightarrow> method_mid h s pos n = Inl Indeterminate"
  by (simp add: method_mid_def string_bytes_eq string_mid_def)

text \<open>\<open>operator<\<close> is a strict total order on the C strings that \<open>operator==\<close> compares.\<close>

lemma strcmp_less_order:
  "\<not> strcmp_less xs xs" "strcmp_less xs ys \<Longrightarrow> strcmp_less ys zs \<Longrightarrow> strcmp_less xs zs"
  "strcmp_less xs ys \<or> xs = ys \<or> strcmp_less ys xs"
proof -
  show "\<not> strcmp_less xs xs" by (induction xs) auto
  show "strcmp_less xs ys \<Longrightarrow> strcmp_less ys zs \<Longrightarrow> strcmp_less xs zs"
  proof (induction xs zs arbitrary: ys rule: strcmp_less.induct)
    case (1 xs)
    then show ?case by simp
  next
    case (3 x xs z zs)
    then show ?case by (cases ys) auto
  qed simp
  show "strcmp_less xs ys \<or> xs = ys \<or> strcmp_less ys xs"
  proof (induction xs ys rule: strcmp_less.induct)
    case (1 xs)
    then show ?case by (cases xs) auto
  next
    case (3 x xs y ys)
    have "(of_char x :: nat) < of_char y \<or> x = y \<or> (of_char y :: nat) < of_char x" by (metis char_of_char nat_neq_iff)
    then show ?case using 3 by auto
  qed simp
qed

end
