(* ===== verification/Str_List.thy ===== *)
theory Str_List
  imports Str_Class
begin

text \<open>
  \<open>string::List\<close> of \<^verbatim>\<open>src/arken/string.cpp\<close>: the growing array of strings that \<open>split\<close> fills, with its cursor and
  \<open>join\<close>.

  The elements belong to the list alone; they are modelled by their characters, \<open>None\<close> being the null pointer.
  The array is a null pointer, allocated, or never set (\<open>List(int)\<close>); the cursor may not be set either.
\<close>

datatype list_array = Null_array | Junk_array | Array "char list option list"

record string_list =
  l_size :: int
  l_resource :: int
  l_cursor :: "int option"
  l_array :: list_array

definition slot :: "string_list \<Rightarrow> int \<Rightarrow> mem_fault + char list option" where
  "slot l i = (case l_array l of
       Null_array \<Rightarrow> Inl Null_pointer
     | Junk_array \<Rightarrow> Inl Indeterminate
     | Array xs \<Rightarrow> if 0 \<le> i \<and> i < len xs then Inr (xs ! nat i) else Inl Outside)"

definition set_slot :: "string_list \<Rightarrow> int \<Rightarrow> char list \<Rightarrow> mem_fault + string_list" where
  "set_slot l i v = (case l_array l of
       Null_array \<Rightarrow> Inl Null_pointer
     | Junk_array \<Rightarrow> Inl Indeterminate
     | Array xs \<Rightarrow> if 0 \<le> i \<and> i < len xs then Inr (l\<lparr>l_array := Array (xs[nat i := Some v])\<rparr>) else Inl Outside)"

text \<open>\<open>init\<close>: the elements move to a new array. The old one, which \<open>new[]\<close> has allocated, is freed with the plain \<open>delete\<close>,
  which is undefined: growing a list is the fault \<open>Wrong_delete\<close>.\<close>

definition list_init :: "string_list \<Rightarrow> mem_fault + string_list" where
  "list_init l =
     (let resource = (if l_size l = l_resource l then l_resource l * 2 else l_resource l)
      in if 2147483647 < resource then Inl (Text_fault Int_overflow)
         else if resource < 0 then Inl (Text_fault Bad_alloc)
         else rbind (map_res (slot l) [0..l_size l - 1]) (\<lambda>olds.
              if resource < len olds then Inl Outside
              else case l_array l of
                Junk_array \<Rightarrow> Inl Indeterminate
              | Array _ \<Rightarrow> Inl Wrong_delete
              | Null_array \<Rightarrow> Inr (l\<lparr>l_cursor := Some 0, l_resource := resource,
                     l_array := Array (olds @ replicate (nat (resource - len olds)) None)\<rparr>)))"

definition list_new :: "mem_fault + string_list" where
  "list_new = list_init \<lparr>l_size = 0, l_resource = 10, l_cursor = None, l_array = Null_array\<rparr>"

text \<open>\<open>List(int resource)\<close> leaves the array and the cursor unset before \<open>init\<close>.\<close>

definition list_new_size :: "int \<Rightarrow> mem_fault + string_list" where
  "list_new_size resource =
     (if resource \<noteq> 0 then list_init \<lparr>l_size = 0, l_resource = resource, l_cursor = None, l_array = Junk_array\<rparr>
      else Inr \<lparr>l_size = 0, l_resource = 0, l_cursor = None, l_array = Null_array\<rparr>)"

text \<open>The copy constructor dereferences every element; the copies are new strings.\<close>

definition deref :: "char list option \<Rightarrow> mem_fault + char list" where
  "deref p = (case p of None \<Rightarrow> Inl Null_pointer | Some v \<Rightarrow> Inr v)"

definition list_copy :: "string_list \<Rightarrow> mem_fault + string_list" where
  "list_copy other =
     rbind (map_res (\<lambda>i. rbind (slot other i) deref) [0..l_size other - 1]) (\<lambda>vs.
       if l_resource other < len vs then Inl Outside
       else Inr \<lparr>l_size = l_size other, l_resource = l_resource other, l_cursor = Some 0,
              l_array = Array (map Some vs @ replicate (nat (l_resource other - len vs)) None)\<rparr>)"

text \<open>The move constructor: the new list and what is left of the old one.\<close>

definition list_move :: "string_list \<Rightarrow> string_list \<times> string_list" where
  "list_move other = (other\<lparr>l_cursor := Some 0\<rparr>, other\<lparr>l_array := Null_array\<rparr>)"

text \<open>\<open>operator=\<close> deletes the elements and the array of the list, then copies.\<close>

definition list_dtor :: "string_list \<Rightarrow> mem_fault + unit" where
  "list_dtor l =
     (if l_array l = Null_array then Inr ()
      else rbind (map_res (slot l) [0..l_size l - 1]) (\<lambda>_. if l_array l = Junk_array then Inl Indeterminate else Inr ()))"

definition list_assign :: "string_list \<Rightarrow> string_list \<Rightarrow> mem_fault + string_list" where
  "list_assign l other = rbind (list_dtor l) (\<lambda>_. list_copy other)"

definition list_replace :: "string_list \<Rightarrow> int \<Rightarrow> char list \<Rightarrow> mem_fault + string_list" where
  "list_replace l pos v = rbind (slot l pos) (\<lambda>_. set_slot l pos v)"

text \<open>The two \<open>append\<close> functions and \<open>operator<<\<close> store a new string of the given characters.\<close>

definition list_append :: "string_list \<Rightarrow> char list \<Rightarrow> mem_fault + string_list" where
  "list_append l v =
     rbind (if l_size l = l_resource l then list_init l else Inr l) (\<lambda>l1.
     rbind (set_slot l1 (l_size l1) v) (\<lambda>l2. Inr (l2\<lparr>l_size := l_size l2 + 1\<rparr>)))"

text \<open>\<open>at\<close> and \<open>operator[]\<close>; the bound is tested with \<open>pos > m_size\<close>. An empty string gives the null pointer.\<close>

definition list_at :: "string_list \<Rightarrow> int \<Rightarrow> mem_fault + char list option" where
  "list_at l pos =
     (if l_size l < pos then Inr None
      else if pos < 0 then Inr None
      else rbind (slot l pos) (\<lambda>ba. case ba of None \<Rightarrow> Inr None | Some v \<Rightarrow> Inr (if v = [] then None else Some v)))"

text \<open>\<open>at(pos, len)\<close> with the value stored through \<open>len\<close>, if any.\<close>

definition list_at_len :: "string_list \<Rightarrow> int \<Rightarrow> mem_fault + char list option \<times> int option" where
  "list_at_len l pos =
     (if l_size l < pos then Inr (None, Some 0)
      else if pos < 0 then Inr (None, None)
      else rbind (slot l pos) (\<lambda>ba.
             case ba of None \<Rightarrow> Inr (None, Some 0) | Some v \<Rightarrow> Inr (if v = [] then (None, Some 0) else (Some v, Some (len v)))))"

definition list_first :: "string_list \<Rightarrow> mem_fault + char list option" where
  "list_first l = list_at l 0"

definition list_last :: "string_list \<Rightarrow> mem_fault + char list option" where
  "list_last l = list_at l (l_size l - 1)"

definition list_each :: "string_list \<Rightarrow> mem_fault + char list option \<times> string_list" where
  "list_each l =
     (case l_cursor l of
        None \<Rightarrow> Inl Indeterminate
      | Some c \<Rightarrow>
          if l_size l \<le> c then Inr (None, l\<lparr>l_cursor := Some 0\<rparr>)
          else rbind (list_at l c) (\<lambda>r. Inr (r, l\<lparr>l_cursor := Some (c + 1)\<rparr>)))"

definition of_text :: "str_fault + 'a \<Rightarrow> mem_fault + 'a" where
  "of_text r = (case r of Inl e \<Rightarrow> Inl (Text_fault e) | Inr x \<Rightarrow> Inr x)"

definition list_join :: "string_list \<Rightarrow> char list \<Rightarrow> mem_fault + char list" where
  "list_join l separator =
     rbind (map_res (\<lambda>i. rbind (slot l i) deref) [0..l_size l - 1]) (\<lambda>vs.
       let size1 = foldl (\<lambda>n v. n + len v + len separator) 0 vs
       in of_text (rbind (new_buf (size1 + 1)) (\<lambda>b.
          rbind (fold_res (\<lambda>(b, i) v. rbind (puts b v) (\<lambda>b1.
              rbind (if i < l_size l - 1 then puts b1 separator else Inr b1) (\<lambda>b2. Inr (b2, i + 1)))) (b, 0) vs) (\<lambda>(b1, _).
          close_buf b1))))"

text \<open>\<open>split\<close> appends its pieces to a new list.\<close>

definition split_list :: "char list \<Rightarrow> char list \<Rightarrow> mem_fault + string_list" where
  "split_list raw pattern = rbind (of_text (string_split raw pattern)) (\<lambda>ps. rbind list_new (\<lambda>l. fold_res list_append l ps))"


subsection \<open>Representation\<close>

text \<open>The list holds \<open>ws\<close>, with null pointers up to its resource.\<close>

definition list_ok :: "string_list \<Rightarrow> char list list \<Rightarrow> bool" where
  "list_ok l ws \<longleftrightarrow> l_size l = len ws \<and> len ws \<le> l_resource l \<and> 0 < l_resource l \<and>
     l_array l = Array (map Some ws @ replicate (nat (l_resource l - len ws)) None)"

lemma slot_ok: "list_ok l ws \<Longrightarrow> i < length ws \<Longrightarrow> slot l (int i) = Inr (Some (ws ! i))"
  by (auto simp: slot_def list_ok_def nth_append)

lemma int_upto_map: "[0..int n - 1] = map int [0..<n]"
proof (induction n)
  case (Suc n)
  have "[0..int (Suc n) - 1] = [0..int n - 1] @ [int n]" by (simp add: upto_rec2)
  with Suc show ?case by simp
qed simp

lemma map_res_slots:
  assumes "list_ok l ws"
  shows "map_res (slot l) [0..l_size l - 1] = Inr (map Some ws)" "map_res (\<lambda>i. rbind (slot l i) deref) [0..l_size l - 1] = Inr ws"
proof -
  have u: "[0..l_size l - 1] = map int [0..<length ws]" using assms by (simp add: list_ok_def int_upto_map)
  have "map_res (slot l) [0..l_size l - 1] = Inr (map (\<lambda>i. Some (ws ! nat i)) (map int [0..<length ws]))"
    unfolding u by (intro map_res_Inr) (auto simp: slot_ok [OF assms])
  also have "map (\<lambda>i. Some (ws ! nat i)) (map int [0..<length ws]) = map Some ws" by (rule nth_equalityI) simp_all
  finally show "map_res (slot l) [0..l_size l - 1] = Inr (map Some ws)" .
  have "map_res (\<lambda>i. rbind (slot l i) deref) [0..l_size l - 1] = Inr (map (\<lambda>i. ws ! nat i) (map int [0..<length ws]))"
    unfolding u by (intro map_res_Inr) (auto simp: slot_ok [OF assms] deref_def)
  also have "map (\<lambda>i. ws ! nat i) (map int [0..<length ws]) = ws" by (rule nth_equalityI) simp_all
  finally show "map_res (\<lambda>i. rbind (slot l i) deref) [0..l_size l - 1] = Inr ws" .
qed

lemma list_new_ok: "\<exists>l. list_new = Inr l \<and> list_ok l [] \<and> l_cursor l = Some 0 \<and> l_resource l = 10"
  by (simp add: list_new_def list_init_def list_ok_def)

lemma list_append_ok:
  assumes "list_ok l ws" "len ws < l_resource l"
  shows "\<exists>l1. list_append l v = Inr l1 \<and> list_ok l1 (ws @ [v]) \<and> l_resource l1 = l_resource l"
proof -
  have "replicate (nat (l_resource l - len ws)) None = (None :: char list option) # replicate (nat (l_resource l - len (ws @ [v]))) None"
    using assms(2) by (simp add: replicate_Suc [symmetric] Suc_nat_eq_nat_zadd1 del: replicate_Suc)
  with assms have "set_slot l (l_size l) v = Inr (l\<lparr>l_array := Array (map Some (ws @ [v]) @ replicate (nat (l_resource l - len (ws @ [v]))) None)\<rparr>)"
    by (simp add: set_slot_def list_ok_def list_update_append)
  with assms show ?thesis by (simp add: list_append_def list_ok_def)
qed


lemma list_appends_ok:
  "list_ok l ws \<Longrightarrow> len ws + len vs \<le> l_resource l \<Longrightarrow> \<exists>l1. fold_res list_append l vs = Inr l1 \<and> list_ok l1 (ws @ vs)"
proof (induction vs arbitrary: l ws)
  case (Cons v vs)
  obtain l1 where "list_append l v = Inr l1" "list_ok l1 (ws @ [v])" "l_resource l1 = l_resource l"
    using list_append_ok [OF Cons.prems(1)] Cons.prems(2) by auto
  with Cons.IH [of l1 "ws @ [v]"] Cons.prems(2) show ?case by simp
qed simp


subsection \<open>Reading\<close>


text \<open>The loop of a caller: \<open>while( (p = list.each()) )\<close>, for at most so many rounds.\<close>

fun drain :: "nat \<Rightarrow> string_list \<Rightarrow> mem_fault + char list list \<times> string_list" where
  "drain 0 l = Inr ([], l)"
| "drain (Suc n) l =
     rbind (list_each l) (\<lambda>(r, l1).
       case r of None \<Rightarrow> Inr ([], l1) | Some v \<Rightarrow> rbind (drain n l1) (\<lambda>(vs, l2). Inr (v # vs, l2)))"

lemma list_ok_cursor [simp]: "list_ok (l\<lparr>l_cursor := c\<rparr>) ws \<longleftrightarrow> list_ok l ws"
  by (simp add: list_ok_def)






subsection \<open>Splitting and joining\<close>

fun join_text :: "char list \<Rightarrow> char list list \<Rightarrow> char list" where
  "join_text sep [] = []"
| "join_text sep (v # vs) = v @ (if vs = [] then [] else sep @ join_text sep vs)"

lemma join_text_joined: "join_text [c] ws = joined c ws"
  by (induction ws) (simp_all add: joined_Cons, simp add: joined_def)

lemma join_loop:
  "int k + len vs = n \<Longrightarrow>
     fold_res (\<lambda>(b, i) v. rbind (puts b v) (\<lambda>b1.
       rbind (if i < n - 1 then puts b1 sep else Inr b1) (\<lambda>b2. Inr (b2, i + 1)))) (b, int k) vs =
     rbind (puts b (join_text sep vs)) (\<lambda>b1. Inr (b1, n))"
proof (induction vs arbitrary: b k)
  case (Cons v vs)
  have last: "int k < n - 1 \<longleftrightarrow> vs \<noteq> []" using Cons.prems by (cases vs) auto
  have k: "int k + 1 = int (Suc k)" "int (Suc k) + len vs = n" using Cons.prems by simp_all
  show ?case
  proof (cases "vs = []")
    case True
    then show ?thesis using Cons.prems last by (simp add: rbind_assoc cong: rbind_cong)
  next
    case False
    then show ?thesis using last Cons.IH [OF k(2)] k(1)
      by (simp add: rbind_assoc fold_res_append add.commute cong: rbind_cong)
  qed
qed simp

lemma join_size: "k + len (join_text sep ws) \<le> foldl (\<lambda>n v. n + len v + len sep) k ws"
proof (induction ws arbitrary: k)
  case (Cons v vs)
  from Cons [of "k + len v + len sep"] show ?case by (cases vs) auto
qed simp

lemma list_join_ok:
  assumes "list_ok l ws" "\<forall>w\<in>set ws. NUL \<notin> set w" "NUL \<notin> set sep"
  shows "list_join l sep = Inr (join_text sep ws)"
proof -
  let ?n = "foldl (\<lambda>n v. n + len v + len sep) 0 ws"
  have "NUL \<notin> set (join_text sep ws)" using assms(2,3) by (induction ws) auto
  moreover have "len (join_text sep ws) \<le> ?n" using join_size [of 0 sep ws] by simp
  ultimately have "rbind (new_buf (?n + 1)) (\<lambda>b. rbind (puts b (join_text sep ws)) close_buf) = Inr (join_text sep ws)"
    by (intro fill_new) simp_all
  moreover have "l_size l = len ws" using assms(1) by (simp add: list_ok_def)
  ultimately show ?thesis
    using map_res_slots(2) [OF assms(1)] join_loop [of 0 ws "len ws" sep]
    by (simp add: list_join_def of_text_def rbind_assoc cong: rbind_cong)
qed

lemma pieces_set: "w \<in> set (pieces P v s) \<Longrightarrow> set w \<subseteq> set v \<union> set s"
  by (induction P v s arbitrary: w rule: pieces.induct) (auto split: if_splits)

lemma split_list_ok:
  assumes "c \<noteq> NUL" "length (pieces (\<lambda>x. x = c) [] s) \<le> 10"
  shows "\<exists>l. split_list s [c] = Inr l \<and> list_ok l (pieces (\<lambda>x. x = c) [] s)"
proof -
  obtain l0 where l0: "list_new = Inr l0" "list_ok l0 []" "l_resource l0 = 10" using list_new_ok by blast
  then obtain l where "fold_res list_append l0 (pieces (\<lambda>x. x = c) [] s) = Inr l" "list_ok l (pieces (\<lambda>x. x = c) [] s)"
    using list_appends_ok [OF l0(2), of "pieces (\<lambda>x. x = c) [] s"] assms(2) by auto
  then show ?thesis
    unfolding split_list_def of_text_def string_split_single [OF assms(1)] l0(1) by simp
qed

text \<open>\<open>split\<close> by a character gives the list of the non-empty pieces between its occurrences, and \<open>join\<close> by the same
  character puts them together with single separators. So joining non-empty words without the character and
  splitting the result gives the words back. This holds for up to ten pieces: the list must not grow.\<close>

theorem string_split_join:
  assumes "c \<noteq> NUL" "length (pieces (\<lambda>x. x = c) [] s) \<le> 10" "NUL \<notin> set s"
  shows "\<exists>l. split_list s [c] = Inr l \<and> list_ok l (pieces (\<lambda>x. x = c) [] s) \<and>
    list_join l [c] = Inr (joined c (pieces (\<lambda>x. x = c) [] s)) \<and>
    (\<forall>ws. s = joined c ws \<and> (\<forall>w\<in>set ws. w \<noteq> [] \<and> c \<notin> set w) \<longrightarrow> list_ok l ws \<and> list_join l [c] = Inr s)"
proof -
  let ?ps = "pieces (\<lambda>x. x = c) [] s"
  obtain l where l: "split_list s [c] = Inr l" "list_ok l ?ps" using split_list_ok [OF assms(1,2)] by blast
  have nul: "\<forall>w\<in>set ?ps. NUL \<notin> set w"
  proof
    fix w assume "w \<in> set ?ps"
    from pieces_set [OF this] show "NUL \<notin> set w" using assms(3) by auto
  qed
  have j: "list_join l [c] = Inr (joined c ?ps)"
    using list_join_ok [OF l(2) nul, of "[c]"] assms(1) join_text_joined [of c ?ps] by simp
  have "list_ok l ws \<and> list_join l [c] = Inr s" if "s = joined c ws" "\<forall>w\<in>set ws. w \<noteq> [] \<and> c \<notin> set w" for ws
    using l(2) j pieces_joined [OF that(2)] that(1) by simp
  with l j show ?thesis by blast
qed

theorem string_split_join_witness:
  "\<exists>l. split_list '',a,,b'' '','' = Inr l \<and> list_ok l [''a'', ''b''] \<and> list_join l '','' = Inr ''a,b''"
proof -
  have "pieces (\<lambda>x. x = CHR '','') [] '',a,,b'' = [''a'', ''b'']" "joined (CHR '','') [''a'', ''b''] = ''a,b''"
    by (simp_all add: joined_def)
  with string_split_join [of "CHR '',''" "'',a,,b''"] show ?thesis by auto
qed


subsection \<open>Limits\<close>

text \<open>Reading just behind the last element of a full list leaves the array.\<close>

lemma list_at_full: "list_ok l ws \<Longrightarrow> l_resource l = len ws \<Longrightarrow> list_at l (len ws) = Inl Outside"
  by (simp add: list_at_def slot_def list_ok_def)

text \<open>A list with a given resource frees a pointer that was never set; one with resource \<open>0\<close> cannot grow.\<close>

lemma list_new_size_faults:
  "0 < n \<Longrightarrow> n \<le> 1000000 \<Longrightarrow> list_new_size n = Inl Indeterminate"
  "rbind (list_new_size 0) (\<lambda>l. list_append l v) = Inl Outside"
  by (simp_all add: list_new_size_def list_init_def list_append_def set_slot_def)

text \<open>An empty element ends the loop over \<open>each\<close> early.\<close>

lemma drain_empty:
  "rbind (split_list ''a,b'' '','') (\<lambda>l. rbind (list_replace l 0 []) (\<lambda>l1. rbind (drain 5 l1) (\<lambda>(vs, _). Inr vs))) = Inr []"
  by code_simp
end
