(* ===== verification/Base64.thy ===== *)
theory Base64
  imports Prelude
begin

text \<open>
  The embedded Base64 codec, \<^verbatim>\<open>src/embedded/base64/ap_base64.c\<close>, and the wrappers of
  \<^verbatim>\<open>src/arken/base64/embedded.cpp\<close> that allocate its output buffers.

  The C functions work on pointers into caller buffers. An input is the list of its bytes;
  a coded input is a C string, read with \<open>cstr_at\<close>. An output is the list of the bytes
  written, in order, starting at the base of the destination buffer: the codec only ever
  writes through \<open>*p++\<close>. The index arithmetic, the promotion of \<open>char\<close> to \<open>int\<close> and the
  truncation back to \<open>unsigned char\<close> are kept. Lengths are \<open>int\<close>s of 32 bits, as in the C code: a signed
  overflow gives \<open>None\<close>.
\<close>


subsection \<open>Tables\<close>

definition pr2six_table :: "byte list" where
  "pr2six_table =
   [64, 64, 64, 64, 64, 64, 64, 64, 64, 64, 64, 64, 64, 64, 64, 64,
    64, 64, 64, 64, 64, 64, 64, 64, 64, 64, 64, 64, 64, 64, 64, 64,
    64, 64, 64, 64, 64, 64, 64, 64, 64, 64, 64, 62, 64, 64, 64, 63,
    52, 53, 54, 55, 56, 57, 58, 59, 60, 61, 64, 64, 64, 64, 64, 64,
    64,  0,  1,  2,  3,  4,  5,  6,  7,  8,  9, 10, 11, 12, 13, 14,
    15, 16, 17, 18, 19, 20, 21, 22, 23, 24, 25, 64, 64, 64, 64, 64,
    64, 26, 27, 28, 29, 30, 31, 32, 33, 34, 35, 36, 37, 38, 39, 40,
    41, 42, 43, 44, 45, 46, 47, 48, 49, 50, 51, 64, 64, 64, 64, 64,
    64, 64, 64, 64, 64, 64, 64, 64, 64, 64, 64, 64, 64, 64, 64, 64,
    64, 64, 64, 64, 64, 64, 64, 64, 64, 64, 64, 64, 64, 64, 64, 64,
    64, 64, 64, 64, 64, 64, 64, 64, 64, 64, 64, 64, 64, 64, 64, 64,
    64, 64, 64, 64, 64, 64, 64, 64, 64, 64, 64, 64, 64, 64, 64, 64,
    64, 64, 64, 64, 64, 64, 64, 64, 64, 64, 64, 64, 64, 64, 64, 64,
    64, 64, 64, 64, 64, 64, 64, 64, 64, 64, 64, 64, 64, 64, 64, 64,
    64, 64, 64, 64, 64, 64, 64, 64, 64, 64, 64, 64, 64, 64, 64, 64,
    64, 64, 64, 64, 64, 64, 64, 64, 64, 64, 64, 64, 64, 64, 64, 64]"

definition pr2six :: "byte \<Rightarrow> byte" where
  "pr2six b = pr2six_table ! unat b"

definition basis_64 :: "byte list" where
  "basis_64 =
     map of_char ''ABCDEFGHIJKLMNOPQRSTUVWXYZabcdefghijklmnopqrstuvwxyz0123456789+/''"

text \<open>The padding character \<open>'='\<close>.\<close>

abbreviation pad_char :: byte where
  "pad_char \<equiv> 61"


subsection \<open>Decoding\<close>

text \<open>The scan \<open>while (pr2six[*(bufin++)] <= 63);\<close>: the index of the first byte that
  is not in the alphabet. The terminator of the C string always stops it.\<close>

function Base64_scan :: "byte list \<Rightarrow> nat \<Rightarrow> nat" where
  "Base64_scan s i =
     (if i < length s \<and> pr2six (cstr_at s i) \<le> 63 then Base64_scan s (Suc i) else i)"
  by pat_completeness auto
termination
  by (relation "measure (\<lambda>(s, i). length s - i)") auto

declare Base64_scan.simps [simp del]

text \<open>\<open>nprbytes\<close> is the pointer difference converted to \<open>int\<close>. The quotient by four is so small that the
  following operations cannot overflow.\<close>

definition Base64decode_len :: "byte list \<Rightarrow> int option" where
  "Base64decode_len bufcoded =
     (let nprbytes = to_c_int (int (Base64_scan bufcoded 0))
      in if int_range (nprbytes + 3) then Some (c_quot (nprbytes + 3) 4 * 3 + 1) else None)"

text \<open>The three stores of a group. \<open>pr2six[...]\<close> is an \<open>unsigned char\<close> promoted to
  \<open>int\<close>; the cast of the stored value keeps its low eight bits.\<close>

definition dec_byte0 :: "byte \<Rightarrow> byte \<Rightarrow> byte" where
  "dec_byte0 c0 c1 =
     ucast (push_bit 2 (ucast (pr2six c0) :: u32) OR drop_bit 4 (ucast (pr2six c1)))"

definition dec_byte1 :: "byte \<Rightarrow> byte \<Rightarrow> byte" where
  "dec_byte1 c1 c2 =
     ucast (push_bit 4 (ucast (pr2six c1) :: u32) OR drop_bit 2 (ucast (pr2six c2)))"

definition dec_byte2 :: "byte \<Rightarrow> byte \<Rightarrow> byte" where
  "dec_byte2 c2 c3 =
     ucast (push_bit 6 (ucast (pr2six c2) :: u32) OR ucast (pr2six c3))"

text \<open>The loop \<open>while (nprbytes > 4)\<close>: \<open>p\<close> is \<open>bufin\<close> as an index, \<open>out\<close> what has
  been stored through \<open>bufout\<close>. It returns the final \<open>bufin\<close>, \<open>nprbytes\<close> and output.\<close>

function Base64decode_loop :: "byte list \<Rightarrow> nat \<Rightarrow> int \<Rightarrow> byte list \<Rightarrow> nat \<times> int \<times> byte list" where
  "Base64decode_loop s p nprbytes out =
     (if nprbytes > 4
      then Base64decode_loop s (p + 4) (nprbytes - 4)
             (out @ [dec_byte0 (cstr_at s p) (cstr_at s (p + 1)),
                     dec_byte1 (cstr_at s (p + 1)) (cstr_at s (p + 2)),
                     dec_byte2 (cstr_at s (p + 2)) (cstr_at s (p + 3))])
      else (p, nprbytes, out))"
  by pat_completeness auto
termination
  by (relation "measure (\<lambda>(s, p, nprbytes, out). nat nprbytes)") auto

declare Base64decode_loop.simps [simp del]

text \<open>\<open>Base64decode\<close>: what is stored in \<open>bufplain\<close> (the final zero byte included) and
  the returned \<open>nbytesdecoded\<close>.\<close>

definition Base64decode :: "byte list \<Rightarrow> (byte list \<times> int) option" where
  "Base64decode bufcoded =
     (let nprbytes = to_c_int (int (Base64_scan bufcoded 0));
          nbytesdecoded = c_quot (nprbytes + 3) 4 * 3;
          (p, n, out) = Base64decode_loop bufcoded 0 nprbytes [];
          out = (if n > 1 then out @ [dec_byte0 (cstr_at bufcoded p) (cstr_at bufcoded (p + 1))]
                 else out);
          out = (if n > 2 then out @ [dec_byte1 (cstr_at bufcoded (p + 1)) (cstr_at bufcoded (p + 2))]
                 else out);
          out = (if n > 3 then out @ [dec_byte2 (cstr_at bufcoded (p + 2)) (cstr_at bufcoded (p + 3))]
                 else out);
          out = out @ [0]
      in if int_range (nprbytes + 3) \<and> int_range (4 - n) then Some (out, nbytesdecoded - ((4 - n) AND 3)) else None)"


subsection \<open>Encoding\<close>

definition Base64encode_len :: "int \<Rightarrow> int option" where
  "Base64encode_len len =
     (if int_range (len + 2) \<and> int_range (c_quot (len + 2) 3 * 4) \<and> int_range (c_quot (len + 2) 3 * 4 + 1)
      then Some (c_quot (len + 2) 3 * 4 + 1) else None)"

text \<open>The four table indices of a group. \<open>string[i]\<close> is a (signed) \<open>char\<close> promoted to
  \<open>int\<close>, so the right shifts are arithmetic; the masks make the indices unsigned.\<close>

definition enc_ix0 :: "byte \<Rightarrow> u32" where
  "enc_ix0 b0 = signed_drop_bit 2 (scast b0) AND 0x3F"

definition enc_ix1 :: "byte \<Rightarrow> byte \<Rightarrow> u32" where
  "enc_ix1 b0 b1 =
     push_bit 4 (scast b0 AND 0x3) OR signed_drop_bit 4 (scast b1 AND 0xF0)"

definition enc_ix1_last :: "byte \<Rightarrow> u32" where
  "enc_ix1_last b0 = push_bit 4 (scast b0 AND 0x3)"

definition enc_ix2 :: "byte \<Rightarrow> byte \<Rightarrow> u32" where
  "enc_ix2 b1 b2 =
     push_bit 2 (scast b1 AND 0xF) OR signed_drop_bit 6 (scast b2 AND 0xC0)"

definition enc_ix2_last :: "byte \<Rightarrow> u32" where
  "enc_ix2_last b1 = push_bit 2 (scast b1 AND 0xF)"

definition enc_ix3 :: "byte \<Rightarrow> u32" where
  "enc_ix3 b2 = scast b2 AND 0x3F"

abbreviation enc_char :: "u32 \<Rightarrow> byte" where
  "enc_char k \<equiv> basis_64 ! unat k"

text \<open>The loop \<open>for (i = 0; i < len - 2; i += 3)\<close>, returning the final \<open>i\<close> and what was
  stored through \<open>p\<close>. After a round \<open>i\<close> is at most \<open>len\<close>, so that \<open>i\<close> does not overflow.\<close>

function Base64encode_loop :: "byte list \<Rightarrow> int \<Rightarrow> nat \<Rightarrow> byte list \<Rightarrow> nat \<times> byte list" where
  "Base64encode_loop str len i out =
     (if int i < len - 2
      then Base64encode_loop str len (i + 3)
             (out @ [enc_char (enc_ix0 (str ! i)),
                     enc_char (enc_ix1 (str ! i) (str ! (i + 1))),
                     enc_char (enc_ix2 (str ! (i + 1)) (str ! (i + 2))),
                     enc_char (enc_ix3 (str ! (i + 2)))])
      else (i, out))"
  by pat_completeness auto
termination
  by (relation "measure (\<lambda>(str, len, i, out). nat (len - int i))") auto

declare Base64encode_loop.simps [simp del]

text \<open>\<open>Base64encode\<close>: what is stored in \<open>encoded\<close>, the final zero byte included. The
  returned \<open>p - encoded\<close> is the number of bytes stored. \<open>str\<close> is the memory at \<open>string\<close>, of at least \<open>len\<close> bytes.\<close>

definition Base64encode :: "byte list \<Rightarrow> int \<Rightarrow> byte list option" where
  "Base64encode str len =
     (let (i, p) = Base64encode_loop str len 0 [];
          p = (if int i < len then
                 (let p = p @ [enc_char (enc_ix0 (str ! i))];
                      p = (if int i = len - 1
                           then p @ [enc_char (enc_ix1_last (str ! i)), pad_char]
                           else p @ [enc_char (enc_ix1 (str ! i) (str ! (i + 1))),
                                     enc_char (enc_ix2_last (str ! (i + 1)))])
                  in p @ [pad_char])
               else p)
      in if int_range (len - 2) \<and> len \<le> int (length str) then Some (p @ [0]) else None)"


subsection \<open>The allocating wrappers\<close>

text \<open>\<open>base64::encode\<close> and \<open>base64::decode\<close> allocate with the predicted length and let the
  codec write; \<open>None\<close> is a signed overflow, a negative size (for which \<open>new\<close> throws), or an access beyond the
  argument or the allocation.\<close>

definition base64_encode :: "byte list \<Rightarrow> int \<Rightarrow> byte list option" where
  "base64_encode plain len =
     (case Base64encode_len len of
        None \<Rightarrow> None
      | Some encoded_len \<Rightarrow>
          (case Base64encode plain len of
             None \<Rightarrow> None
           | Some encoded \<Rightarrow> if int (length encoded) \<le> encoded_len then Some encoded else None))"

definition base64_decode :: "byte list \<Rightarrow> (byte list \<times> int) option" where
  "base64_decode encoded =
     (case Base64decode_len encoded of
        None \<Rightarrow> None
      | Some decode_len \<Rightarrow>
          (case Base64decode encoded of
             None \<Rightarrow> None
           | Some (plain, n) \<Rightarrow> if int (length plain) \<le> decode_len then Some (plain, n) else None))"

subsection \<open>Bits of a group\<close>

lemma and_masks:
  fixes x :: u32
  shows "x AND 0x3F = take_bit 6 x" "x AND 0x3 = take_bit 2 x" "x AND 0xF = take_bit 4 x"
    "x AND 0xF0 = push_bit 4 (take_bit 4 (drop_bit 4 x))"
    "x AND 0xC0 = push_bit 6 (take_bit 2 (drop_bit 6 x))"
  using and_push_mask [of x 4 4] and_push_mask [of x 6 2]
  by (simp_all add: take_bit_eq_mask mask_eq_exp_minus_1 push_bit_eq_mult)

lemma bit_enc_ix0: "bit (enc_ix0 b0) n \<longleftrightarrow> n < 6 \<and> bit b0 (n + 2)"
  by (cases "n = 5") (auto simp: enc_ix0_def bit_simps and_masks)

lemma bit_enc_ix1:
  "bit (enc_ix1 b0 b1) n \<longleftrightarrow> (4 \<le> n \<and> n < 6 \<and> bit b0 (n - 4)) \<or> (n < 4 \<and> bit b1 (4 + n))"
  by (cases "n = 3") (auto simp: enc_ix1_def bit_simps and_masks min_def)

lemma bit_enc_ix1_last: "bit (enc_ix1_last b0) n \<longleftrightarrow> 4 \<le> n \<and> n < 6 \<and> bit b0 (n - 4)"
  by (auto simp: enc_ix1_last_def bit_simps and_masks min_def)

lemma bit_enc_ix2:
  "bit (enc_ix2 b1 b2) n \<longleftrightarrow> (2 \<le> n \<and> n < 6 \<and> bit b1 (n - 2)) \<or> (n < 2 \<and> bit b2 (6 + n))"
  by (cases "n = 1") (auto simp: enc_ix2_def bit_simps and_masks min_def)

lemma bit_enc_ix2_last: "bit (enc_ix2_last b1) n \<longleftrightarrow> 2 \<le> n \<and> n < 6 \<and> bit b1 (n - 2)"
  by (auto simp: enc_ix2_last_def bit_simps and_masks min_def)

lemma bit_enc_ix3: "bit (enc_ix3 b2) n \<longleftrightarrow> n < 6 \<and> bit b2 n"
  by (auto simp: enc_ix3_def bit_simps and_masks min_def)

lemmas enc_bits = bit_enc_ix0 bit_enc_ix1 bit_enc_ix1_last bit_enc_ix2 bit_enc_ix2_last bit_enc_ix3

lemma enc_ix_less [simp]:
  "unat (enc_ix0 b0) < 64" "unat (enc_ix1 b0 b1) < 64" "unat (enc_ix1_last b0) < 64"
  "unat (enc_ix2 b1 b2) < 64" "unat (enc_ix2_last b1) < 64" "unat (enc_ix3 b2) < 64"
  by (rule unat_less_of_bits [where m = 6, simplified], auto simp: enc_bits)+

lemma pr2six_basis_all: "list_all (\<lambda>k. pr2six (basis_64 ! k) = of_nat k) [0..<64]"
  by code_simp

lemma pr2six_enc_char: "unat k < 64 \<Longrightarrow> pr2six (enc_char k) = ucast k"
  using list_all_lessThan [OF pr2six_basis_all] by (simp add: of_nat_unat)



lemma dec_byte0_enc:
  "dec_byte0 (enc_char (enc_ix0 b0)) (enc_char (enc_ix1 b0 b1)) = b0"
  "dec_byte0 (enc_char (enc_ix0 b0)) (enc_char (enc_ix1_last b0)) = b0"
  by (rule byte_eqI; simp add: dec_byte0_def pr2six_enc_char bit_simps enc_bits; simp add: numeral_2_eq_2 numeral_3_eq_3)+

lemma dec_byte1_enc:
  "dec_byte1 (enc_char (enc_ix1 b0 b1)) (enc_char (enc_ix2 b1 b2)) = b1"
  "dec_byte1 (enc_char (enc_ix1 b0 b1)) (enc_char (enc_ix2_last b1)) = b1"
  by (rule byte_eqI; simp add: dec_byte1_def pr2six_enc_char bit_simps enc_bits; simp add: numeral_2_eq_2 numeral_3_eq_3)+

lemma dec_byte2_enc:
  "dec_byte2 (enc_char (enc_ix2 b1 b2)) (enc_char (enc_ix3 b2)) = b2"
  by (rule byte_eqI; simp add: dec_byte2_def pr2six_enc_char bit_simps enc_bits; simp add: numeral_2_eq_2 numeral_3_eq_3)+

subsection \<open>The text of an encoding and the groups of a decoding\<close>

text \<open>Structural descriptions of what the two index loops produce: the characters of the
  alphabet without the padding, the padding, and the bytes of a coded text. \<open>coded\<close> is the
  prefix of a C string that the decoder looks at.\<close>

fun enc_text :: "byte list \<Rightarrow> byte list" where
  "enc_text (a # b # c # r) =
     [enc_char (enc_ix0 a), enc_char (enc_ix1 a b), enc_char (enc_ix2 b c), enc_char (enc_ix3 c)]
     @ enc_text r"
| "enc_text [a, b] = [enc_char (enc_ix0 a), enc_char (enc_ix1 a b), enc_char (enc_ix2_last b)]"
| "enc_text [a] = [enc_char (enc_ix0 a), enc_char (enc_ix1_last a)]"
| "enc_text [] = []"

definition padding :: "byte list \<Rightarrow> byte list" where
  "padding bs = replicate ((3 - length bs mod 3) mod 3) pad_char"

fun dec_groups :: "byte list \<Rightarrow> byte list" where
  "dec_groups (a # b # c # d # r) = [dec_byte0 a b, dec_byte1 b c, dec_byte2 c d] @ dec_groups r"
| "dec_groups [a, b, c] = [dec_byte0 a b, dec_byte1 b c]"
| "dec_groups [a, b] = [dec_byte0 a b]"
| "dec_groups _ = []"

abbreviation coded :: "byte list \<Rightarrow> byte list" where
  "coded s \<equiv> takeWhile (\<lambda>b. pr2six b \<le> 63) s"

lemma encode_loop_text:
  "i \<le> length bs \<Longrightarrow> l = int (length bs) \<Longrightarrow> Base64encode_loop bs l i out = (j, p) \<Longrightarrow>
     j \<le> length bs \<and> length bs \<le> j + 2 \<and> (length bs - j) mod 3 = (length bs - i) mod 3 \<and>
     p @ enc_text (drop j bs) = out @ enc_text (drop i bs)"
proof (induction bs l i out rule: Base64encode_loop.induct)
  case (1 bs l i out)
  show ?case
  proof (cases "int i < l - 2")
    case True
    with "1.prems"(2) have "i + 2 < length bs" by simp
    with drop_three [OF this] 1 True show ?thesis
      by (auto simp: Base64encode_loop.simps [of bs "int (length bs)" i out] algebra_simps le_mod_geq)
  next
    case False
    with "1.prems" show ?thesis
      by (auto simp: Base64encode_loop.simps [of bs "int (length bs)" i out])
  qed
qed

lemma Base64encode_text:
  assumes "int (length bs) \<le> INT_MAX"
  shows "Base64encode bs (int (length bs)) = Some (enc_text bs @ padding bs @ [0])"
proof -
  obtain j p where jp: "Base64encode_loop bs (int (length bs)) 0 [] = (j, p)" by force
  from encode_loop_text [OF _ refl jp] have l: "j \<le> length bs" "length bs \<le> j + 2"
    and m: "(length bs - j) mod 3 = length bs mod 3" and t: "enc_text bs = p @ enc_text (drop j bs)"
    by auto
  from drop_cases_tail [OF l] consider
      (none) "j = length bs" "drop j bs = []" "length bs mod 3 = 0"
    | (one) "j + 1 = length bs" "drop j bs = [bs ! j]" "length bs mod 3 = 1"
    | (two) "j + 2 = length bs" "drop j bs = [bs ! j, bs ! (j + 1)]" "length bs mod 3 = 2"
    using m by force
  then show ?thesis
    using assms by cases (auto simp: t padding_def Base64encode_def jp Let_def numeral_2_eq_2 int_range_def)
qed

lemma scan_stop_guard: "pr2six (cstr_at s i) \<le> 63 \<Longrightarrow> i < length s"
proof (rule ccontr)
  assume a: "pr2six (cstr_at s i) \<le> 63" "\<not> i < length s"
  have "pr2six 0 = 64" by code_simp
  with a show False by simp
qed

lemma scan_takeWhile:
  "i \<le> length s \<Longrightarrow> Base64_scan s i = i + length (coded (drop i s))"
proof (induction s i rule: Base64_scan.induct)
  case (1 s i)
  then show ?case
    using Cons_nth_drop_Suc [of i s]
    by (cases "i < length s") (auto simp: Base64_scan.simps [of s i] Base64_scan.simps [of s "length s"] dest!: sym [of "_ # _"])
qed

lemma scan_coded: "Base64_scan s 0 = length (coded s)"
  using scan_takeWhile [of 0 s] by simp

lemma decode_loop_groups:
  "p + nat n \<le> length s \<Longrightarrow> 0 \<le> n \<Longrightarrow> Base64decode_loop s p n out = (p', n', out') \<Longrightarrow>
     0 \<le> n' \<and> n' \<le> 4 \<and> int p' + n' = int p + n \<and> n' mod 4 = n mod 4 \<and>
     out' @ dec_groups (take (nat n') (drop p' s)) = out @ dec_groups (take (nat n) (drop p s))"
proof (induction s p n out rule: Base64decode_loop.induct)
  case (1 s p n out)
  show ?case
  proof (cases "n > 4")
    case True
    let ?g = "[dec_byte0 (cstr_at s p) (cstr_at s (p + 1)),
               dec_byte1 (cstr_at s (p + 1)) (cstr_at s (p + 2)),
               dec_byte2 (cstr_at s (p + 2)) (cstr_at s (p + 3))]"
    have "Base64decode_loop s (p + 4) (n - 4) (out @ ?g) = (p', n', out')"
      using "1.prems" True by (simp add: Base64decode_loop.simps [of s p n out])
    moreover have "(n - 4) mod 4 = n mod 4" by (rule minus_mod_self2)
    moreover have "nat n = 4 + (nat n - 4)" "nat (n - 4) = nat n - 4" using True by auto
    ultimately show ?thesis using "1.IH" [OF True] "1.prems" True
      by (simp add: take_drop_four)
  next
    case False
    with "1.prems" show ?thesis
      by (auto simp: Base64decode_loop.simps [of s p n out])
  qed
qed

lemma length_dec_groups:
  "int (length (dec_groups xs)) =
     ((int (length xs) + 3) div 4) * 3 - (4 - int (length xs)) mod 4"
proof (induction xs rule: dec_groups.induct)
  case (1 a b c d r)
  have "(int (length r) + 3 + 4) div 4 = (int (length r) + 3) div 4 + 1"
    by (rule div_add_self2) simp
  with 1 show ?case by (simp add: algebra_simps)
qed auto

lemma dec_tail:
  assumes "length xs \<le> 4" 
  shows "dec_groups xs = (if length xs > 1 then [dec_byte0 (xs ! 0) (xs ! 1)] else []) @
    (if length xs > 2 then [dec_byte1 (xs ! 1) (xs ! 2)] else []) @
    (if length xs > 3 then [dec_byte2 (xs ! 2) (xs ! 3)] else [])"
  using assms by (induction xs rule: dec_groups.induct) auto

text \<open>The largest coded text that the lengths of the decoder can hold.\<close>

abbreviation decodable :: "byte list \<Rightarrow> bool" where
  "decodable s \<equiv> int (length (coded s)) \<le> INT_MAX - 3"

lemma Base64decode_groups:
  assumes "decodable s"
  shows "Base64decode s = Some (dec_groups (coded s) @ [0], int (length (dec_groups (coded s))))"
proof -
  define m where "m = int (length (coded s))"
  obtain p n out where l: "Base64decode_loop s 0 m [] = (p, n, out)"
    by (metis prod_cases3)
  define t where "t = take (nat n) (drop p s)"
  have len: "length (coded s) \<le> length s"
    by (rule length_takeWhile_le)
  have "take (length (coded s)) s = coded s"
    by (metis takeWhile_eq_take)
  with decode_loop_groups [OF _ _ l] len
  have n4: "0 \<le> n" "n \<le> 4" and pn: "int p + n = m" and m4: "n mod 4 = m mod 4"
    and out: "dec_groups (coded s) = out @ dec_groups t"
    by (auto simp: t_def m_def)
  have lt: "int (length t) = n" using pn len n4 by (simp add: t_def m_def)
  have at: "int k < n \<Longrightarrow> cstr_at s (p + k) = t ! k" for k
    using pn len by (simp add: t_def m_def)
  have c: "to_c_int m = m" "int_range (m + 3)" "int_range (4 - n)"
    using assms n4 by (simp_all add: m_def to_c_int_id int_range_def)
  have "(4 - n) AND 3 = (4 - m) mod 4"
    using m4 by (simp only: int_and_3) (rule mod_diff_cong, simp_all)
  then have nb: "c_quot (m + 3) 4 * 3 - ((4 - n) AND 3) = int (length (dec_groups (coded s)))"
    by (simp add: length_dec_groups m_def)
  have tail: "dec_groups t = (if n > 1 then [dec_byte0 (cstr_at s p) (cstr_at s (p + 1))] else []) @
    (if n > 2 then [dec_byte1 (cstr_at s (p + 1)) (cstr_at s (p + 2))] else []) @
    (if n > 3 then [dec_byte2 (cstr_at s (p + 2)) (cstr_at s (p + 3))] else [])"
    using dec_tail [of t] n4 at [of 0] at [of 1] at [of 2] at [of 3] lt by auto
  have "Base64_scan s 0 = length (coded s)" by (rule scan_coded)
  then show ?thesis unfolding Base64decode_def Let_def
    using c nb out tail l by (simp add: m_def [symmetric])
qed

lemma dec_enc_text: "dec_groups (enc_text bs) = bs"
  by (induction bs rule: enc_text.induct) (simp_all add: dec_byte0_enc dec_byte1_enc dec_byte2_enc)

lemma enc_char_alphabet: "unat k < 64 \<Longrightarrow> pr2six (enc_char k) \<le> 63"
proof -
  assume "unat k < 64"
  then show ?thesis using pr2six_enc_char [of k] by (simp add: word_le_nat_alt unsigned_ucast_eq take_bit_eq_mod)
qed

lemma enc_text_alphabet: "list_all (\<lambda>b. pr2six b \<le> 63) (enc_text bs)"
  by (induction bs rule: enc_text.induct) (simp_all add: enc_char_alphabet)

lemma coded_enc: "coded (enc_text bs @ padding bs) = enc_text bs"
proof -
  have "pr2six pad_char = 64" by code_simp
  then show ?thesis using enc_text_alphabet [of bs]
    by (simp add: takeWhile_append2 list_all_iff padding_def)
qed

lemma length_enc_text: 
  "int (length (enc_text bs) + length (padding bs)) = (int (length bs) + 2) div 3 * 4"
proof (induction bs rule: enc_text.induct)
  case (1 a b c r)
  have "(int (length r) + 2 + 3) div 3 = (int (length r) + 2) div 3 + 1"
    by (rule div_add_self2) simp
  moreover have "length (padding (a # b # c # r)) = length (padding r)"
    by (simp add: padding_def)
  ultimately show ?case using 1 by (simp add: algebra_simps)
qed (auto simp: padding_def)

subsection \<open>Correctness\<close>

text \<open>The longest text whose encoding has a length that fits in an \<open>int\<close>, the terminator included.\<close>

abbreviation ENCODE_MAX :: int where
  "ENCODE_MAX \<equiv> 1610612733"

lemma Base64encode_len_Some:
  assumes "0 \<le> l" "l \<le> ENCODE_MAX"
  shows "Base64encode_len l = Some ((l + 2) div 3 * 4 + 1)"
proof -
  have "(l + 2) div 3 \<le> 536870911" using assms by simp
  moreover have "0 \<le> (l + 2) div 3" using assms by simp
  ultimately show ?thesis using assms by (auto simp: Base64encode_len_def int_range_def)
qed

text \<open>From the next length on the computation overflows.\<close>

lemma Base64encode_len_overflow:
  assumes "ENCODE_MAX < l"
  shows "base64_encode bs l = None"
proof -
  have "536870912 \<le> (l + 2) div 3" using assms by simp
  then have "INT_MAX < (l + 2) div 3 * 4" by linarith
  then show ?thesis using assms by (simp add: base64_encode_def Base64encode_len_def int_range_def)
qed

lemma base64_encode_Some:
  assumes "int (length bs) \<le> ENCODE_MAX"
  shows "base64_encode bs (int (length bs)) = Some (enc_text bs @ padding bs @ [0])"
  using assms length_enc_text [of bs]
  by (simp add: base64_encode_def Base64encode_len_Some Base64encode_text)

lemma base64_decode_Some:
  assumes "decodable s"
  shows "base64_decode s = Some (dec_groups (coded s) @ [0], int (length (dec_groups (coded s))))"
  using assms
  by (simp add: base64_decode_def Base64decode_len_def scan_coded to_c_int_id int_range_def Base64decode_groups
      length_dec_groups)

lemma decodable_enc:
  assumes "int (length bs) \<le> ENCODE_MAX"
  shows "decodable (enc_text bs @ padding bs)"
proof -
  have "(int (length bs) + 2) div 3 \<le> 536870911" using assms by simp
  then show ?thesis using length_enc_text [of bs] by (simp add: coded_enc)
qed

lemma base64_decode_enc:
  assumes "int (length bs) \<le> ENCODE_MAX"
  shows "base64_decode (enc_text bs @ padding bs) = Some (bs @ [0], int (length bs))"
  using base64_decode_Some [OF decodable_enc [OF assms]] by (simp add: coded_enc dec_enc_text)

text \<open>The wrappers as a codec: the text of \<open>base64::encode\<close> is its buffer up to the
  terminator, the value of \<open>base64::decode\<close> the first \<open>size\<close> bytes of its buffer.\<close>

definition base64_text :: "byte list \<Rightarrow> byte list" where
  "base64_text bs = butlast (the (base64_encode bs (int (length bs))))"

definition base64_value :: "byte list \<Rightarrow> byte list option" where
  "base64_value s = map_option (\<lambda>(plain, n). take (nat n) plain) (base64_decode s)"

lemma base64_text_eq: "int (length bs) \<le> ENCODE_MAX \<Longrightarrow> base64_text bs = enc_text bs @ padding bs"
  by (simp add: base64_text_def base64_encode_Some butlast_append)

interpretation b64: codec "\<lambda>bs. int (length bs) \<le> ENCODE_MAX" base64_text base64_value
  by unfold_locales (simp add: base64_value_def base64_text_eq base64_decode_enc)

lemma length_basis_64: "length basis_64 = 64"
  by (simp add: basis_64_def)

lemma set_enc_text: "set (enc_text bs) \<subseteq> set basis_64"
  by (induction bs rule: enc_text.induct) (auto simp: length_basis_64)

lemma set_base64_text: "int (length bs) \<le> ENCODE_MAX \<Longrightarrow> set (base64_text bs) \<subseteq> set basis_64 \<union> {pad_char}"
  using set_enc_text [of bs] by (auto simp: base64_text_eq padding_def)

text \<open>C9: Decoding undoes encoding: for every byte string whose coded length fits in an \<open>int\<close> (up to 1610612733 bytes;
  from there on the length overflows), \<open>base64::encode\<close> produces a zero-terminated text within its allocation, and
  \<open>base64::decode\<close> of that text stays within its own allocation, stores exactly the original bytes followed by
  a zero byte, and reports the original length.\<close>

theorem base64_roundtrip:
  assumes "int (length bs) \<le> 1610612733"
  shows "\<exists>text. base64_encode bs (int (length bs)) = Some (text @ [0]) \<and>
     base64_decode text = Some (bs @ [0], int (length bs))"
  using base64_encode_Some [OF assms] base64_decode_enc [OF assms] by auto

theorem base64_roundtrip_witness:
  "\<exists>text. base64_encode [104, 105] 2 = Some (text @ [0]) \<and> base64_decode text = Some ([104, 105, 0], 2)"
  using base64_roundtrip [of "[104, 105]"] by simp

text \<open>C18: No input whose characters of the alphabet before the first foreign byte number at most 2147483644 (so that \<open>nprbytes + 3\<close> fits
  in an \<open>int\<close>) makes the decoder overrun the buffer that \<open>Base64decode_len\<close> sizes: the
  wrapper never writes outside its allocation, the last byte stored is zero, the reported
  size is the number of bytes before it, and everything from the first byte outside the
  alphabet on is ignored.\<close>

theorem base64_decode_total:
  assumes "int (length (takeWhile (\<lambda>b. pr2six b \<le> 63) s)) \<le> 2147483644"
  shows "\<exists>plain. base64_decode s = Some (plain @ [0], int (length plain)) \<and>
     base64_decode (takeWhile (\<lambda>b. pr2six b \<le> 63) s) = base64_decode s"
  using assms by (simp add: base64_decode_Some takeWhile_takeWhile_eq)

theorem base64_decode_total_witness:
  "\<exists>plain. base64_decode [97, 71, 107, 33, 97] = Some (plain @ [0], int (length plain)) \<and>
     base64_decode [97, 71, 107] = base64_decode [97, 71, 107, 33, 97]"
proof -
  have t: "takeWhile (\<lambda>b. pr2six b \<le> 63) [97, 71, 107, 33, 97 :: byte] = [97, 71, 107]" by code_simp
  from base64_decode_total [of "[97, 71, 107, 33, 97]", unfolded t] show ?thesis by simp
qed

text \<open>\<open>Base64encode\<close> stores exactly as many bytes as \<open>Base64encode_len\<close> predicts, every
  stored byte before the terminator is a letter of the alphabet or the padding character,
  and two inputs with the same text are equal.\<close>

theorem base64_encode_exact:
  assumes "int (length bs) \<le> 1610612733" "int (length bs') \<le> 1610612733"
  shows "map_option (\<lambda>e. int (length e)) (Base64encode bs (int (length bs))) = Base64encode_len (int (length bs)) \<and>
   set (base64_text bs) \<subseteq> set basis_64 \<union> {pad_char} \<and>
   (base64_text bs = base64_text bs' \<longleftrightarrow> bs = bs')"
  using assms length_enc_text [of bs] b64.enc_inject set_base64_text
  by (simp add: Base64encode_text Base64encode_len_Some)

end
