(* ===== verification/Digest_Stream.thy ===== *)
theory Digest_Stream
  imports Prelude "HOL-Library.Char_ord"
begin

text \<open>
  What the two block digests \<^verbatim>\<open>src/embedded/digest/md5.c\<close> and \<^verbatim>\<open>sha1.c\<close> share: 32-bit words
  in memory on a little-endian machine, \<open>memcpy\<close> into a context buffer, the double-word
  byte counter, the absorption of a message in blocks of 64 bytes, the padded message of
  RFC 1321 and FIPS 180, and the contract of a streaming digest.
\<close>


subsection \<open>Memory\<close>

definition load32 :: "byte list \<Rightarrow> u32" where
  "load32 bs =
     ucast (bs ! 0) OR push_bit 8 (ucast (bs ! 1)) OR
     push_bit 16 (ucast (bs ! 2)) OR push_bit 24 (ucast (bs ! 3))"

definition store32 :: "u32 \<Rightarrow> byte list" where
  "store32 w = [ucast w, ucast (drop_bit 8 w), ucast (drop_bit 16 w), ucast (drop_bit 24 w)]"

definition words16 :: "byte list \<Rightarrow> u32 list" where
  "words16 blk = map (\<lambda>k. load32 (take 4 (drop (4 * k) blk))) [0..<16]"

definition memcpy_at :: "'a list \<Rightarrow> nat \<Rightarrow> 'a list \<Rightarrow> 'a list" where
  "memcpy_at dst off src = take off dst @ src @ drop (off + length src) dst"

text \<open>The padding source \<open>fillbuf\<close> of both files: \<open>0x80\<close> and then zeros.\<close>

definition fillbuf :: "byte list" where
  "fillbuf = 0x80 # replicate 63 0"

lemma length_store32 [simp]: "length (store32 w) = 4"
  by (simp add: store32_def)

lemma length_words16 [simp]: "length (words16 blk) = 16"
  by (simp add: words16_def)

lemma length_fillbuf [simp]: "length fillbuf = 64"
  by (simp add: fillbuf_def)

lemma length_memcpy_at [simp]:
  "off + length src \<le> length dst \<Longrightarrow> length (memcpy_at dst off src) = length dst"
  by (simp add: memcpy_at_def)

lemma take_memcpy_at:
  "off \<le> length dst \<Longrightarrow> take (off + length src) (memcpy_at dst off src) = take off dst @ src"
  by (simp add: memcpy_at_def)

lemma take_fillbuf: "0 < n \<Longrightarrow> n \<le> 64 \<Longrightarrow> take n fillbuf = 0x80 # replicate (n - 1) 0"
  by (cases n) (auto simp: fillbuf_def)

text \<open>The list facts behind filling a 128-byte buffer that holds \<open>k\<close> bytes.\<close>

lemma fill_split:
  fixes b d :: "'a list"
  assumes b: "length b = 128" and k: "k \<le> 64" and add: "add \<le> length d" "k + add \<le> 128"
  defines "b' \<equiv> memcpy_at b k (take add d)"
    and "n \<equiv> (k + add) div 64 * 64" and "r \<equiv> (k + add) mod 64"
  shows "length b' = 128" "take (k + add) b' = take k b @ take add d"
    "n \<le> 128" "length (memcpy_at b' 0 (take r (drop n b'))) = 128"
    "take n b' @ take r (memcpy_at b' 0 (take r (drop n b'))) = take k b @ take add d"
proof -
  have nr: "n + r = k + add" by (simp add: n_def r_def)
  show lb: "length b' = 128" using b add by (simp add: b'_def)
  show tb: "take (k + add) b' = take k b @ take add d"
    using take_memcpy_at [of k b "take add d"] k b add by (simp add: b'_def)
  show "n \<le> 128" using nr add by linarith
  have lr: "length (take r (drop n b')) = r" using nr add lb by simp
  show "length (memcpy_at b' 0 (take r (drop n b'))) = 128" using lr lb nr add by simp
  have "take r (memcpy_at b' 0 (take r (drop n b'))) = take r (drop n b')"
    using take_memcpy_at [of 0 b' "take r (drop n b')"] lr by simp
  then show "take n b' @ take r (memcpy_at b' 0 (take r (drop n b'))) = take k b @ take add d"
    unfolding tb [symmetric] nr [symmetric] by (simp add: take_add)
qed


subsection \<open>Hexadecimal text\<close>

text \<open>\<open>sprintf ("%02x")\<close> of every digest byte.\<close>

definition hex_digit :: "nat \<Rightarrow> char" where
  "hex_digit n = ''0123456789abcdef'' ! n"

definition hex_bytes :: "byte list \<Rightarrow> string" where
  "hex_bytes bs = concat (map (\<lambda>b. [hex_digit (unat b div 16), hex_digit (unat b mod 16)]) bs)"

definition unhex_digit :: "char \<Rightarrow> nat" where
  "unhex_digit c = (if c \<le> CHR ''9'' then of_char c - 48 else of_char c - 87)"

fun unhex :: "string \<Rightarrow> byte list option" where
  "unhex [] = Some []"
| "unhex (a # b # cs) =
     map_option ((#) (of_nat (16 * unhex_digit a + unhex_digit b))) (unhex cs)"
| "unhex [a] = None"

lemma unhex_hex_digit: "n < 16 \<Longrightarrow> unhex_digit (hex_digit n) = n"
proof -
  have "list_all (\<lambda>n. unhex_digit (hex_digit n) = n) [0..<16]" by code_simp
  then show "n < 16 \<Longrightarrow> unhex_digit (hex_digit n) = n" by (rule list_all_lessThan)
qed

lemma unhex_hex_bytes: "unhex (hex_bytes bs) = Some bs"
proof (induction bs)
  case (Cons b bs)
  have "unat b < 256" using unsigned_less [of b] by simp
  then have "unat b div 16 < 16" by simp
  with Cons show ?case by (simp add: hex_bytes_def unhex_hex_digit)
qed (simp add: hex_bytes_def)

lemma length_hex_bytes: "length (hex_bytes bs) = 2 * length bs"
  by (induction bs) (auto simp: hex_bytes_def)

interpretation hex: codec "\<lambda>_. True" hex_bytes unhex
  by unfold_locales (rule unhex_hex_bytes)


subsection \<open>The double-word byte counter\<close>

text \<open>\<open>total[0] += len; if (total[0] < len) ++total[1];\<close>, where \<open>len\<close> is a 64-bit
  \<open>size_t\<close> and the two counters are 32-bit words.\<close>

definition count_bytes :: "nat \<Rightarrow> u32 \<times> u32 \<Rightarrow> u32 \<times> u32" where
  "count_bytes len t =
     (let t0 = fst t + of_nat len in (t0, if unat t0 < len then snd t + 1 else snd t))"

definition count64 :: "u32 \<times> u32 \<Rightarrow> 64 word" where
  "count64 t = ucast (fst t) + push_bit 32 (ucast (snd t))"

lemma count64_eq: "count64 t = of_nat (unat (fst t) + 2 ^ 32 * unat (snd t))"
  by (simp add: count64_def push_bit_eq_mult)

lemma of_nat_mod_2p64: "(of_nat (n mod 2 ^ 64) :: 64 word) = of_nat n"
  by (simp add: word_of_nat_eq_iff take_bit_eq_mod)

lemma count64_carry: "(of_nat (2 ^ 32 * unat (b + 1)) :: 64 word) = of_nat (2 ^ 32 * unat b + 2 ^ 32)"
  for b :: u32
proof -
  have "2 ^ 32 * unat (b + 1) = (2 ^ 32 * (unat b + 1)) mod (2 ^ 32 * 2 ^ 32)"
    unfolding mult_mod_right [symmetric] by (simp add: unat_word_ariths)
  also have "2 ^ 32 * 2 ^ 32 = (2 ^ 64 :: nat)" by simp
  finally show ?thesis by (simp only: of_nat_mod_2p64 distrib_left mult_1_right)
qed

lemma count64_count_bytes:
  assumes "len < 2 ^ 32"
  shows "count64 (count_bytes len t) = count64 t + of_nat len"
proof -
  obtain a b where t: "t = (a, b)" by force
  have ua: "unat a < 2 ^ 32" using unsigned_less [of a] by simp
  have s: "unat (a + of_nat len) = (unat a + len) mod 2 ^ 32"
    using assms by (simp add: unat_word_ariths unat_of_nat)
  show ?thesis
  proof (cases "unat a + len < 2 ^ 32")
    case True
    then have u: "unat (a + of_nat len) = unat a + len" by (simp add: s)
    then show ?thesis by (simp add: t count_bytes_def count64_eq Let_def)
  next
    case False
    then have u: "unat (a + of_nat len) + 2 ^ 32 = unat a + len"
      using ua assms by (simp add: s le_mod_geq)
    then have lt: "unat (a + of_nat len) < len" using ua by linarith
    have "count64 (count_bytes len t) = of_nat (unat (a + of_nat len)) + of_nat (2 ^ 32 * unat (b + 1))"
      using lt by (simp add: t count_bytes_def count64_eq Let_def)
    also have "\<dots> = of_nat (unat (a + of_nat len) + 2 ^ 32 + 2 ^ 32 * unat b)"
      unfolding count64_carry by simp
    finally show ?thesis unfolding u by (simp add: t count64_eq)
  qed
qed

lemma word64_of_nat_inj: "m < 2 ^ 64 \<Longrightarrow> n < 2 ^ 64 \<Longrightarrow> (of_nat m :: 64 word) = of_nat n \<longleftrightarrow> m = n"
  by (simp add: word_of_nat_eq_iff take_bit_nat_eq_self)

lemma count_bytes_2p32: "count64 (count_bytes (2 ^ 32) t) = count64 t + of_nat (2 ^ 32)"
proof -
  obtain a b where t: "t = (a, b)" by force
  have "unat a < 2 ^ 32" using unsigned_less [of a] by simp
  moreover have "(of_nat (2 ^ 32) :: u32) = 0" by (simp only: word_of_nat_eq_0_iff) simp
  ultimately have "count_bytes (2 ^ 32) t = (a, b + 1)"
    unfolding t count_bytes_def Let_def fst_conv snd_conv by (simp only: add_0_right) simp
  then have "count64 (count_bytes (2 ^ 32) t) = of_nat (unat a) + of_nat (2 ^ 32 * unat (b + 1))"
    by (simp add: count64_eq)
  then show ?thesis unfolding count64_carry by (simp add: t count64_eq)
qed

lemma count_bytes_large:
  assumes "2 ^ 32 < len" "len < 2 ^ 63"
  shows "\<exists>t. count64 (count_bytes len t) \<noteq> count64 t + of_nat len"
proof -
  define q where "q = len div 2 ^ 32"
  define r where "r = len mod 2 ^ 32"
  have len: "len = 2 ^ 32 * q + r" and r: "r < 2 ^ 32" by (simp_all add: q_def r_def)
  have ur: "(of_nat len :: u32) = of_nat r" "unat (of_nat r :: u32) = r"
    using r by (simp_all add: r_def unat_of_nat word_of_nat_eq_iff take_bit_eq_mod)
  show ?thesis
  proof (cases "q \<ge> 2")
    case True
    have "count_bytes len (0, 0) = (of_nat r, 1)"
      using ur r assms by (simp add: count_bytes_def)
    then have c: "count64 (count_bytes len (0, 0)) = of_nat (r + 2 ^ 32)"
      using ur by (simp add: count64_eq)
    have "r + 2 ^ 32 \<noteq> len" using True by (simp add: len)
    moreover have "r + 2 ^ 32 < 2 ^ 64" using r by simp
    ultimately have "count64 (count_bytes len (0, 0)) \<noteq> of_nat len"
      unfolding c using assms by (subst word64_of_nat_inj) auto
    then show ?thesis by (intro exI [of _ "(0, 0)"]) (simp add: count64_eq)
  next
    case False
    then have q: "q = 1" "0 < r" using assms len r by (cases q; auto)+
    define a :: u32 where "a = of_nat (2 ^ 32 - 1)"
    have ua: "unat a = 2 ^ 32 - 1" unfolding a_def by (subst unat_of_nat) simp
    have s: "unat (a + of_nat r) = r - 1"
      using q r by (simp add: unat_word_ariths ua ur mod_if)
    have "count_bytes len (a, 0) = (a + of_nat r, 1)"
      using ur s r assms by (simp add: count_bytes_def)
    then have c: "count64 (count_bytes len (a, 0)) = of_nat (r - 1 + 2 ^ 32)"
      using s by (simp add: count64_eq)
    have d: "count64 (a, 0) + of_nat len = of_nat (2 ^ 32 - 1 + len)"
      using ua by (simp add: count64_eq)
    have "count64 (count_bytes len (a, 0)) \<noteq> count64 (a, 0) + of_nat len"
      unfolding c d using q r len by (subst word64_of_nat_inj) auto
    then show ?thesis by blast
  qed
qed

text \<open>The bit count that both \<open>finish\<close> functions derive from the counter.\<close>

definition bits_low :: "u32 \<times> u32 \<Rightarrow> u32" where
  "bits_low t = push_bit 3 (fst t)"

definition bits_high :: "u32 \<times> u32 \<Rightarrow> u32" where
  "bits_high t = push_bit 3 (snd t) OR drop_bit 29 (fst t)"

lemma count64_or: "count64 t = ucast (fst t) OR push_bit 32 (ucast (snd t))"
  unfolding count64_def by (rule disjunctive_add) (auto simp: bit_simps dest: bit_imp_le_length)

lemma bits_of_count64:
  assumes "count64 t = of_nat n"
  shows "bits_low t = ucast (of_nat (8 * n) :: 64 word)"
    and "bits_high t = ucast (drop_bit 32 (of_nat (8 * n) :: 64 word))"
proof -
  have L: "(of_nat (8 * n) :: 64 word) = push_bit 3 (count64 t)"
    using assms by (simp add: push_bit_eq_mult)
  show "bits_low t = ucast (of_nat (8 * n) :: 64 word)"
    unfolding L bits_low_def count64_or by (rule bit_eqI) (auto simp: bit_simps)
  show "bits_high t = ucast (drop_bit 32 (of_nat (8 * n) :: 64 word))"
    unfolding L bits_high_def count64_or by (rule bit_eqI) (auto simp: bit_simps)
qed


subsection \<open>Blocks\<close>

function chunks64 :: "byte list \<Rightarrow> byte list list" where
  "chunks64 bs = (if bs = [] then [] else take 64 bs # chunks64 (drop 64 bs))"
  by pat_completeness auto
termination
  by (relation "measure length") auto

declare chunks64.simps [simp del]

definition absorb :: "('s \<Rightarrow> byte list \<Rightarrow> 's) \<Rightarrow> 's \<Rightarrow> byte list \<Rightarrow> 's" where
  "absorb f s bs = foldl f s (chunks64 bs)"

lemma chunks64_Nil [simp]: "chunks64 [] = []"
  by (simp add: chunks64.simps)

lemma chunks64_block: "length b = 64 \<Longrightarrow> chunks64 (b @ bs) = b # chunks64 bs"
  by (subst chunks64.simps) auto

lemma chunks64_append: "length a mod 64 = 0 \<Longrightarrow> chunks64 (a @ b) = chunks64 a @ chunks64 b"
proof (induction a rule: chunks64.induct)
  case (1 a)
  show ?case
  proof (cases "a = []")
    case False
    with "1.prems" have l: "64 \<le> length a"
      by (metis length_0_conv mod_less not_le)
    with "1.IH" [OF False] "1.prems"
    have "chunks64 (drop 64 a @ b) = chunks64 (drop 64 a) @ chunks64 b"
      by (simp add: le_mod_geq)
    with l False show ?thesis
      by (simp add: chunks64.simps [of "a @ b"] chunks64.simps [of a])
  qed simp
qed

lemma absorb_Nil [simp]: "absorb f s [] = s"
  by (simp add: absorb_def)

lemma absorb_append: "length a mod 64 = 0 \<Longrightarrow> absorb f s (a @ b) = absorb f (absorb f s a) b"
  by (simp add: absorb_def chunks64_append)

lemma absorb_block: "length b = 64 \<Longrightarrow> absorb f s (b @ bs) = absorb f (f s b) bs"
  by (simp add: absorb_def chunks64_block)


subsection \<open>The padded message\<close>

text \<open>RFC 1321, 3.1 and 3.2, and FIPS 180: a \<open>0x80\<close> byte, the least number of zeros that
  brings the length to 56 modulo 64, and the bit length as a 64-bit number, whose byte order
  is the parameter \<open>enc64\<close>.\<close>

definition md_pad :: "nat \<Rightarrow> byte list" where
  "md_pad n = 0x80 # replicate ((119 - n mod 64) mod 64) 0"

definition padded :: "(64 word \<Rightarrow> byte list) \<Rightarrow> byte list \<Rightarrow> byte list" where
  "padded enc64 msg = msg @ md_pad (length msg) @ enc64 (of_nat (8 * length msg))"

lemma mod_Suc_cong_left: "Suc (n + k) mod m = Suc (n mod m + k) mod m"
  by (metis mod_Suc_eq mod_add_left_eq)

lemma length_md_pad: "(n + length (md_pad n)) mod 64 = 56"
proof -
  have "(n + length (md_pad n)) mod 64 = (n mod 64 + Suc ((119 - n mod 64) mod 64)) mod 64"
    unfolding md_pad_def list.size(4) length_replicate One_nat_def add_Suc_right add_0_right
    by (rule mod_Suc_cong_left)
  also have "\<dots> = 56"
  proof (cases "n mod 64 < 56")
    case True
    then have "(119 - n mod 64) mod 64 = 55 - n mod 64" by (simp add: le_mod_geq)
    with True show ?thesis by simp
  next
    case False
    moreover have "n mod 64 < 64" by simp
    ultimately have "(119 - n mod 64) mod 64 = 119 - n mod 64" by simp
    with False show ?thesis by simp
  qed
  finally show ?thesis .
qed

lemma padded_blocks:
  assumes "\<And>w. length (enc64 w) = 8"
  shows "length (padded enc64 msg) mod 64 = 0"
proof -
  have "length (padded enc64 msg) = length msg + length (md_pad (length msg)) + 8"
    by (simp add: padded_def assms)
  then have "length (padded enc64 msg) mod 64 = ((length msg + length (md_pad (length msg))) mod 64 + 8) mod 64"
    by (simp only: mod_add_left_eq)
  then show ?thesis by (simp add: length_md_pad)
qed

text \<open>The padding that the \<open>finish\<close> functions copy from \<open>fillbuf\<close>, for \<open>bytes\<close> pending bytes.\<close>

lemma md_pad_fillbuf:
  assumes "bytes \<le> 64" "n mod 64 = bytes mod 64"
  shows "take (if 56 \<le> bytes then 64 + 56 - bytes else 56 - bytes) fillbuf = md_pad n"
proof (cases "56 \<le> bytes")
  case True
  consider "bytes = 64" | "bytes < 64" using assms by linarith
  then have "(119 - n mod 64) mod 64 = 64 + 56 - bytes - 1"
    by cases (use True assms in auto)
  then show ?thesis using True assms by (simp add: take_fillbuf md_pad_def)
next
  case False
  then have "(119 - n mod 64) mod 64 = 56 - bytes - 1"
    using assms by (simp add: le_mod_geq)
  then show ?thesis using False by (simp add: take_fillbuf md_pad_def)
qed


subsection \<open>The contract of a streaming digest\<close>

text \<open>A context \<open>c\<close> represents the message \<open>m\<close> absorbed so far (\<open>rep c m\<close>). Every
  \<open>process\<close> call of less than \<open>2 ^ 32\<close> bytes appends its data, whatever the other
  circumstances \<open>p\<close> of the call (the alignment of the data), and \<open>finish\<close> returns the
  digest of the message. MD5 and SHA-1 provide it.\<close>

locale streaming_digest =
  fixes init :: 'c
    and process :: "'p \<Rightarrow> byte list \<Rightarrow> 'c \<Rightarrow> 'c"
    and finish :: "'c \<Rightarrow> byte list"
    and rep :: "'c \<Rightarrow> byte list \<Rightarrow> bool"
    and digest :: "byte list \<Rightarrow> byte list"
  assumes rep_init: "rep init []"
    and rep_process: "rep c m \<Longrightarrow> length d < 2 ^ 32 \<Longrightarrow> rep (process p d c) (m @ d)"
    and finish_digest: "rep c m \<Longrightarrow> finish c = digest m"
begin

lemma rep_chunks:
  "rep c m \<Longrightarrow> list_all (\<lambda>(p, d). length d < 2 ^ 32) ds \<Longrightarrow>
     rep (fold (\<lambda>(p, d). process p d) ds c) (m @ concat (map snd ds))"
proof (induction ds arbitrary: c m)
  case (Cons pd ds)
  obtain p d where "pd = (p, d)" by force
  with Cons show ?case using Cons.IH [of "process p d c" "m @ d"] by (simp add: rep_process)
qed simp

lemma finish_chunks:
  "list_all (\<lambda>(p, d). length d < 2 ^ 32) ds \<Longrightarrow>
     finish (fold (\<lambda>(p, d). process p d) ds init) = digest (concat (map snd ds))"
  using rep_chunks [OF rep_init] finish_digest by fastforce

lemma finish_one: "length d < 2 ^ 32 \<Longrightarrow> finish (process p d init) = digest d"
  using finish_chunks [of "[(p, d)]"] by simp

end

text \<open>The contents that the uninitialised context buffer is taken to have where a concrete one
  is needed.\<close>

definition zero_junk :: "byte list" where
  "zero_junk = replicate 128 0"

lemma length_zero_junk [simp]: "length zero_junk = 128"
  by (simp add: zero_junk_def)


subsection \<open>Correctness of the counter\<close>

text \<open>C19: The double-word increment keeps the 64-bit byte count of every counter value exactly
  for the lengths up to \<open>2 ^ 32\<close>. For every greater length there is a counter value for
  which the code, which carries at most one, counts wrongly.\<close>

theorem count_bytes_exact:
  assumes "len < 2 ^ 63"
  shows "(\<forall>t. count64 (count_bytes len t) = count64 t + of_nat len) \<longleftrightarrow> len \<le> 2 ^ 32"
  using count64_count_bytes [of len] count_bytes_2p32 count_bytes_large [of len] assms
  by (metis linorder_not_le nless_le)

theorem count_bytes_exact_witness:
  "\<not> (\<forall>t. count64 (count_bytes (2 ^ 33) t) = count64 t + of_nat (2 ^ 33))"
  using count_bytes_exact [of "2 ^ 33"] by simp

end
