(* ===== verification/MD5.thy ===== *)
theory MD5
  imports Digest_Stream
begin

text \<open>
  The embedded MD5 digest, \<^verbatim>\<open>src/embedded/digest/md5.c\<close>, and the wrapper \<open>md5::hash\<close> of
  \<^verbatim>\<open>src/arken/digest/md5/embedded.cpp\<close>.

  \<open>md5_ctx\<close> is the C struct on a little-endian machine (\<open>SWAP\<close> is the identity). The 64
  \<open>OP\<close> lines of \<open>md5_process_block\<close> are the entries of four tables, one per round: the
  register that the line updates (which fixes the roles of the other three), the index of
  the message word, the rotation and the constant. The theorems relate the unrolled code to
  the round description of RFC 1321, and the buffering of \<open>md5_process_bytes\<close> to the digest
  of the whole message.
\<close>

record md5_ctx =
  md5_A :: u32
  md5_B :: u32
  md5_C :: u32
  md5_D :: u32
  md5_total :: "u32 \<times> u32"
  md5_buflen :: nat
  md5_buffer :: "byte list"


subsection \<open>The block function\<close>

definition CYCLIC :: "u32 \<Rightarrow> nat \<Rightarrow> u32" where
  "CYCLIC w s = push_bit s w OR drop_bit (32 - s) w"

definition FF :: "u32 \<Rightarrow> u32 \<Rightarrow> u32 \<Rightarrow> u32" where
  "FF b c d = d XOR (b AND (c XOR d))"

definition FG :: "u32 \<Rightarrow> u32 \<Rightarrow> u32 \<Rightarrow> u32" where
  "FG b c d = FF d b c"

definition FH :: "u32 \<Rightarrow> u32 \<Rightarrow> u32 \<Rightarrow> u32" where
  "FH b c d = b XOR c XOR d"

definition FI :: "u32 \<Rightarrow> u32 \<Rightarrow> u32 \<Rightarrow> u32" where
  "FI b c d = c XOR (b OR NOT d)"

text \<open>The register an \<open>OP\<close> line updates: \<open>OP (A, B, C, D, ...)\<close> is \<open>RA\<close>,
  \<open>OP (D, A, B, C, ...)\<close> is \<open>RD\<close>, and so on.\<close>

datatype reg = RA | RD | RC | RB

type_synonym quad = "u32 \<times> u32 \<times> u32 \<times> u32"

definition md5_OP ::
  "(u32 \<Rightarrow> u32 \<Rightarrow> u32 \<Rightarrow> u32) \<Rightarrow> u32 list \<Rightarrow> reg \<times> nat \<times> nat \<times> u32 \<Rightarrow> quad \<Rightarrow> quad" where
  "md5_OP F correct_words opl q =
     (case opl of (r, k, s, T) \<Rightarrow> case q of (A, B, C, D) \<Rightarrow>
        let new = (\<lambda>a b c d. CYCLIC (a + (F b c d + correct_words ! k + T)) s + b)
        in case r of
             RA \<Rightarrow> (new A B C D, B, C, D)
           | RD \<Rightarrow> (A, B, C, new D A B C)
           | RC \<Rightarrow> (A, B, new C D A B, D)
           | RB \<Rightarrow> (A, new B C D A, C, D))"

definition md5_round1 :: "(reg \<times> nat \<times> nat \<times> u32) list" where
  "md5_round1 =
   [(RA, 0, 7, 0xd76aa478), (RD, 1, 12, 0xe8c7b756),
    (RC, 2, 17, 0x242070db), (RB, 3, 22, 0xc1bdceee),
    (RA, 4, 7, 0xf57c0faf), (RD, 5, 12, 0x4787c62a),
    (RC, 6, 17, 0xa8304613), (RB, 7, 22, 0xfd469501),
    (RA, 8, 7, 0x698098d8), (RD, 9, 12, 0x8b44f7af),
    (RC, 10, 17, 0xffff5bb1), (RB, 11, 22, 0x895cd7be),
    (RA, 12, 7, 0x6b901122), (RD, 13, 12, 0xfd987193),
    (RC, 14, 17, 0xa679438e), (RB, 15, 22, 0x49b40821)]"

definition md5_round2 :: "(reg \<times> nat \<times> nat \<times> u32) list" where
  "md5_round2 =
   [(RA, 1, 5, 0xf61e2562), (RD, 6, 9, 0xc040b340),
    (RC, 11, 14, 0x265e5a51), (RB, 0, 20, 0xe9b6c7aa),
    (RA, 5, 5, 0xd62f105d), (RD, 10, 9, 0x02441453),
    (RC, 15, 14, 0xd8a1e681), (RB, 4, 20, 0xe7d3fbc8),
    (RA, 9, 5, 0x21e1cde6), (RD, 14, 9, 0xc33707d6),
    (RC, 3, 14, 0xf4d50d87), (RB, 8, 20, 0x455a14ed),
    (RA, 13, 5, 0xa9e3e905), (RD, 2, 9, 0xfcefa3f8),
    (RC, 7, 14, 0x676f02d9), (RB, 12, 20, 0x8d2a4c8a)]"

definition md5_round3 :: "(reg \<times> nat \<times> nat \<times> u32) list" where
  "md5_round3 =
   [(RA, 5, 4, 0xfffa3942), (RD, 8, 11, 0x8771f681),
    (RC, 11, 16, 0x6d9d6122), (RB, 14, 23, 0xfde5380c),
    (RA, 1, 4, 0xa4beea44), (RD, 4, 11, 0x4bdecfa9),
    (RC, 7, 16, 0xf6bb4b60), (RB, 10, 23, 0xbebfbc70),
    (RA, 13, 4, 0x289b7ec6), (RD, 0, 11, 0xeaa127fa),
    (RC, 3, 16, 0xd4ef3085), (RB, 6, 23, 0x04881d05),
    (RA, 9, 4, 0xd9d4d039), (RD, 12, 11, 0xe6db99e5),
    (RC, 15, 16, 0x1fa27cf8), (RB, 2, 23, 0xc4ac5665)]"

definition md5_round4 :: "(reg \<times> nat \<times> nat \<times> u32) list" where
  "md5_round4 =
   [(RA, 0, 6, 0xf4292244), (RD, 7, 10, 0x432aff97),
    (RC, 14, 15, 0xab9423a7), (RB, 5, 21, 0xfc93a039),
    (RA, 12, 6, 0x655b59c3), (RD, 3, 10, 0x8f0ccc92),
    (RC, 10, 15, 0xffeff47d), (RB, 1, 21, 0x85845dd1),
    (RA, 8, 6, 0x6fa87e4f), (RD, 15, 10, 0xfe2ce6e0),
    (RC, 6, 15, 0xa3014314), (RB, 13, 21, 0x4e0811a1),
    (RA, 4, 6, 0xf7537e82), (RD, 11, 10, 0xbd3af235),
    (RC, 2, 15, 0x2ad7d2bb), (RB, 9, 21, 0xeb86d391)]"

text \<open>One pass of the loop \<open>while (words < endp)\<close>: the four rounds on the 16 words of a
  block, and the addition of the saved values.\<close>

definition md5_block :: "quad \<Rightarrow> byte list \<Rightarrow> quad" where
  "md5_block q blk =
     (let w = words16 blk;
          q1 = fold (md5_OP FF w) md5_round1 q;
          q2 = fold (md5_OP FG w) md5_round2 q1;
          q3 = fold (md5_OP FH w) md5_round3 q2;
          q4 = fold (md5_OP FI w) md5_round4 q3
      in case (q, q4) of ((A_save, B_save, C_save, D_save), (A, B, C, D)) \<Rightarrow>
           (A + A_save, B + B_save, C + C_save, D + D_save))"

function md5_block_loop :: "byte list \<Rightarrow> quad \<Rightarrow> quad" where
  "md5_block_loop words q =
     (if words = [] then q else md5_block_loop (drop 64 words) (md5_block q (take 64 words)))"
  by pat_completeness auto
termination
  by (relation "measure (\<lambda>(words, q). length words)") auto

declare md5_block_loop.simps [simp del]

abbreviation md5_quad :: "md5_ctx \<Rightarrow> quad" where
  "md5_quad ctx \<equiv> (md5_A ctx, md5_B ctx, md5_C ctx, md5_D ctx)"

definition md5_process_block :: "byte list \<Rightarrow> nat \<Rightarrow> md5_ctx \<Rightarrow> md5_ctx" where
  "md5_process_block buffer len ctx =
     (let ctx = ctx\<lparr>md5_total := count_bytes len (md5_total ctx)\<rparr>
      in case md5_block_loop (take len buffer) (md5_quad ctx) of (A, B, C, D) \<Rightarrow>
           ctx\<lparr>md5_A := A, md5_B := B, md5_C := C, md5_D := D\<rparr>)"


subsection \<open>Streaming\<close>

text \<open>\<open>md5_init_ctx\<close> leaves the buffer as it finds it: \<open>junk\<close> is its former contents.\<close>

definition md5_init_ctx :: "byte list \<Rightarrow> md5_ctx" where
  "md5_init_ctx junk =
     \<lparr>md5_A = 0x67452301, md5_B = 0xefcdab89, md5_C = 0x98badcfe, md5_D = 0x10325476,
      md5_total = (0, 0), md5_buflen = 0, md5_buffer = junk\<rparr>"

definition md5_read_ctx :: "md5_ctx \<Rightarrow> byte list" where
  "md5_read_ctx ctx =
     store32 (md5_A ctx) @ store32 (md5_B ctx) @ store32 (md5_C ctx) @ store32 (md5_D ctx)"

text \<open>The first part of \<open>md5_process_bytes\<close>: fill the internal buffer. It returns the
  context and the rest of the data. \<open>n & ~63\<close> is \<open>n div 64 * 64\<close>, \<open>n & 63\<close> is \<open>n mod 64\<close>.\<close>

definition md5_fill :: "byte list \<Rightarrow> md5_ctx \<Rightarrow> byte list \<times> md5_ctx" where
  "md5_fill buffer ctx =
     (let left_over = md5_buflen ctx;
          len = length buffer;
          add = (if 128 - left_over > len then len else 128 - left_over);
          ctx = ctx\<lparr>md5_buffer := memcpy_at (md5_buffer ctx) left_over (take add buffer),
                    md5_buflen := left_over + add\<rparr>;
          ctx = (if left_over + add > 64
                 then let n = (left_over + add) div 64 * 64;
                          ctx = md5_process_block (md5_buffer ctx) n ctx
                      in ctx\<lparr>md5_buffer := memcpy_at (md5_buffer ctx) 0
                               (take ((left_over + add) mod 64) (drop n (md5_buffer ctx))),
                             md5_buflen := (left_over + add) mod 64\<rparr>
                 else ctx)
      in (drop add buffer, ctx))"

text \<open>The second part: process the complete blocks of the data and keep the rest.\<close>

definition md5_rest :: "byte list \<Rightarrow> md5_ctx \<Rightarrow> md5_ctx" where
  "md5_rest buffer ctx =
     (let (buffer, ctx) =
            (if length buffer > 64
             then let n = length buffer div 64 * 64
                  in (drop n buffer, md5_process_block buffer n ctx)
             else (buffer, ctx))
      in if length buffer > 0
         then ctx\<lparr>md5_buffer := memcpy_at (md5_buffer ctx) 0 buffer,
                  md5_buflen := length buffer\<rparr>
         else ctx)"

definition md5_process_bytes :: "byte list \<Rightarrow> md5_ctx \<Rightarrow> md5_ctx" where
  "md5_process_bytes buffer ctx =
     (let (buffer, ctx) = (if md5_buflen ctx \<noteq> 0 then md5_fill buffer ctx else (buffer, ctx))
      in md5_rest buffer ctx)"

definition md5_finish_ctx :: "md5_ctx \<Rightarrow> byte list" where
  "md5_finish_ctx ctx =
     (let bytes = md5_buflen ctx;
          ctx = ctx\<lparr>md5_total := count_bytes bytes (md5_total ctx)\<rparr>;
          pad = (if bytes \<ge> 56 then 64 + 56 - bytes else 56 - bytes);
          buf = memcpy_at (md5_buffer ctx) bytes (take pad fillbuf);
          buf = memcpy_at buf (bytes + pad) (store32 (bits_low (md5_total ctx)));
          buf = memcpy_at buf (bytes + pad + 4) (store32 (bits_high (md5_total ctx)));
          ctx = ctx\<lparr>md5_buffer := buf\<rparr>;
          ctx = md5_process_block (md5_buffer ctx) (bytes + pad + 8) ctx
      in md5_read_ctx ctx)"

definition md5_buffer_digest :: "byte list \<Rightarrow> byte list \<Rightarrow> byte list" where
  "md5_buffer_digest junk buffer = md5_finish_ctx (md5_process_bytes buffer (md5_init_ctx junk))"

text \<open>\<open>md5::hash\<close>: the digest in hexadecimal.\<close>

definition md5_hash :: "byte list \<Rightarrow> byte list \<Rightarrow> string" where
  "md5_hash junk s = hex_bytes (md5_buffer_digest junk s)"


subsection \<open>The algorithm of RFC 1321\<close>

text \<open>RFC 1321, 3.4: the 64 operations as one step function of the operation number, with the
  auxiliary functions, word order and shift amounts of the four rounds. A step moves the new
  value into the second register and shifts the others; the unrolled code instead renames
  the registers from line to line.\<close>

definition rfc_T :: "u32 list" where
  "rfc_T =
   [0xd76aa478, 0xe8c7b756, 0x242070db, 0xc1bdceee,
    0xf57c0faf, 0x4787c62a, 0xa8304613, 0xfd469501,
    0x698098d8, 0x8b44f7af, 0xffff5bb1, 0x895cd7be,
    0x6b901122, 0xfd987193, 0xa679438e, 0x49b40821,
    0xf61e2562, 0xc040b340, 0x265e5a51, 0xe9b6c7aa,
    0xd62f105d, 0x02441453, 0xd8a1e681, 0xe7d3fbc8,
    0x21e1cde6, 0xc33707d6, 0xf4d50d87, 0x455a14ed,
    0xa9e3e905, 0xfcefa3f8, 0x676f02d9, 0x8d2a4c8a,
    0xfffa3942, 0x8771f681, 0x6d9d6122, 0xfde5380c,
    0xa4beea44, 0x4bdecfa9, 0xf6bb4b60, 0xbebfbc70,
    0x289b7ec6, 0xeaa127fa, 0xd4ef3085, 0x04881d05,
    0xd9d4d039, 0xe6db99e5, 0x1fa27cf8, 0xc4ac5665,
    0xf4292244, 0x432aff97, 0xab9423a7, 0xfc93a039,
    0x655b59c3, 0x8f0ccc92, 0xffeff47d, 0x85845dd1,
    0x6fa87e4f, 0xfe2ce6e0, 0xa3014314, 0x4e0811a1,
    0xf7537e82, 0xbd3af235, 0x2ad7d2bb, 0xeb86d391]"

definition rfc_F :: "nat \<Rightarrow> u32 \<Rightarrow> u32 \<Rightarrow> u32 \<Rightarrow> u32" where
  "rfc_F i x y z =
     (if i < 16 then (x AND y) OR (NOT x AND z)
      else if i < 32 then (x AND z) OR (y AND NOT z)
      else if i < 48 then x XOR y XOR z
      else y XOR (x OR NOT z))"

definition rfc_k :: "nat \<Rightarrow> nat" where
  "rfc_k i =
     (if i < 16 then i else if i < 32 then (5 * i + 1) mod 16
      else if i < 48 then (3 * i + 5) mod 16 else 7 * i mod 16)"

definition rfc_s :: "nat \<Rightarrow> nat" where
  "rfc_s i = [[7, 12, 17, 22], [5, 9, 14, 20], [4, 11, 16, 23], [6, 10, 15, 21]] ! (i div 16) ! (i mod 4)"

definition rfc_step :: "u32 list \<Rightarrow> nat \<Rightarrow> quad \<Rightarrow> quad" where
  "rfc_step w i q =
     (case q of (a, b, c, d) \<Rightarrow>
        (d, b + word_rotl (rfc_s i) (a + rfc_F i b c d + w ! rfc_k i + rfc_T ! i), b, c))"

definition rfc_block :: "quad \<Rightarrow> byte list \<Rightarrow> quad" where
  "rfc_block q blk =
     (case (q, fold (rfc_step (words16 blk)) [0..<64] q) of
        ((a, b, c, d), (a', b', c', d')) \<Rightarrow> (a + a', b + b', c + c', d + d'))"

definition md5_iv :: quad where
  "md5_iv = (0x67452301, 0xefcdab89, 0x98badcfe, 0x10325476)"

abbreviation le64 :: "64 word \<Rightarrow> byte list" where
  "le64 w \<equiv> store32 (ucast w) @ store32 (ucast (drop_bit 32 w))"

text \<open>The digest of a message: absorb the padded message, write the registers in
  little-endian order.\<close>

definition md5_rfc :: "byte list \<Rightarrow> byte list" where
  "md5_rfc msg =
     (case absorb rfc_block md5_iv (padded le64 msg) of
        (A, B, C, D) \<Rightarrow> store32 A @ store32 B @ store32 C @ store32 D)"


subsection \<open>The unrolled rounds are the rounds of the RFC\<close>

text \<open>\<open>seen r q\<close> is the register file in the roles of a line that updates \<open>r\<close>.\<close>

fun seen :: "reg \<Rightarrow> quad \<Rightarrow> quad" where
  "seen RA (A, B, C, D) = (A, B, C, D)"
| "seen RD (A, B, C, D) = (D, A, B, C)"
| "seen RC (A, B, C, D) = (C, D, A, B)"
| "seen RB (A, B, C, D) = (B, C, D, A)"

fun next_reg :: "reg \<Rightarrow> reg" where
  "next_reg RA = RD" | "next_reg RD = RC" | "next_reg RC = RB" | "next_reg RB = RA"

lemma CYCLIC_rotl: "0 < s \<Longrightarrow> s < 32 \<Longrightarrow> CYCLIC w s = word_rotl s w"
  by (simp add: CYCLIC_def shift_or_rotl)

lemma F_rfc:
  "i < 16 \<Longrightarrow> rfc_F i b c d = FF b c d"
  "16 \<le> i \<Longrightarrow> i < 32 \<Longrightarrow> rfc_F i b c d = FG b c d"
  "32 \<le> i \<Longrightarrow> i < 48 \<Longrightarrow> rfc_F i b c d = FH b c d"
  "48 \<le> i \<Longrightarrow> rfc_F i b c d = FI b c d"
  by (rule bit_eqI; auto simp: rfc_F_def FF_def FG_def FH_def FI_def bit_simps)+


fun ops_match :: "reg \<Rightarrow> nat \<Rightarrow> (reg \<times> nat \<times> nat \<times> u32) list \<Rightarrow> bool" where
  "ops_match r i [] \<longleftrightarrow> True"
| "ops_match r i ((r', k, s, T) # ops) \<longleftrightarrow>
     r' = r \<and> k = rfc_k i \<and> s = rfc_s i \<and> T = rfc_T ! i \<and> 0 < s \<and> s < 32 \<and>
     ops_match (next_reg r) (Suc i) ops"

lemma seen_OP:
  assumes "rfc_F i = F" "0 < rfc_s i" "rfc_s i < 32"
  shows "seen (next_reg r) (md5_OP F w (r, rfc_k i, rfc_s i, rfc_T ! i) q) = rfc_step w i (seen r q)"
  using assms by (cases q; cases r) (simp_all add: md5_OP_def rfc_step_def CYCLIC_rotl algebra_simps)

lemma seen_ops:
  assumes "\<And>j. i \<le> j \<Longrightarrow> j < i + length ops \<Longrightarrow> rfc_F j = F" "ops_match r i ops"
  shows "seen ((next_reg ^^ length ops) r) (fold (md5_OP F w) ops q) =
    fold (rfc_step w) [i..<i + length ops] (seen r q)"
  using assms
proof (induction ops arbitrary: r i q)
  case (Cons x ops)
  obtain k s T where x: "x = (r, k, s, T)" using Cons.prems(2) by (cases x) auto
  have st: "seen (next_reg r) (md5_OP F w x q) = rfc_step w i (seen r q)"
    using Cons.prems x by (auto intro!: seen_OP)
  have "seen ((next_reg ^^ length ops) (next_reg r)) (fold (md5_OP F w) ops (md5_OP F w x q)) =
    fold (rfc_step w) [Suc i..<Suc i + length ops] (seen (next_reg r) (md5_OP F w x q))"
    using Cons.prems x by (intro Cons.IH) auto
  moreover have "[i..<i + length (x # ops)] = i # [Suc i..<Suc i + length ops]"
    by (simp add: upt_conv_Cons del: upt_Suc)
  ultimately show ?case by (simp add: st funpow_swap1 del: upt_Suc)
qed simp

lemma rounds_match:
  "ops_match RA 0 md5_round1" "ops_match RA 16 md5_round2" "ops_match RA 32 md5_round3"
  "ops_match RA 48 md5_round4"
  by code_simp+

lemma seen_round:
  assumes "\<And>j. i \<le> j \<Longrightarrow> j < i + 16 \<Longrightarrow> rfc_F j = F" "ops_match RA i ops" "length ops = 16"
  shows "fold (md5_OP F w) ops q = fold (rfc_step w) [i..<i + 16] q"
proof -
  have "(next_reg ^^ 16) RA = RA" by (simp add: eval_nat_numeral)
  moreover have "seen RA q = q" for q by (cases q) simp
  ultimately show ?thesis using seen_ops [of i ops F RA w q] assms by simp
qed

lemma md5_block_rfc: "md5_block q blk = rfc_block q blk"
proof -
  let ?w = "words16 blk"
  have r1: "fold (md5_OP FF ?w) md5_round1 q = fold (rfc_step ?w) [0..<16] q" for q
    using seen_round [of 0 FF md5_round1 ?w q] rounds_match
    by (simp add: F_rfc fun_eq_iff md5_round1_def)
  have r2: "fold (md5_OP FG ?w) md5_round2 q = fold (rfc_step ?w) [16..<32] q" for q
    using seen_round [of 16 FG md5_round2 ?w q] rounds_match
    by (simp add: F_rfc fun_eq_iff md5_round2_def)
  have r3: "fold (md5_OP FH ?w) md5_round3 q = fold (rfc_step ?w) [32..<48] q" for q
    using seen_round [of 32 FH md5_round3 ?w q] rounds_match
    by (simp add: F_rfc fun_eq_iff md5_round3_def)
  have r4: "fold (md5_OP FI ?w) md5_round4 q = fold (rfc_step ?w) [48..<64] q" for q
    using seen_round [of 48 FI md5_round4 ?w q] rounds_match
    by (simp add: F_rfc fun_eq_iff md5_round4_def)
  have u: "[0..<64] = [0..<16] @ [16..<32] @ [32..<48] @ [48..<64]"
    by code_simp
  show ?thesis
    unfolding md5_block_def rfc_block_def Let_def r1 r2 r3 r4 u fold_append comp_apply
    by (simp add: add.commute split: prod.split)
qed


subsection \<open>Buffering\<close>

text \<open>\<open>md5_at ctx pre\<close>: the registers and the counter have absorbed exactly the blocks
  \<open>pre\<close>. \<open>md5_rep ctx msg\<close>: together with the pending bytes of the buffer, the context
  represents \<open>msg\<close>. At most 64 bytes are pending.\<close>

definition md5_at :: "md5_ctx \<Rightarrow> byte list \<Rightarrow> bool" where
  "md5_at ctx pre \<longleftrightarrow>
     length pre mod 64 = 0 \<and> md5_quad ctx = absorb md5_block md5_iv pre \<and>
     count64 (md5_total ctx) = of_nat (length pre)"

definition md5_rep :: "md5_ctx \<Rightarrow> byte list \<Rightarrow> bool" where
  "md5_rep ctx msg \<longleftrightarrow>
     length (md5_buffer ctx) = 128 \<and> md5_buflen ctx \<le> 64 \<and>
     (\<exists>pre. md5_at ctx pre \<and> msg = pre @ take (md5_buflen ctx) (md5_buffer ctx))"

lemma md5_block_loop_absorb: "md5_block_loop words q = absorb md5_block q words"
proof (induction words q rule: md5_block_loop.induct)
  case (1 words q)
  then show ?case
    by (cases "words = []")
      (simp_all add: md5_block_loop.simps [of _ q] absorb_def chunks64.simps [of words])
qed

lemma md5_process_block_frame [simp]:
  "md5_buffer (md5_process_block buf n ctx) = md5_buffer ctx"
  "md5_buflen (md5_process_block buf n ctx) = md5_buflen ctx"
  by (simp_all add: md5_process_block_def Let_def split: prod.split)

lemma md5_at_frame [simp]:
  "md5_at (md5_buffer_update f ctx) pre = md5_at ctx pre"
  "md5_at (md5_buflen_update g ctx) pre = md5_at ctx pre"
  by (simp_all add: md5_at_def)

lemma md5_at_process_block:
  assumes "md5_at ctx pre" "n mod 64 = 0" "n < 2 ^ 32" "n \<le> length buf"
  shows "md5_at (md5_process_block buf n ctx) (pre @ take n buf)"
proof -
  have "md5_quad (md5_process_block buf n ctx) = md5_block_loop (take n buf) (md5_quad ctx)"
    by (simp add: md5_process_block_def Let_def split: prod.split)
  moreover have "md5_total (md5_process_block buf n ctx) = count_bytes n (md5_total ctx)"
    by (simp add: md5_process_block_def Let_def split: prod.split)
  moreover have "(length pre + n) mod 64 = 0"
    using assms by (auto simp: md5_at_def mod_add_eq mod_add_0)
  ultimately show ?thesis
    using assms unfolding md5_at_def
    by (simp add: md5_block_loop_absorb absorb_append count64_count_bytes min_def)
qed

lemma md5_rep_init [intro]: "length junk = 128 \<Longrightarrow> md5_rep (md5_init_ctx junk) []"
  by (auto simp: md5_rep_def md5_at_def md5_init_ctx_def md5_iv_def count64_def)

lemma md5_fill_rep:
  assumes "md5_rep ctx msg" "md5_fill d ctx = (d', ctx')"
  shows "\<exists>e. d = e @ d' \<and> md5_rep ctx' (msg @ e) \<and> (d' \<noteq> [] \<longrightarrow> md5_buflen ctx' = 0)"
proof -
  define k where "k = md5_buflen ctx"
  define add where "add = (if 128 - k > length d then length d else 128 - k)"
  let ?b = "memcpy_at (md5_buffer ctx) k (take add d)"
  let ?n = "(k + add) div 64 * 64" and ?r = "(k + add) mod 64"
  let ?c = "ctx\<lparr>md5_buffer := ?b, md5_buflen := k + add\<rparr>"
  from assms obtain pre where k: "k \<le> 64" and b: "length (md5_buffer ctx) = 128"
    and pre: "md5_at ctx pre" and msg: "msg = pre @ take k (md5_buffer ctx)"
    by (auto simp: md5_rep_def k_def)
  have add: "add \<le> length d" "k + add \<le> 128" using k by (auto simp: add_def)
  note fs = fill_split [OF b k add]
  have d': "d' = drop add d"
    using assms by (simp add: md5_fill_def Let_def k_def [symmetric] add_def [symmetric])
  have r0: "d' \<noteq> [] \<Longrightarrow> k + add = 128" using d' k by (auto simp: add_def split: if_splits)
  have "md5_rep ctx' (msg @ take add d) \<and> (d' \<noteq> [] \<longrightarrow> md5_buflen ctx' = 0)"
  proof (cases "k + add > 64")
    case True
    let ?c' = "md5_process_block ?b ?n ?c"
    have ctx': "ctx' = ?c'\<lparr>md5_buffer := memcpy_at ?b 0 (take ?r (drop ?n ?b)), md5_buflen := ?r\<rparr>"
      using assms True by (simp add: md5_fill_def Let_def k_def [symmetric] add_def [symmetric])
    have at: "md5_at ?c' (pre @ take ?n ?b)"
      by (rule md5_at_process_block) (use pre fs(1,3) in simp_all)
    have "msg @ take add d = (pre @ take ?n ?b) @ take ?r (memcpy_at ?b 0 (take ?r (drop ?n ?b)))"
      using fs(5) by (simp add: msg)
    moreover have "?r \<le> 64" by simp
    ultimately show ?thesis using at fs(4) r0 unfolding md5_rep_def ctx' by auto
  next
    case False
    then have "ctx' = ?c"
      using assms by (simp add: md5_fill_def Let_def k_def [symmetric] add_def [symmetric])
    with False show ?thesis using fs(1,2) pre r0 unfolding md5_rep_def by (auto simp: msg)
  qed
  then show ?thesis using d' by (metis append_take_drop_id)
qed

lemma md5_rest_rep:
  assumes r: "md5_rep c m" and z: "d \<noteq> [] \<longrightarrow> md5_buflen c = 0" and l: "length d < 2 ^ 32"
  shows "md5_rep (md5_rest d c) (m @ d)"
proof (cases "d = []")
  case True
  then show ?thesis using r by (simp add: md5_rest_def)
next
  case False
  with z have z: "md5_buflen c = 0" by simp
  with r have at: "md5_at c m" and b: "length (md5_buffer c) = 128"
    by (auto simp: md5_rep_def)
  define n where "n = (if length d > 64 then length d div 64 * 64 else 0)"
  define c2 where "c2 = (if length d > 64 then md5_process_block d n c else c)"
  have n: "n \<le> length d" "length d - n \<le> 64" by (auto simp: n_def minus_div_mult_eq_mod less_imp_le)
  have at2: "md5_at c2 (m @ take n d)"
    using at md5_at_process_block [OF at, of n d] l n by (auto simp: c2_def n_def)
  have f2: "md5_buffer c2 = md5_buffer c" "md5_buflen c2 = 0" using z by (simp_all add: c2_def)
  have p: "md5_rest d c = (if drop n d = [] then c2 else
      c2\<lparr>md5_buffer := memcpy_at (md5_buffer c2) 0 (drop n d), md5_buflen := length (drop n d)\<rparr>)"
    by (auto simp: md5_rest_def Let_def n_def c2_def)
  have tl: "take (length (drop n d)) (memcpy_at (md5_buffer c2) 0 (drop n d)) = drop n d"
    using take_memcpy_at [of 0 "md5_buffer c2" "drop n d"] by simp
  have lm: "length (memcpy_at (md5_buffer c2) 0 (drop n d)) = 128"
    using n b f2 by simp
  have m: "m @ d = (m @ take n d) @ drop n d" by simp
  show ?thesis
  proof (cases "drop n d = []")
    case True
    then show ?thesis unfolding p m using at2 f2 b by (auto simp: md5_rep_def)
  next
    case False
    show ?thesis
      unfolding p m md5_rep_def if_not_P [OF False]
      using at2 tl lm n by (intro conjI exI [of _ "m @ take n d"]) simp_all
  qed
qed

lemma md5_rep_process_bytes:
  assumes "md5_rep ctx msg" "length d < 2 ^ 32"
  shows "md5_rep (md5_process_bytes d ctx) (msg @ d)"
proof -
  obtain d1 c1 where s1: "(if md5_buflen ctx \<noteq> 0 then md5_fill d ctx else (d, ctx)) = (d1, c1)"
    by force
  obtain e where d: "d = e @ d1" and r1: "md5_rep c1 (msg @ e)"
    and z: "d1 \<noteq> [] \<longrightarrow> md5_buflen c1 = 0"
    using md5_fill_rep [OF assms(1), of d d1 c1] s1 assms(1) by (cases "md5_buflen ctx = 0") auto
  have "length d1 < 2 ^ 32" using assms d by simp
  from md5_rest_rep [OF r1 z this] show ?thesis
    unfolding md5_process_bytes_def s1 by (simp add: d)
qed

lemma md5_finish_rfc:
  assumes "md5_rep ctx msg"
  shows "md5_finish_ctx ctx = md5_rfc msg"
proof -
  define k where "k = md5_buflen ctx"
  define p where "p = (if k \<ge> 56 then 64 + 56 - k else 56 - k)"
  define t where "t = count_bytes k (md5_total ctx)"
  from assms obtain pre where k: "k \<le> 64" and b: "length (md5_buffer ctx) = 128"
    and pre: "md5_at ctx pre" and msg: "msg = pre @ take k (md5_buffer ctx)"
    by (auto simp: md5_rep_def k_def)
  have lk: "length (take k (md5_buffer ctx)) = k" using k b by simp
  have p: "k + p + 8 \<le> 128" "p \<le> 64" "(k + p + 8) mod 64 = 0" using k by (auto simp: p_def)
  define b1 where "b1 = memcpy_at (md5_buffer ctx) k (take p fillbuf)"
  define b2 where "b2 = memcpy_at b1 (k + p) (store32 (bits_low t))"
  define b3 where "b3 = memcpy_at b2 (k + p + 4) (store32 (bits_high t))"
  have l: "length b1 = 128" "length b2 = 128" "length b3 = 128"
    using p b by (simp_all add: b1_def b2_def b3_def)
  have t1: "take (k + p) b1 = take k (md5_buffer ctx) @ take p fillbuf"
    using take_memcpy_at [of k "md5_buffer ctx" "take p fillbuf"] k b p by (simp add: b1_def)
  have t2: "take (k + p + 4) b2 = take (k + p) b1 @ store32 (bits_low t)"
    using take_memcpy_at [of "k + p" b1 "store32 (bits_low t)"] l p by (simp add: b2_def)
  have t3: "take (k + p + 8) b3 = take (k + p + 4) b2 @ store32 (bits_high t)"
    using take_memcpy_at [of "k + p + 4" b2 "store32 (bits_high t)"] l p by (simp add: b3_def add.commute)
  have len: "length msg = length pre + k" and mk: "length msg mod 64 = k mod 64"
    using pre lk by (auto simp: msg md5_at_def)
  have "k < 2 ^ 32" using k by simp
  then have "count64 t = of_nat (length msg)"
    using pre by (simp add: t_def count64_count_bytes md5_at_def len)
  note bits = bits_of_count64 [OF this]
  have pd: "take p fillbuf = md_pad (length msg)"
    unfolding p_def by (rule md_pad_fillbuf [OF k mk])
  have blk: "take (k + p + 8) b3 = take k (md5_buffer ctx) @ md_pad (length msg) @ le64 (of_nat (8 * length msg))"
    by (simp add: t3 t2 t1 pd bits)
  define c where "c = ctx\<lparr>md5_total := t, md5_buffer := b3\<rparr>"
  have "md5_finish_ctx ctx = md5_read_ctx (md5_process_block b3 (k + p + 8) c)"
    by (simp add: md5_finish_ctx_def Let_def k_def p_def t_def b1_def b2_def b3_def c_def)
  moreover have "absorb md5_block md5_iv (padded le64 msg) = md5_quad (md5_process_block b3 (k + p + 8) c)"
    using pre by (simp add: md5_process_block_def Let_def md5_block_loop_absorb c_def md5_at_def blk
        padded_def msg absorb_append split: prod.split)
  moreover have "rfc_block = md5_block" by (intro ext) (rule md5_block_rfc [symmetric])
  ultimately show ?thesis by (simp add: md5_read_ctx_def md5_rfc_def)
qed


interpretation md5: streaming_digest "md5_init_ctx zero_junk" "\<lambda>_ :: unit. md5_process_bytes"
    md5_finish_ctx md5_rep md5_rfc
  by unfold_locales (auto intro: md5_rep_process_bytes md5_finish_rfc)


subsection \<open>Correctness\<close>

text \<open>C8: \<open>md5::hash\<close> of any buffer shorter than \<open>2 ^ 32\<close> bytes is the hexadecimal text of the
  RFC 1321 digest of its bytes, whatever the uninitialised context buffer held.\<close>

theorem md5_hash_correct:
  assumes "length junk = 128" and "length s < 2 ^ 32"
  shows "md5_hash junk s = hex_bytes (md5_rfc s)"
  using md5_finish_rfc [OF md5_rep_process_bytes [OF md5_rep_init [OF assms(1)] assms(2)]]
  by (simp add: md5_hash_def md5_buffer_digest_def)

text \<open>The self-test of the source file: the digest of \<open>"abc"\<close>.\<close>

theorem md5_hash_correct_witness:
  "md5_hash zero_junk (map of_char ''abc'') = hex_bytes (md5_rfc (map of_char ''abc'')) \<and>
   md5_hash zero_junk (map of_char ''abc'') = ''900150983cd24fb0d6963f7d28e17f72''"
proof
  show "md5_hash zero_junk (map of_char ''abc'') = hex_bytes (md5_rfc (map of_char ''abc''))"
    by (rule md5_hash_correct) simp_all
  show "md5_hash zero_junk (map of_char ''abc'') = ''900150983cd24fb0d6963f7d28e17f72''"
    by code_simp
qed

text \<open>The digest does not depend on how the message is cut: feeding any sequence of chunks,
  each shorter than \<open>2 ^ 32\<close> bytes and of any length modulo the block size, through
  \<open>md5_process_bytes\<close> and finishing gives the RFC 1321 digest of their concatenation.\<close>

theorem md5_chunking:
  assumes "list_all (\<lambda>d. length d < 2 ^ 32) ds"
  shows "md5_finish_ctx (fold md5_process_bytes ds (md5_init_ctx zero_junk)) = md5_rfc (concat ds)"
  using md5.finish_chunks [of "map (Pair ()) ds"] assms
  by (simp add: fold_map list.pred_map comp_def)

theorem md5_chunking_witness:
  "md5_finish_ctx (fold md5_process_bytes [replicate 60 7, replicate 4 7, replicate 70 9]
     (md5_init_ctx zero_junk)) = md5_rfc (concat [replicate 60 7, replicate 4 7, replicate 70 9])"
  by (rule md5_chunking) simp

text \<open>The unrolled block function of \<open>md5_process_block\<close>, with its 64 \<open>OP\<close> lines over
  renamed registers and its optimised auxiliary functions, computes the block operation of
  RFC 1321 on every register file and every block.\<close>

theorem md5_block_is_rfc: "md5_block q blk = rfc_block q blk"
  by (rule md5_block_rfc)

end
