(* ===== verification/SHA1.thy ===== *)
theory SHA1
  imports Digest_Stream
begin

text \<open>
  The embedded SHA-1 digest, \<^verbatim>\<open>src/embedded/digest/sha1.c\<close>, and the wrappers \<open>sha1::hash\<close>
  and \<open>sha1::bytes\<close> of \<^verbatim>\<open>src/arken/digest/sha1/embedded.cpp\<close>.

  \<open>sha1_ctx\<close> is the C struct on a little-endian machine, where \<open>SWAP\<close> reverses the bytes of a
  word; its word buffer is kept as the 128 bytes that \<open>memcpy\<close> sees. The 80 \<open>R\<close> lines of
  \<open>sha1_process_block\<close> are the entries of four tables: the register in the role of \<open>A\<close>
  (which fixes the other roles), the number of the round function and constant, and the
  index of the message word, which from 16 on is computed in place by the macro \<open>M\<close>. The
  theorems relate the lines and the 16-word circular schedule to FIPS 180, and the buffering
  to the digest of the whole message.
\<close>

record sha1_ctx =
  sha1_A :: u32
  sha1_B :: u32
  sha1_C :: u32
  sha1_D :: u32
  sha1_E :: u32
  sha1_total :: "u32 \<times> u32"
  sha1_buflen :: nat
  sha1_buffer :: "byte list"


subsection \<open>The block function\<close>

definition SWAP :: "u32 \<Rightarrow> u32" where
  "SWAP n =
     push_bit 24 n OR push_bit 8 (n AND 0xff00) OR (drop_bit 8 n AND 0xff00) OR drop_bit 24 n"

definition rol :: "u32 \<Rightarrow> nat \<Rightarrow> u32" where
  "rol x n = push_bit n x OR drop_bit (32 - n) x"

definition F1 :: "u32 \<Rightarrow> u32 \<Rightarrow> u32 \<Rightarrow> u32" where
  "F1 B C D = D XOR (B AND (C XOR D))"

definition F2 :: "u32 \<Rightarrow> u32 \<Rightarrow> u32 \<Rightarrow> u32" where
  "F2 B C D = B XOR C XOR D"

definition F3 :: "u32 \<Rightarrow> u32 \<Rightarrow> u32 \<Rightarrow> u32" where
  "F3 B C D = (B AND C) OR (D AND (B OR C))"

definition F4 :: "u32 \<Rightarrow> u32 \<Rightarrow> u32 \<Rightarrow> u32" where
  "F4 B C D = B XOR C XOR D"

definition sha1_F :: "nat \<Rightarrow> u32 \<Rightarrow> u32 \<Rightarrow> u32 \<Rightarrow> u32" where
  "sha1_F k = (if k = 1 then F1 else if k = 2 then F2 else if k = 3 then F3 else F4)"

definition sha1_K :: "nat \<Rightarrow> u32" where
  "sha1_K k = (if k = 1 then 0x5a827999 else if k = 2 then 0x6ed9eba1
               else if k = 3 then 0x8f1bbcdc else 0xca62c1d6)"

text \<open>The register in the role of \<open>A\<close>: \<open>R( a, b, c, d, e, ...)\<close> is \<open>Sa\<close>,
  \<open>R( e, a, b, c, d, ...)\<close> is \<open>Se\<close>, and so on.\<close>

datatype sreg = Sa | Se | Sd | Sc | Sb

type_synonym quint = "u32 \<times> u32 \<times> u32 \<times> u32 \<times> u32"

text \<open>The macro \<open>M(I)\<close> for \<open>I \<ge> 16\<close> and the plain \<open>x[I]\<close> below: the schedule after the
  access and the word.\<close>

definition sha1_word :: "nat \<Rightarrow> u32 list \<Rightarrow> u32 list \<times> u32" where
  "sha1_word i x =
     (if i < 16 then (x, x ! i)
      else let tm = x ! (i mod 16) XOR x ! ((i - 14) mod 16) XOR x ! ((i - 8) mod 16)
                    XOR x ! ((i - 3) mod 16);
               v = rol tm 1
           in (x[i mod 16 := v], v))"

definition sha1_R :: "sreg \<times> nat \<times> nat \<Rightarrow> quint \<times> u32 list \<Rightarrow> quint \<times> u32 list" where
  "sha1_R ln st =
     (case ln of (r, k, i) \<Rightarrow> case st of ((a, b, c, d, e), x) \<Rightarrow>
        case sha1_word i x of (x', m) \<Rightarrow>
          let new = (\<lambda>A B C D E. E + (rol A 5 + sha1_F k B C D + sha1_K k + m))
          in (case r of
                Sa \<Rightarrow> (a, rol b 30, c, d, new a b c d e)
              | Se \<Rightarrow> (rol a 30, b, c, new e a b c d, e)
              | Sd \<Rightarrow> (a, b, new d e a b c, d, rol e 30)
              | Sc \<Rightarrow> (a, new c d e a b, c, rol d 30, e)
              | Sb \<Rightarrow> (new b c d e a, b, rol c 30, d, e), x'))"

definition sha1_lines1 :: "(sreg \<times> nat \<times> nat) list" where
  "sha1_lines1 =
   [(Sa, 1, 0), (Se, 1, 1), (Sd, 1, 2), (Sc, 1, 3), (Sb, 1, 4),
    (Sa, 1, 5), (Se, 1, 6), (Sd, 1, 7), (Sc, 1, 8), (Sb, 1, 9),
    (Sa, 1, 10), (Se, 1, 11), (Sd, 1, 12), (Sc, 1, 13), (Sb, 1, 14),
    (Sa, 1, 15), (Se, 1, 16), (Sd, 1, 17), (Sc, 1, 18), (Sb, 1, 19)]"

definition sha1_lines2 :: "(sreg \<times> nat \<times> nat) list" where
  "sha1_lines2 =
   [(Sa, 2, 20), (Se, 2, 21), (Sd, 2, 22), (Sc, 2, 23), (Sb, 2, 24),
    (Sa, 2, 25), (Se, 2, 26), (Sd, 2, 27), (Sc, 2, 28), (Sb, 2, 29),
    (Sa, 2, 30), (Se, 2, 31), (Sd, 2, 32), (Sc, 2, 33), (Sb, 2, 34),
    (Sa, 2, 35), (Se, 2, 36), (Sd, 2, 37), (Sc, 2, 38), (Sb, 2, 39)]"

definition sha1_lines3 :: "(sreg \<times> nat \<times> nat) list" where
  "sha1_lines3 =
   [(Sa, 3, 40), (Se, 3, 41), (Sd, 3, 42), (Sc, 3, 43), (Sb, 3, 44),
    (Sa, 3, 45), (Se, 3, 46), (Sd, 3, 47), (Sc, 3, 48), (Sb, 3, 49),
    (Sa, 3, 50), (Se, 3, 51), (Sd, 3, 52), (Sc, 3, 53), (Sb, 3, 54),
    (Sa, 3, 55), (Se, 3, 56), (Sd, 3, 57), (Sc, 3, 58), (Sb, 3, 59)]"

definition sha1_lines4 :: "(sreg \<times> nat \<times> nat) list" where
  "sha1_lines4 =
   [(Sa, 4, 60), (Se, 4, 61), (Sd, 4, 62), (Sc, 4, 63), (Sb, 4, 64),
    (Sa, 4, 65), (Se, 4, 66), (Sd, 4, 67), (Sc, 4, 68), (Sb, 4, 69),
    (Sa, 4, 70), (Se, 4, 71), (Sd, 4, 72), (Sc, 4, 73), (Sb, 4, 74),
    (Sa, 4, 75), (Se, 4, 76), (Sd, 4, 77), (Sc, 4, 78), (Sb, 4, 79)]"

text \<open>One pass of the loop \<open>while (words < endp)\<close>.\<close>

definition sha1_block :: "quint \<Rightarrow> byte list \<Rightarrow> quint" where
  "sha1_block q blk =
     (let x = map SWAP (words16 blk);
          s1 = fold sha1_R sha1_lines1 (q, x);
          s2 = fold sha1_R sha1_lines2 s1;
          s3 = fold sha1_R sha1_lines3 s2;
          s4 = fold sha1_R sha1_lines4 s3
      in case (q, fst s4) of ((A, B, C, D, E), (a, b, c, d, e)) \<Rightarrow>
           (A + a, B + b, C + c, D + d, E + e))"

function sha1_block_loop :: "byte list \<Rightarrow> quint \<Rightarrow> quint" where
  "sha1_block_loop words q =
     (if words = [] then q else sha1_block_loop (drop 64 words) (sha1_block q (take 64 words)))"
  by pat_completeness auto
termination
  by (relation "measure (\<lambda>(words, q). length words)") auto

declare sha1_block_loop.simps [simp del]

abbreviation sha1_quint :: "sha1_ctx \<Rightarrow> quint" where
  "sha1_quint ctx \<equiv> (sha1_A ctx, sha1_B ctx, sha1_C ctx, sha1_D ctx, sha1_E ctx)"

definition sha1_process_block :: "byte list \<Rightarrow> nat \<Rightarrow> sha1_ctx \<Rightarrow> sha1_ctx" where
  "sha1_process_block buffer len ctx =
     (let ctx = ctx\<lparr>sha1_total := count_bytes len (sha1_total ctx)\<rparr>
      in case sha1_block_loop (take len buffer) (sha1_quint ctx) of (a, b, c, d, e) \<Rightarrow>
           ctx\<lparr>sha1_A := a, sha1_B := b, sha1_C := c, sha1_D := d, sha1_E := e\<rparr>)"


subsection \<open>Streaming\<close>

definition sha1_init_ctx :: "byte list \<Rightarrow> sha1_ctx" where
  "sha1_init_ctx junk =
     \<lparr>sha1_A = 0x67452301, sha1_B = 0xefcdab89, sha1_C = 0x98badcfe, sha1_D = 0x10325476,
      sha1_E = 0xc3d2e1f0, sha1_total = (0, 0), sha1_buflen = 0, sha1_buffer = junk\<rparr>"

definition sha1_read_ctx :: "sha1_ctx \<Rightarrow> byte list" where
  "sha1_read_ctx ctx =
     store32 (SWAP (sha1_A ctx)) @ store32 (SWAP (sha1_B ctx)) @ store32 (SWAP (sha1_C ctx)) @
     store32 (SWAP (sha1_D ctx)) @ store32 (SWAP (sha1_E ctx))"

text \<open>The first part of \<open>sha1_process_bytes\<close>: fill the internal buffer. It returns the rest of
  the data and the context.\<close>

definition sha1_fill :: "byte list \<Rightarrow> sha1_ctx \<Rightarrow> byte list \<times> sha1_ctx" where
  "sha1_fill buffer ctx =
     (let left_over = sha1_buflen ctx;
          len = length buffer;
          add = (if 128 - left_over > len then len else 128 - left_over);
          ctx = ctx\<lparr>sha1_buffer := memcpy_at (sha1_buffer ctx) left_over (take add buffer),
                    sha1_buflen := left_over + add\<rparr>;
          ctx = (if sha1_buflen ctx > 64
                 then let ctx = sha1_process_block (sha1_buffer ctx) (sha1_buflen ctx div 64 * 64) ctx;
                          ctx = ctx\<lparr>sha1_buflen := sha1_buflen ctx mod 64\<rparr>
                      in ctx\<lparr>sha1_buffer := memcpy_at (sha1_buffer ctx) 0
                               (take (sha1_buflen ctx)
                                 (drop ((left_over + add) div 64 * 64) (sha1_buffer ctx)))\<rparr>
                 else ctx)
      in (drop add buffer, ctx))"

text \<open>The loop \<open>while (len > 64)\<close> for data that is not aligned to words: each block is first
  copied into the context buffer.\<close>

function sha1_unaligned :: "byte list \<Rightarrow> sha1_ctx \<Rightarrow> byte list \<times> sha1_ctx" where
  "sha1_unaligned buffer ctx =
     (if length buffer > 64
      then let ctx = ctx\<lparr>sha1_buffer := memcpy_at (sha1_buffer ctx) 0 (take 64 buffer)\<rparr>
           in sha1_unaligned (drop 64 buffer) (sha1_process_block (sha1_buffer ctx) 64 ctx)
      else (buffer, ctx))"
  by pat_completeness auto
termination
  by (relation "measure (\<lambda>(buffer, ctx). length buffer)") auto

declare sha1_unaligned.simps [simp del]

text \<open>The last part: move the remaining bytes into the internal buffer.\<close>

definition sha1_keep :: "byte list \<Rightarrow> sha1_ctx \<Rightarrow> sha1_ctx" where
  "sha1_keep buffer ctx =
     (if length buffer > 0
      then let left_over = sha1_buflen ctx;
               ctx = ctx\<lparr>sha1_buffer := memcpy_at (sha1_buffer ctx) left_over buffer\<rparr>;
               left_over = left_over + length buffer
           in if left_over \<ge> 64
              then let ctx = sha1_process_block (sha1_buffer ctx) 64 ctx;
                       left_over = left_over - 64
                   in ctx\<lparr>sha1_buffer := memcpy_at (sha1_buffer ctx) 0
                            (take left_over (drop 64 (sha1_buffer ctx))),
                          sha1_buflen := left_over\<rparr>
              else ctx\<lparr>sha1_buflen := left_over\<rparr>
      else ctx)"

text \<open>\<open>unal\<close> is \<open>UNALIGNED_P (buffer)\<close>, a property of the address of the data that is left
  after the first part.\<close>

definition sha1_process_bytes :: "bool \<Rightarrow> byte list \<Rightarrow> sha1_ctx \<Rightarrow> sha1_ctx" where
  "sha1_process_bytes unal buffer ctx =
     (let (buffer, ctx) = (if sha1_buflen ctx \<noteq> 0 then sha1_fill buffer ctx else (buffer, ctx));
          (buffer, ctx) =
            (if length buffer \<ge> 64
             then if unal then sha1_unaligned buffer ctx
                  else let n = length buffer div 64 * 64
                       in (drop n buffer, sha1_process_block buffer n ctx)
             else (buffer, ctx))
      in sha1_keep buffer ctx)"

definition sha1_finish_ctx :: "sha1_ctx \<Rightarrow> byte list" where
  "sha1_finish_ctx ctx =
     (let bytes = sha1_buflen ctx;
          size = (if bytes < 56 then 64 div 4 else 64 * 2 div 4);
          ctx = ctx\<lparr>sha1_total := count_bytes bytes (sha1_total ctx)\<rparr>;
          buf = memcpy_at (sha1_buffer ctx) ((size - 2) * 4) (store32 (SWAP (bits_high (sha1_total ctx))));
          buf = memcpy_at buf ((size - 1) * 4) (store32 (SWAP (bits_low (sha1_total ctx))));
          buf = memcpy_at buf bytes (take ((size - 2) * 4 - bytes) fillbuf);
          ctx = ctx\<lparr>sha1_buffer := buf\<rparr>;
          ctx = sha1_process_block (sha1_buffer ctx) (size * 4) ctx
      in sha1_read_ctx ctx)"

definition sha1_buffer_digest :: "byte list \<Rightarrow> bool \<Rightarrow> byte list \<Rightarrow> byte list" where
  "sha1_buffer_digest junk unal buffer =
     sha1_finish_ctx (sha1_process_bytes unal buffer (sha1_init_ctx junk))"

text \<open>\<open>sha1::hash\<close> and \<open>sha1::bytes\<close>.\<close>

definition sha1_hash :: "byte list \<Rightarrow> bool \<Rightarrow> byte list \<Rightarrow> string" where
  "sha1_hash junk unal s = hex_bytes (sha1_buffer_digest junk unal s)"

definition sha1_bytes :: "byte list \<Rightarrow> bool \<Rightarrow> byte list \<Rightarrow> byte list" where
  "sha1_bytes junk unal s = sha1_buffer_digest junk unal s"


subsection \<open>The algorithm of FIPS 180\<close>

text \<open>The message schedule of 80 words, the round functions and constants, and one step of the
  80, as the standard writes them.\<close>

definition be32 :: "byte list \<Rightarrow> u32" where
  "be32 bs =
     push_bit 24 (ucast (bs ! 0)) OR push_bit 16 (ucast (bs ! 1)) OR
     push_bit 8 (ucast (bs ! 2)) OR ucast (bs ! 3)"

definition fips_words :: "byte list \<Rightarrow> u32 list" where
  "fips_words blk = map (\<lambda>k. be32 (take 4 (drop (4 * k) blk))) [0..<16]"

fun fips_W :: "u32 list \<Rightarrow> nat \<Rightarrow> u32" where
  "fips_W M t =
     (if t < 16 then M ! t
      else word_rotl 1 (fips_W M (t - 3) XOR fips_W M (t - 8) XOR fips_W M (t - 14) XOR fips_W M (t - 16)))"

declare fips_W.simps [simp del]

definition fips_f :: "nat \<Rightarrow> u32 \<Rightarrow> u32 \<Rightarrow> u32 \<Rightarrow> u32" where
  "fips_f t x y z =
     (if t < 20 then (x AND y) XOR (NOT x AND z)
      else if t < 40 then x XOR y XOR z
      else if t < 60 then (x AND y) XOR (x AND z) XOR (y AND z)
      else x XOR y XOR z)"

definition fips_K :: "nat \<Rightarrow> u32" where
  "fips_K t = [0x5a827999, 0x6ed9eba1, 0x8f1bbcdc, 0xca62c1d6] ! (t div 20)"

definition fips_step :: "u32 list \<Rightarrow> nat \<Rightarrow> quint \<Rightarrow> quint" where
  "fips_step M t q =
     (case q of (a, b, c, d, e) \<Rightarrow>
        (word_rotl 5 a + fips_f t b c d + e + fips_K t + fips_W M t, a, word_rotl 30 b, c, d))"

definition fips_block :: "quint \<Rightarrow> byte list \<Rightarrow> quint" where
  "fips_block q blk =
     (case (q, fold (fips_step (fips_words blk)) [0..<80] q) of
        ((A, B, C, D, E), (a, b, c, d, e)) \<Rightarrow> (a + A, b + B, c + C, d + D, e + E))"

definition sha1_iv :: quint where
  "sha1_iv = (0x67452301, 0xefcdab89, 0x98badcfe, 0x10325476, 0xc3d2e1f0)"

abbreviation be64 :: "64 word \<Rightarrow> byte list" where
  "be64 w \<equiv> rev (store32 (ucast (drop_bit 32 w))) @ rev (store32 (ucast w))"

definition sha1_fips :: "byte list \<Rightarrow> byte list" where
  "sha1_fips msg =
     (case absorb fips_block sha1_iv (padded be64 msg) of
        (A, B, C, D, E) \<Rightarrow> concat (map (\<lambda>w. rev (store32 w)) [A, B, C, D, E]))"


subsection \<open>The unrolled lines are the steps of the standard\<close>

text \<open>\<open>sseen r q\<close> is the register file in the roles of a line whose \<open>A\<close> is \<open>r\<close>.\<close>

fun sseen :: "sreg \<Rightarrow> quint \<Rightarrow> quint" where
  "sseen Sa (a, b, c, d, e) = (a, b, c, d, e)"
| "sseen Se (a, b, c, d, e) = (e, a, b, c, d)"
| "sseen Sd (a, b, c, d, e) = (d, e, a, b, c)"
| "sseen Sc (a, b, c, d, e) = (c, d, e, a, b)"
| "sseen Sb (a, b, c, d, e) = (b, c, d, e, a)"

fun next_sreg :: "sreg \<Rightarrow> sreg" where
  "next_sreg Sa = Se" | "next_sreg Se = Sd" | "next_sreg Sd = Sc" | "next_sreg Sc = Sb"
| "next_sreg Sb = Sa"

lemma and_ff00: "x AND 0xff00 = push_bit 8 (take_bit 8 (drop_bit 8 x))" for x :: u32
  using and_push_mask [of x 8 8] by (simp add: mask_eq_exp_minus_1 push_bit_eq_mult)

lemma bit_SWAP:
  "n < 32 \<Longrightarrow> bit (SWAP w) n \<longleftrightarrow>
     bit w (if n < 8 then 24 + n else if n < 16 then 8 + n else if n < 24 then n - 8 else n - 24)"
  unfolding SWAP_def and_ff00 by (auto simp: bit_simps dest: bit_imp_le_length)

lemma SWAP_load32: "SWAP (load32 bs) = be32 bs"
proof (rule bit_eqI)
  fix n assume "possible_bit TYPE(u32) n"
  then have n: "n < 32" by simp
  consider "n < 8" | "8 \<le> n" "n < 16" | "16 \<le> n" "n < 24" | "24 \<le> n" by linarith
  then show "bit (SWAP (load32 bs)) n = bit (be32 bs) n"
    by cases (use n in \<open>auto simp: bit_SWAP load32_def be32_def bit_simps dest: bit_imp_le_length\<close>)
qed

lemma store32_SWAP: "store32 (SWAP w) = rev (store32 w)"
  unfolding SWAP_def and_ff00 store32_def 
  by (auto intro!: bit_eqI simp: bit_simps dest: bit_imp_le_length)

lemma rol_rotl: "0 < s \<Longrightarrow> s < 32 \<Longrightarrow> rol w s = word_rotl s w"
  by (simp add: rol_def shift_or_rotl)

text \<open>The circular schedule: before step \<open>t\<close> the 16 words hold the last 16 words of the
  80-word schedule, each at its index modulo 16.\<close>

definition circular :: "u32 list \<Rightarrow> nat \<Rightarrow> u32 list \<Rightarrow> bool" where
  "circular M t x \<longleftrightarrow> length x = 16 \<and>
     (\<forall>j. j < max t 16 \<longrightarrow> max t 16 \<le> j + 16 \<longrightarrow> x ! (j mod 16) = fips_W M j)"

lemma circular_start: "length M = 16 \<Longrightarrow> circular M 0 M"
  by (simp add: circular_def fips_W.simps)

lemma circular_word:
  assumes "circular M t x"
  shows "snd (sha1_word t x) = fips_W M t" "circular M (Suc t) (fst (sha1_word t x))"
proof -
  have "snd (sha1_word t x) = fips_W M t \<and> circular M (Suc t) (fst (sha1_word t x))"
  proof (cases "t < 16")
    case True
    with assms show ?thesis by (auto simp: sha1_word_def circular_def)
  next
    case False
    have x: "x ! (j mod 16) = fips_W M j" if "j < t" "t \<le> j + 16" for j
      using assms that False by (simp add: circular_def)
    have l: "length x = 16" using assms by (simp add: circular_def)
    have "t mod 16 = (t - 16) mod 16" using False by (simp add: le_mod_geq)
    then have v: "snd (sha1_word t x) = fips_W M t"
      using False x [of "t - 16"] x [of "t - 14"] x [of "t - 8"] x [of "t - 3"]
      by (simp add: sha1_word_def Let_def rol_rotl fips_W.simps [of M t] ac_simps)
    have "circular M (Suc t) (x[t mod 16 := fips_W M t])"
      unfolding circular_def
    proof (intro conjI allI impI)
      fix j assume j: "j < max (Suc t) 16" "max (Suc t) 16 \<le> j + 16"
      show "x[t mod 16 := fips_W M t] ! (j mod 16) = fips_W M j"
      proof (cases "j = t")
        case True
        then show ?thesis using l by simp
      next
        case ne: False
        with j False have jt: "j < t" "t < j + 16" by auto
        have "j mod 16 \<noteq> t mod 16"
        proof
          assume "j mod 16 = t mod 16"
          then have "16 dvd t - j" using jt by (metis less_imp_le mod_eq_dvd_iff_nat)
          with jt show False by (auto dest!: dvd_imp_le)
        qed
        with x [of j] jt show ?thesis by simp
      qed
    qed (use l in simp)
    with v False show ?thesis by (simp add: sha1_word_def Let_def)
  qed
  then show "snd (sha1_word t x) = fips_W M t" "circular M (Suc t) (fst (sha1_word t x))" by auto
qed

fun lines_match :: "sreg \<Rightarrow> nat \<Rightarrow> (sreg \<times> nat \<times> nat) list \<Rightarrow> bool" where
  "lines_match r t [] \<longleftrightarrow> True"
| "lines_match r t ((r', k, i) # ls) \<longleftrightarrow>
     r' = r \<and> i = t \<and> k = Suc (t div 20) \<and> lines_match (next_sreg r) (Suc t) ls"

lemma round_cases:
  fixes t :: nat
  assumes "t < 80"
  obtains "t < 20" "t div 20 = 0" | "20 \<le> t" "t < 40" "t div 20 = 1"
    | "40 \<le> t" "t < 60" "t div 20 = 2" | "60 \<le> t" "t div 20 = 3"
  using assms by (cases "t < 20"; cases "t < 40"; cases "t < 60") (auto simp: div_nat_eqI)

lemma Ch_F1: "(x AND y) XOR (NOT x AND z) = F1 x y z"
  by (rule bit_eqI) (auto simp: F1_def bit_simps)

lemma Maj_F3: "(x AND y) XOR (x AND z) XOR (y AND z) = F3 x y z"
  by (rule bit_eqI) (auto simp: F3_def bit_simps)

lemma fips_F: "t < 80 \<Longrightarrow> fips_f t = sha1_F (Suc (t div 20))"
  by (erule round_cases)
    (auto simp: fun_eq_iff fips_f_def sha1_F_def F2_def F4_def Ch_F1 Maj_F3)

lemma fips_K: "t < 80 \<Longrightarrow> fips_K t = sha1_K (Suc (t div 20))"
  by (erule round_cases) (auto simp: fips_K_def sha1_K_def)

lemma sseen_R:
  assumes "circular M t x" "t < 80"
    and R: "sha1_R (r, Suc (t div 20), t) (q, x) = (q', x')"
  shows "sseen (next_sreg r) q' = fips_step M t (sseen r q)" "circular M (Suc t) x'"
proof -
  obtain v where w: "sha1_word t x = (x', v)"
    using R by (auto simp: sha1_R_def split: prod.splits)
  with circular_word [OF assms(1)] have v: "v = fips_W M t" "circular M (Suc t) x'" by simp_all
  then show "circular M (Suc t) x'" by simp
  show "sseen (next_sreg r) q' = fips_step M t (sseen r q)"
    using R w v assms(2) by (cases q; cases r)
      (auto simp: sha1_R_def fips_step_def Let_def rol_rotl fips_F fips_K algebra_simps)
qed

lemma sseen_lines:
  assumes "circular M t x" "t + length ls \<le> 80" "lines_match r t ls"
    "fold sha1_R ls (q, x) = (q', x')"
  shows "sseen ((next_sreg ^^ length ls) r) q' = fold (fips_step M) [t..<t + length ls] (sseen r q) \<and>
    circular M (t + length ls) x'"
  using assms
proof (induction ls arbitrary: r t q x)
  case (Cons l ls)
  obtain k where l: "l = (r, Suc (t div 20), t)" using Cons.prems(3) by (cases l) auto
  obtain q1 x1 where R: "sha1_R l (q, x) = (q1, x1)" by (metis surj_pair)
  from sseen_R [OF Cons.prems(1) _ R [unfolded l]] Cons.prems(2)
  have s: "sseen (next_sreg r) q1 = fips_step M t (sseen r q)" and c: "circular M (Suc t) x1" by auto
  have "sseen ((next_sreg ^^ length ls) (next_sreg r)) q' = fold (fips_step M) [Suc t..<Suc t + length ls] (sseen (next_sreg r) q1) \<and>
    circular M (Suc t + length ls) x'"
    using Cons.prems l R by (intro Cons.IH [OF c]) auto
  moreover have "[t..<t + length (l # ls)] = t # [Suc t..<Suc t + length ls]"
    by (simp add: upt_conv_Cons del: upt_Suc)
  ultimately show ?case by (simp add: s funpow_swap1 del: upt_Suc)
qed simp

lemma all_lines_match: "lines_match Sa 0 (sha1_lines1 @ sha1_lines2 @ sha1_lines3 @ sha1_lines4)"
  by (simp add: sha1_lines1_def sha1_lines2_def sha1_lines3_def sha1_lines4_def)

lemma sha1_block_fips: "sha1_block q blk = fips_block q blk"
proof -
  let ?ls = "sha1_lines1 @ sha1_lines2 @ sha1_lines3 @ sha1_lines4"
  let ?M = "map SWAP (words16 blk)"
  have M: "?M = fips_words blk" by (simp add: words16_def fips_words_def SWAP_load32)
  have len: "length ?ls = 80"
    by (simp add: sha1_lines1_def sha1_lines2_def sha1_lines3_def sha1_lines4_def)
  obtain q' x' where f: "fold sha1_R ?ls (q, ?M) = (q', x')" by (metis surj_pair)
  have "(next_sreg ^^ 80) Sa = Sa" by (simp add: eval_nat_numeral)
  moreover have "sseen Sa q = q" for q by (cases q) simp
  moreover have "sseen ((next_sreg ^^ length ?ls) Sa) q' = fold (fips_step ?M) [0..<0 + length ?ls] (sseen Sa q)"
    using sseen_lines [OF circular_start _ all_lines_match f] len by simp
  ultimately have "q' = fold (fips_step ?M) [0..<80] q" unfolding len by simp
  then show ?thesis
    using f unfolding sha1_block_def fips_block_def Let_def M
    by (simp add: add.commute split: prod.split)
qed


subsection \<open>Buffering\<close>

text \<open>As for MD5: \<open>sha1_at ctx pre\<close> says that the registers and the counter have absorbed the
  blocks \<open>pre\<close>, \<open>sha1_rep ctx msg\<close> that the context represents \<open>msg\<close>.\<close>

definition sha1_at :: "sha1_ctx \<Rightarrow> byte list \<Rightarrow> bool" where
  "sha1_at ctx pre \<longleftrightarrow>
     length pre mod 64 = 0 \<and> sha1_quint ctx = absorb sha1_block sha1_iv pre \<and>
     count64 (sha1_total ctx) = of_nat (length pre)"

definition sha1_rep :: "sha1_ctx \<Rightarrow> byte list \<Rightarrow> bool" where
  "sha1_rep ctx msg \<longleftrightarrow>
     length (sha1_buffer ctx) = 128 \<and> sha1_buflen ctx \<le> 64 \<and>
     (\<exists>pre. sha1_at ctx pre \<and> msg = pre @ take (sha1_buflen ctx) (sha1_buffer ctx))"

lemma sha1_block_loop_absorb: "sha1_block_loop words q = absorb sha1_block q words"
proof (induction words q rule: sha1_block_loop.induct)
  case (1 words q)
  then show ?case
    by (cases "words = []")
      (simp_all add: sha1_block_loop.simps [of _ q] absorb_def chunks64.simps [of words])
qed

lemma sha1_process_block_frame [simp]:
  "sha1_buffer (sha1_process_block buf n ctx) = sha1_buffer ctx"
  "sha1_buflen (sha1_process_block buf n ctx) = sha1_buflen ctx"
  by (simp_all add: sha1_process_block_def Let_def split: prod.split)

lemma sha1_at_frame [simp]:
  "sha1_at (sha1_buffer_update f ctx) pre = sha1_at ctx pre"
  "sha1_at (sha1_buflen_update g ctx) pre = sha1_at ctx pre"
  by (simp_all add: sha1_at_def)

lemma sha1_at_process_block:
  assumes "sha1_at ctx pre" "n mod 64 = 0" "n < 2 ^ 32" "n \<le> length buf"
  shows "sha1_at (sha1_process_block buf n ctx) (pre @ take n buf)"
proof -
  have "sha1_quint (sha1_process_block buf n ctx) = sha1_block_loop (take n buf) (sha1_quint ctx)"
    by (simp add: sha1_process_block_def Let_def split: prod.split)
  moreover have "sha1_total (sha1_process_block buf n ctx) = count_bytes n (sha1_total ctx)"
    by (simp add: sha1_process_block_def Let_def split: prod.split)
  moreover have "(length pre + n) mod 64 = 0"
    using assms by (auto simp: sha1_at_def mod_add_eq mod_add_0)
  ultimately show ?thesis
    using assms unfolding sha1_at_def
    by (simp add: sha1_block_loop_absorb absorb_append count64_count_bytes min_def)
qed

lemma sha1_rep_init [intro]: "length junk = 128 \<Longrightarrow> sha1_rep (sha1_init_ctx junk) []"
  by (auto simp: sha1_rep_def sha1_at_def sha1_init_ctx_def sha1_iv_def count64_def)

lemma sha1_fill_rep:
  assumes "sha1_rep ctx msg" "sha1_fill d ctx = (d', ctx')"
  shows "\<exists>e. d = e @ d' \<and> sha1_rep ctx' (msg @ e) \<and> (d' \<noteq> [] \<longrightarrow> sha1_buflen ctx' = 0)"
proof -
  define k where "k = sha1_buflen ctx"
  define add where "add = (if 128 - k > length d then length d else 128 - k)"
  let ?b = "memcpy_at (sha1_buffer ctx) k (take add d)"
  let ?n = "(k + add) div 64 * 64" and ?r = "(k + add) mod 64"
  let ?c = "ctx\<lparr>sha1_buffer := ?b, sha1_buflen := k + add\<rparr>"
  from assms obtain pre where k: "k \<le> 64" and b: "length (sha1_buffer ctx) = 128"
    and pre: "sha1_at ctx pre" and msg: "msg = pre @ take k (sha1_buffer ctx)"
    by (auto simp: sha1_rep_def k_def)
  have add: "add \<le> length d" "k + add \<le> 128" using k by (auto simp: add_def)
  note fs = fill_split [OF b k add]
  have d': "d' = drop add d"
    using assms by (simp add: sha1_fill_def Let_def k_def [symmetric] add_def [symmetric])
  have r0: "d' \<noteq> [] \<Longrightarrow> k + add = 128" using d' k by (auto simp: add_def split: if_splits)
  have "sha1_rep ctx' (msg @ take add d) \<and> (d' \<noteq> [] \<longrightarrow> sha1_buflen ctx' = 0)"
  proof (cases "k + add > 64")
    case True
    let ?c' = "sha1_process_block ?b ?n ?c"
    have ctx': "ctx' = ?c'\<lparr>sha1_buflen := ?r, sha1_buffer := memcpy_at ?b 0 (take ?r (drop ?n ?b))\<rparr>"
      using assms True by (simp add: sha1_fill_def Let_def k_def [symmetric] add_def [symmetric])
    have at: "sha1_at ?c' (pre @ take ?n ?b)"
      by (rule sha1_at_process_block) (use pre fs(1,3) in simp_all)
    have "msg @ take add d = (pre @ take ?n ?b) @ take ?r (memcpy_at ?b 0 (take ?r (drop ?n ?b)))"
      using fs(5) by (simp add: msg)
    moreover have "?r \<le> 64" by simp
    ultimately show ?thesis using at fs(4) r0 unfolding sha1_rep_def ctx' by auto
  next
    case False
    then have "ctx' = ?c"
      using assms by (simp add: sha1_fill_def Let_def k_def [symmetric] add_def [symmetric])
    with False show ?thesis using fs(1,2) pre r0 unfolding sha1_rep_def by (auto simp: msg)
  qed
  then show ?thesis using d' by (metis append_take_drop_id)
qed

lemma sha1_unaligned_at:
  assumes "sha1_at c pre" "length (sha1_buffer c) = 128" "sha1_buflen c = 0" "sha1_unaligned d c = (d', c')"
  shows "\<exists>e. d = e @ d' \<and> sha1_at c' (pre @ e) \<and> length (sha1_buffer c') = 128 \<and>
     sha1_buflen c' = 0 \<and> length d' \<le> 64"
  using assms
proof (induction d c arbitrary: pre rule: sha1_unaligned.induct)
  case (1 d c)
  show ?case
  proof (cases "length d > 64")
    case True
    let ?c = "c\<lparr>sha1_buffer := memcpy_at (sha1_buffer c) 0 (take 64 d)\<rparr>"
    let ?c1 = "sha1_process_block (sha1_buffer ?c) 64 ?c"
    have tk: "take 64 (sha1_buffer ?c) = take 64 d"
      using take_memcpy_at [of 0 "sha1_buffer c" "take 64 d"] True by simp
    have lb: "length (sha1_buffer ?c) = 128" using "1.prems"(2) True by simp
    have "sha1_at ?c1 (pre @ take 64 (sha1_buffer ?c))"
      by (rule sha1_at_process_block) (use "1.prems"(1) lb in simp_all)
    with 1(1) [OF True refl, of "pre @ take 64 d"] tk lb "1.prems" True
    obtain e where "drop 64 d = e @ d'" "sha1_at c' ((pre @ take 64 d) @ e)"
      "length (sha1_buffer c') = 128" "sha1_buflen c' = 0" "length d' \<le> 64"
      by (auto simp: sha1_unaligned.simps [of d c] Let_def)
    then show ?thesis
      by (intro exI [of _ "take 64 d @ e"]) (metis append.assoc append_take_drop_id)
  next
    case False
    with "1.prems" show ?thesis by (auto simp: sha1_unaligned.simps [of d c])
  qed
qed

lemma sha1_keep_rep:
  assumes at: "sha1_at c m" and b: "length (sha1_buffer c) = 128" and z: "sha1_buflen c = 0"
    and l: "length d \<le> 64"
  shows "sha1_rep (sha1_keep d c) (m @ d)"
proof (cases "d = []")
  case True
  then show ?thesis using assms by (auto simp: sha1_keep_def sha1_rep_def)
next
  case False
  let ?b = "memcpy_at (sha1_buffer c) 0 d"
  have tb: "take (length d) ?b = d" using take_memcpy_at [of 0 "sha1_buffer c" d] by simp
  have lb: "length ?b = 128" using b l by simp
  show ?thesis
  proof (cases "length d = 64")
    case True
    have "sha1_at (sha1_process_block ?b 64 (c\<lparr>sha1_buffer := ?b\<rparr>)) (m @ take 64 ?b)"
      by (rule sha1_at_process_block) (use at lb in simp_all)
    with True False tb lb z show ?thesis by (simp add: sha1_keep_def Let_def sha1_rep_def)
  next
    case ne: False
    with False l z tb lb at show ?thesis by (auto simp: sha1_keep_def Let_def sha1_rep_def)
  qed
qed

lemma sha1_rep_process_bytes:
  assumes "sha1_rep ctx msg" "length d < 2 ^ 32"
  shows "sha1_rep (sha1_process_bytes unal d ctx) (msg @ d)"
proof -
  obtain d1 c1 where s1: "(if sha1_buflen ctx \<noteq> 0 then sha1_fill d ctx else (d, ctx)) = (d1, c1)"
    by force
  obtain e where d: "d = e @ d1" and r1: "sha1_rep c1 (msg @ e)"
    and z: "d1 \<noteq> [] \<longrightarrow> sha1_buflen c1 = 0"
    using sha1_fill_rep [OF assms(1), of d d1 c1] s1 assms(1) by (cases "sha1_buflen ctx = 0") auto
  show ?thesis
  proof (cases "d1 = []")
    case True
    with r1 d show ?thesis unfolding sha1_process_bytes_def s1 by (simp add: sha1_keep_def)
  next
    case False
    with z r1 have z1: "sha1_buflen c1 = 0" and at1: "sha1_at c1 (msg @ e)"
      and b1: "length (sha1_buffer c1) = 128" by (auto simp: sha1_rep_def)
    define n where "n = length d1 div 64 * 64"
    obtain d2 c2 where s2: "(if length d1 \<ge> 64 then if unal then sha1_unaligned d1 c1
        else (drop n d1, sha1_process_block d1 n c1) else (d1, c1)) = (d2, c2)" by force
    have n: "n \<le> length d1" "length d1 - n \<le> 64" "n mod 64 = 0"
      by (auto simp: n_def minus_div_mult_eq_mod less_imp_le)
    have "\<exists>e'. d1 = e' @ d2 \<and> sha1_at c2 ((msg @ e) @ e') \<and> length (sha1_buffer c2) = 128 \<and>
       sha1_buflen c2 = 0 \<and> length d2 \<le> 64"
    proof (cases "length d1 \<ge> 64 \<and> unal")
      case True
      then show ?thesis using sha1_unaligned_at [OF at1 b1 z1, of d1 d2 c2] s2 by simp
    next
      case False
      have "sha1_at (sha1_process_block d1 n c1) ((msg @ e) @ take n d1)"
        by (rule sha1_at_process_block [OF at1]) (use n assms d in simp_all)
      with False s2 n at1 b1 z1 show ?thesis
        by (cases "length d1 \<ge> 64") (auto intro!: exI [of _ "take n d1"])
    qed
    then obtain e' where "d1 = e' @ d2" "sha1_rep (sha1_keep d2 c2) (((msg @ e) @ e') @ d2)"
      using sha1_keep_rep by blast
    then show ?thesis unfolding sha1_process_bytes_def s1 Let_def prod.case
      using s2 unfolding n_def [symmetric] by (simp add: d)
  qed
qed

lemma sha1_finish_fips:
  assumes "sha1_rep ctx msg"
  shows "sha1_finish_ctx ctx = sha1_fips msg"
proof -
  define k where "k = sha1_buflen ctx"
  define size where "size = (if k < 56 then 64 div 4 else 64 * 2 div 4 :: nat)"
  define p where "p = (size - 2) * 4 - k"
  define t where "t = count_bytes k (sha1_total ctx)"
  from assms obtain pre where k: "k \<le> 64" and b: "length (sha1_buffer ctx) = 128"
    and pre: "sha1_at ctx pre" and msg: "msg = pre @ take k (sha1_buffer ctx)"
    by (auto simp: sha1_rep_def k_def)
  have lk: "length (take k (sha1_buffer ctx)) = k" using k b by simp
  have p: "p = (if k \<ge> 56 then 64 + 56 - k else 56 - k)" "p \<le> 64"
    and sz: "(size - 2) * 4 = k + p" "(size - 1) * 4 = k + p + 4" "size * 4 = k + p + 8" "size * 4 \<le> 128"
    using k by (auto simp: p_def size_def)
  define b1 where "b1 = memcpy_at (sha1_buffer ctx) (k + p) (store32 (SWAP (bits_high t)))"
  define b2 where "b2 = memcpy_at b1 (k + p + 4) (store32 (SWAP (bits_low t)))"
  define b3 where "b3 = memcpy_at b2 k (take p fillbuf)"
  have b3: "take (k + p + 8) b3 = take k (sha1_buffer ctx) @ take p fillbuf @
      store32 (SWAP (bits_high t)) @ store32 (SWAP (bits_low t))"
    using k p(2) sz(3,4) b by (simp add: b3_def b2_def b1_def memcpy_at_def min_def)
  have len: "length msg = length pre + k" and mk: "length msg mod 64 = k mod 64"
    using pre lk by (auto simp: msg sha1_at_def)
  have "k < 2 ^ 32" using k by simp
  then have "count64 t = of_nat (length msg)"
    using pre by (simp add: t_def count64_count_bytes sha1_at_def len)
  note bits = bits_of_count64 [OF this]
  have pd: "take p fillbuf = md_pad (length msg)"
    unfolding p(1) by (rule md_pad_fillbuf [OF k mk])
  have blk: "take (k + p + 8) b3 = take k (sha1_buffer ctx) @ md_pad (length msg) @ be64 (of_nat (8 * length msg))"
    by (simp add: b3 pd bits store32_SWAP)
  define c where "c = ctx\<lparr>sha1_total := t, sha1_buffer := b3\<rparr>"
  have "sha1_finish_ctx ctx = sha1_read_ctx (sha1_process_block b3 (k + p + 8) c)"
    unfolding sha1_finish_ctx_def Let_def k_def [symmetric] size_def [symmetric] p_def [symmetric] sz
    by (simp add: t_def b1_def b2_def b3_def c_def)
  moreover have "absorb sha1_block sha1_iv (padded be64 msg) = sha1_quint (sha1_process_block b3 (k + p + 8) c)"
    using pre by (simp add: sha1_process_block_def Let_def sha1_block_loop_absorb c_def sha1_at_def blk
        padded_def msg absorb_append split: prod.split)
  moreover have "fips_block = sha1_block" by (intro ext) (rule sha1_block_fips [symmetric])
  ultimately show ?thesis by (simp add: sha1_read_ctx_def sha1_fips_def store32_SWAP)
qed

interpretation sha1: streaming_digest "sha1_init_ctx zero_junk" sha1_process_bytes sha1_finish_ctx
    sha1_rep sha1_fips
  by unfold_locales (auto intro: sha1_rep_process_bytes sha1_finish_fips)


subsection \<open>Correctness\<close>

text \<open>C7: \<open>sha1::hash\<close> and \<open>sha1::bytes\<close> of any buffer shorter than \<open>2 ^ 32\<close> bytes are the
  FIPS 180 digest of its bytes, in hexadecimal and in big-endian bytes, whatever the alignment
  of the data and the former contents of the context buffer.\<close>

theorem sha1_hash_correct:
  assumes "length junk = 128" and "length s < 2 ^ 32"
  shows "sha1_hash junk unal s = hex_bytes (sha1_fips s) \<and> sha1_bytes junk unal s = sha1_fips s"
  using sha1_finish_fips [OF sha1_rep_process_bytes [OF sha1_rep_init [OF assms(1)] assms(2)]]
  by (simp add: sha1_hash_def sha1_bytes_def sha1_buffer_digest_def)

theorem sha1_hash_correct_witness:
  "sha1_hash zero_junk True (map of_char ''abc'') = hex_bytes (sha1_fips (map of_char ''abc'')) \<and>
   sha1_bytes zero_junk True (map of_char ''abc'') = sha1_fips (map of_char ''abc'')"
  by (rule sha1_hash_correct) simp_all

text \<open>The digest does not depend on how the message is cut nor on the alignment of the
  pieces: feeding any sequence of chunks, each shorter than \<open>2 ^ 32\<close> bytes and each aligned or
  not, through \<open>sha1_process_bytes\<close> and finishing gives the FIPS 180 digest of their
  concatenation.\<close>

theorem sha1_chunking:
  assumes "list_all (\<lambda>(unal, d). length d < 2 ^ 32) ds"
  shows "sha1_finish_ctx (fold (\<lambda>(unal, d). sha1_process_bytes unal d) ds (sha1_init_ctx zero_junk)) =
     sha1_fips (concat (map snd ds))"
  using assms by (rule sha1.finish_chunks)

theorem sha1_chunking_witness:
  "sha1_finish_ctx (fold (\<lambda>(unal, d). sha1_process_bytes unal d)
     [(True, replicate 60 7), (False, replicate 200 8), (True, replicate 200 9)]
     (sha1_init_ctx zero_junk)) =
   sha1_fips (concat (map snd
     [(True, replicate 60 7), (False, replicate 200 8), (True, replicate 200 9)]))"
  by (rule sha1_chunking) simp

text \<open>The 80 unrolled lines of \<open>sha1_process_block\<close>, with their renamed registers,
  rewritten round functions and 16-word circular schedule updated in place, compute the block
  operation of FIPS 180 with its 80-word schedule, on every register file and every block.\<close>

theorem sha1_block_is_fips: "sha1_block q blk = fips_block q blk"
  by (rule sha1_block_fips)

end
