(* ===== verification/Str_Codec.thy ===== *)
theory Str_Codec
  imports Str_Class Base64 MD5 SHA1
begin

text \<open>
  The methods of the class \<open>string\<close> that use the codecs and digests: \<open>encode64\<close>, \<open>decode64\<close>, \<open>md5\<close> and \<open>sha1\<close>. They work on all
  \<open>m_size\<close> characters, except \<open>decode64\<close>, which reads a C string.
\<close>

definition byte_of :: "char \<Rightarrow> byte" where
  "byte_of c = of_nat (of_char c)"

definition char_byte :: "byte \<Rightarrow> char" where
  "char_byte b = char_of (unat b)"

text \<open>The static functions; \<open>None\<close> of the codecs is their fault. \<open>encode64\<close> hands its \<open>size_t\<close> to an \<open>int\<close>.\<close>

definition string_encode64 :: "char list \<Rightarrow> str_fault + char list" where
  "string_encode64 s = (case base64_encode (map byte_of s) (to_c_int (len s)) of None \<Rightarrow> Inl Write_bounds | Some bs \<Rightarrow> Inr (map char_byte bs))"

definition string_decode64 :: "char list \<Rightarrow> str_fault + char list \<times> int" where
  "string_decode64 s =
     (case base64_decode (map byte_of s) of None \<Rightarrow> Inl Write_bounds | Some (bs, n) \<Rightarrow> Inr (map char_byte bs, n))"

definition string_md5 :: "byte list \<Rightarrow> char list \<Rightarrow> char list" where
  "string_md5 junk s = md5_hash junk (map byte_of s)"

definition string_sha1 :: "byte list \<Rightarrow> bool \<Rightarrow> char list \<Rightarrow> char list" where
  "string_sha1 junk unal s = sha1_hash junk unal (map byte_of s)"

text \<open>The block of the result holds what the function wrote, its terminator included.\<close>

definition method_encode64 :: "heap \<Rightarrow> arken_string \<Rightarrow> mem_fault + heap \<times> arken_string" where
  "method_encode64 h s =
     rbind (string_bytes h s) (\<lambda>t.
       case string_encode64 t of
         Inl e \<Rightarrow> Inl (Text_fault e)
       | Inr r \<Rightarrow> (let (p, h1) = h_alloc h (map Some r) in rbind (string_ctor_adopt h1 p) (\<lambda>s1. Inr (h1, s1))))"

definition method_decode64 :: "heap \<Rightarrow> arken_string \<Rightarrow> mem_fault + heap \<times> arken_string" where
  "method_decode64 h s =
     rbind (h_text h (m_data s)) (\<lambda>t.
       case string_decode64 t of
         Inl e \<Rightarrow> Inl (Text_fault e)
       | Inr (r, n) \<Rightarrow> (let (p, h1) = h_alloc h (map Some r) in Inr (h1, string_ctor_adopt_size p (nat n))))"

definition method_md5 :: "byte list \<Rightarrow> heap \<Rightarrow> arken_string \<Rightarrow> mem_fault + heap \<times> arken_string" where
  "method_md5 junk h s =
     rbind (string_bytes h s) (\<lambda>t.
       let (p, h1) = h_alloc h (map Some (string_md5 junk t) @ [Some NUL])
       in rbind (string_ctor_adopt h1 p) (\<lambda>s1. Inr (h1, s1)))"

definition method_sha1 :: "byte list \<Rightarrow> bool \<Rightarrow> heap \<Rightarrow> arken_string \<Rightarrow> mem_fault + heap \<times> arken_string" where
  "method_sha1 junk unal h s =
     rbind (string_bytes h s) (\<lambda>t.
       let (p, h1) = h_alloc h (map Some (string_sha1 junk unal t) @ [Some NUL])
       in rbind (string_ctor_adopt h1 p) (\<lambda>s1. Inr (h1, s1)))"


subsection \<open>Characters and bytes\<close>

lemma char_byte_of [simp]: "char_byte (byte_of c) = c"
proof -
  have "unat (byte_of c) = of_char c" using nat_of_char_less_256 [of c] by (simp add: byte_of_def unat_of_nat take_bit_eq_mod)
  then show ?thesis by (simp add: char_byte_def)
qed

lemma byte_of_char [simp]: "byte_of (char_byte b) = b"
proof -
  have "unat b < 256" using unsigned_less [of b, where 'a = nat] by simp
  then have "of_char (char_byte b) = unat b" by (simp add: char_byte_def)
  then show ?thesis by (simp add: byte_of_def)
qed

lemma char_byte_maps [simp]: "map char_byte (map byte_of cs) = cs" "map byte_of (map char_byte bs) = bs"
  by (simp_all add: o_def)

lemma char_of_zero [simp]: "char_of (0 :: nat) = NUL"
  by code_simp

lemma char_byte_zero [simp]: "char_byte b = NUL \<longleftrightarrow> b = 0"
proof
  assume "char_byte b = NUL"
  then have "byte_of (char_byte b) = byte_of NUL" by simp
  then show "b = 0" by (simp only: byte_of_char) (simp add: byte_of_def)
qed (simp add: char_byte_def)

lemma base64_text_nonzero: "int (length bs) \<le> ENCODE_MAX \<Longrightarrow> 0 \<notin> set (base64_text bs)"
proof -
  assume "int (length bs) \<le> ENCODE_MAX"
  moreover have "list_all (\<lambda>b. b \<noteq> 0) (pad_char # basis_64)" by code_simp
  ultimately show ?thesis using set_base64_text [of bs] by (auto simp: list_all_iff)
qed

lemma base64_encode_text:
  "int (length bs) \<le> ENCODE_MAX \<Longrightarrow> base64_encode bs (int (length bs)) = Some (base64_text bs @ [0])"
  by (simp add: base64_text_eq base64_encode_Some)

lemma base64_decode_text:
  "int (length bs) \<le> ENCODE_MAX \<Longrightarrow> base64_decode (base64_text bs) = Some (bs @ [0], int (length bs))"
  by (simp add: base64_text_eq base64_decode_enc)

text \<open>A result block with its terminator becomes an object.\<close>

lemma repr_adopt:
  assumes "heap_ok h"
  shows "repr (added h (map Some (xs @ [NUL]))) (sized (Some (lim h)) (length xs)) (lim h) xs"
  by (simp add: repr_def)

text \<open>Base64 through string objects: for every object of at most 1610612733 characters, whatever they are, \<open>encode64\<close> gives an object with the
  base64 text, and \<open>decode64\<close> of that object gives an object with the original characters, terminators inside
  included; both results live in blocks of their own and no other object is touched.\<close>

theorem string_base64_roundtrip:
  assumes "heap_ok h" "repr h s a xs" "len xs \<le> ENCODE_MAX"
  shows "\<exists>h1 e b h2 d c. method_encode64 h s = Inr (h1, e) \<and> repr h1 e b (map char_byte (base64_text (map byte_of xs))) \<and>
    method_decode64 h1 e = Inr (h2, d) \<and> repr h2 d c xs \<and> repr h2 s a xs \<and> distinct [a, b, c]"
proof -
  define t where "t = map char_byte (base64_text (map byte_of xs))"
  have nul: "NUL \<notin> set t" using base64_text_nonzero [of "map byte_of xs"] assms(3) by (auto simp: t_def eq_commute [of NUL])
  let ?h1 = "added h (map Some (t @ [NUL]))" and ?e = "sized (Some (lim h)) (length t)"
  let ?h2 = "added ?h1 (map Some (xs @ [NUL]))" and ?d = "sized (Some (Suc (lim h))) (length xs)"
  have e: "repr ?h1 ?e (lim h) t" using repr_adopt [OF assms(1)] .
  have enc: "string_encode64 xs = Inr (t @ [NUL])" 
    using base64_encode_text [of "map byte_of xs"] assms(3) by (simp add: string_encode64_def to_c_int_id t_def char_byte_def)
  have ctext: "h_text ?h1 (Some (lim h)) = Inr t" using repr_text(1) [OF e] nul by (simp add: c_str_id)
  then have "method_encode64 h s = Inr (?h1, ?e)"
    using string_bytes_eq [OF assms(2)] enc
    by (simp add: method_encode64_def string_ctor_adopt_def h_strlen_def)
  moreover have "string_decode64 t = Inr (xs @ [NUL], int (length xs))"
    using base64_decode_text [of "map byte_of xs"] assms(3) by (simp add: string_decode64_def t_def o_def)
  then have "method_decode64 ?h1 ?e = Inr (?h2, ?d)"
    using ctext by (simp add: method_decode64_def string_ctor_adopt_size_def)
  moreover have "repr ?h2 ?d (Suc (lim h)) xs" using repr_adopt [of ?h1 xs] assms(1) by simp
  moreover have "repr ?h2 s a xs" using repr_added_other assms by simp
  moreover have "distinct [a, lim h, Suc (lim h)]"
  proof -
    obtain ys where "blocks h a = Some (map Some xs @ Some NUL # ys)" using repr_block [OF assms(2)] by metis
    then have "\<not> lim h \<le> a" using assms(1) by (auto simp: heap_ok_def)
    then show ?thesis by simp
  qed
  ultimately show ?thesis using e unfolding t_def [symmetric] by blast
qed

definition sample_heap :: heap where
  "sample_heap = added h_empty [Some (CHR ''a''), Some NUL, Some (CHR ''b''), Some NUL]"

theorem string_base64_roundtrip_witness:
  "\<exists>h1 e h2 d c. method_encode64 sample_heap (sized (Some 0) 3) = Inr (h1, e) \<and> method_decode64 h1 e = Inr (h2, d) \<and>
     repr h2 d c [CHR ''a'', NUL, CHR ''b'']"
proof -
  have "heap_ok sample_heap" "repr sample_heap (sized (Some 0) 3) 0 [CHR ''a'', NUL, CHR ''b'']"
    by (simp add: sample_heap_def, simp add: sample_heap_def repr_def h_empty_def)
  from string_base64_roundtrip [OF this] show ?thesis by (simp, blast)
qed

end
