(* ===== verification/Utf8.thy ===== *)
theory Utf8
  imports Str_Edit
begin

text \<open>
  \<^verbatim>\<open>src/arken/utf8.cpp\<close>: UTF-8 restricted to the characters of ISO 8859-1 from U+00C0 on, whose lead byte is always \<open>0xC3\<close> (the
  \<open>-61\<close> of the code, where \<open>char\<close> is signed).

  The loops run until the terminator. One that skips the byte behind a lead byte can skip the terminator: the next test of
  the loop then reads outside the string. Except in \<open>upper\<close> and \<open>lower\<close> the indices are of type \<open>int\<close>: a string or a result that is too
  long for them is the fault \<open>Int_overflow\<close>.
\<close>

abbreviation byte_at :: "char \<Rightarrow> nat" where
  "byte_at c \<equiv> of_char c"

abbreviation lead :: char where
  "lead \<equiv> CHR 0xC3"

fun upper_loop :: "char list \<Rightarrow> outbuf \<Rightarrow> str_fault + outbuf" where
  "upper_loop [] b = Inr b"
| "upper_loop (c # r) b =
     (if c = lead \<and> 0xA1 \<le> byte_at (at_index r) \<and> byte_at (at_index r) \<le> 0xBD
      then rbind (put b c) (\<lambda>b1. rbind (put b1 (char_of (byte_at (at_index r) - 32))) (upper_loop (tl r)))
      else if 97 \<le> byte_at c \<and> byte_at c \<le> 122 then rbind (put b (char_of (byte_at c - 32))) (upper_loop r)
      else rbind (put b c) (upper_loop r))"

definition utf8_upper :: "char list \<Rightarrow> str_fault + char list" where
  "utf8_upper s = rbind (new_buf (len s + 1)) (\<lambda>b. rbind (upper_loop s b) close_buf)"

fun lower_loop :: "char list \<Rightarrow> outbuf \<Rightarrow> str_fault + outbuf" where
  "lower_loop [] b = Inr b"
| "lower_loop (c # r) b =
     (if c = lead \<and> 0x81 \<le> byte_at (at_index r) \<and> byte_at (at_index r) \<le> 0x9D
      then rbind (put b c) (\<lambda>b1. rbind (put b1 (char_of (byte_at (at_index r) + 32))) (lower_loop (tl r)))
      else if 65 \<le> byte_at c \<and> byte_at c \<le> 90 then rbind (put b (char_of (byte_at c + 32))) (lower_loop r)
      else rbind (put b c) (lower_loop r))"

definition utf8_lower :: "char list \<Rightarrow> str_fault + char list" where
  "utf8_lower s = rbind (new_buf (len s + 1)) (\<lambda>b. rbind (lower_loop s b) close_buf)"

text \<open>\<open>while( str[i] ) i++;\<close> with an \<open>int\<close>. The counters that such loops advance less often than \<open>i\<close> do not overflow
  before it.\<close>

definition scan_int :: "char list \<Rightarrow> str_fault + int" where
  "scan_int s = (if len s \<le> INT_MAX then Inr (len s) else Inl Int_overflow)"

text \<open>\<open>(string[i] & 0xc0) != 0x80\<close>\<close>

definition utf8_len :: "char list \<Rightarrow> str_fault + int" where
  "utf8_len s = rbind (scan_int s) (\<lambda>_. Inr (foldl (\<lambda>j c. if byte_at c AND 0xC0 \<noteq> 0x80 then j + 1 else j) 0 s))"

text \<open>The loop of \<open>sub\<close>: the byte positions of the two character positions.\<close>

function sub_loop :: "char list \<Rightarrow> int \<Rightarrow> int \<Rightarrow> int \<Rightarrow> int \<Rightarrow> int \<Rightarrow> int \<Rightarrow> str_fault + int \<times> int" where
  "sub_loop s p1 p2 i j v1 v2 =
     rbind (rd s i) (\<lambda>c.
       if c = NUL then Inr (v1, v2)
       else let w1 = (if j = p1 then i else v1);
                k = (if c = lead then i + 1 else i);
                w2 = (if j = p2 then k else v2)
            in sub_loop s p1 p2 (k + 1) (j + 1) w1 w2)"
  by pat_completeness auto

lemma rd_not_NUL: "rd s i = Inr c \<Longrightarrow> c \<noteq> NUL \<Longrightarrow> 0 \<le> i \<and> i < len s"
  by (auto simp: rd_def split: if_splits)

termination sub_loop
  by (relation "measure (\<lambda>(s, p1, p2, i, j, v1, v2). nat (len s - i))") (auto dest!: rd_not_NUL split: if_splits)

declare sub_loop.simps [simp del]

definition utf8_sub :: "char list \<Rightarrow> int \<Rightarrow> int \<Rightarrow> str_fault + char list" where
  "utf8_sub s p1 p2 =
     rbind (utf8_len s) (\<lambda>n.
      let q = (if p2 < 0 then n - 1 else p2);
          q = (if n < q then n - 1 else q)
      in rbind (sub_loop s p1 q 0 0 0 0) (\<lambda>(v1, v2).
         let size1 = max (v2 - v1 + 1) 0
         in rbind (new_buf (size1 + 1)) (\<lambda>b.
            rbind (fold_res (\<lambda>b a. rbind (rd s (v1 + a)) (put b)) b [0..size1 - 1]) close_buf)))"

definition utf8_mid :: "char list \<Rightarrow> int \<Rightarrow> int \<Rightarrow> str_fault + char list" where
  "utf8_mid s p1 p2 =
     rbind (if p2 < 0 then rbind (utf8_len s) (\<lambda>n. Inr (n - 1)) else if int_range (p1 + p2) then Inr (p1 + p2) else Inl Int_overflow)
       (utf8_sub s p1)"

text \<open>\<open>res[j] = str[i] + 64\<close>, converted to \<open>char\<close>\<close>

fun decode_loop :: "char list \<Rightarrow> outbuf \<Rightarrow> str_fault + outbuf" where
  "decode_loop [] b = Inr b"
| "decode_loop (c # r) b =
     (if c = lead
      then rbind (put b (char_of (byte_at (at_index r) + 64))) (\<lambda>b1. if r = [] then Inl Read_bounds else decode_loop (tl r) b1)
      else rbind (put b c) (decode_loop r))"

definition utf8_decode :: "char list \<Rightarrow> str_fault + char list" where
  "utf8_decode s =
     rbind (scan_int s) (\<lambda>i.
     rbind (new_buf (i - len (filter (\<lambda>c. c = lead) s) + 1)) (\<lambda>b. rbind (decode_loop s b) close_buf))"

definition high :: "char \<Rightarrow> bool" where
  "high c \<longleftrightarrow> schar c < 0"

text \<open>\<open>j\<close> stays below \<open>(i+c)+1\<close>, which must be an \<open>int\<close>.\<close>

definition utf8_encode :: "char list \<Rightarrow> str_fault + char list" where
  "utf8_encode s =
     rbind (scan_int s) (\<lambda>i.
     let c = len (filter high s)
     in if \<not> int_range (i + c) \<or> \<not> int_range (i + c + 1) then Inl Int_overflow
        else rbind (new_buf (i + c + 1)) (\<lambda>b.
     rbind (fold_res (\<lambda>b c. if high c then rbind (put b lead) (\<lambda>b1. put b1 (char_of (byte_at c - 64))) else put b c) b s) close_buf))"

fun sanitize_loop :: "char list \<Rightarrow> outbuf \<Rightarrow> str_fault + outbuf" where
  "sanitize_loop [] b = Inr b"
| "sanitize_loop (c # r) b =
     (if c = lead
      then if high (at_index r) \<and> at_index r \<noteq> lead
           then rbind (put b c) (\<lambda>b1. rbind (put b1 (at_index r)) (sanitize_loop (tl r)))
           else sanitize_loop r b
      else if 0 < schar c then rbind (put b c) (sanitize_loop r) else sanitize_loop r b)"

definition utf8_sanitize :: "char list \<Rightarrow> str_fault + char list" where
  "utf8_sanitize s = rbind (new_buf (len s + 1)) (\<lambda>b. rbind (scan_int s) (\<lambda>_. rbind (sanitize_loop s b) close_buf))"

text \<open>The letter without its accent, by the second byte.\<close>

definition asc_letter :: "nat \<Rightarrow> char option" where
  "asc_letter d =
     (if 0x80 \<le> d \<and> d \<le> 0x85 then Some (CHR ''A'')
      else if d = 0x87 then Some (CHR ''C'')
      else if 0x88 \<le> d \<and> d \<le> 0x8B then Some (CHR ''E'')
      else if 0x8C \<le> d \<and> d \<le> 0x8F then Some (CHR ''I'')
      else if d = 0x90 then Some (CHR ''D'')
      else if d = 0x91 then Some (CHR ''N'')
      else if 0x92 \<le> d \<and> d \<le> 0x96 then Some (CHR ''O'')
      else if d = 0x97 then Some (CHR ''x'')
      else if d = 0x98 then Some (CHR ''O'')
      else if 0x99 \<le> d \<and> d \<le> 0x9C then Some (CHR ''U'')
      else if d = 0x9D then Some (CHR ''Y'')
      else if 0xA0 \<le> d \<and> d \<le> 0xA5 then Some (CHR ''a'')
      else if d = 0xA7 then Some (CHR ''c'')
      else if 0xA8 \<le> d \<and> d \<le> 0xAB then Some (CHR ''e'')
      else if 0xAC \<le> d \<and> d \<le> 0xAF then Some (CHR ''i'')
      else if d = 0xB1 then Some (CHR ''n'')
      else if 0xB2 \<le> d \<and> d \<le> 0xB6 then Some (CHR ''o'')
      else if d = 0xB8 then Some (CHR ''o'')
      else if 0xB9 \<le> d \<and> d \<le> 0xBC then Some (CHR ''u'')
      else if d = 0xBD \<or> d = 0xBF then Some (CHR ''y'')
      else None)"

fun asc_loop :: "char \<Rightarrow> char list \<Rightarrow> outbuf \<Rightarrow> str_fault + outbuf" where
  "asc_loop chr [] b = Inr b"
| "asc_loop chr (c # r) b =
     (if c = lead
      then rbind (case asc_letter (byte_at (at_index r)) of
               Some a \<Rightarrow> put b a
             | None \<Rightarrow> if 0 < schar chr then put b chr else Inr b) (\<lambda>b1.
           if r = [] then Inl Read_bounds else asc_loop chr (tl r) b1)
      else rbind (put b c) (asc_loop chr r))"

definition utf8_asc :: "char list \<Rightarrow> char \<Rightarrow> str_fault + char list" where
  "utf8_asc s chr =
     rbind (scan_int s) (\<lambda>i.
     rbind (new_buf (i - len (filter (\<lambda>c. c = lead) s) + 1)) (\<lambda>b. rbind (asc_loop chr s b) close_buf))"


subsection \<open>Encoding and decoding\<close>

lemma high_code: "high c \<longleftrightarrow> 128 \<le> byte_at c"
proof -
  have "\<not> 256 \<le> byte_at c" using nat_of_char_less_256 [of c] by linarith
  then show ?thesis by (auto simp: high_def schar_code)
qed

definition encoded :: "char \<Rightarrow> char list" where
  "encoded c = (if high c then [lead, char_of (byte_at c - 64)] else [c])"

abbreviation encode_text :: "char list \<Rightarrow> char list" where
  "encode_text s \<equiv> concat (map encoded s)"

text \<open>The second byte is below the lead byte and gives the character back.\<close>

lemma second_byte:
  assumes "high c"
  shows "byte_at (char_of (byte_at c - 64)) = byte_at c - 64" "char_of (byte_at c - 64) \<noteq> lead" "char_of (byte_at c - 64) \<noteq> NUL"
    "char_of (byte_at (char_of (byte_at c - 64)) + 64) = c"
proof -
  have c: "128 \<le> byte_at c" "byte_at c < 256" using assms by (simp_all add: high_code)
  then have b: "byte_at c - 64 < 256" "byte_at c - 64 < 192" "64 \<le> byte_at c - 64" by linarith+
  from b(1) show e: "byte_at (char_of (byte_at c - 64)) = byte_at c - 64" by simp
  show "char_of (byte_at c - 64) \<noteq> lead"
  proof
    assume "char_of (byte_at c - 64) = lead"
    then have "byte_at c - 64 = byte_at lead" using e by simp
    with b(2) show False by simp
  qed
  show "char_of (byte_at c - 64) \<noteq> NUL"
  proof
    assume "char_of (byte_at c - 64) = NUL"
    then have "byte_at c - 64 = byte_at NUL" using e by simp
    with b(3) show False by simp
  qed
  show "char_of (byte_at (char_of (byte_at c - 64)) + 64) = c" unfolding e using c(1) by simp
qed

lemma encode_size:
  "len (encode_text s) = len s + len (filter high s)" "len (filter (\<lambda>c. c = lead) (encode_text s)) = len (filter high s)"
proof (induction s)
  case (Cons c s)
  { case 1 with Cons show ?case by (simp add: encoded_def) }
  { case 2
    have "high lead" by (simp add: high_code)
    with Cons show ?case using second_byte(2) [of c] by (auto simp: encoded_def) }
qed simp_all

lemma decode_loop_encoded: "decode_loop (encode_text s) b = puts b s"
proof (induction s arbitrary: b)
  case (Cons c s)
  have "high lead" by (simp add: high_code)
  with Cons second_byte(4) [of c] show ?case by (auto simp: encoded_def at_index_def cong: rbind_cong)
qed simp

lemma scan_int_eq: "len s \<le> INT_MAX \<Longrightarrow> scan_int s = Inr (len s)"
  by (simp add: scan_int_def)

lemma utf8_encode_eq:
  assumes "NUL \<notin> set s" "len (encode_text s) < INT_MAX"
  shows "utf8_encode s = Inr (encode_text s)"
proof -
  have "fold_res (\<lambda>b c. if high c then rbind (put b lead) (\<lambda>b1. put b1 (char_of (byte_at c - 64))) else put b c) b s =
      puts b (encode_text s)" for b
    unfolding fold_puts [symmetric] by (intro fold_res_cong refl) (simp add: encoded_def rbind_def split: sum.splits)
  moreover have "NUL \<notin> set (encode_text s)" using assms second_byte(3) by (fastforce simp: encoded_def split: if_splits)
  ultimately show ?thesis
    using fill_new [of "encode_text s" "len s + len (filter high s) + 1"] assms(2)
    by (simp add: utf8_encode_def encode_size scan_int_eq int_range_def)
qed

text \<open>A longer result overflows.\<close>

lemma utf8_encode_overflow: "INT_MAX \<le> len (encode_text s) \<Longrightarrow> utf8_encode s = Inl Int_overflow"
  by (auto simp: utf8_encode_def encode_size scan_int_def int_range_def Let_def)

text \<open>The texts that the functions are made for: ASCII and pairs of the lead byte and a continuation byte.\<close>

fun latin :: "char list \<Rightarrow> bool" where
  "latin [] \<longleftrightarrow> True"
| "latin (c # r) \<longleftrightarrow>
     (if high c then c = lead \<and> (case r of [] \<Rightarrow> False | d # r1 \<Rightarrow> 0x80 \<le> byte_at d \<and> byte_at d \<le> 0xBF \<and> latin r1)
      else c \<noteq> NUL \<and> latin r)"

lemma latin_encoded: "NUL \<notin> set s \<Longrightarrow> \<forall>c\<in>set s. high c \<longrightarrow> 0xC0 \<le> byte_at c \<Longrightarrow> latin (encode_text s)"
proof (induction s)
  case (Cons c s)
  have "high lead" by (simp add: high_code)
  moreover have "byte_at c - 64 \<le> 191" using nat_of_char_less_256 [of c] by linarith
  ultimately show ?case using Cons second_byte(1) [of c] by (auto simp: encoded_def)
qed simp

lemma continuation_byte: "byte_at c AND 0xC0 = 0x80 \<longleftrightarrow> 0x80 \<le> byte_at c \<and> byte_at c \<le> 0xBF"
proof -
  have "(0xC0 :: nat) = push_bit 6 (mask 2)" by (simp add: mask_eq_exp_minus_1 push_bit_eq_mult)
  moreover have "x AND push_bit 6 (mask 2) = push_bit 6 (take_bit 2 (drop_bit 6 x))" for x :: nat
    by (rule bit_eqI) (auto simp: bit_simps)
  ultimately have "byte_at c AND 0xC0 = byte_at c div 64 mod 4 * 64"
    by (simp only:) (simp add: push_bit_eq_mult take_bit_eq_mod drop_bit_eq_div)
  moreover have "byte_at c div 64 < 4" by (simp add: less_mult_imp_div_less)
  ultimately have "byte_at c AND 0xC0 = 0x80 \<longleftrightarrow> byte_at c div 64 = 2" by auto
  also have "\<dots> \<longleftrightarrow> 0x80 \<le> byte_at c \<and> byte_at c \<le> 0xBF" by linarith
  finally show ?thesis .
qed

lemma utf8_len_filter:
  "len s \<le> INT_MAX \<Longrightarrow> utf8_len s = Inr (len (filter (\<lambda>c. \<not> (0x80 \<le> byte_at c \<and> byte_at c \<le> 0xBF)) s))"
proof -
  have "foldl (\<lambda>j c. if byte_at c AND 0xC0 \<noteq> 0x80 then j + 1 else j) k s =
      k + len (filter (\<lambda>c. \<not> (0x80 \<le> byte_at c \<and> byte_at c \<le> 0xBF)) s)" for k
    by (induction s arbitrary: k) (auto simp: continuation_byte)
  then show "len s \<le> INT_MAX \<Longrightarrow> ?thesis" by (simp add: utf8_len_def scan_int_eq)
qed

lemma sanitize_latin: "latin t \<Longrightarrow> sanitize_loop t b = puts b t"
proof (induction "length t" arbitrary: t b rule: less_induct)
  case less
  show ?case
  proof (cases t)
    case (Cons c r)
    show ?thesis
    proof (cases "high c")
      case True
      with less.prems Cons obtain d r1 where r: "c = lead" "r = d # r1" "128 \<le> byte_at d" "byte_at d \<le> 191" "latin r1"
        by (auto split: list.splits)
      have "d \<noteq> lead" using r(4) by auto
      with r Cons less.hyps [of r1] show ?thesis by (simp add: at_index_def high_code cong: rbind_cong)
    next
      case False
      with less.prems Cons have r: "c \<noteq> NUL" "latin r" by auto
      have "c \<noteq> lead" using False by (auto simp: high_code)
      moreover have "0 < schar c" using False r(1) of_char_eq_iff [of c NUL] by (auto simp: high_code schar_code)
      ultimately show ?thesis using r Cons less.hyps [of r] by (simp cong: rbind_cong)
    qed
  qed simp
qed

lemma latin_length: "\<forall>c\<in>set s. high c \<longrightarrow> 0xC0 \<le> byte_at c \<Longrightarrow>
    len (filter (\<lambda>c. \<not> (0x80 \<le> byte_at c \<and> byte_at c \<le> 0xBF)) (encode_text s)) = len s"
proof (induction s)
  case (Cons c s)
  have "byte_at c - 64 \<le> 191" using nat_of_char_less_256 [of c] by linarith
  moreover from this have "(byte_at c - 64) mod 256 = byte_at c - 64" by simp
  ultimately show ?case using Cons by (auto simp: encoded_def high_code)
qed simp

text \<open>C30: Encoding text in ISO 8859-1 and decoding it again gives the text back, for all bytes, with exact allocations on both
  sides, provided that the encoded text has less than 2147483647 bytes (the text and its high bytes counted twice; the
  indices are of type \<open>int\<close>). For text without the bytes from \<open>0x80\<close> to \<open>0xBF\<close> the encoding is well-formed UTF-8 with as many
  characters, and \<open>sanitize\<close> leaves it as it is.\<close>

theorem utf8_roundtrip:
  assumes "NUL \<notin> set s" "len s + len (filter high s) < 2147483647"
  shows "\<exists>t. utf8_encode s = Inr t \<and> utf8_decode t = Inr s \<and>
    ((\<forall>c\<in>set s. high c \<longrightarrow> 0xC0 \<le> byte_at c) \<longrightarrow> latin t \<and> utf8_len t = Inr (len s) \<and> utf8_sanitize t = Inr t)"
proof (intro exI conjI impI)
  let ?t = "encode_text s"
  have size: "len ?t < INT_MAX" using assms(2) by (simp add: encode_size)
  show "utf8_encode s = Inr ?t" using assms(1) size by (rule utf8_encode_eq)
  show "utf8_decode ?t = Inr s"
    using fill_new [of s "len s + 1"] assms by (simp add: utf8_decode_def scan_int_def encode_size decode_loop_encoded)
  assume h: "\<forall>c\<in>set s. high c \<longrightarrow> 0xC0 \<le> byte_at c"
  with assms(1) show l: "latin ?t" by (intro latin_encoded)
  have "NUL \<notin> set ?t" using assms second_byte(3) by (fastforce simp: encoded_def split: if_splits)
  then show "utf8_sanitize ?t = Inr ?t"
    using fill_new [of ?t "len ?t + 1"] size by (simp add: utf8_sanitize_def sanitize_latin [OF l] scan_int_def)
  show "utf8_len ?t = Inr (len s)" using size latin_length [OF h] by (simp add: utf8_len_filter)
qed

theorem utf8_roundtrip_witness:
  "\<exists>t. utf8_encode [CHR ''a'', CHR 0xE9] = Inr t \<and> utf8_decode t = Inr [CHR ''a'', CHR 0xE9] \<and> utf8_len t = Inr 2"
proof -
  have "NUL \<notin> set [CHR ''a'', CHR 0xE9]" "\<forall>c\<in>set [CHR ''a'', CHR 0xE9]. high c \<longrightarrow> 0xC0 \<le> byte_at c" by (simp_all add: high_code)
  with utf8_roundtrip [of "[CHR ''a'', CHR 0xE9]"] show ?thesis by (auto simp: high_code)
qed


subsection \<open>Limits\<close>

text \<open>A lead byte at the end makes \<open>decode\<close> and \<open>asc\<close> read behind the terminator; two lead bytes make the result too small.\<close>

lemma utf8_lead_at_end: "utf8_decode [lead] = Inl Read_bounds" "utf8_asc [lead] NUL = Inl Read_bounds" "utf8_decode [lead, lead] = Inl Write_bounds"
  by code_simp+

text \<open>The division sign is the upper case of the multiplication sign, and the first letter of each range is left out.\<close>

lemma utf8_case_limits:
  "utf8_upper [lead, CHR 0xB7] = Inr [lead, CHR 0x97]" "utf8_lower [lead, CHR 0x97] = Inr [lead, CHR 0xB7]"
  "utf8_upper [lead, CHR 0xA0] = Inr [lead, CHR 0xA0]" "utf8_lower [lead, CHR 0x80] = Inr [lead, CHR 0x80]"
  "utf8_upper [lead, CHR 0xA1] = Inr [lead, CHR 0x81]"
  by code_simp+

text \<open>Bytes from \<open>0x80\<close> to \<open>0xBF\<close> are encoded with a wrong second byte.\<close>

lemma utf8_encode_low: "utf8_encode [CHR 0xA9] = Inr [lead, CHR ''i'']"
  by code_simp

lemma utf8_sub_example: "utf8_sub [CHR ''a'', lead, CHR 0xA9, CHR ''b'', CHR ''c''] 1 2 = Inr [lead, CHR 0xA9, CHR ''b'']"
  by code_simp

end
