(* ===== verification/Cache.thy ===== *)
theory Cache
  imports Cstr "HOL-Library.AList"
begin

text \<open>
  The process-wide cache of \<^verbatim>\<open>src/arken/cache.cpp\<close>: values with a time of expiry under keys.

  The hash map is an association list with distinct keys. Every operation takes the mutex for its whole body, so that
  operations of several threads are sequences of whole operations. The clock is an argument: \<open>os::microtime()\<close> is a
  number of microseconds divided by \<open>10^6\<close>, and the model computes with the microseconds. The time of expiry is an
  \<open>int\<close> of whole seconds; its conversion from the clock is undefined outside the range of \<open>int\<close>.
\<close>

record cache_data =
  m_value :: "char list"
  m_expires :: int

type_synonym cache = "(char list \<times> cache_data) list"

text \<open>\<open>cache::data::data\<close>; \<open>now\<close> is the clock in microseconds.\<close>

definition new_data :: "int \<Rightarrow> char list \<Rightarrow> int \<Rightarrow> str_fault + cache_data" where
  "new_data now value1 expires =
     (let t = now div 1000000 + (if expires < 0 then 60 else expires)
      in if t < - 2147483648 \<or> 2147483647 < t then Inl Int_overflow
         else Inr \<lparr>m_value = value1, m_expires = t\<rparr>)"

definition isExpires :: "int \<Rightarrow> cache_data \<Rightarrow> bool" where
  "isExpires now d = (if 0 < m_expires d then m_expires d * 1000000 \<le> now else False)"

definition cache_value :: "int \<Rightarrow> char list \<Rightarrow> cache \<Rightarrow> char list option \<times> cache" where
  "cache_value now key c =
     (case map_of c key of
        None \<Rightarrow> (None, c)
      | Some d \<Rightarrow> if isExpires now d then (None, AList.delete key c) else (Some (m_value d), c))"

definition cache_insert :: "int \<Rightarrow> char list \<Rightarrow> char list \<Rightarrow> int \<Rightarrow> cache \<Rightarrow> str_fault + cache" where
  "cache_insert now key value1 expires c = rbind (new_data now value1 expires) (\<lambda>d. Inr (AList.update key d c))"

definition cache_remove :: "char list \<Rightarrow> cache \<Rightarrow> cache" where
  "cache_remove key c = (if map_of c key \<noteq> None then AList.delete key c else c)"

definition cache_size :: "cache \<Rightarrow> int" where
  "cache_size c = foldl (\<lambda>result e. result + len (c_str (m_value (snd e)))) 0 c"

text \<open>The expired keys are collected first, then removed.\<close>

definition cache_gc :: "int \<Rightarrow> cache \<Rightarrow> cache" where
  "cache_gc now c =
     (let keys = foldl (\<lambda>ks e. if isExpires now (snd e) then ks @ [fst e] else ks) [] c
      in foldl (\<lambda>c key. AList.delete key c) c keys)"


subsection \<open>The entries that are visible\<close>

definition cache_ok :: "cache \<Rightarrow> bool" where
  "cache_ok c \<longleftrightarrow> distinct (map fst c)"

definition live :: "int \<Rightarrow> cache \<Rightarrow> char list \<Rightarrow> char list option" where
  "live now c key = (case map_of c key of None \<Rightarrow> None | Some d \<Rightarrow> if isExpires now d then None else Some (m_value d))"

lemma gc_keys: "foldl (\<lambda>ks e. if P (snd e) then ks @ [fst e] else ks) ks c = ks @ map fst (filter (\<lambda>e. P (snd e)) c)"
  by (induction c arbitrary: ks) auto

lemma foldl_delete: "map_of (foldl (\<lambda>c key. AList.delete key c) c ks) = (\<lambda>k. if k \<in> set ks then None else map_of c k)"
proof (induction ks arbitrary: c)
  case (Cons k ks)
  then show ?case by (auto simp: AList.delete_conv')
qed simp

lemma foldl_delete_ok: "cache_ok c \<Longrightarrow> cache_ok (foldl (\<lambda>c key. AList.delete key c) c ks)"
  by (induction ks arbitrary: c) (simp_all add: cache_ok_def AList.distinct_delete)

lemma map_of_gc:
  assumes "cache_ok c"
  shows "map_of (cache_gc now c) = (\<lambda>k. case map_of c k of None \<Rightarrow> None | Some d \<Rightarrow> if isExpires now d then None else Some d)"
proof
  fix k
  have "k \<in> fst ` set (filter (\<lambda>e. isExpires now (snd e)) c) \<longleftrightarrow> (\<exists>d. map_of c k = Some d \<and> isExpires now d)"
    using assms by (force simp: cache_ok_def map_of_eq_Some_iff)
  then show "map_of (cache_gc now c) k = (case map_of c k of None \<Rightarrow> None | Some d \<Rightarrow> if isExpires now d then None else Some d)"
    by (auto simp: cache_gc_def gc_keys foldl_delete split: option.splits)
qed

text \<open>The interface of a store with entries that expire, as its users see it: \<open>view\<close> is the mapping at a time.\<close>

locale expiring_store =
  fixes ok :: "'c \<Rightarrow> bool" and view :: "int \<Rightarrow> 'c \<Rightarrow> 'k \<Rightarrow> 'v option"
    and get :: "int \<Rightarrow> 'k \<Rightarrow> 'c \<Rightarrow> 'v option \<times> 'c" and remove :: "'k \<Rightarrow> 'c \<Rightarrow> 'c" and gc :: "int \<Rightarrow> 'c \<Rightarrow> 'c"
  assumes get: "ok c \<Longrightarrow> fst (get now k c) = view now c k" "ok c \<Longrightarrow> ok (snd (get now k c))"
    and get_view: "ok c \<Longrightarrow> now \<le> later \<Longrightarrow> view later (snd (get now k c)) = view later c"
    and remove: "ok c \<Longrightarrow> ok (remove k c)" "ok c \<Longrightarrow> view now (remove k c) = (view now c)(k := None)"
    and gc: "ok c \<Longrightarrow> ok (gc now c)" "ok c \<Longrightarrow> now \<le> later \<Longrightarrow> view later (gc now c) = view later c"
    and expiry: "now \<le> later \<Longrightarrow> view now c k = None \<Longrightarrow> view later c k = None"
begin

text \<open>Looking up, collecting and removing other keys at any time before do not change what is found.\<close>

lemma kept:
  assumes "ok c" "now \<le> later"
  shows "view later (snd (get now k' c)) k = view later c k" "view later (gc now c) k = view later c k"
    "k' \<noteq> k \<Longrightarrow> view later (remove k' c) k = view later c k"
  using assms get_view gc remove by simp_all

end

lemma isExpires_mono: "now \<le> later \<Longrightarrow> isExpires now d \<Longrightarrow> isExpires later d"
  by (auto simp: isExpires_def split: if_splits)

lemma live_delete: "live now (AList.delete k c) = (live now c)(k := None)"
  by (rule ext) (simp add: live_def AList.delete_conv')

interpretation arken_cache: expiring_store cache_ok live cache_value cache_remove cache_gc
proof
  fix c now later k
  assume ok: "cache_ok c"
  show "fst (cache_value now k c) = live now c k" by (simp add: cache_value_def live_def split: option.splits)
  show "cache_ok (snd (cache_value now k c))" "cache_ok (cache_remove k c)" "cache_ok (cache_gc now c)"
    using ok foldl_delete_ok [OF ok]
    by (auto simp: cache_value_def cache_remove_def cache_gc_def cache_ok_def AList.distinct_delete split: option.splits)
  show "live now (cache_remove k c) = (live now c)(k := None)"
    by (auto simp: cache_remove_def live_def AList.delete_conv' fun_eq_iff)
  assume le: "now \<le> (later :: int)"
  show "live later (snd (cache_value now k c)) = live later c"
    using isExpires_mono [OF le] by (auto simp: cache_value_def live_delete fun_eq_iff split: option.splits) (simp add: live_def)
  show "live later (cache_gc now c) = live later c"
    using isExpires_mono [OF le] by (auto simp: live_def map_of_gc [OF ok] fun_eq_iff split: option.splits)
qed (auto simp: live_def split: option.splits if_splits dest: isExpires_mono)

text \<open>The second at which a value inserted at a time expires.\<close>

definition expiry_time :: "int \<Rightarrow> int \<Rightarrow> int" where
  "expiry_time now expires = now div 1000000 + (if expires < 0 then 60 else expires)"

lemma cache_insert_live:
  assumes "cache_ok c" "0 \<le> now" "cache_insert now key v expires c = Inr c'"
  shows "cache_ok c'" "live later c' k =
    (if k = key then if 0 < expiry_time now expires \<and> expiry_time now expires * 1000000 \<le> later then None else Some v
     else live later c k)"
proof -
  from assms(3) have c': "c' = AList.update key \<lparr>m_value = v, m_expires = expiry_time now expires\<rparr> c"
    by (auto simp: cache_insert_def new_data_def expiry_time_def Let_def rbind_eq_Inr split: if_splits)
  show "cache_ok c'" using assms(1) by (simp add: c' cache_ok_def AList.distinct_update)
  show "live later c' k =
    (if k = key then if 0 < expiry_time now expires \<and> expiry_time now expires * 1000000 \<le> later then None else Some v
     else live later c k)"
    by (auto simp: c' live_def AList.update_conv' isExpires_def)
qed

text \<open>Sequences of operations. \<open>quiet\<close>: the operation happens up to a time and does not store or remove under a key.\<close>

datatype cache_op =
    Lookup int "char list"
  | Collect int
  | Remove "char list"
  | Insert int "char list" "char list" int

fun cache_do :: "cache \<Rightarrow> cache_op \<Rightarrow> str_fault + cache" where
  "cache_do c (Lookup now key) = Inr (snd (cache_value now key c))"
| "cache_do c (Collect now) = Inr (cache_gc now c)"
| "cache_do c (Remove key) = Inr (cache_remove key c)"
| "cache_do c (Insert now key v expires) = cache_insert now key v expires c"

fun quiet :: "int \<Rightarrow> char list \<Rightarrow> cache_op \<Rightarrow> bool" where
  "quiet t k (Lookup now key) \<longleftrightarrow> now \<le> t"
| "quiet t k (Collect now) \<longleftrightarrow> now \<le> t"
| "quiet t k (Remove key) \<longleftrightarrow> key \<noteq> k"
| "quiet t k (Insert now key v expires) \<longleftrightarrow> key \<noteq> k"

lemma cache_do_kept:
  assumes "cache_ok c" "cache_do c x = Inr c'"
  shows "cache_ok c' \<and> (quiet t k x \<longrightarrow> live t c' k = live t c k)"
proof (cases x)
  case (Insert now key v expires)
  with assms(2) obtain d where d: "c' = AList.update key d c" by (auto simp: cache_insert_def rbind_eq_Inr)
  then show ?thesis using assms(1) Insert by (simp add: cache_ok_def AList.distinct_update live_def AList.update_conv')
qed (use assms arken_cache.get(2) arken_cache.gc(1) arken_cache.remove arken_cache.kept in auto)

lemma cache_run_kept:
  "cache_ok c \<Longrightarrow> fold_res cache_do c xs = Inr c' \<Longrightarrow> list_all (quiet t k) xs \<Longrightarrow> cache_ok c' \<and> live t c' k = live t c k"
proof (induction xs arbitrary: c)
  case (Cons x xs)
  from Cons.prems(2) obtain c1 where c1: "cache_do c x = Inr c1" "fold_res cache_do c1 xs = Inr c'"
    by (auto simp: rbind_eq_Inr)
  with cache_do_kept [OF Cons.prems(1) c1(1), of t k] Cons.IH [of c1] Cons.prems(3) show ?case by simp
qed simp

text \<open>C31: The cache: after an insertion, a value is found under its key exactly until its second of expiry (60 seconds later when no
  time is given), whatever sequence of lookups, collections, removals and insertions comes in between, as long as
  none of them removes or inserts under the key that is looked up, and lookups and collections happen no later. An entry under
  another key is found as before. The keys stay distinct.\<close>

theorem cache_correct:
  assumes "cache_ok c" "0 \<le> now" "cache_insert now key v expires c = Inr c'"
    and "fold_res cache_do c' xs = Inr c''" "list_all (quiet t k) xs"
  shows "cache_ok c'' \<and>
    fst (cache_value t k c'') =
      (if k = key then if 0 < expiry_time now expires \<and> expiry_time now expires * 1000000 \<le> t then None else Some v
       else live t c k)"
proof -
  note c' = cache_insert_live [OF assms(1-3)]
  from cache_run_kept [OF c'(1) assms(4,5)] have r: "cache_ok c''" "live t c'' k = live t c' k" by auto
  with arken_cache.get(1) [OF r(1), of t k] c'(2) [of t k] show ?thesis by simp
qed

theorem cache_correct_witness:
  "\<exists>c' c''. cache_insert 5000000 ''k'' ''v'' 10 [] = Inr c' \<and>
     fold_res cache_do c' [Collect 6000000, Lookup 6000001 ''x'', Insert 6000002 ''x'' ''y'' 3, Lookup 9000000 ''k'', Collect 10000000] = Inr c'' \<and>
     fst (cache_value 14000000 ''k'' c'') = Some ''v''"
proof -
  let ?xs = "[Collect 6000000, Lookup 6000001 ''x'', Insert 6000002 ''x'' ''y'' 3, Lookup 9000000 ''k'', Collect 10000000]"
  obtain c' where c': "cache_insert 5000000 ''k'' ''v'' 10 [] = Inr c'" by (simp add: cache_insert_def new_data_def)
  moreover obtain c'' where c'': "fold_res cache_do c' ?xs = Inr c''" by (simp add: cache_insert_def new_data_def)
  moreover have "cache_ok []" by (simp add: cache_ok_def)
  ultimately show ?thesis using cache_correct [OF \<open>cache_ok []\<close> _ c' c'', of 14000000 "''k''"] by (simp add: expiry_time_def)
qed

text \<open>After the last second of an \<open>int\<close>, nothing can be inserted.\<close>

lemma cache_insert_2038: "cache_insert 2147483648000000 k v 0 c = Inl Int_overflow"
  by (simp add: cache_insert_def new_data_def)

end
