(* ===== verification/Task_Runner.thy ===== *)
theory Task_Runner
  imports Prelude "HOL-Library.Multiset"
begin

text \<open>
  The part that the five task classes of \<open>src/arken/concurrent/task\<close> have in common. A class keeps
  its nodes (the tasks) in static containers behind a static mutex; \<open>start\<close> pushes a node and, when
  fewer runners than \<open>max\<close> are active, hands a new runner object to \<open>core::start\<close>; the runner's \<open>run\<close>
  is a loop of \<open>dequeue\<close>, \<open>node.run\<close> and the removal from \<open>running()\<close>, and ends at the first node that is
  false.

  \<^item> \<open>node\<close> is the node object with the fields of \<open>base\<close>; the clock and \<open>os::uuid\<close> are arguments of the
    constructors. The Lua code that \<open>node.run\<close> calls is not modelled: it is the time that a runner spends at
    \<open>InRun\<close>. The cell \<open>m_finished\<close> that all copies of a node share is the list \<open>finished\<close>, in the order in
    which the cells are set.
  \<^item> \<open>task_class\<close> collects the operations of one class, each the body of one critical section;
    \<open>runner_next\<close> is the step that runner \<open>i\<close> takes next and \<open>task_step\<close> the interleaving of all runners
    with calls of \<open>start\<close>. Which runner moves is not determined: \<open>core\<close> runs each on its own thread.
  \<^item> The locale \<open>task_queue\<close> states what a class promises: an invariant between the containers and the
    program counters of the runners, what is queued, what \<open>running()\<close> holds. \<open>task_queue_live\<close> adds that queued
    nodes always have a runner that will look at the queue again. The consequences for all interleavings are
    proved once, in the locales, and each class is an interpretation.
\<close>

subsection \<open>Counters\<close>

lemma unat_inc: "a < b \<Longrightarrow> unat (a + 1) = unat a + 1" for a b :: "'a::len word"
  by (metis Suc_eq_plus1 add.commute add.inverse_unique unatSuc word_order.extremum_strict)

lemma unat_of_nat_small: "k < 2 ^ LENGTH('a) \<Longrightarrow> unat (of_nat k :: 'a::len word) = k"
  by (simp add: unat_of_nat)

lemma unat_dec: "0 < unat a \<Longrightarrow> unat (a - 1) = unat a - 1" for a :: "'a::len word"
  by (metis unat_gt_0 unat_minus_one)


subsection \<open>Nodes\<close>

record node =
  n_uuid :: string
  n_fileName :: string
  n_params :: string
  n_name :: string
  n_priority :: int
  n_release :: bool
  n_microtime :: int

text \<open>\<open>m_microtime\<close> is a \<open>double\<close> that the code only compares; the model counts the ticks of the clock.\<close>

definition empty_node :: node where
  "empty_node = \<lparr>n_uuid = [], n_fileName = [], n_params = [], n_name = [], n_priority = 0, n_release = False,
     n_microtime = 0\<rparr>"

definition node_bool :: "node \<Rightarrow> bool" where
  "node_bool n \<longleftrightarrow> 0 < n_microtime n"

lemma node_bool_empty [simp]: "\<not> node_bool empty_node"
  by (simp add: node_bool_def empty_node_def)

text \<open>The arguments of \<open>start\<close>, \<open>emplace\<close> and \<open>place\<close>.\<close>

record task_args =
  a_fileName :: string
  a_params :: string
  a_name :: string
  a_priority :: int
  a_release :: bool

text \<open>The containers \<open>unordered_map<string, T>\<close>: \<open>operator[]\<close> stores the default value at a missing key.\<close>

definition map_at :: "('k \<rightharpoonup> 'v) \<Rightarrow> 'v \<Rightarrow> 'k \<Rightarrow> 'v" where
  "map_at m d k = (case m k of None \<Rightarrow> d | Some v \<Rightarrow> v)"

definition map_touch :: "('k \<rightharpoonup> 'v) \<Rightarrow> 'v \<Rightarrow> 'k \<Rightarrow> ('k \<rightharpoonup> 'v)" where
  "map_touch m d k = m(k \<mapsto> map_at m d k)"

lemma map_at_upd [simp]: "map_at (m(k \<mapsto> v)) d k' = (if k' = k then v else map_at m d k')"
  by (simp add: map_at_def)

lemma map_at_del [simp]: "map_at (m(k := None)) d k' = (if k' = k then d else map_at m d k')"
  by (simp add: map_at_def)

lemma map_at_empty [simp]: "map_at Map.empty d k = d"
  by (simp add: map_at_def)

lemma map_at_touch [simp]: "map_at (map_touch m d k) d k' = map_at m d k'"
  by (simp add: map_touch_def)

lemma map_touch_upd [simp]: "(map_touch m d k)(k := v) = m(k := v)"
  by (simp add: map_touch_def)

lemma map_touch_in [simp]: "k \<in> dom m \<Longrightarrow> map_touch m d k = m"
  by (auto simp: map_touch_def map_at_def)


subsection \<open>Runners\<close>

datatype pc =
    AtDequeue \<comment> \<open>about to call \<open>dequeue\<close>\<close>
  | InRun node \<comment> \<open>in \<open>node.run\<close>, before \<open>m_finished\<close> is set\<close>
  | AtClean node \<comment> \<open>behind \<open>m_finished\<close>, before the last critical section of \<open>node.run\<close>\<close>
  | AtErase node \<comment> \<open>behind \<open>node.run\<close>, before \<open>running().erase\<close>\<close>
  | Exiting \<comment> \<open>behind the loop, before the destructor\<close>
  | Gone

record ('r, 's) task_class =
  t_start :: "'r \<Rightarrow> string \<Rightarrow> int \<Rightarrow> 's \<Rightarrow> node \<times> bool \<times> 's"
  t_dequeue :: "'s \<Rightarrow> node \<times> 's"
  t_finish :: "node \<Rightarrow> 's \<Rightarrow> 's"
  t_clean :: "node \<Rightarrow> 's \<Rightarrow> 's"
  t_erase :: "node \<Rightarrow> 's \<Rightarrow> 's"
  t_destroy :: "'s \<Rightarrow> 's"

text \<open>
  \<open>started\<close> and \<open>taken\<close> record history: the nodes that were pushed and the nodes that \<open>dequeue\<close> returned, in order.
\<close>

record 's task_sys =
  shared :: 's
  pcs :: "pc list"
  started :: "node list"
  taken :: "node list"
  finished :: "node list"

definition task_sys_init :: "'s \<Rightarrow> 's task_sys" where
  "task_sys_init sh = \<lparr>shared = sh, pcs = [], started = [], taken = [], finished = []\<rparr>"

definition runner_next :: "('r, 's) task_class \<Rightarrow> nat \<Rightarrow> 's task_sys \<Rightarrow> 's task_sys option" where
  "runner_next cls i s =
     (if i < length (pcs s) then
        (case pcs s ! i of
           AtDequeue \<Rightarrow>
             (let (n, sh) = t_dequeue cls (shared s) in
              if node_bool n then Some (s\<lparr>shared := sh, pcs := (pcs s)[i := InRun n], taken := taken s @ [n]\<rparr>)
              else Some (s\<lparr>shared := sh, pcs := (pcs s)[i := Exiting]\<rparr>))
         | InRun n \<Rightarrow>
             Some (s\<lparr>shared := t_finish cls n (shared s), pcs := (pcs s)[i := AtClean n], finished := finished s @ [n]\<rparr>)
         | AtClean n \<Rightarrow> Some (s\<lparr>shared := t_clean cls n (shared s), pcs := (pcs s)[i := AtErase n]\<rparr>)
         | AtErase n \<Rightarrow> Some (s\<lparr>shared := t_erase cls n (shared s), pcs := (pcs s)[i := AtDequeue]\<rparr>)
         | Exiting \<Rightarrow> Some (s\<lparr>shared := t_destroy cls (shared s), pcs := (pcs s)[i := Gone]\<rparr>)
         | Gone \<Rightarrow> None)
      else None)"

definition task_start :: "('r, 's) task_class \<Rightarrow> 'r \<Rightarrow> string \<Rightarrow> int \<Rightarrow> 's task_sys \<Rightarrow> 's task_sys" where
  "task_start cls r uuid now s =
     (let (n, spawn, sh) = t_start cls r uuid now (shared s) in
      s\<lparr>shared := sh,
        pcs := (if spawn then pcs s @ [AtDequeue] else pcs s),
        started := (if node_bool n then started s @ [n] else started s)\<rparr>)"

text \<open>
  A step is a step of one runner or a call of \<open>start\<close> at a time after the epoch (\<open>os::microtime\<close>) with an
  identifier that was not used before (\<open>os::uuid\<close>). The predicate \<open>ok\<close> restricts the calls of the clients.
\<close>

inductive task_step :: "('r, 's) task_class \<Rightarrow> ('r \<Rightarrow> bool) \<Rightarrow> 's task_sys \<Rightarrow> 's task_sys \<Rightarrow> bool"
  for cls :: "('r, 's) task_class" and ok :: "'r \<Rightarrow> bool" where
  run: "runner_next cls i s = Some t \<Longrightarrow> task_step cls ok s t"
| start: "ok r \<Longrightarrow> 0 < now \<Longrightarrow> uuid \<notin> n_uuid ` set (started s) \<Longrightarrow>
    task_step cls ok s (task_start cls r uuid now s)"

inductive task_reach :: "('r, 's) task_class \<Rightarrow> ('r \<Rightarrow> bool) \<Rightarrow> ('s \<Rightarrow> bool) \<Rightarrow> 's task_sys \<Rightarrow> bool"
  for cls :: "('r, 's) task_class" and ok :: "'r \<Rightarrow> bool" and ini :: "'s \<Rightarrow> bool" where
  init: "ini sh \<Longrightarrow> task_reach cls ok ini (task_sys_init sh)"
| step: "task_reach cls ok ini s \<Longrightarrow> task_step cls ok s t \<Longrightarrow> task_reach cls ok ini t"

text \<open>A run of the runners alone, as the list of the runners that move: no task is started meanwhile.\<close>

fun runners_run :: "('r, 's) task_class \<Rightarrow> nat list \<Rightarrow> 's task_sys \<Rightarrow> 's task_sys option" where
  "runners_run cls [] s = Some s"
| "runners_run cls (i # is) s =
     (case runner_next cls i s of None \<Rightarrow> None | Some t \<Rightarrow> runners_run cls is t)"

text \<open>A schedule of calls and of steps of the runners, executed.\<close>

datatype 'r event = Call 'r string int | Runner nat

fun task_exec :: "('r, 's) task_class \<Rightarrow> ('r \<Rightarrow> bool) \<Rightarrow> 'r event list \<Rightarrow> 's task_sys \<Rightarrow> 's task_sys option" where
  "task_exec cls ok [] s = Some s"
| "task_exec cls ok (Call r uuid now # es) s =
     (if ok r \<and> 0 < now \<and> uuid \<notin> n_uuid ` set (started s)
      then task_exec cls ok es (task_start cls r uuid now s) else None)"
| "task_exec cls ok (Runner i # es) s =
     (case runner_next cls i s of None \<Rightarrow> None | Some t \<Rightarrow> task_exec cls ok es t)"

definition quiescent :: "'s task_sys \<Rightarrow> bool" where
  "quiescent s \<longleftrightarrow> (\<forall>p \<in> set (pcs s). p = Gone)"

fun live :: "pc \<Rightarrow> bool" where
  "live Exiting = False"
| "live Gone = False"
| "live _ = True"

fun pc_run :: "pc \<Rightarrow> node list" where
  "pc_run (InRun n) = [n]"
| "pc_run _ = []"

fun pc_held :: "pc \<Rightarrow> node list" where
  "pc_held (InRun n) = [n]"
| "pc_held (AtClean n) = [n]"
| "pc_held (AtErase n) = [n]"
| "pc_held _ = []"

definition in_run :: "pc list \<Rightarrow> node list" where
  "in_run ps = concat (map pc_run ps)"

definition held :: "pc list \<Rightarrow> node list" where
  "held ps = concat (map pc_held ps)"

definition lives :: "pc list \<Rightarrow> nat" where
  "lives ps = length (filter live ps)"

text \<open>The runners whose destructor has not run.\<close>

definition alives :: "pc list \<Rightarrow> nat" where
  "alives ps = length (filter (\<lambda>p. p \<noteq> Gone) ps)"

fun pc_weight :: "pc \<Rightarrow> nat" where
  "pc_weight Gone = 0"
| "pc_weight Exiting = 1"
| "pc_weight AtDequeue = 2"
| "pc_weight (AtErase n) = 3"
| "pc_weight (AtClean n) = 4"
| "pc_weight (InRun n) = 5"

definition weight :: "pc list \<Rightarrow> nat" where
  "weight ps = sum_list (map pc_weight ps)"


lemma runner_nextE [consumes 1, case_names took none ran cleaned erased left]:
  assumes "runner_next cls i s = Some t"
  obtains n sh where "i < length (pcs s)" "pcs s ! i = AtDequeue" "t_dequeue cls (shared s) = (n, sh)" "node_bool n"
      "t = s\<lparr>shared := sh, pcs := (pcs s)[i := InRun n], taken := taken s @ [n]\<rparr>"
  | n sh where "i < length (pcs s)" "pcs s ! i = AtDequeue" "t_dequeue cls (shared s) = (n, sh)" "\<not> node_bool n"
      "t = s\<lparr>shared := sh, pcs := (pcs s)[i := Exiting]\<rparr>"
  | n where "i < length (pcs s)" "pcs s ! i = InRun n"
      "t = s\<lparr>shared := t_finish cls n (shared s), pcs := (pcs s)[i := AtClean n], finished := finished s @ [n]\<rparr>"
  | n where "i < length (pcs s)" "pcs s ! i = AtClean n"
      "t = s\<lparr>shared := t_clean cls n (shared s), pcs := (pcs s)[i := AtErase n]\<rparr>"
  | n where "i < length (pcs s)" "pcs s ! i = AtErase n"
      "t = s\<lparr>shared := t_erase cls n (shared s), pcs := (pcs s)[i := AtDequeue]\<rparr>"
  | "i < length (pcs s)" "pcs s ! i = Exiting" "t = s\<lparr>shared := t_destroy cls (shared s), pcs := (pcs s)[i := Gone]\<rparr>"
  using assms by (cases "pcs s ! i") (auto simp: runner_next_def split: if_splits prod.splits)

lemma exec_reach:
  "task_reach cls ok ini s \<Longrightarrow> task_exec cls ok es s = Some t \<Longrightarrow> task_reach cls ok ini t"
proof (induction cls ok es s rule: task_exec.induct)
  case (2 cls ok r uuid now es s)
  then show ?case by (auto split: if_splits intro: task_reach.step task_step.start)
next
  case (3 cls ok i es s)
  then show ?case by (auto split: option.splits intro: task_reach.step task_step.run)
qed simp

lemma runners_reach:
  "task_reach cls ok ini s \<Longrightarrow> runners_run cls is s = Some t \<Longrightarrow> task_reach cls ok ini t"
proof (induction "is" arbitrary: s)
  case (Cons i js)
  then show ?case by (auto split: option.splits dest: task_reach.step [OF _ task_step.run])
qed simp

text \<open>How these functions of the program counters change when one runner moves.\<close>

lemma split_at: "i < length xs \<Longrightarrow> \<exists>as bs. xs = as @ xs ! i # bs \<and> length as = i"
  using id_take_nth_drop [of i xs] by (metis length_take min.absorb2 less_imp_le)

lemma mset_in_run_upd:
  assumes "i < length ps" and "ps ! i = p"
  shows "mset (in_run (ps[i := q])) + mset (pc_run p) = mset (in_run ps) + mset (pc_run q)"
proof -
  obtain as bs where "ps = as @ p # bs" "length as = i" using split_at [OF assms(1)] assms(2) by auto
  then show ?thesis by (simp add: in_run_def list_update_append)
qed

lemma mset_held_upd:
  assumes "i < length ps" and "ps ! i = p"
  shows "mset (held (ps[i := q])) + mset (pc_held p) = mset (held ps) + mset (pc_held q)"
proof -
  obtain as bs where "ps = as @ p # bs" "length as = i" using split_at [OF assms(1)] assms(2) by auto
  then show ?thesis by (simp add: held_def list_update_append)
qed

lemma set_upd_keep: "i < length ps \<Longrightarrow> ps ! i = p \<Longrightarrow> q \<in> set ps \<Longrightarrow> q \<noteq> p \<Longrightarrow> q \<in> set (ps[i := r])"
  by (metis in_set_conv_nth length_list_update nth_list_update_neq)

lemma length_filter_upd:
  assumes "i < length ps" and "ps ! i = p"
  shows "length (filter P (ps[i := q])) + (if P p then 1 else 0) = length (filter P ps) + (if P q then 1 else 0)"
proof -
  obtain as bs where "ps = as @ p # bs" "length as = i" using split_at [OF assms(1)] assms(2) by auto
  then show ?thesis by (auto simp: list_update_append)
qed

lemmas lives_upd = length_filter_upd [where P = live, folded lives_def]
lemmas alives_upd = length_filter_upd [where P = "\<lambda>p. p \<noteq> Gone", folded alives_def]

lemma weight_upd:
  assumes "i < length ps" and "ps ! i = p"
  shows "weight (ps[i := q]) + pc_weight p = weight ps + pc_weight q"
proof -
  obtain as bs where "ps = as @ p # bs" "length as = i" using split_at [OF assms(1)] assms(2) by auto
  then show ?thesis by (auto simp: weight_def list_update_append)
qed

lemma pcs_append [simp]:
  "in_run (ps @ qs) = in_run ps @ in_run qs" "held (ps @ qs) = held ps @ held qs"
  "lives (ps @ qs) = lives ps + lives qs" "weight (ps @ qs) = weight ps + weight qs"
  "alives (ps @ qs) = alives ps + alives qs"
  by (simp_all add: in_run_def held_def lives_def alives_def weight_def)

lemma pcs_single [simp]:
  "in_run [p] = pc_run p" "held [p] = pc_held p" "lives [p] = (if live p then 1 else 0)" "weight [p] = pc_weight p"
  "in_run [] = []" "held [] = []" "lives [] = 0" "weight [] = 0"
  "alives [p] = (if p = Gone then 0 else 1)" "alives [] = 0"
  by (simp_all add: in_run_def held_def lives_def alives_def weight_def)

lemma lives_pos: "0 < lives ps \<longleftrightarrow> (\<exists>p \<in> set ps. live p)"
  by (auto simp: lives_def filter_empty_conv)

lemma set_in_run: "set (in_run ps) = {n. InRun n \<in> set ps}"
proof -
  have "n \<in> set (pc_run p) \<longleftrightarrow> p = InRun n" for n p by (cases p) auto
  then show ?thesis by (auto simp: in_run_def)
qed

lemma set_held: "set (held ps) = {n. InRun n \<in> set ps \<or> AtClean n \<in> set ps \<or> AtErase n \<in> set ps}"
proof -
  have "n \<in> set (pc_held p) \<longleftrightarrow> p = InRun n \<or> p = AtClean n \<or> p = AtErase n" for n p by (cases p) auto
  then show ?thesis by (auto simp: held_def)
qed

lemma held_live: "n \<in> set (held ps) \<Longrightarrow> \<exists>p \<in> set ps. live p"
  by (force simp: set_held)

lemma distinct_submset:
  assumes "mset xs \<subseteq># mset ys" and "distinct ys"
  shows "distinct xs"
proof -
  obtain C where "mset ys = mset xs + C" using assms(1) by (auto simp: mset_subset_eq_exists_conv)
  moreover obtain zs where "mset zs = C" using ex_mset by blast
  ultimately have "mset ys = mset (xs @ zs)" by simp
  with assms(2) show ?thesis by (metis distinct_append mset_eq_imp_distinct_iff)
qed

lemma submset_add: "A \<subseteq># B \<Longrightarrow> A \<subseteq># B + C"
  by (rule subset_mset.order_trans [OF _ mset_subset_eq_add_left])

lemma add_submsetD: "add_mset x A \<subseteq># B \<Longrightarrow> A \<subseteq># B"
  by (rule subset_mset.order_trans [of _ "add_mset x A"]) simp_all

lemma uuid_inj:
  assumes "mset xs \<subseteq># mset ys" and "distinct (map n_uuid ys)" and "n \<in> set xs" and "m \<in> set xs"
    and "n_uuid n = n_uuid m"
  shows "n = m"
proof -
  have "mset (map n_uuid xs) \<subseteq># mset (map n_uuid ys)" using assms(1) by (simp add: image_mset_subseteq_mono)
  then have "distinct (map n_uuid xs)" using assms(2) by (rule distinct_submset)
  with assms(3-) show ?thesis by (auto simp: distinct_map inj_on_def)
qed


subsection \<open>What a class promises\<close>

locale task_queue =
  fixes cls :: "('r, 's) task_class" and ok :: "'r \<Rightarrow> bool" and ini :: "'s \<Rightarrow> bool"
    and inv :: "'s \<Rightarrow> pc list \<Rightarrow> bool" and queued :: "'s \<Rightarrow> node multiset" and running :: "'s \<Rightarrow> string \<rightharpoonup> node"
  assumes initial: "ini s \<Longrightarrow> inv s [] \<and> queued s = {#} \<and> running s = Map.empty"
    and start: "inv s ps \<Longrightarrow> ok r \<Longrightarrow> 0 < now \<Longrightarrow> t_start cls r uuid now s = (n, spawn, s') \<Longrightarrow>
      inv s' (if spawn then ps @ [AtDequeue] else ps) \<and> running s' = running s \<and>
      (if node_bool n then n_uuid n = uuid \<and> queued s' = add_mset n (queued s) else queued s' = queued s)"
    and dequeue_some: "inv s ps \<Longrightarrow> i < length ps \<Longrightarrow> ps ! i = AtDequeue \<Longrightarrow> t_dequeue cls s = (n, s') \<Longrightarrow>
      node_bool n \<Longrightarrow>
      inv s' (ps[i := InRun n]) \<and> queued s = add_mset n (queued s') \<and> running s' = (running s)(n_uuid n \<mapsto> n)"
    and dequeue_none: "inv s ps \<Longrightarrow> i < length ps \<Longrightarrow> ps ! i = AtDequeue \<Longrightarrow> t_dequeue cls s = (n, s') \<Longrightarrow>
      \<not> node_bool n \<Longrightarrow> inv s' (ps[i := Exiting]) \<and> queued s' = queued s \<and> running s' = running s"
    and finish: "inv s ps \<Longrightarrow> i < length ps \<Longrightarrow> ps ! i = InRun n \<Longrightarrow> s' = t_finish cls n s \<Longrightarrow>
      inv s' (ps[i := AtClean n]) \<and> queued s' = queued s \<and> running s' = running s"
    and clean: "inv s ps \<Longrightarrow> i < length ps \<Longrightarrow> ps ! i = AtClean n \<Longrightarrow> s' = t_clean cls n s \<Longrightarrow>
      inv s' (ps[i := AtErase n]) \<and> queued s' = queued s \<and> running s' = running s"
    and erase: "inv s ps \<Longrightarrow> i < length ps \<Longrightarrow> ps ! i = AtErase n \<Longrightarrow> s' = t_erase cls n s \<Longrightarrow>
      inv s' (ps[i := AtDequeue]) \<and> queued s' = queued s \<and> running s' = (running s)(n_uuid n := None)"
    and destroy: "inv s ps \<Longrightarrow> i < length ps \<Longrightarrow> ps ! i = Exiting \<Longrightarrow> s' = t_destroy cls s \<Longrightarrow>
      inv s' (ps[i := Gone]) \<and> queued s' = queued s \<and> running s' = running s"
begin

definition sys_inv :: "'s task_sys \<Rightarrow> bool" where
  "sys_inv s \<longleftrightarrow> inv (shared s) (pcs s) \<and>
     mset (started s) = mset (taken s) + queued (shared s) \<and>
     mset (taken s) = mset (in_run (pcs s)) + mset (finished s) \<and>
     distinct (map n_uuid (started s)) \<and> mset (held (pcs s)) \<subseteq># mset (taken s) \<and>
     (\<forall>u n. running (shared s) u = Some n \<longleftrightarrow> n \<in> set (held (pcs s)) \<and> n_uuid n = u)"

lemma sys_invI:
  assumes "inv (shared s) (pcs s)" and "mset (started s) = mset (taken s) + queued (shared s)"
    and "mset (taken s) = mset (in_run (pcs s)) + mset (finished s)"
    and "distinct (map n_uuid (started s))" and "mset (held (pcs s)) \<subseteq># mset (taken s)"
    and "\<And>u n. running (shared s) u = Some n \<longleftrightarrow> n \<in> set (held (pcs s)) \<and> n_uuid n = u"
  shows "sys_inv s"
  using assms by (simp only: sys_inv_def) blast

lemma sys_invD:
  assumes "sys_inv s"
  shows "inv (shared s) (pcs s)" and "mset (started s) = mset (taken s) + queued (shared s)"
    and "mset (taken s) = mset (in_run (pcs s)) + mset (finished s)"
    and "distinct (map n_uuid (started s))" and "mset (held (pcs s)) \<subseteq># mset (taken s)"
    and "running (shared s) u = Some n \<longleftrightarrow> n \<in> set (held (pcs s)) \<and> n_uuid n = u"
  using assms unfolding sys_inv_def by blast+

lemma sys_inv_init: "ini sh \<Longrightarrow> sys_inv (task_sys_init sh)"
  using initial by (simp add: sys_inv_def task_sys_init_def)

lemma sys_inv_start:
  assumes s: "sys_inv s" and r: "ok r" "0 < now" "uuid \<notin> n_uuid ` set (started s)"
  shows "sys_inv (task_start cls r uuid now s)"
proof -
  obtain n spawn sh where st: "t_start cls r uuid now (shared s) = (n, spawn, sh)" by (rule prod_cases3)
  note l = start [OF sys_invD(1) [OF s] r(1,2) st]
  have h: "held (if spawn then pcs s @ [AtDequeue] else pcs s) = held (pcs s)"
    "in_run (if spawn then pcs s @ [AtDequeue] else pcs s) = in_run (pcs s)" by simp_all
  show ?thesis
    by (rule sys_invI; use l r(3) sys_invD [OF s] in \<open>simp add: task_start_def st h\<close>)
qed

lemma sys_inv_dequeue_some:
  assumes s: "sys_inv s" and i: "i < length (pcs s)" "pcs s ! i = AtDequeue"
    and d: "t_dequeue cls (shared s) = (n, sh)" "node_bool n"
  shows "sys_inv (s\<lparr>shared := sh, pcs := (pcs s)[i := InRun n], taken := taken s @ [n]\<rparr>)" (is "sys_inv ?t")
proof (rule sys_invI)
  note l = dequeue_some [OF sys_invD(1) [OF s] i d]
  note d = sys_invD [OF s]
  have h: "mset (held (pcs ?t)) = add_mset n (mset (held (pcs s)))" using mset_held_upd [OF i, of "InRun n"] by simp
  have "mset (in_run (pcs ?t)) = add_mset n (mset (in_run (pcs s)))" using mset_in_run_upd [OF i, of "InRun n"] by simp
  then show "mset (taken ?t) = mset (in_run (pcs ?t)) + mset (finished ?t)" using d(3) by simp
  show "inv (shared ?t) (pcs ?t)" "distinct (map n_uuid (started ?t))" using l d(4) by simp_all
  show st: "mset (started ?t) = mset (taken ?t) + queued (shared ?t)" using l d(2) by simp
  show sub: "mset (held (pcs ?t)) \<subseteq># mset (taken ?t)" unfolding h using d(5) by simp
  have "mset (held (pcs ?t)) \<subseteq># mset (started ?t)" using sub unfolding st by (rule submset_add)
  note inj = uuid_inj [OF this \<open>distinct (map n_uuid (started ?t))\<close>]
  have m: "set (held (pcs ?t)) = insert n (set (held (pcs s)))" using arg_cong [OF h, of set_mset] by simp
  show "running (shared ?t) u = Some m \<longleftrightarrow> m \<in> set (held (pcs ?t)) \<and> n_uuid m = u" for u m
    using inj [of m n] l d(6) [of u m] unfolding m by auto
qed

lemma sys_inv_erase:
  assumes s: "sys_inv s" and i: "i < length (pcs s)" "pcs s ! i = AtErase n"
  shows "sys_inv (s\<lparr>shared := t_erase cls n (shared s), pcs := (pcs s)[i := AtDequeue]\<rparr>)" (is "sys_inv ?t")
proof (rule sys_invI)
  note l = erase [OF sys_invD(1) [OF s] i refl]
  note d = sys_invD [OF s]
  have h: "mset (held (pcs s)) = add_mset n (mset (held (pcs ?t)))" using mset_held_upd [OF i, of AtDequeue] by simp
  have "mset (in_run (pcs ?t)) = mset (in_run (pcs s))" using mset_in_run_upd [OF i, of AtDequeue] by simp
  then show "mset (taken ?t) = mset (in_run (pcs ?t)) + mset (finished ?t)" using d(3) by simp
  show "inv (shared ?t) (pcs ?t)" "distinct (map n_uuid (started ?t))"
    "mset (started ?t) = mset (taken ?t) + queued (shared ?t)" using l d(2,4) by simp_all
  show "mset (held (pcs ?t)) \<subseteq># mset (taken ?t)" using d(5) unfolding h by (auto dest: add_submsetD)
  have sub: "mset (held (pcs s)) \<subseteq># mset (started s)" using d(5) unfolding d(2) by (rule submset_add)
  note inj = uuid_inj [OF this d(4)]
  have m: "set (held (pcs s)) = insert n (set (held (pcs ?t)))" using arg_cong [OF h, of set_mset] by simp
  have "distinct (held (pcs s))" using distinct_submset [OF sub] d(4) by (simp add: distinct_map)
  then have "n \<notin> set (held (pcs ?t))" using h by (metis distinct.simps(2) mset.simps(2) mset_eq_imp_distinct_iff)
  with inj [of _ n] l d(6) m
  show "running (shared ?t) u = Some x \<longleftrightarrow> x \<in> set (held (pcs ?t)) \<and> n_uuid x = u" for u x
    by (cases "u = n_uuid n") auto
qed

text \<open>The steps that change neither what is held nor what is queued.\<close>

lemma sys_inv_move:
  assumes s: "sys_inv s" and i: "i < length (pcs s)" "pcs s ! i = p"
    and l: "inv sh ((pcs s)[i := q]) \<and> queued sh = queued (shared s) \<and> running sh = running (shared s)"
    and p: "pc_held q = pc_held p" "mset (pc_run q) + mset fs = mset (pc_run p)"
  shows "sys_inv (s\<lparr>shared := sh, pcs := (pcs s)[i := q], finished := finished s @ fs\<rparr>)" (is "sys_inv ?t")
proof (rule sys_invI)
  note d = sys_invD [OF s]
  have h: "mset (held (pcs ?t)) = mset (held (pcs s))" using mset_held_upd [OF i, of q] p(1) by simp
  then have m: "set (held (pcs ?t)) = set (held (pcs s))" by (rule mset_eq_setD)
  have "mset (in_run (pcs ?t)) + mset (pc_run p) = mset (in_run (pcs s)) + mset (pc_run q)"
    using mset_in_run_upd [OF i, of q] by simp
  then have "mset (in_run (pcs ?t)) + mset fs = mset (in_run (pcs s))"
    unfolding p(2) [symmetric] by (simp add: add.assoc [symmetric])
  from this [symmetric] show "mset (taken ?t) = mset (in_run (pcs ?t)) + mset (finished ?t)"
    using d(3) by (simp add: ac_simps)
  show "inv (shared ?t) (pcs ?t)" "distinct (map n_uuid (started ?t))"
    "mset (started ?t) = mset (taken ?t) + queued (shared ?t)" "mset (held (pcs ?t)) \<subseteq># mset (taken ?t)"
    using l d(2,4,5) h by simp_all
  show "running (shared ?t) u = Some x \<longleftrightarrow> x \<in> set (held (pcs ?t)) \<and> n_uuid x = u" for u x
    unfolding m using l d(6) by simp
qed

lemma sys_inv_move_only:
  assumes "sys_inv s" and "i < length (pcs s)" and "pcs s ! i = p"
    and "inv sh ((pcs s)[i := q]) \<and> queued sh = queued (shared s) \<and> running sh = running (shared s)"
    and "pc_held q = pc_held p" and "mset (pc_run q) = mset (pc_run p)"
  shows "sys_inv (s\<lparr>shared := sh, pcs := (pcs s)[i := q]\<rparr>)"
proof -
  have "sys_inv (s\<lparr>shared := sh, pcs := (pcs s)[i := q], finished := finished s @ []\<rparr>)"
    by (rule sys_inv_move [OF assms(1-5)]) (simp add: assms(6))
  moreover have "s\<lparr>shared := sh, pcs := (pcs s)[i := q], finished := finished s @ []\<rparr> = s\<lparr>shared := sh, pcs := (pcs s)[i := q]\<rparr>"
    by (cases s) simp
  ultimately show ?thesis by simp
qed

lemma sys_inv_runner:
  assumes s: "sys_inv s" and n: "runner_next cls i s = Some t"
  shows "sys_inv t"
  using n
proof (cases rule: runner_nextE)
  case (took n sh)
  then show ?thesis using sys_inv_dequeue_some [OF s took(1-4)] by simp
next
  case (none n sh)
  show ?thesis unfolding none(5)
    by (rule sys_inv_move_only [OF s none(1,2) dequeue_none [OF sys_invD(1) [OF s] none(1-4)]]) simp_all
next
  case (ran n)
  show ?thesis unfolding ran(3)
    by (rule sys_inv_move [OF s ran(1,2) finish [OF sys_invD(1) [OF s] ran(1,2) refl]]) simp_all
next
  case (cleaned n)
  show ?thesis unfolding cleaned(3)
    by (rule sys_inv_move_only [OF s cleaned(1,2) clean [OF sys_invD(1) [OF s] cleaned(1,2) refl]]) simp_all
next
  case (erased n)
  then show ?thesis using sys_inv_erase [OF s erased(1,2)] by simp
next
  case left
  show ?thesis unfolding left(3)
    by (rule sys_inv_move_only [OF s left(1,2) destroy [OF sys_invD(1) [OF s] left(1,2) refl]]) simp_all
qed

lemma reach_inv: "task_reach cls ok ini s \<Longrightarrow> sys_inv s"
  by (induction rule: task_reach.induct)
    (auto elim!: task_step.cases intro: sys_inv_init sys_inv_runner sys_inv_start)

text \<open>No task is lost or run twice, and \<open>running()\<close> is exact.\<close>

lemma accounting:
  assumes "task_reach cls ok ini s"
  shows "mset (started s) = queued (shared s) + mset (in_run (pcs s)) + mset (finished s)"
  using sys_invD(2,3) [OF reach_inv [OF assms]] by (simp add: ac_simps)

lemma running_exact:
  assumes "task_reach cls ok ini s"
  shows "running (shared s) u = Some n \<longleftrightarrow>
    n_uuid n = u \<and> (InRun n \<in> set (pcs s) \<or> AtClean n \<in> set (pcs s) \<or> AtErase n \<in> set (pcs s))"
  using sys_invD(6) [OF reach_inv [OF assms]] by (auto simp: set_held)

lemma finished_once:
  assumes "task_reach cls ok ini s"
  shows "distinct (map n_uuid (finished s))"
proof (rule distinct_submset)
  have "mset (finished s) \<subseteq># mset (started s)" unfolding accounting [OF assms] by simp
  then show "mset (map n_uuid (finished s)) \<subseteq># mset (map n_uuid (started s))"
    by (simp add: image_mset_subseteq_mono)
  show "distinct (map n_uuid (started s))" by (rule sys_invD(4) [OF reach_inv [OF assms]])
qed

text \<open>Every step of a runner uses up a part of the work that is left.\<close>

definition work :: "'s task_sys \<Rightarrow> nat" where
  "work s = 4 * size (queued (shared s)) + weight (pcs s)"

lemma work_decreases:
  assumes s: "sys_inv s" and n: "runner_next cls i s = Some t"
  shows "work t < work s"
  using n
proof (cases rule: runner_nextE)
  case (took n sh)
  with weight_upd [OF took(1,2), of "InRun n"] dequeue_some [OF sys_invD(1) [OF s] took(1-4)]
  show ?thesis by (simp add: work_def)
next
  case (none n sh)
  with weight_upd [OF none(1,2), of Exiting] dequeue_none [OF sys_invD(1) [OF s] none(1-4)]
  show ?thesis by (simp add: work_def)
next
  case (ran n)
  with weight_upd [OF ran(1,2), of "AtClean n"] finish [OF sys_invD(1) [OF s] ran(1,2) refl]
  show ?thesis by (simp add: work_def)
next
  case (cleaned n)
  with weight_upd [OF cleaned(1,2), of "AtErase n"] clean [OF sys_invD(1) [OF s] cleaned(1,2) refl]
  show ?thesis by (simp add: work_def)
next
  case (erased n)
  with weight_upd [OF erased(1,2), of AtDequeue] erase [OF sys_invD(1) [OF s] erased(1,2) refl]
  show ?thesis by (simp add: work_def)
next
  case left
  with weight_upd [OF left(1,2), of Gone] destroy [OF sys_invD(1) [OF s] left(1,2) refl]
  show ?thesis by (simp add: work_def)
qed

lemma run_bounded:
  "task_reach cls ok ini s \<Longrightarrow> runners_run cls is s = Some t \<Longrightarrow> length is + work t \<le> work s"
proof (induction "is" arbitrary: s)
  case Nil
  then show ?case by simp
next
  case (Cons i js)
  then obtain u where u: "runner_next cls i s = Some u" "runners_run cls js u = Some t"
    by (auto split: option.splits)
  have "task_reach cls ok ini u" using Cons.prems(1) u(1) by (auto intro: task_reach.step task_step.run)
  then have "length js + work t \<le> work u" using u(2) by (rule Cons.IH)
  with work_decreases [OF reach_inv [OF Cons.prems(1)] u(1)] show ?case by simp
qed

lemma not_quiescent_step:
  assumes "\<not> quiescent s"
  obtains i t where "runner_next cls i s = Some t"
proof -
  obtain i where "i < length (pcs s)" "pcs s ! i \<noteq> Gone" using assms by (auto simp: quiescent_def in_set_conv_nth)
  then have "runner_next cls i s \<noteq> None"
    by (cases "pcs s ! i") (simp_all add: runner_next_def split: prod.splits)
  then show ?thesis using that by blast
qed

lemma reaches_quiescence:
  assumes "task_reach cls ok ini s"
  shows "\<exists>is t. runners_run cls is s = Some t \<and> quiescent t"
  using assms
proof (induction "work s" arbitrary: s rule: less_induct)
  case less
  show ?case
  proof (cases "quiescent s")
    case True
    have "runners_run cls [] s = Some s" by simp
    with True show ?thesis by blast
  next
    case False
    then obtain i t where t: "runner_next cls i s = Some t" by (rule not_quiescent_step)
    have "task_reach cls ok ini t" using less.prems t by (auto intro: task_reach.step task_step.run)
    with less.hyps work_decreases [OF reach_inv [OF less.prems] t]
    obtain js u where "runners_run cls js t = Some u" "quiescent u" by blast
    with t have "runners_run cls (i # js) s = Some u" by simp
    with \<open>quiescent u\<close> show ?thesis by blast
  qed
qed

end

locale task_queue_live = task_queue +
  assumes no_strand: "inv s ps \<Longrightarrow> queued s \<noteq> {#} \<Longrightarrow> \<exists>p \<in> set ps. live p"
begin

lemma queued_has_runner:
  assumes "task_reach cls ok ini s" and "queued (shared s) \<noteq> {#}"
  shows "\<exists>p \<in> set (pcs s). live p"
  using no_strand [OF sys_invD(1) [OF reach_inv [OF assms(1)]] assms(2)] .

lemma quiescent_done:
  assumes "task_reach cls ok ini s" and q: "quiescent s"
  shows "mset (finished s) = mset (started s)"
proof -
  have "queued (shared s) = {#}" using queued_has_runner [OF assms(1)] q by (force simp: quiescent_def)
  moreover have "in_run (pcs s) = []" using q by (auto simp: quiescent_def in_run_def)
  ultimately show ?thesis using accounting [OF assms(1)] by simp
qed

text \<open>
  Whatever the order in which the runners move, they stop after a bounded number of steps, and when all have
  stopped every task that was started has finished.
\<close>

lemma drain:
  assumes "task_reach cls ok ini s"
  shows "(\<forall>is t. runners_run cls is s = Some t \<longrightarrow>
      length is \<le> work s \<and> (quiescent t \<longrightarrow> mset (finished t) = mset (started t))) \<and>
    (\<exists>is t. runners_run cls is s = Some t \<and> quiescent t)"
  using run_bounded [OF assms] quiescent_done [OF runners_reach [OF assms]] reaches_quiescence [OF assms]
  by (meson add_leD1)

end

text \<open>
  A class in which a runner only leaves when nothing is queued, but whose \<open>start\<close> may rely on a runner that is about to
  leave: from a state in which some runner will look at the queue again, everything is run.
\<close>

locale task_queue_window = task_queue cls ok ini inv queued running
  for cls :: "('r, 's) task_class" and ok ini inv queued running +
  assumes leaves_empty: "inv s ps \<Longrightarrow> t_dequeue cls s = (n, s') \<Longrightarrow> \<not> node_bool n \<Longrightarrow> queued s = {#}"
begin

definition attended :: "'s task_sys \<Rightarrow> bool" where
  "attended s \<longleftrightarrow> queued (shared s) = {#} \<or> (\<exists>p \<in> set (pcs s). live p)"

lemma live_upd:
  assumes "i < length ps" and "live (ps ! i) \<Longrightarrow> live q" and "\<exists>p \<in> set ps. live p"
  shows "\<exists>p \<in> set (ps[i := q]). live p"
  using assms lives_upd [OF assms(1) refl, of q] unfolding lives_pos [symmetric] by (auto split: if_splits)

lemma attended_step:
  assumes s: "sys_inv s" and a: "attended s" and n: "runner_next cls i s = Some t"
  shows "attended t"
  using n
proof (cases rule: runner_nextE)
  case (took n sh)
  then have "InRun n \<in> set (pcs t)" by (auto intro: set_update_memI)
  then show ?thesis unfolding attended_def by (meson live.simps(4))
next
  case (none n sh)
  with leaves_empty [OF sys_invD(1) [OF s] none(3,4)] dequeue_none [OF sys_invD(1) [OF s] none(1-4)]
  show ?thesis by (simp add: attended_def)
next
  case (ran n)
  with a live_upd [OF ran(1), of "AtClean n"] finish [OF sys_invD(1) [OF s] ran(1,2) refl] show ?thesis
    by (auto simp: attended_def)
next
  case (cleaned n)
  with a live_upd [OF cleaned(1), of "AtErase n"] clean [OF sys_invD(1) [OF s] cleaned(1,2) refl] show ?thesis
    by (auto simp: attended_def)
next
  case (erased n)
  with a live_upd [OF erased(1), of AtDequeue] erase [OF sys_invD(1) [OF s] erased(1,2) refl] show ?thesis
    by (auto simp: attended_def)
next
  case left
  with a live_upd [OF left(1), of Gone] destroy [OF sys_invD(1) [OF s] left(1,2) refl] show ?thesis
    by (auto simp: attended_def)
qed

lemma attended_run:
  "task_reach cls ok ini s \<Longrightarrow> attended s \<Longrightarrow> runners_run cls is s = Some t \<Longrightarrow> attended t"
proof (induction "is" arbitrary: s)
  case (Cons i js)
  then obtain u where u: "runner_next cls i s = Some u" "runners_run cls js u = Some t"
    by (auto split: option.splits)
  then show ?case
    using Cons.IH [OF task_reach.step [OF Cons.prems(1) task_step.run [OF u(1)]]]
      attended_step [OF reach_inv [OF Cons.prems(1)] Cons.prems(2) u(1)] by blast
qed simp

lemma quiescent_attended:
  assumes "task_reach cls ok ini s" and "quiescent s" and "attended s"
  shows "mset (finished s) = mset (started s)"
proof -
  have "queued (shared s) = {#}" using assms(2,3) by (force simp: attended_def quiescent_def)
  moreover have "in_run (pcs s) = []" using assms(2) by (auto simp: quiescent_def in_run_def)
  ultimately show ?thesis using accounting [OF assms(1)] by simp
qed

lemma drain_attended:
  assumes "task_reach cls ok ini s" and "attended s"
  shows "(\<forall>is t. runners_run cls is s = Some t \<longrightarrow>
      length is \<le> work s \<and> (quiescent t \<longrightarrow> mset (finished t) = mset (started t))) \<and>
    (\<exists>is t. runners_run cls is s = Some t \<and> quiescent t)"
  using run_bounded [OF assms(1)] quiescent_attended [OF runners_reach [OF assms(1)] _ attended_run [OF assms]]
    reaches_quiescence [OF assms(1)] by (meson add_leD1)

end

end
