(* ===== verification/Task_Fifo.thy ===== *)
theory Task_Fifo
  imports Task_Runner
begin

text \<open>
  The classes \<open>fifo\<close> and \<open>priority\<close> of \<open>src/arken/concurrent/task\<close>. Both keep one container of nodes and count
  their runners in \<open>actives()\<close>: the constructor of a runner adds one, its destructor takes one away. The destructor
  runs after \<open>core::working\<close> has left \<open>run\<close>, so a runner that found the container empty is still counted for a
  while.

  The model of \<open>std::priority_queue\<close> keeps the nodes in a list and takes a node that no other exceeds in
  the order of \<open>priority::node::operator()\<close>. Which one of several such nodes comes first is left open by the
  library: the function \<open>pick\<close> decides it.
\<close>

subsection \<open>fifo\<close>

record fifo =
  f_queue :: "node list"
  f_running :: "string \<rightharpoonup> node"
  f_actives :: u32
  f_max :: u32

definition fifo_init :: "u32 \<Rightarrow> fifo" where
  "fifo_init m = \<lparr>f_queue = [], f_running = Map.empty, f_actives = 0, f_max = m\<rparr>"

definition fifo_new :: "fifo \<Rightarrow> fifo" where
  "fifo_new s = s\<lparr>f_actives := f_actives s + 1\<rparr>"

definition fifo_delete :: "fifo \<Rightarrow> fifo" where
  "fifo_delete s = s\<lparr>f_actives := f_actives s - 1\<rparr>"

definition fifo_node :: "task_args \<Rightarrow> string \<Rightarrow> int \<Rightarrow> node" where
  "fifo_node a uuid now = empty_node\<lparr>n_fileName := a_fileName a, n_params := a_params a, n_release := a_release a,
     n_uuid := uuid, n_microtime := now\<rparr>"

text \<open>The copy constructor leaves out \<open>m_release\<close>, which keeps its default.\<close>

definition fifo_node_copy :: "node \<Rightarrow> node" where
  "fifo_node_copy obj = empty_node\<lparr>n_uuid := n_uuid obj, n_fileName := n_fileName obj, n_params := n_params obj,
     n_microtime := n_microtime obj\<rparr>"

definition fifo_push :: "node \<Rightarrow> fifo \<Rightarrow> fifo" where
  "fifo_push n s = s\<lparr>f_queue := f_queue s @ [fifo_node_copy n]\<rparr>"

definition fifo_start :: "task_args \<Rightarrow> string \<Rightarrow> int \<Rightarrow> fifo \<Rightarrow> node \<times> bool \<times> fifo" where
  "fifo_start a uuid now s =
     (let n = fifo_node a uuid now; s1 = fifo_push n s in
      if f_actives s1 < f_max s1 then (fifo_node_copy n, True, fifo_new s1) else (fifo_node_copy n, False, s1))"

definition fifo_dequeue :: "fifo \<Rightarrow> node \<times> fifo" where
  "fifo_dequeue s =
     (case f_queue s of
        [] \<Rightarrow> (empty_node, s)
      | x # q \<Rightarrow> let n = fifo_node_copy x in (n, s\<lparr>f_queue := q, f_running := (f_running s)(n_uuid n \<mapsto> n)\<rparr>))"

definition fifo_erase :: "node \<Rightarrow> fifo \<Rightarrow> fifo" where
  "fifo_erase n s = s\<lparr>f_running := (f_running s)(n_uuid n := None)\<rparr>"

definition fifo_class :: "(task_args, fifo) task_class" where
  "fifo_class = \<lparr>t_start = fifo_start, t_dequeue = fifo_dequeue, t_finish = (\<lambda>n s. s), t_clean = (\<lambda>n s. s),
     t_erase = fifo_erase, t_destroy = fifo_delete\<rparr>"

definition fifo_ini :: "fifo \<Rightarrow> bool" where
  "fifo_ini s \<longleftrightarrow> (\<exists>m. s = fifo_init m)"

abbreviation fifo_reach :: "fifo task_sys \<Rightarrow> bool" where
  "fifo_reach \<equiv> task_reach fifo_class (\<lambda>_. True) fifo_ini"

text \<open>The runners that are alive are counted exactly, and there are at most \<open>max\<close> of them.\<close>

definition fifo_inv :: "fifo \<Rightarrow> pc list \<Rightarrow> bool" where
  "fifo_inv s ps \<longleftrightarrow> unat (f_actives s) = alives ps \<and> alives ps \<le> unat (f_max s) \<and>
     (\<forall>n \<in> set (f_queue s). node_bool n \<and> fifo_node_copy n = n)"

lemma fifo_node_copy_idem [simp]: "fifo_node_copy (fifo_node_copy n) = fifo_node_copy n"
  by (simp add: fifo_node_copy_def empty_node_def)

lemma fifo_node_copy_simps [simp]:
  "n_uuid (fifo_node_copy n) = n_uuid n" "n_microtime (fifo_node_copy n) = n_microtime n"
  "\<not> n_release (fifo_node_copy n)"
  by (simp_all add: fifo_node_copy_def empty_node_def)

lemma node_bool_fifo [simp]:
  "node_bool (fifo_node_copy n) = node_bool n" "node_bool (fifo_node a uuid now) \<longleftrightarrow> 0 < now"
  "n_uuid (fifo_node a uuid now) = uuid"
  by (simp_all add: node_bool_def fifo_node_def)

interpretation fifo: task_queue_window fifo_class "\<lambda>_. True" fifo_ini fifo_inv "\<lambda>s. mset (f_queue s)" f_running
proof (unfold_locales, goal_cases)
  case (1 s)
  then show ?case by (auto simp: fifo_ini_def fifo_init_def fifo_inv_def)
next
  case (2 s ps r now uuid n spawn s')
  then show ?case using unat_inc [of "f_actives s" "f_max s"]
    by (auto simp: fifo_class_def fifo_start_def fifo_push_def fifo_new_def fifo_inv_def word_less_nat_alt Let_def
        split: if_splits)
next
  case (3 s ps i n s')
  then show ?case using alives_upd [OF 3(2,3), of "InRun n"]
    by (auto simp: fifo_class_def fifo_dequeue_def fifo_inv_def Let_def split: list.splits)
next
  case (4 s ps i n s')
  then show ?case using alives_upd [OF 4(2,3), of Exiting]
    by (auto simp: fifo_class_def fifo_dequeue_def fifo_inv_def Let_def split: list.splits)
next
  case (5 s ps i n s')
  then show ?case using alives_upd [OF 5(2,3), of "AtClean n"] by (auto simp: fifo_class_def fifo_inv_def)
next
  case (6 s ps i n s')
  then show ?case using alives_upd [OF 6(2,3), of "AtErase n"] by (auto simp: fifo_class_def fifo_inv_def)
next
  case (7 s ps i n s')
  then show ?case using alives_upd [OF 7(2,3), of AtDequeue] by (auto simp: fifo_class_def fifo_erase_def fifo_inv_def)
next
  case (8 s ps i s')
  then show ?case using alives_upd [OF 8(2,3), of Gone] unat_dec [of "f_actives s"]
    by (auto simp: fifo_class_def fifo_delete_def fifo_inv_def)
next
  case (9 s ps n s')
  then show ?case by (auto simp: fifo_class_def fifo_dequeue_def fifo_inv_def Let_def split: list.splits)
qed

subsection \<open>What holds for fifo\<close>

definition fifo_args :: task_args where
  "fifo_args = \<lparr>a_fileName = ''task'', a_params = ''{}'', a_name = [], a_priority = 0, a_release = True\<rparr>"

lemmas fifo_eval = task_sys_init_def fifo_init_def task_start_def fifo_class_def fifo_start_def fifo_push_def
  fifo_new_def fifo_delete_def fifo_dequeue_def fifo_erase_def fifo_node_def fifo_node_copy_def empty_node_def
  node_bool_def runner_next_def fifo_args_def Let_def

lemma fifo_exec_reach:
  "task_exec fifo_class (\<lambda>_. True) es (task_sys_init (fifo_init m)) = Some s \<Longrightarrow> fifo_reach s"
  by (rule exec_reach [OF task_reach.init]) (auto simp: fifo_ini_def)

lemma fifo_order_step:
  assumes "fifo_reach s" and "started s = taken s @ f_queue (shared s)" and "task_step fifo_class (\<lambda>_. True) s t"
  shows "started t = taken t @ f_queue (shared t)"
  using assms(3)
proof cases
  case (run i)
  have q: "\<forall>n \<in> set (f_queue (shared s)). node_bool n \<and> fifo_node_copy n = n"
    using fifo.sys_invD(1) [OF fifo.reach_inv [OF assms(1)]] by (simp add: fifo_inv_def)
  from run assms(2) q show ?thesis
    by (cases rule: runner_nextE)
      (auto simp: fifo_class_def fifo_dequeue_def fifo_erase_def fifo_delete_def Let_def split: list.splits)
next
  case (start r now uuid)
  then show ?thesis using assms(2)
    by (auto simp: task_start_def fifo_class_def fifo_start_def fifo_push_def fifo_new_def Let_def)
qed

text \<open>Tasks of class \<open>fifo\<close> are taken in the order in which they were started: at every moment, whatever the
  interleaving of the runners and of calls of \<open>start\<close>, the nodes handed out so far followed by the queue are the nodes
  started. A task is never lost or run twice: it is queued, in execution or finished.\<close>

theorem fifo_order:
  assumes "fifo_reach s"
  shows "started s = taken s @ f_queue (shared s) \<and>
    mset (taken s) = mset (in_run (pcs s)) + mset (finished s) \<and> distinct (map n_uuid (finished s))"
proof -
  have "started s = taken s @ f_queue (shared s)" using assms
  proof induction
    case (init sh)
    then show ?case by (auto simp: task_sys_init_def fifo_ini_def fifo_init_def)
  next
    case (step s t)
    then show ?case by (metis fifo_order_step)
  qed
  then show ?thesis using fifo.sys_invD(3) [OF fifo.reach_inv [OF assms]] fifo.finished_once [OF assms] by simp
qed

theorem fifo_order_witness:
  "\<exists>s. fifo_reach s \<and> started s \<noteq> [] \<and> started s = taken s @ f_queue (shared s) \<and>
    mset (taken s) = mset (in_run (pcs s)) + mset (finished s) \<and> distinct (map n_uuid (finished s))"
proof -
  obtain s where s: "task_exec fifo_class (\<lambda>_. True) [Call fifo_args ''a'' 1, Call fifo_args ''b'' 2, Runner 0]
      (task_sys_init (fifo_init 1)) = Some s" "started s \<noteq> []"
    by (simp add: fifo_eval)
  then have "fifo_reach s" using fifo_exec_reach by blast
  with fifo_order s(2) show ?thesis by blast
qed

text \<open>The number of runners never passes \<open>max\<close>, and \<open>actives()\<close> counts them.\<close>

lemma fifo_actives:
  assumes "fifo_reach s"
  shows "unat (f_actives (shared s)) = alives (pcs s) \<and> alives (pcs s) \<le> unat (f_max (shared s))"
  using fifo.sys_invD(1) [OF fifo.reach_inv [OF assms]] by (simp add: fifo_inv_def)

text \<open>From a state in which some runner will look at the queue again, all tasks of class \<open>fifo\<close> are run if no more are
  started: whatever the order in which the runners move, they stop within a bounded number of steps, and when all have
  stopped every started task has finished.\<close>

theorem fifo_drain:
  assumes "fifo_reach s" and "\<exists>p \<in> set (pcs s). live p"
  shows "(\<forall>is t. runners_run fifo_class is s = Some t \<longrightarrow>
      length is \<le> 4 * length (f_queue (shared s)) + weight (pcs s) \<and>
      (quiescent t \<longrightarrow> mset (finished t) = mset (started t))) \<and>
    (\<exists>is t. runners_run fifo_class is s = Some t \<and> quiescent t)"
  using fifo.drain_attended [OF assms(1)] assms(2) by (simp add: fifo.attended_def fifo.work_def)

text \<open>No runner sees the flag \<open>release\<close> that the caller of \<open>start\<close> passed.\<close>

lemma fifo_release_lost:
  "t_start fifo_class a uuid now s = (n, spawn, s') \<Longrightarrow> \<not> n_release n"
  by (auto simp: fifo_class_def fifo_start_def Let_def split: if_splits)

text \<open>
  A task can be left without a runner: with one runner at most, a task that is started after the runner has found the
  queue empty and before its destructor has run starts no runner, and the runner that leaves does not look again.
\<close>

lemma fifo_lost_wakeup:
  "\<exists>s. fifo_reach s \<and> quiescent s \<and> f_queue (shared s) \<noteq> [] \<and> mset (finished s) \<noteq> mset (started s)"
proof -
  obtain s where s: "task_exec fifo_class (\<lambda>_. True) [Call fifo_args ''a'' 1, Runner 0, Runner 0, Runner 0, Runner 0, Runner 0,
      Call fifo_args ''b'' 2, Runner 0] (task_sys_init (fifo_init 1)) = Some s"
    "pcs s = [Gone]" "f_queue (shared s) \<noteq> []" "length (finished s) < length (started s)"
    by (simp add: fifo_eval)
  from s(1) have "fifo_reach s" by (rule fifo_exec_reach)
  moreover have "mset (finished s) \<noteq> mset (started s)" using s(4) by (metis less_not_refl size_mset)
  ultimately show ?thesis using s by (auto simp: quiescent_def)
qed


subsection \<open>priority\<close>

record priority =
  p_queue :: "node list"
  p_running :: "string \<rightharpoonup> node"
  p_actives :: u32
  p_max :: u32

definition priority_init :: "u32 \<Rightarrow> priority" where
  "priority_init m = \<lparr>p_queue = [], p_running = Map.empty, p_actives = 0, p_max = m\<rparr>"

definition priority_new :: "priority \<Rightarrow> priority" where
  "priority_new s = s\<lparr>p_actives := p_actives s + 1\<rparr>"

definition priority_delete :: "priority \<Rightarrow> priority" where
  "priority_delete s = s\<lparr>p_actives := p_actives s - 1\<rparr>"

definition priority_node :: "task_args \<Rightarrow> string \<Rightarrow> int \<Rightarrow> node" where
  "priority_node a uuid now = empty_node\<lparr>n_uuid := uuid, n_fileName := a_fileName a, n_params := a_params a,
     n_priority := a_priority a, n_release := a_release a, n_microtime := now\<rparr>"

text \<open>The order of the queue: \<open>priority_less n1 n2\<close> says that \<open>n2\<close> comes first.\<close>

definition priority_less :: "node \<Rightarrow> node \<Rightarrow> bool" where
  "priority_less n1 n2 =
     (if n_priority n1 = n_priority n2 then n_microtime n1 > n_microtime n2 else n_priority n1 < n_priority n2)"

definition priority_tops :: "node list \<Rightarrow> node list" where
  "priority_tops q = filter (\<lambda>n. list_all (\<lambda>m. \<not> priority_less n m) q) q"

definition priority_top :: "(node list \<Rightarrow> nat) \<Rightarrow> node list \<Rightarrow> node" where
  "priority_top pick q = priority_tops q ! (pick q mod length (priority_tops q))"

definition priority_push :: "node \<Rightarrow> priority \<Rightarrow> priority" where
  "priority_push n s = s\<lparr>p_queue := p_queue s @ [n]\<rparr>"

definition priority_start :: "task_args \<Rightarrow> string \<Rightarrow> int \<Rightarrow> priority \<Rightarrow> node \<times> bool \<times> priority" where
  "priority_start a uuid now s =
     (let n = priority_node a uuid now; s1 = priority_push n s in
      if p_actives s1 < p_max s1 then (n, True, priority_new s1) else (n, False, s1))"

definition priority_dequeue :: "(node list \<Rightarrow> nat) \<Rightarrow> priority \<Rightarrow> node \<times> priority" where
  "priority_dequeue pick s =
     (if p_queue s = [] then (empty_node, s)
      else let n = priority_top pick (p_queue s) in
        (n, s\<lparr>p_queue := remove1 n (p_queue s), p_running := (p_running s)(n_uuid n \<mapsto> n)\<rparr>))"

definition priority_erase :: "node \<Rightarrow> priority \<Rightarrow> priority" where
  "priority_erase n s = s\<lparr>p_running := (p_running s)(n_uuid n := None)\<rparr>"

definition priority_class :: "(node list \<Rightarrow> nat) \<Rightarrow> (task_args, priority) task_class" where
  "priority_class pick = \<lparr>t_start = priority_start, t_dequeue = priority_dequeue pick, t_finish = (\<lambda>n s. s),
     t_clean = (\<lambda>n s. s), t_erase = priority_erase, t_destroy = priority_delete\<rparr>"

definition priority_ini :: "priority \<Rightarrow> bool" where
  "priority_ini s \<longleftrightarrow> (\<exists>m. s = priority_init m)"

abbreviation priority_reach :: "(node list \<Rightarrow> nat) \<Rightarrow> priority task_sys \<Rightarrow> bool" where
  "priority_reach pick \<equiv> task_reach (priority_class pick) (\<lambda>_. True) priority_ini"

definition priority_inv :: "priority \<Rightarrow> pc list \<Rightarrow> bool" where
  "priority_inv s ps \<longleftrightarrow> unat (p_actives s) = alives ps \<and> alives ps \<le> unat (p_max s) \<and>
     (\<forall>n \<in> set (p_queue s). node_bool n)"

lemma priority_node_simps [simp]:
  "node_bool (priority_node a uuid now) \<longleftrightarrow> 0 < now" "n_uuid (priority_node a uuid now) = uuid"
  "n_microtime (priority_node a uuid now) = now"
  by (simp_all add: node_bool_def priority_node_def)

lemma priority_max_ex: "q \<noteq> [] \<Longrightarrow> \<exists>n \<in> set q. \<forall>m \<in> set q. \<not> priority_less n m"
proof (induction q rule: list_nonempty_induct)
  case (cons x xs)
  then obtain n where n: "n \<in> set xs" "\<forall>m \<in> set xs. \<not> priority_less n m" by blast
  show ?case
  proof (cases "priority_less n x")
    case True
    then have "\<forall>m \<in> set (x # xs). \<not> priority_less x m"
      using n(2) by (fastforce simp: priority_less_def split: if_splits)
    then show ?thesis by auto
  qed (use n in auto)
qed (auto simp: priority_less_def)

lemma priority_top_max:
  assumes "q \<noteq> []"
  shows "priority_top pick q \<in> set q \<and> (\<forall>m \<in> set q. \<not> priority_less (priority_top pick q) m)"
proof -
  have "priority_tops q \<noteq> []" using priority_max_ex [OF assms]
    by (auto simp: priority_tops_def filter_empty_conv list_all_iff)
  then have "priority_top pick q \<in> set (priority_tops q)" by (simp add: priority_top_def)
  then show ?thesis by (auto simp: priority_tops_def list_all_iff)
qed

interpretation priority: task_queue_window "priority_class pick" "\<lambda>_. True" priority_ini priority_inv
  "\<lambda>s. mset (p_queue s)" p_running for pick
proof (unfold_locales, goal_cases)
  case (1 s)
  then show ?case by (auto simp: priority_ini_def priority_init_def priority_inv_def)
next
  case (2 s ps r now uuid n spawn s')
  then show ?case using unat_inc [of "p_actives s" "p_max s"]
    by (auto simp: priority_class_def priority_start_def priority_push_def priority_new_def priority_inv_def
        word_less_nat_alt Let_def split: if_splits)
next
  case (3 s ps i n s')
  then show ?case using alives_upd [OF 3(2,3), of "InRun n"] priority_top_max [of "p_queue s" pick]
    by (auto simp: priority_class_def priority_dequeue_def priority_inv_def Let_def split: if_splits
        dest: in_set_remove1 notin_set_remove1)
next
  case (4 s ps i n s')
  then show ?case using alives_upd [OF 4(2,3), of Exiting] priority_top_max [of "p_queue s" pick]
    by (auto simp: priority_class_def priority_dequeue_def priority_inv_def Let_def split: if_splits)
next
  case (5 s ps i n s')
  then show ?case using alives_upd [OF 5(2,3), of "AtClean n"] by (auto simp: priority_class_def priority_inv_def)
next
  case (6 s ps i n s')
  then show ?case using alives_upd [OF 6(2,3), of "AtErase n"] by (auto simp: priority_class_def priority_inv_def)
next
  case (7 s ps i n s')
  then show ?case using alives_upd [OF 7(2,3), of AtDequeue]
    by (auto simp: priority_class_def priority_erase_def priority_inv_def)
next
  case (8 s ps i s')
  then show ?case using alives_upd [OF 8(2,3), of Gone] unat_dec [of "p_actives s"]
    by (auto simp: priority_class_def priority_delete_def priority_inv_def)
next
  case (9 s ps n s')
  then show ?case using priority_top_max [of "p_queue s" pick]
    by (auto simp: priority_class_def priority_dequeue_def priority_inv_def Let_def split: if_splits)
qed


subsection \<open>What holds for priority\<close>

lemma priority_dequeueD:
  "priority_dequeue pick s = (n, s') \<Longrightarrow> node_bool n \<Longrightarrow>
     p_queue s \<noteq> [] \<and> n = priority_top pick (p_queue s) \<and> p_queue s' = remove1 n (p_queue s)"
  by (auto simp: priority_dequeue_def Let_def split: if_splits)

text \<open>C34: A runner of class \<open>priority\<close> always takes a task of the highest priority that is queued, and the oldest one of that
  priority: every task left in the queue has a lower priority, or the same one and a time that is not earlier. No task is
  lost or run twice.\<close>

theorem priority_order:
  assumes "priority_reach pick s" and "runner_next (priority_class pick) i s = Some t" and "taken t = taken s @ [n]"
  shows "(\<forall>m \<in> set (p_queue (shared t)). n_priority m < n_priority n \<or>
      n_priority m = n_priority n \<and> n_microtime n \<le> n_microtime m) \<and>
    mset (started t) = mset (p_queue (shared t)) + mset (in_run (pcs t)) + mset (finished t)"
proof
  have "task_reach (priority_class pick) (\<lambda>_. True) priority_ini t"
    using assms(1,2) by (auto intro: task_reach.step task_step.run)
  then show "mset (started t) = mset (p_queue (shared t)) + mset (in_run (pcs t)) + mset (finished t)"
    by (rule priority.accounting)
  from assms(2) have d: "priority_dequeue pick (shared s) = (n, shared t) \<and> node_bool n"
    using assms(3) by (cases rule: runner_nextE) (auto simp: priority_class_def)
  then have q: "p_queue (shared s) \<noteq> []" "n = priority_top pick (p_queue (shared s))"
    "p_queue (shared t) = remove1 n (p_queue (shared s))"
    using priority_dequeueD by blast+
  then have "\<forall>m \<in> set (p_queue (shared t)). \<not> priority_less n m"
    using priority_top_max [OF q(1), of pick] notin_set_remove1 by metis
  then show "\<forall>m \<in> set (p_queue (shared t)). n_priority m < n_priority n \<or>
      n_priority m = n_priority n \<and> n_microtime n \<le> n_microtime m"
    by (auto simp: priority_less_def split: if_splits)
qed

lemmas priority_eval = task_sys_init_def priority_init_def task_start_def priority_class_def priority_start_def
  priority_push_def priority_new_def priority_delete_def priority_dequeue_def priority_erase_def priority_node_def
  priority_top_def priority_tops_def priority_less_def empty_node_def node_bool_def runner_next_def fifo_args_def Let_def

lemma priority_exec_reach:
  "task_exec (priority_class pick) (\<lambda>_. True) es (task_sys_init (priority_init m)) = Some s \<Longrightarrow> priority_reach pick s"
  by (rule exec_reach [OF task_reach.init]) (auto simp: priority_ini_def)

theorem priority_order_witness:
  "\<exists>t :: priority task_sys. map n_uuid (taken t) = [''b''] \<and> (\<forall>m \<in> set (p_queue (shared t)). n_priority m < 5 \<or>
      n_priority m = 5 \<and> 2 \<le> n_microtime m) \<and> map n_uuid (p_queue (shared t)) = [''a'', ''c''] \<and>
    mset (started t) = mset (p_queue (shared t)) + mset (in_run (pcs t)) + mset (finished t)"
proof -
  let ?cls = "priority_class (\<lambda>_. 0)" and ?hi = "fifo_args\<lparr>a_priority := 5\<rparr>"
  obtain s where s: "task_exec ?cls (\<lambda>_. True) [Call fifo_args ''a'' 1, Call ?hi ''b'' 2, Call ?hi ''c'' 3]
      (task_sys_init (priority_init 1)) = Some s"
    by (simp add: priority_eval)
  obtain t n where t: "runner_next ?cls 0 s = Some t" "taken t = taken s @ [n]" "n_uuid n = ''b''" "taken s = []"
    "n_priority n = 5" "n_microtime n = 2" "map n_uuid (p_queue (shared t)) = [''a'', ''c'']"
    using s by (auto simp: priority_eval)
  from priority_order [OF priority_exec_reach [OF s] t(1,2)] t(2-) show ?thesis by (auto intro!: exI [of _ t])
qed

lemma priority_drain:
  assumes "priority_reach pick s" and "\<exists>p \<in> set (pcs s). live p"
  shows "(\<forall>is t. runners_run (priority_class pick) is s = Some t \<longrightarrow>
      length is \<le> 4 * length (p_queue (shared s)) + weight (pcs s) \<and>
      (quiescent t \<longrightarrow> mset (finished t) = mset (started t))) \<and>
    (\<exists>is t. runners_run (priority_class pick) is s = Some t \<and> quiescent t)"
  using priority.drain_attended [OF assms(1)] assms(2) by (simp add: priority.attended_def priority.work_def)

lemma priority_lost_wakeup:
  "\<exists>s. priority_reach (\<lambda>_. 0) s \<and> quiescent s \<and> p_queue (shared s) \<noteq> [] \<and> mset (finished s) \<noteq> mset (started s)"
proof -
  obtain s where s: "task_exec (priority_class (\<lambda>_. 0)) (\<lambda>_. True) [Call fifo_args ''a'' 1, Runner 0, Runner 0, Runner 0,
      Runner 0, Runner 0, Call fifo_args ''b'' 2, Runner 0] (task_sys_init (priority_init 1)) = Some s"
    "pcs s = [Gone]" "p_queue (shared s) \<noteq> []" "length (finished s) < length (started s)"
    by (simp add: priority_eval)
  from s(1) have "priority_reach (\<lambda>_. 0) s" by (rule priority_exec_reach)
  moreover have "mset (finished s) \<noteq> mset (started s)" using s(4) by (metis less_not_refl size_mset)
  ultimately show ?thesis using s by (auto simp: quiescent_def)
qed

end
