(* ===== verification/Task_Named.thy ===== *)
theory Task_Named
  imports Task_Runner
begin

text \<open>
  What the task classes \<open>balanced\<close>, \<open>scheduled\<close> and \<open>singular\<close> share: one queue of nodes per name in an
  \<open>unordered_map\<close>, and the names in a vector in the order of their arrival. The lemmas say how the nodes that are queued
  change when a node is pushed or taken and when a name with an empty queue is removed.
\<close>

subsection \<open>Named queues\<close>

type_synonym u64 = "64 word"
type_synonym queues = "string \<rightharpoonup> node list"

definition queue_at :: "queues \<Rightarrow> string \<Rightarrow> node list" where
  "queue_at m k = map_at m [] k"

definition queued_of :: "string list \<Rightarrow> queues \<Rightarrow> node multiset" where
  "queued_of v m = mset (concat (map (queue_at m) v))"

lemma queue_at_simps [simp]:
  "queue_at (m(k \<mapsto> q)) k' = (if k' = k then q else queue_at m k')"
  "queue_at (m(k := None)) k' = (if k' = k then [] else queue_at m k')"
  by (simp_all add: queue_at_def)

lemma queue_at_touch [simp]: "queue_at (map_touch m [] k) = queue_at m"
  by (auto simp: queue_at_def)

lemma queued_of_simps [simp]:
  "queued_of [] m = {#}" "queued_of (x # v) m = mset (queue_at m x) + queued_of v m"
  "queued_of (v @ w) m = queued_of v m + queued_of w m"
  by (simp_all add: queued_of_def)

lemma queued_of_cong: "(\<And>x. x \<in> set v \<Longrightarrow> queue_at m x = queue_at m' x) \<Longrightarrow> queued_of v m = queued_of v m'"
  by (simp add: queued_of_def cong: map_cong)

lemma queued_of_notin [simp]:
  "k \<notin> set v \<Longrightarrow> queued_of v (m(k \<mapsto> q)) = queued_of v m" "k \<notin> set v \<Longrightarrow> queued_of v (m(k := None)) = queued_of v m"
  by (rule queued_of_cong, auto)+

lemma queued_of_upd:
  assumes "distinct v" and "k \<in> set v"
  shows "queued_of v (m(k \<mapsto> q)) + mset (queue_at m k) = queued_of v m + mset q"
proof -
  obtain as bs where "v = as @ k # bs" "k \<notin> set as" "k \<notin> set bs" using assms by (metis split_list_first distinct_append
        distinct.simps(2) not_distinct_conv_prefix split_list)
  then show ?thesis by simp
qed

lemma queued_of_empty: "queued_of v m = {#} \<longleftrightarrow> (\<forall>x \<in> set v. queue_at m x = [])"
  by (simp add: queued_of_def)

lemma in_queued_of: "n \<in># queued_of v m \<longleftrightarrow> (\<exists>x \<in> set v. n \<in> set (queue_at m x))"
  by (simp add: queued_of_def)

text \<open>Every name of the vector has a queue, and every queued node is true and stands under its own name.\<close>

definition named_ok :: "string list \<Rightarrow> queues \<Rightarrow> bool" where
  "named_ok v m \<longleftrightarrow> distinct v \<and> dom m = set v \<and>
     (\<forall>x. \<forall>n \<in> set (queue_at m x). node_bool n \<and> n_name n = x)"

lemma named_ok_empty [simp]: "named_ok [] Map.empty"
  by (simp add: named_ok_def queue_at_def)

lemma queue_at_in: "named_ok v m \<Longrightarrow> queue_at m x \<noteq> [] \<Longrightarrow> x \<in> set v"
  by (auto simp: named_ok_def queue_at_def map_at_def split: option.splits)

lemma named_ok_push_old:
  assumes "named_ok v m" and "n_name n \<in> dom m" and "node_bool n"
  shows "named_ok v (m(n_name n \<mapsto> queue_at m (n_name n) @ [n]))"
    and "queued_of v (m(n_name n \<mapsto> queue_at m (n_name n) @ [n])) = add_mset n (queued_of v m)"
proof -
  show "named_ok v (m(n_name n \<mapsto> queue_at m (n_name n) @ [n]))"
    using assms by (auto simp: named_ok_def insert_absorb)
  have "distinct v" "n_name n \<in> set v" using assms by (auto simp: named_ok_def)
  from queued_of_upd [OF this, of m "queue_at m (n_name n) @ [n]"]
  show "queued_of v (m(n_name n \<mapsto> queue_at m (n_name n) @ [n])) = add_mset n (queued_of v m)" by simp
qed

lemma named_ok_push_new:
  assumes "named_ok v m" and "n_name n \<notin> dom m" and "node_bool n"
  shows "named_ok (v @ [n_name n]) (m(n_name n \<mapsto> [n]))"
    and "queued_of (v @ [n_name n]) (m(n_name n \<mapsto> [n])) = add_mset n (queued_of v m)"
  using assms by (auto simp: named_ok_def)

lemma named_ok_pop:
  assumes "named_ok v m" and "queue_at m x = n # q"
  shows "named_ok v (m(x \<mapsto> q))" and "queued_of v m = add_mset n (queued_of v (m(x \<mapsto> q)))"
    and "node_bool n \<and> n_name n = x"
proof -
  have x: "x \<in> set v" by (rule queue_at_in [OF assms(1)]) (simp add: assms(2))
  have q: "\<And>y k. k \<in> set (queue_at m y) \<Longrightarrow> node_bool k \<and> n_name k = y" "distinct v" "dom m = set v"
    using assms(1) by (auto simp: named_ok_def)
  show "node_bool n \<and> n_name n = x" by (rule q(1)) (simp add: assms(2))
  show "named_ok v (m(x \<mapsto> q))" using q x assms(2) q(1) [of _ x] by (auto simp: named_ok_def)
  from queued_of_upd [OF q(2) x, of m q] assms(2)
  show "queued_of v m = add_mset n (queued_of v (m(x \<mapsto> q)))" by simp
qed

text \<open>Taking the name at an index out of the vector, with its empty queue.\<close>

definition remove_nth :: "nat \<Rightarrow> 'a list \<Rightarrow> 'a list" where
  "remove_nth i xs = take i xs @ drop (Suc i) xs"

lemma remove_nth_split [simp]: "remove_nth (length as) (as @ x # bs) = as @ bs"
  by (simp add: remove_nth_def)

lemma length_remove_nth [simp]: "i < length xs \<Longrightarrow> length (remove_nth i xs) = length xs - 1"
  by (simp add: remove_nth_def)

lemma named_ok_remove:
  assumes "named_ok v m" and "i < length v" and "queue_at m (v ! i) = []"
  shows "named_ok (remove_nth i v) (m(v ! i := None)) \<and> queued_of (remove_nth i v) (m(v ! i := None)) = queued_of v m"
proof -
  obtain as bs where v: "v = as @ v ! i # bs" "length as = i" using split_at [OF assms(2)] by auto
  define x where "x = v ! i"
  have v: "v = as @ x # bs" "length as = i" using v by (simp_all add: x_def)
  moreover have "x \<notin> set as" "x \<notin> set bs" "distinct (as @ bs)" using assms(1) v(1) by (auto simp: named_ok_def)
  moreover have "dom (m(x := None)) = set (as @ bs)" using assms(1) calculation by (auto simp: named_ok_def)
  moreover have "remove_nth i v = as @ bs" using v by auto
  ultimately show ?thesis using assms(1,3) unfolding x_def [symmetric] by (auto simp: named_ok_def)
qed

lemma named_ok_remove1:
  assumes "named_ok v m" and "queue_at m x = []"
  shows "named_ok (remove1 x v) (m(x := None)) \<and> queued_of (remove1 x v) (m(x := None)) = queued_of v m"
proof (cases "x \<in> set v")
  case True
  then obtain i where i: "i < length v" "v ! i = x" by (meson in_set_conv_nth)
  obtain as bs where v: "v = as @ x # bs" "length as = i" using split_at [OF i(1)] i(2) by auto
  then have "x \<notin> set as" using assms(1) by (auto simp: named_ok_def)
  then have "remove1 x v = remove_nth i v" using v by (auto simp: remove1_append)
  with named_ok_remove [OF assms(1) i(1)] assms(2) i(2) show ?thesis by simp
next
  case False
  then have "m x = None" "remove1 x v = v" using assms(1) by (auto simp: named_ok_def remove1_idem)
  then have "m(x := None) = m" by auto
  with assms(1) \<open>remove1 x v = v\<close> show ?thesis by simp
qed

text \<open>The number of tasks of a name in execution.\<close>

definition runs_of :: "string \<Rightarrow> pc list \<Rightarrow> nat" where
  "runs_of x ps = length (filter (\<lambda>n. n_name n = x) (in_run ps))"

lemma runs_of_upd:
  assumes "i < length ps" and "ps ! i = p"
  shows "runs_of x (ps[i := q]) + length (filter (\<lambda>n. n_name n = x) (pc_run p)) =
    runs_of x ps + length (filter (\<lambda>n. n_name n = x) (pc_run q))"
proof -
  obtain as bs where "ps = as @ p # bs" "length as = i" using split_at [OF assms(1)] assms(2) by auto
  then show ?thesis by (simp add: runs_of_def in_run_def list_update_append)
qed

lemma runs_of_split:
  "runs_of x (as @ InRun n # bs) = runs_of x as + (if n_name n = x then 1 else 0) + runs_of x bs"
  by (simp add: runs_of_def in_run_def)

lemma runs_of_pos: "0 < runs_of x ps \<longleftrightarrow> (\<exists>n. n_name n = x \<and> InRun n \<in> set ps)"
  by (auto simp: runs_of_def filter_empty_conv set_in_run)

lemma runs_of_lives: "runs_of x ps + (if AtDequeue \<in> set ps then 1 else 0) \<le> lives ps"
proof -
  have "length (in_run ps) + (if AtDequeue \<in> set ps then 1 else 0) \<le> lives ps"
  proof (induction ps)
    case (Cons p ps)
    then show ?case by (cases p) (auto simp: in_run_def lives_def split: if_splits)
  qed simp
  moreover have "runs_of x ps \<le> length (in_run ps)" by (simp add: runs_of_def)
  ultimately show ?thesis by linarith
qed

lemma runs_of_append [simp]: "runs_of x (ps @ [AtDequeue]) = runs_of x ps"
  by (simp add: runs_of_def)

text \<open>The clients give their tasks a name that is not empty.\<close>

definition name_ok :: "task_args \<Rightarrow> bool" where
  "name_ok a \<longleftrightarrow> a_name a \<noteq> []"

definition name_args :: "string \<Rightarrow> task_args" where
  "name_args x = \<lparr>a_fileName = ''task'', a_params = ''{}'', a_name = x, a_priority = 0, a_release = False\<rparr>"


end
