(* ===== verification/Task_Balanced.thy ===== *)
theory Task_Balanced
  imports Task_Named
begin

text \<open>
  The class \<open>balanced\<close> of \<open>src/arken/concurrent/task\<close>: one queue per name in \<open>map()\<close>, the names in \<open>vector()\<close> in the order
  of their arrival, and \<open>position()\<close> that goes round them. \<open>dequeue\<close> forgets the names whose queue is empty and
  takes one node of the first other name; \<open>actives()\<close> is counted down in the critical section of \<open>dequeue\<close>, so that a
  runner that leaves is no longer counted when the next \<open>start\<close> looks.

  \<open>rr_dequeue\<close> is the abstract
  specification of \<open>dequeue\<close>: a ring of names with their queues, of which the first that is not empty is served and put
  to the end.
\<close>

subsection \<open>balanced\<close>

record balanced =
  b_vector :: "string list"
  b_position :: u64
  b_map :: queues
  b_running :: "string \<rightharpoonup> node"
  b_actives :: u32
  b_max :: u32

definition balanced_init :: "u32 \<Rightarrow> balanced" where
  "balanced_init m = \<lparr>b_vector = [], b_position = 0, b_map = Map.empty, b_running = Map.empty, b_actives = 0, b_max = m\<rparr>"

definition balanced_new :: "balanced \<Rightarrow> balanced" where
  "balanced_new s = s\<lparr>b_actives := b_actives s + 1\<rparr>"

definition balanced_node :: "task_args \<Rightarrow> string \<Rightarrow> int \<Rightarrow> node" where
  "balanced_node a uuid now = empty_node\<lparr>n_uuid := uuid, n_fileName := a_fileName a, n_params := a_params a,
     n_name := a_name a, n_release := a_release a, n_microtime := now\<rparr>"

definition balanced_push :: "node \<Rightarrow> balanced \<Rightarrow> balanced" where
  "balanced_push n s =
     (let s1 = (if b_map s (n_name n) = None
                then s\<lparr>b_map := (b_map s)(n_name n \<mapsto> []), b_vector := b_vector s @ [n_name n]\<rparr> else s)
      in s1\<lparr>b_map := (b_map s1)(n_name n \<mapsto> queue_at (b_map s1) (n_name n) @ [n])\<rparr>)"

definition balanced_start :: "task_args \<Rightarrow> string \<Rightarrow> int \<Rightarrow> balanced \<Rightarrow> node \<times> bool \<times> balanced" where
  "balanced_start a uuid now s =
     (let n = balanced_node a uuid now; s1 = balanced_push n s in
      if b_actives s1 < b_max s1 then (n, True, balanced_new s1) else (n, False, s1))"

text \<open>The loop of \<open>dequeue\<close>: it returns the name, the vector, the position and the map.\<close>

function balanced_scan :: "string list \<Rightarrow> u64 \<Rightarrow> queues \<Rightarrow> string \<times> string list \<times> u64 \<times> queues" where
  "balanced_scan v p m =
     (if v = [] then ([], v, p, m)
      else let p1 = (if unat p \<ge> length v then 0 else p); name = v ! unat p1 in
        if queue_at m name = [] then balanced_scan (remove_nth (unat p1) v) p1 (m(name := None))
        else (name, v, p1, m))"
  by pat_completeness auto
termination by (relation "measure (\<lambda>(v, _, _). length v)") (auto simp: not_le)

declare balanced_scan.simps [simp del]

definition balanced_dequeue :: "balanced \<Rightarrow> node \<times> balanced" where
  "balanced_dequeue s =
     (let (name, v, p, m) = balanced_scan (b_vector s) (b_position s) (b_map s);
          s1 = s\<lparr>b_vector := v, b_position := p + 1, b_map := m\<rparr>
      in if name = [] then (empty_node, s1\<lparr>b_actives := b_actives s1 - 1\<rparr>)
         else let n = hd (queue_at m name) in
           (n, s1\<lparr>b_map := m(name \<mapsto> tl (queue_at m name)), b_running := (b_running s)(n_uuid n \<mapsto> n)\<rparr>))"

definition balanced_erase :: "node \<Rightarrow> balanced \<Rightarrow> balanced" where
  "balanced_erase n s = s\<lparr>b_running := (b_running s)(n_uuid n := None)\<rparr>"

definition balanced_class :: "(task_args, balanced) task_class" where
  "balanced_class = \<lparr>t_start = balanced_start, t_dequeue = balanced_dequeue, t_finish = (\<lambda>n s. s),
     t_clean = (\<lambda>n s. s), t_erase = balanced_erase, t_destroy = (\<lambda>s. s)\<rparr>"

text \<open>At least one runner is allowed.\<close>

definition balanced_ini :: "balanced \<Rightarrow> bool" where
  "balanced_ini s \<longleftrightarrow> (\<exists>m. 0 < m \<and> s = balanced_init m)"

abbreviation balanced_reach :: "balanced task_sys \<Rightarrow> bool" where
  "balanced_reach \<equiv> task_reach balanced_class name_ok balanced_ini"

definition balanced_inv :: "balanced \<Rightarrow> pc list \<Rightarrow> bool" where
  "balanced_inv s ps \<longleftrightarrow> named_ok (b_vector s) (b_map s) \<and> [] \<notin> set (b_vector s) \<and> 0 < b_max s \<and>
     unat (b_actives s) = lives ps \<and> lives ps \<le> unat (b_max s) \<and>
     (queued_of (b_vector s) (b_map s) \<noteq> {#} \<longrightarrow> 0 < lives ps)"

text \<open>The loop keeps what is queued, and ends at a name that has a task or with no name left.\<close>

lemma balanced_scan_spec:
  "named_ok v m \<Longrightarrow> balanced_scan v p m = (name, v', p', m') \<Longrightarrow>
     named_ok v' m' \<and> set v' \<subseteq> set v \<and> queued_of v' m' = queued_of v m \<and>
     (if v' = [] then name = [] else unat p' < length v' \<and> name = v' ! unat p' \<and> queue_at m' name \<noteq> [])"
proof (induction v p m arbitrary: name v' p' m' rule: balanced_scan.induct)
  case (1 v p m)
  define p1 where "p1 = (if unat p \<ge> length v then 0 else p)"
  show ?case
  proof (cases "v = []")
    case True
    with 1 show ?thesis by (auto simp: balanced_scan.simps)
  next
    case False
    then have lt: "unat p1 < length v" by (simp add: p1_def)
    show ?thesis
    proof (cases "queue_at m (v ! unat p1) = []")
      case e: True
      note r = named_ok_remove [OF 1(2) lt e]
      have "balanced_scan (remove_nth (unat p1) v) p1 (m(v ! unat p1 := None)) = (name, v', p', m')"
        using 1(3) False e by (simp add: balanced_scan.simps [of v p m] p1_def Let_def)
      from 1(1) [OF False p1_def refl e conjunct1 [OF r] this] have "named_ok v' m' \<and> set v' \<subseteq> set (remove_nth (unat p1) v) \<and>
        queued_of v' m' = queued_of v m \<and>
        (if v' = [] then name = [] else unat p' < length v' \<and> name = v' ! unat p' \<and> queue_at m' name \<noteq> [])"
        unfolding conjunct2 [OF r] .
      moreover have "set (remove_nth (unat p1) v) \<subseteq> set v"
        using set_take_subset [of "unat p1" v] set_drop_subset [of "Suc (unat p1)" v] by (simp add: remove_nth_def)
      ultimately show ?thesis by blast
    next
      case n: False
      then have "name = v ! unat p1 \<and> v' = v \<and> p' = p1 \<and> m' = m"
        using 1(3) False unfolding balanced_scan.simps [of v p m] p1_def [symmetric] by (auto simp: Let_def)
      with 1(2) False lt n show ?thesis by auto
    qed
  qed
qed

lemma balanced_dequeue_some:
  assumes "named_ok (b_vector s) (b_map s)" and "balanced_dequeue s = (n, s')" and "node_bool n"
  shows "named_ok (b_vector s') (b_map s') \<and> set (b_vector s') \<subseteq> set (b_vector s) \<and>
    queued_of (b_vector s) (b_map s) = add_mset n (queued_of (b_vector s') (b_map s')) \<and>
    b_running s' = (b_running s)(n_uuid n \<mapsto> n) \<and> b_actives s' = b_actives s \<and> b_max s' = b_max s"
proof -
  obtain name v p m where sc: "balanced_scan (b_vector s) (b_position s) (b_map s) = (name, v, p, m)"
    by (metis prod_cases4)
  note sp = balanced_scan_spec [OF assms(1) sc]
  have ne: "name \<noteq> []" using assms(2,3) sc by (auto simp: balanced_dequeue_def Let_def)
  then have v: "v \<noteq> []" "queue_at m name \<noteq> []" using sp by (auto split: if_splits)
  then have n: "queue_at m name = n # tl (queue_at m name)" using assms(2) sc ne
    by (auto simp: balanced_dequeue_def Let_def)
  have s': "s' = s\<lparr>b_vector := v, b_position := p + 1, b_map := m(name \<mapsto> tl (queue_at m name)),
      b_running := (b_running s)(n_uuid n \<mapsto> n)\<rparr>"
    using assms(2) sc ne by (auto simp: balanced_dequeue_def Let_def)
  from named_ok_pop [OF conjunct1 [OF sp] n] sp show ?thesis by (simp add: s')
qed

lemma balanced_dequeue_none:
  assumes "named_ok (b_vector s) (b_map s)" and "[] \<notin> set (b_vector s)" and "balanced_dequeue s = (n, s')" and "\<not> node_bool n"
  shows "b_vector s' = [] \<and> b_map s' = Map.empty \<and> queued_of (b_vector s) (b_map s) = {#} \<and>
    b_running s' = b_running s \<and> b_actives s' = b_actives s - 1 \<and> b_max s' = b_max s"
proof -
  obtain name v p m where sc: "balanced_scan (b_vector s) (b_position s) (b_map s) = (name, v, p, m)"
    by (metis prod_cases4)
  note sp = balanced_scan_spec [OF assms(1) sc]
  have "name = []"
  proof (rule ccontr)
    assume ne: "name \<noteq> []"
    then have "queue_at m name \<noteq> []" using sp by (auto split: if_splits)
    moreover have "n = hd (queue_at m name)" using assms(3) sc ne by (auto simp: balanced_dequeue_def Let_def)
    ultimately have "n \<in> set (queue_at m name)" by simp
    then show False using sp assms(4) by (auto simp: named_ok_def)
  qed
  moreover have "v = []"
  proof (rule ccontr)
    assume "v \<noteq> []"
    with sp have "name \<in> set v" by auto
    then show False using sp assms(2) \<open>name = []\<close> by auto
  qed
  ultimately show ?thesis using assms(3) sc sp by (auto simp: balanced_dequeue_def Let_def named_ok_def)
qed

lemma balanced_push_ok:
  assumes "named_ok (b_vector s) (b_map s)" and "node_bool n"
  shows "named_ok (b_vector (balanced_push n s)) (b_map (balanced_push n s)) \<and>
    set (b_vector (balanced_push n s)) = insert (n_name n) (set (b_vector s)) \<and>
    queued_of (b_vector (balanced_push n s)) (b_map (balanced_push n s)) = add_mset n (queued_of (b_vector s) (b_map s)) \<and>
    b_running (balanced_push n s) = b_running s \<and> b_actives (balanced_push n s) = b_actives s \<and>
    b_max (balanced_push n s) = b_max s"
proof (cases "b_map s (n_name n) = None")
  case True
  then have "n_name n \<notin> dom (b_map s)" by auto
  from named_ok_push_new [OF assms(1) this assms(2)] True show ?thesis by (simp add: balanced_push_def)
next
  case False
  then have d: "n_name n \<in> dom (b_map s)" by auto
  moreover have "n_name n \<in> set (b_vector s)" using d assms(1) by (auto simp: named_ok_def)
  ultimately show ?thesis using named_ok_push_old [OF assms(1) d assms(2)] False by (auto simp: balanced_push_def)
qed

lemma balanced_node_simps [simp]:
  "node_bool (balanced_node a uuid now) \<longleftrightarrow> 0 < now" "n_uuid (balanced_node a uuid now) = uuid"
  "n_name (balanced_node a uuid now) = a_name a"
  by (simp_all add: node_bool_def balanced_node_def)

lemma balanced_inv_move:
  "balanced_inv s ps \<Longrightarrow> i < length ps \<Longrightarrow> ps ! i = p \<Longrightarrow> live q = live p \<Longrightarrow> balanced_inv s (ps[i := q])"
  using lives_upd [of i ps p q] by (auto simp: balanced_inv_def split: if_splits)

interpretation balanced: task_queue_live balanced_class name_ok balanced_ini balanced_inv
  "\<lambda>s. queued_of (b_vector s) (b_map s)" b_running
proof (unfold_locales, goal_cases)
  case (1 s)
  then show ?case by (auto simp: balanced_ini_def balanced_init_def balanced_inv_def)
next
  case (2 s ps r now uuid n spawn s')
  let ?n = "balanced_node r uuid now"
  from 2 have i: "named_ok (b_vector s) (b_map s)" by (simp add: balanced_inv_def)
  from balanced_push_ok [OF i, of ?n] 2 unat_inc [of "b_actives s" "b_max s"] show ?case
    by (auto simp: balanced_class_def balanced_start_def balanced_new_def balanced_inv_def name_ok_def
        word_less_nat_alt Let_def split: if_splits)
next
  case (3 s ps i n s')
  then have "named_ok (b_vector s) (b_map s)" "balanced_dequeue s = (n, s')"
    by (auto simp: balanced_inv_def balanced_class_def)
  from balanced_dequeue_some [OF this 3(5)] 3 lives_upd [OF 3(2,3), of "InRun n"] show ?case
    by (auto simp: balanced_inv_def)
next
  case (4 s ps i n s')
  then have "named_ok (b_vector s) (b_map s)" "[] \<notin> set (b_vector s)" "balanced_dequeue s = (n, s')"
    by (auto simp: balanced_inv_def balanced_class_def)
  from balanced_dequeue_none [OF this 4(5)] 4 lives_upd [OF 4(2,3), of Exiting] unat_dec [of "b_actives s"] show ?case
    by (auto simp: balanced_inv_def)
next
  case (5 s ps i n s')
  then show ?case using balanced_inv_move [of s ps i] by (simp add: balanced_class_def)
next
  case (6 s ps i n s')
  then show ?case using balanced_inv_move [of s ps i] by (simp add: balanced_class_def)
next
  case (7 s ps i n s')
  then show ?case using balanced_inv_move [OF 7(1-3), of AtDequeue]
    by (simp add: balanced_class_def balanced_erase_def balanced_inv_def)
next
  case (8 s ps i s')
  then show ?case using balanced_inv_move [of s ps i] by (simp add: balanced_class_def)
next
  case (9 s ps)
  then show ?case by (simp add: balanced_inv_def lives_pos)
qed


subsection \<open>What holds for balanced\<close>

text \<open>C10: Every task of class \<open>balanced\<close> is run: if no more tasks are started, then whatever the order in which the runners
  move they stop within a bounded number of steps, and when all have stopped every task that was started (under a name that
  is not empty) has finished. No task is left behind by a runner that leaves while another one calls \<open>start\<close>.\<close>

theorem balanced_drain:
  assumes "balanced_reach s"
  shows "(\<forall>is t. runners_run balanced_class is s = Some t \<longrightarrow>
      length is \<le> 4 * size (queued_of (b_vector (shared s)) (b_map (shared s))) + weight (pcs s) \<and>
      (quiescent t \<longrightarrow> mset (finished t) = mset (started t))) \<and>
    (\<exists>is t. runners_run balanced_class is s = Some t \<and> quiescent t)"
  using balanced.drain [OF assms] by (simp add: balanced.work_def)

text \<open>The ring: the names from the position on, then those before it.\<close>

definition ring :: "string list \<Rightarrow> u64 \<Rightarrow> string list" where
  "ring v p = (let q = (if unat p \<ge> length v then 0 else unat p) in drop q v @ take q v)"

definition balanced_ring :: "balanced \<Rightarrow> (string \<times> node list) list" where
  "balanced_ring s = map (\<lambda>x. (x, queue_at (b_map s) x)) (ring (b_vector s) (b_position s))"

fun rr_dequeue :: "(string \<times> node list) list \<Rightarrow> node \<times> (string \<times> node list) list" where
  "rr_dequeue [] = (empty_node, [])"
| "rr_dequeue ((x, []) # r) = rr_dequeue r"
| "rr_dequeue ((x, n # q) # r) = (n, r @ [(x, q)])"

lemma distinct_nth_split:
  assumes "i < length xs" and "distinct xs"
  shows "xs ! i \<notin> set (drop (Suc i) xs @ take i xs)"
proof -
  have "distinct (take i xs @ xs ! i # drop (Suc i) xs)" using assms by (simp flip: id_take_nth_drop)
  then show ?thesis by auto
qed

lemma ring_nonempty:
  assumes "v \<noteq> []" and p1: "p1 = (if unat p \<ge> length v then 0 else p)"
  shows "ring v p = v ! unat p1 # drop (Suc (unat p1)) v @ take (unat p1) v"
proof -
  have "ring v p = drop (unat p1) v @ take (unat p1) v" by (auto simp: ring_def p1 Let_def)
  moreover have "unat p1 < length v" using assms(1) by (auto simp: p1)
  ultimately show ?thesis by (simp flip: Cons_nth_drop_Suc)
qed

lemma ring_remove:
  assumes "unat p < length v"
  shows "ring (remove_nth (unat p) v) p = drop (Suc (unat p)) v @ take (unat p) v"
proof (cases "unat p < length v - 1")
  case True
  then show ?thesis using assms by (simp add: ring_def remove_nth_def Let_def)
next
  case False
  then have "unat p = length v - 1" using assms by simp
  then show ?thesis using assms by (simp add: ring_def remove_nth_def Let_def)
qed

lemma ring_advance:
  assumes "unat p < length v" and "length v < 2 ^ 64"
  shows "ring v (p + 1) = drop (Suc (unat p)) v @ take (Suc (unat p)) v"
proof -
  have "unat (p + 1) = Suc (unat p)"
    using assms by (simp add: unat_word_ariths)
  then show ?thesis using assms by (auto simp: ring_def)
qed

lemma rr_scan:
  "named_ok v m \<Longrightarrow> balanced_scan v p m = (name, v', p', m') \<Longrightarrow> length v < 2 ^ 64 \<Longrightarrow>
     rr_dequeue (map (\<lambda>x. (x, queue_at m x)) (ring v p)) =
       (if v' = [] then (empty_node, [])
        else (hd (queue_at m' name), map (\<lambda>x. (x, queue_at (m'(name \<mapsto> tl (queue_at m' name))) x)) (ring v' (p' + 1))))"
proof (induction v p m arbitrary: name v' p' m' rule: balanced_scan.induct)
  case (1 v p m)
  define p1 where "p1 = (if unat p \<ge> length v then 0 else p)"
  show ?case
  proof (cases "v = []")
    case True
    with 1 show ?thesis by (auto simp: balanced_scan.simps ring_def)
  next
    case False
    then have lt: "unat p1 < length v" by (simp add: p1_def)
    note ri = ring_nonempty [OF False p1_def]
    show ?thesis
    proof (cases "queue_at m (v ! unat p1) = []")
      case e: True
      have sc: "balanced_scan (remove_nth (unat p1) v) p1 (m(v ! unat p1 := None)) = (name, v', p', m')"
        using 1(3) False e by (simp add: balanced_scan.simps [of v p m] p1_def Let_def)
      have q: "queue_at (m(v ! unat p1 := None)) = queue_at m" using e by auto
      from 1(1) [OF False p1_def refl e conjunct1 [OF named_ok_remove [OF 1(2) lt e]] sc] 1(4) lt
      show ?thesis unfolding q ring_remove [OF lt] ri using e by simp
    next
      case n: False
      then have "name = v ! unat p1 \<and> v' = v \<and> p' = p1 \<and> m' = m"
        using 1(3) False unfolding balanced_scan.simps [of v p m] p1_def [symmetric] by (auto simp: Let_def)
      moreover obtain k q where "queue_at m (v ! unat p1) = k # q" using n by (meson list.exhaust)
      moreover have "v ! unat p1 \<notin> set (drop (Suc (unat p1)) v @ take (unat p1) v)"
        using 1(2) distinct_nth_split [OF lt] by (simp add: named_ok_def)
      ultimately show ?thesis unfolding ri using False ring_advance [OF lt 1(4)] lt
        by (auto simp: take_Suc_conv_app_nth)
    qed
  qed
qed

lemma balanced_refines:
  assumes "named_ok (b_vector s) (b_map s)" and "[] \<notin> set (b_vector s)" and "length (b_vector s) < 2 ^ 64"
  shows "rr_dequeue (balanced_ring s) = (fst (balanced_dequeue s), balanced_ring (snd (balanced_dequeue s)))"
proof -
  obtain name v p m where sc: "balanced_scan (b_vector s) (b_position s) (b_map s) = (name, v, p, m)"
    by (metis prod_cases4)
  note sp = balanced_scan_spec [OF assms(1) sc]
  show ?thesis
  proof (cases "v = []")
    case True
    with sp have "name = []" by simp
    with True rr_scan [OF assms(1) sc assms(3)] sc show ?thesis
      by (simp add: balanced_ring_def balanced_dequeue_def ring_def)
  next
    case False
    with sp have "name \<in> set v" by auto
    then have "name \<noteq> []" using sp assms(2) by auto
    with False rr_scan [OF assms(1) sc assms(3)] sc show ?thesis
      by (simp add: balanced_ring_def balanced_dequeue_def Let_def)
  qed
qed

fun balanced_takes :: "nat \<Rightarrow> balanced \<Rightarrow> node list" where
  "balanced_takes 0 s = []"
| "balanced_takes (Suc k) s = (let (n, s') = balanced_dequeue s in n # balanced_takes k s')"

lemma rr_dequeue_serves:
  "j < length r \<Longrightarrow> r ! j = (x, n # q) \<Longrightarrow> rr_dequeue r = (m, r') \<Longrightarrow>
     m = n \<or> (\<exists>j' < j. j' < length r' \<and> r' ! j' = (x, n # q))"
proof (induction r arbitrary: j rule: rr_dequeue.induct)
  case (2 y r)
  then obtain i where i: "j = Suc i" by (cases j) auto
  with 2 have "m = n \<or> (\<exists>j' < i. j' < length r' \<and> r' ! j' = (x, n # q))" by simp
  with i show ?case by (meson less_Suc_eq)
next
  case (3 y k p r)
  then show ?case by (cases j) (auto simp: nth_append)
qed simp

lemma balanced_takes_serves:
  assumes "named_ok (b_vector s) (b_map s)" and "[] \<notin> set (b_vector s)" and "length (b_vector s) < 2 ^ 64"
    and "j < length (balanced_ring s)" and "balanced_ring s ! j = (x, n # q)" and "j < k"
  shows "n \<in> set (balanced_takes k s)"
  using assms
proof (induction k arbitrary: s j)
  case (Suc k)
  obtain m s' where d: "balanced_dequeue s = (m, s')" by fastforce
  have "rr_dequeue (balanced_ring s) = (m, balanced_ring s')" using balanced_refines [OF Suc.prems(1-3)] d by simp
  from rr_dequeue_serves [OF Suc.prems(4,5) this] show ?case
  proof
    assume "\<exists>j' < j. j' < length (balanced_ring s') \<and> balanced_ring s' ! j' = (x, n # q)"
    then obtain j' where j': "j' < j" "j' < length (balanced_ring s')" "balanced_ring s' ! j' = (x, n # q)" by blast
    have b: "node_bool m"
    proof (rule ccontr)
      assume "\<not> node_bool m"
      from balanced_dequeue_none [OF Suc.prems(1,2) d this] j'(2) show False by (simp add: balanced_ring_def ring_def)
    qed
    note sm = balanced_dequeue_some [OF Suc.prems(1) d b]
    have "length (b_vector s') \<le> length (b_vector s)" using sm Suc.prems(1)
      by (metis card_mono distinct_card List.finite_set named_ok_def)
    with Suc.IH [OF _ _ _ j'(2,3)] sm Suc.prems(2,3,6) j'(1) d show ?thesis by auto
  qed (simp add: d)
qed simp

text \<open>C32: \<open>balanced\<close> serves its names in turn: whatever has happened before, the oldest task of every name that has one is among
  the tasks handed out by the next \<open>k\<close> calls of \<open>dequeue\<close>, where \<open>k\<close> is the number of names.\<close>

theorem balanced_round_robin:
  assumes "balanced_reach t" and "queue_at (b_map (shared t)) x = n # q" and "length (b_vector (shared t)) < 2 ^ 64"
  shows "n \<in> set (balanced_takes (length (b_vector (shared t))) (shared t))"
proof -
  have i: "named_ok (b_vector (shared t)) (b_map (shared t))" "[] \<notin> set (b_vector (shared t))"
    using balanced.sys_invD(1) [OF balanced.reach_inv [OF assms(1)]] by (simp_all add: balanced_inv_def)
  have "x \<in> set (b_vector (shared t))" using queue_at_in [OF i(1)] assms(2) by simp
  then have "x \<in> set (ring (b_vector (shared t)) (b_position (shared t)))"
    by (auto simp: ring_def Let_def) (metis Un_iff append_take_drop_id set_append)
  then have "(x, n # q) \<in> set (balanced_ring (shared t))" using assms(2) by (force simp: balanced_ring_def)
  then obtain j where j: "j < length (balanced_ring (shared t))" "balanced_ring (shared t) ! j = (x, n # q)"
    by (meson in_set_conv_nth)
  moreover have "length (balanced_ring (shared t)) = length (b_vector (shared t))"
    by (simp add: balanced_ring_def ring_def Let_def)
  ultimately show ?thesis using balanced_takes_serves [OF i assms(3) j] by simp
qed

subsection \<open>Executions\<close>

lemmas balanced_eval = task_sys_init_def balanced_init_def task_start_def balanced_class_def balanced_start_def
  balanced_push_def balanced_new_def balanced_dequeue_def balanced_erase_def balanced_node_def balanced_scan.simps
  empty_node_def node_bool_def runner_next_def name_args_def name_ok_def queue_at_def map_at_def remove_nth_def Let_def

lemma balanced_ini_1 [simp]: "balanced_ini (balanced_init 1)"
  unfolding balanced_ini_def by (rule exI [of _ 1]) simp

lemma balanced_exec_reach:
  "task_exec balanced_class name_ok es (task_sys_init (balanced_init 1)) = Some s \<Longrightarrow> balanced_reach s"
  by (rule exec_reach [OF task_reach.init]) simp_all

theorem balanced_drain_witness:
  "\<exists>s. balanced_reach s \<and> length (started s) = 2 \<and> (\<forall>is t. runners_run balanced_class is s = Some t \<longrightarrow>
      length is \<le> 4 * size (queued_of (b_vector (shared s)) (b_map (shared s))) + weight (pcs s) \<and>
      (quiescent t \<longrightarrow> mset (finished t) = mset (started t))) \<and>
    (\<exists>is t. runners_run balanced_class is s = Some t \<and> quiescent t)"
proof -
  obtain s where s: "task_exec balanced_class name_ok [Call (name_args ''x'') ''a'' 1, Call (name_args ''y'') ''b'' 2, Runner 0]
      (task_sys_init (balanced_init 1)) = Some s" "length (started s) = 2"
    by (simp add: balanced_eval)
  then have "balanced_reach s" using balanced_exec_reach by blast
  with balanced_drain [OF this] s(2) show ?thesis by blast
qed

theorem balanced_round_robin_witness:
  "\<exists>(t :: balanced task_sys) n. queue_at (b_map (shared t)) ''y'' = [n] \<and> n_uuid n = ''c'' \<and>
    n \<in> set (balanced_takes (length (b_vector (shared t))) (shared t))"
proof -
  obtain t n where t: "task_exec balanced_class name_ok [Call (name_args ''x'') ''a'' 1, Call (name_args ''x'') ''b'' 2,
      Call (name_args ''y'') ''c'' 3] (task_sys_init (balanced_init 1)) = Some t"
    "queue_at (b_map (shared t)) ''y'' = [n]" "n_uuid n = ''c''" "length (b_vector (shared t)) = 2"
    by (simp add: balanced_eval)
  from balanced_round_robin [OF balanced_exec_reach [OF t(1)] t(2)] t(2-4) show ?thesis by (auto intro!: exI [of _ t] exI [of _ n])
qed

text \<open>
  A task with the empty name is never run: the runner that comes to it takes the name for none and leaves, here with
  another task still queued.
\<close>

lemma balanced_empty_name:
  "\<exists>s. task_reach balanced_class (\<lambda>_. True) balanced_ini s \<and> quiescent s \<and>
    map n_uuid (started s) = [''a'', ''b''] \<and> finished s = []"
proof -
  obtain s where s: "task_exec balanced_class (\<lambda>_. True) [Call (name_args []) ''a'' 1, Call (name_args ''y'') ''b'' 2,
      Runner 0, Runner 0] (task_sys_init (balanced_init 1)) = Some s"
    "pcs s = [Gone]" "map n_uuid (started s) = [''a'', ''b'']" "finished s = []"
    by (simp add: balanced_eval)
  have "task_reach balanced_class (\<lambda>_. True) balanced_ini s"
    by (rule exec_reach [OF task_reach.init s(1)]) simp
  with s(2-4) show ?thesis by (auto simp: quiescent_def)
qed

end
