(* ===== verification/Task_Scheduled.thy ===== *)
theory Task_Scheduled
  imports Task_Named
begin

text \<open>
  The class \<open>scheduled\<close> of \<open>src/arken/concurrent/task\<close>: named queues as in \<open>balanced\<close>, and in \<open>runners()\<close> the number of
  tasks of each name that are in execution. \<open>dequeue\<close> takes a task of a name with the fewest of them, the first one
  from \<open>position()\<close> on. \<open>node.run\<close> counts down outside the critical section and then removes the name when
  no task of it is left.

  The count goes down without the mutex, so that this may happen while another runner is inside the loops of \<open>dequeue\<close>: \<open>scheduled_race\<close> is a call
  of \<open>dequeue\<close> with the ends of other tasks before any of its reads, and \<open>scheduled_life\<close> the executions with such calls.

  \<open>vector.at\<close> throws when the position is out of range: \<open>scheduled_dequeue\<close> returns \<open>None\<close> then, and the runner leaves
  with no effect. That this does not happen is part of what is proved.
\<close>

record scheduled =
  d_vector :: "string list"
  d_position :: u64
  d_map :: queues
  d_runners :: "string \<rightharpoonup> u32"
  d_running :: "string \<rightharpoonup> node"
  d_actives :: u32
  d_max :: u32

definition scheduled_init :: "u32 \<Rightarrow> scheduled" where
  "scheduled_init m = \<lparr>d_vector = [], d_position = 0, d_map = Map.empty, d_runners = Map.empty, d_running = Map.empty,
     d_actives = 0, d_max = m\<rparr>"

definition scheduled_new :: "scheduled \<Rightarrow> scheduled" where
  "scheduled_new s = s\<lparr>d_actives := d_actives s + 1\<rparr>"

definition scheduled_node :: "task_args \<Rightarrow> string \<Rightarrow> int \<Rightarrow> node" where
  "scheduled_node a uuid now = empty_node\<lparr>n_fileName := a_fileName a, n_params := a_params a, n_name := a_name a,
     n_release := a_release a, n_uuid := uuid, n_microtime := now\<rparr>"

definition scheduled_push :: "node \<Rightarrow> scheduled \<Rightarrow> scheduled" where
  "scheduled_push n s =
     (let x = n_name n;
          s1 = (if d_map s x = None then s\<lparr>d_map := (d_map s)(x \<mapsto> []), d_vector := d_vector s @ [x]\<rparr> else s);
          s2 = (if d_runners s1 x = None then s1\<lparr>d_runners := (d_runners s1)(x \<mapsto> 0)\<rparr> else s1)
      in s2\<lparr>d_map := (d_map s2)(x \<mapsto> queue_at (d_map s2) x @ [n])\<rparr>)"

definition scheduled_start :: "task_args \<Rightarrow> string \<Rightarrow> int \<Rightarrow> scheduled \<Rightarrow> node \<times> bool \<times> scheduled" where
  "scheduled_start a uuid now s =
     (let n = scheduled_node a uuid now; s1 = scheduled_push n s in
      if d_actives s1 < d_max s1 then (n, True, scheduled_new s1) else (n, False, s1))"

text \<open>One of the two loops of \<open>dequeue\<close>, over the names that it visits; \<open>runners()[k]\<close> stores a missing count.\<close>

fun scheduled_pick :: "string list \<Rightarrow> string \<times> (string \<rightharpoonup> u32) \<Rightarrow> string \<times> (string \<rightharpoonup> u32)" where
  "scheduled_pick [] (name, c) = (name, c)"
| "scheduled_pick (current # r) (name, c) =
     (let c1 = map_touch (map_touch c 0 current) 0 name in
      scheduled_pick r (if map_at c 0 current < map_at c 0 name then current else name, c1))"

text \<open>The rest of \<open>dequeue\<close>, behind the loops.\<close>

definition scheduled_take :: "string \<Rightarrow> scheduled \<Rightarrow> node \<times> scheduled" where
  "scheduled_take name s =
     (let p1 = d_position s + 1;
          m = map_touch (d_map s) [] name;
          s1 = s\<lparr>d_position := (if unat p1 \<ge> length (d_vector s) then 0 else p1), d_map := m\<rparr>
      in if queue_at m name = [] then (empty_node, s1\<lparr>d_actives := d_actives s1 - 1\<rparr>)
         else let n = hd (queue_at m name); c = d_runners s1 in
           (n, s1\<lparr>d_runners := c(name \<mapsto> map_at c 0 name + 1), d_map := m(name \<mapsto> tl (queue_at m name)),
                   d_running := (d_running s)(n_uuid n \<mapsto> n)\<rparr>))"

definition scheduled_dequeue :: "scheduled \<Rightarrow> (node \<times> scheduled) option" where
  "scheduled_dequeue s =
     (if d_vector s = [] then Some (empty_node, s\<lparr>d_actives := d_actives s - 1\<rparr>)
      else if unat (d_position s) \<ge> length (d_vector s) then None
      else
        let p = unat (d_position s);
            (name, c) = scheduled_pick (take p (d_vector s))
              (scheduled_pick (drop p (d_vector s)) (d_vector s ! p, d_runners s))
        in Some (scheduled_take name (s\<lparr>d_runners := c\<rparr>)))"

text \<open>The end of \<open>node.run\<close>: \<open>m_finished\<close> is set and the count goes down; then the critical section.\<close>

definition scheduled_finish :: "node \<Rightarrow> scheduled \<Rightarrow> scheduled" where
  "scheduled_finish n s = s\<lparr>d_runners := (d_runners s)(n_name n \<mapsto> map_at (d_runners s) 0 (n_name n) - 1)\<rparr>"

definition scheduled_clean :: "node \<Rightarrow> scheduled \<Rightarrow> scheduled" where
  "scheduled_clean n s =
     (let x = n_name n; s1 = s\<lparr>d_runners := map_touch (d_runners s) 0 x\<rparr> in
      if map_at (d_runners s) 0 x \<noteq> 0 then s1
      else let s2 = s1\<lparr>d_map := map_touch (d_map s1) [] x\<rparr> in
        if queue_at (d_map s2) x \<noteq> [] then s2
        else let s3 = s2\<lparr>d_map := (d_map s2)(x := None), d_runners := (d_runners s2)(x := None),
                         d_vector := remove1 x (d_vector s2)\<rparr>
             in s3\<lparr>d_position := (if unat (d_position s3) \<ge> length (d_vector s3) then 0 else d_position s3)\<rparr>)"

definition scheduled_erase :: "node \<Rightarrow> scheduled \<Rightarrow> scheduled" where
  "scheduled_erase n s = s\<lparr>d_running := (d_running s)(n_uuid n := None)\<rparr>"

definition scheduled_class :: "(task_args, scheduled) task_class" where
  "scheduled_class = \<lparr>t_start = scheduled_start,
     t_dequeue = (\<lambda>s. case scheduled_dequeue s of None \<Rightarrow> (empty_node, s) | Some r \<Rightarrow> r),
     t_finish = scheduled_finish, t_clean = scheduled_clean, t_erase = scheduled_erase, t_destroy = (\<lambda>s. s)\<rparr>"

text \<open>
  Calls of \<open>dequeue\<close> during which other tasks end. \<open>scheduled_ends\<close>: the runners \<open>rs\<close> end their tasks. \<open>scheduled_scan\<close>: the loops of
  \<open>dequeue\<close>; for each comparison there are two lists of runners, whose tasks end before the first and before the second of its
  reads. \<open>left_first\<close> is the order in which the compiler evaluates the two sides of the comparison.
\<close>

fun scheduled_ends :: "nat list \<Rightarrow> scheduled task_sys \<Rightarrow> scheduled task_sys option" where
  "scheduled_ends [] s = Some s"
| "scheduled_ends (r # rs) s =
     (if r < length (pcs s) then
        (case pcs s ! r of
           InRun n \<Rightarrow> (case runner_next scheduled_class r s of None \<Rightarrow> None | Some t \<Rightarrow> scheduled_ends rs t)
         | _ \<Rightarrow> None)
      else None)"

definition ends_before :: "(nat list \<times> nat list) list \<Rightarrow> nat list \<times> nat list" where
  "ends_before js = (case js of [] \<Rightarrow> ([], []) | j # _ \<Rightarrow> j)"

fun scheduled_scan :: "bool \<Rightarrow> string list \<Rightarrow> (nat list \<times> nat list) list \<Rightarrow> string \<times> scheduled task_sys \<Rightarrow>
    (string \<times> scheduled task_sys) option" where
  "scheduled_scan left_first [] js (name, s) = Some (name, s)"
| "scheduled_scan left_first (current # r) js (name, s) =
     (case scheduled_ends (fst (ends_before js)) s of None \<Rightarrow> None | Some s1 \<Rightarrow>
      (case scheduled_ends (snd (ends_before js)) s1 of None \<Rightarrow> None | Some s2 \<Rightarrow>
         let c1 = d_runners (shared s1); c2 = d_runners (shared s2);
             a = map_at (if left_first then c1 else c2) 0 current;
             b = map_at (if left_first then c2 else c1) 0 name;
             s3 = s2\<lparr>shared := (shared s2)\<lparr>d_runners := map_touch (map_touch c2 0 current) 0 name\<rparr>\<rparr>
         in scheduled_scan left_first r (tl js) (if a < b then current else name, s3)))"

definition scheduled_raced :: "string \<Rightarrow> (task_args, scheduled) task_class" where
  "scheduled_raced name = scheduled_class\<lparr>t_dequeue := \<lambda>s.
     if name \<in> set (d_vector s) then scheduled_take name s else t_dequeue scheduled_class s\<rparr>"

definition scheduled_race :: "bool \<Rightarrow> (nat list \<times> nat list) list \<Rightarrow> nat \<Rightarrow> scheduled task_sys \<Rightarrow> scheduled task_sys option" where
  "scheduled_race left_first js i s =
     (let v = d_vector (shared s); p = unat (d_position (shared s)) in
      if i < length (pcs s) \<and> pcs s ! i = AtDequeue \<and> p < length v then
        (case scheduled_scan left_first (drop p v @ take p v) js (v ! p, s) of
           None \<Rightarrow> None
         | Some (name, s1) \<Rightarrow> runner_next (scheduled_raced name) i s1)
      else None)"

definition scheduled_ini :: "scheduled \<Rightarrow> bool" where
  "scheduled_ini s \<longleftrightarrow> (\<exists>m. 0 < m \<and> s = scheduled_init m)"

abbreviation scheduled_reach :: "scheduled task_sys \<Rightarrow> bool" where
  "scheduled_reach \<equiv> task_reach scheduled_class (\<lambda>_. True) scheduled_ini"

inductive scheduled_life :: "scheduled task_sys \<Rightarrow> bool" where
  init: "scheduled_ini sh \<Longrightarrow> scheduled_life (task_sys_init sh)"
| step: "scheduled_life s \<Longrightarrow> task_step scheduled_class (\<lambda>_. True) s t \<Longrightarrow> scheduled_life t"
| race: "scheduled_life s \<Longrightarrow> scheduled_race left_first js i s = Some t \<Longrightarrow> scheduled_life t"

definition busy :: "string \<Rightarrow> pc list \<Rightarrow> bool" where
  "busy x ps \<longleftrightarrow> (\<exists>n. n_name n = x \<and> (InRun n \<in> set ps \<or> AtClean n \<in> set ps))"

lemma busy_keep:
  assumes "busy x ps" and "i < length ps" and "ps ! i = p" and "\<And>n. p = InRun n \<or> p = AtClean n \<Longrightarrow> n_name n \<noteq> x"
  shows "busy x (ps[i := q])"
  using assms(1,4) set_upd_keep [OF assms(2,3)] unfolding busy_def by blast

lemma busy_new: "i < length ps \<Longrightarrow> q = InRun n \<or> q = AtClean n \<Longrightarrow> busy (n_name n) (ps[i := q])"
  unfolding busy_def by (metis set_update_memI)

lemma busy_live: "busy x ps \<Longrightarrow> 0 < lives ps"
  unfolding busy_def lives_pos by (meson live.simps(4,5))

lemma busy_append [simp]: "busy x (ps @ [AtDequeue]) = busy x ps"
  by (auto simp: busy_def)

text \<open>A name is kept while it has a task in its queue, in execution, or behind the end of its execution.\<close>

definition scheduled_inv :: "scheduled \<Rightarrow> pc list \<Rightarrow> bool" where
  "scheduled_inv s ps \<longleftrightarrow> named_ok (d_vector s) (d_map s) \<and> dom (d_runners s) = set (d_vector s) \<and>
     (\<forall>x. unat (map_at (d_runners s) 0 x) = runs_of x ps) \<and>
     (if d_vector s = [] then d_position s = 0 else unat (d_position s) < length (d_vector s)) \<and>
     (\<forall>x \<in> set (d_vector s). queue_at (d_map s) x \<noteq> [] \<or> busy x ps) \<and>
     0 < d_max s \<and> unat (d_actives s) = lives ps \<and> lives ps \<le> unat (d_max s) \<and>
     (queued_of (d_vector s) (d_map s) \<noteq> {#} \<longrightarrow> 0 < lives ps)"

lemma scheduled_invI:
  assumes "named_ok (d_vector s) (d_map s)" and "dom (d_runners s) = set (d_vector s)"
    and "\<And>x. unat (map_at (d_runners s) 0 x) = runs_of x ps"
    and "d_vector s = [] \<Longrightarrow> d_position s = 0" and "d_vector s \<noteq> [] \<Longrightarrow> unat (d_position s) < length (d_vector s)"
    and "\<And>x. x \<in> set (d_vector s) \<Longrightarrow> queue_at (d_map s) x = [] \<Longrightarrow> busy x ps"
    and "0 < d_max s" and "unat (d_actives s) = lives ps" and "lives ps \<le> unat (d_max s)"
    and "queued_of (d_vector s) (d_map s) \<noteq> {#} \<Longrightarrow> 0 < lives ps"
  shows "scheduled_inv s ps"
  using assms unfolding scheduled_inv_def by simp

lemma scheduled_invD:
  assumes "scheduled_inv s ps"
  shows "named_ok (d_vector s) (d_map s)" and "dom (d_runners s) = set (d_vector s)"
    and "unat (map_at (d_runners s) 0 x) = runs_of x ps"
    and "d_vector s = [] \<Longrightarrow> d_position s = 0" and "d_vector s \<noteq> [] \<Longrightarrow> unat (d_position s) < length (d_vector s)"
    and "x \<in> set (d_vector s) \<Longrightarrow> queue_at (d_map s) x = [] \<Longrightarrow> busy x ps"
    and "0 < d_max s" and "unat (d_actives s) = lives ps" and "lives ps \<le> unat (d_max s)"
    and "queued_of (d_vector s) (d_map s) \<noteq> {#} \<Longrightarrow> 0 < lives ps"
  using assms unfolding scheduled_inv_def by simp_all (blast+)?

text \<open>The two loops find a name with the least count, and leave the counts as they are.\<close>

lemma scheduled_pick_spec:
  "set vs \<subseteq> dom c \<Longrightarrow> name \<in> dom c \<Longrightarrow> scheduled_pick vs (name, c) = (name', c') \<Longrightarrow>
     c' = c \<and> name' \<in> insert name (set vs) \<and> map_at c 0 name' \<le> map_at c 0 name \<and>
     (\<forall>x \<in> set vs. map_at c 0 name' \<le> map_at c 0 x)"
proof (induction vs arbitrary: name)
  case (Cons cur r)
  let ?n = "if map_at c 0 cur < map_at c 0 name then cur else name"
  have "scheduled_pick r (?n, c) = (name', c')" using Cons.prems by (simp add: Let_def)
  moreover have "set r \<subseteq> dom c" "?n \<in> dom c" using Cons.prems by auto
  ultimately have "c' = c \<and> name' \<in> insert ?n (set r) \<and> map_at c 0 name' \<le> map_at c 0 ?n \<and>
     (\<forall>x \<in> set r. map_at c 0 name' \<le> map_at c 0 x)" using Cons.IH by blast
  then show ?case by (auto split: if_splits)
qed simp

lemma scheduled_dequeue_cases [consumes 1, case_names empty idle took]:
  assumes i: "scheduled_inv s ps"
  obtains "d_vector s = []" "scheduled_dequeue s = Some (empty_node, s\<lparr>d_actives := d_actives s - 1\<rparr>)"
  | x p where "x \<in> set (d_vector s)" "queue_at (d_map s) x = []" "unat p < length (d_vector s)"
      "scheduled_dequeue s = Some (empty_node, s\<lparr>d_position := p, d_actives := d_actives s - 1\<rparr>)"
  | x p n q where "queue_at (d_map s) x = n # q" "unat p < length (d_vector s)"
      "\<forall>y \<in> set (d_vector s). map_at (d_runners s) 0 x \<le> map_at (d_runners s) 0 y"
      "scheduled_dequeue s = Some (n, s\<lparr>d_position := p, d_runners := (d_runners s)(x \<mapsto> map_at (d_runners s) 0 x + 1),
         d_map := (d_map s)(x \<mapsto> q), d_running := (d_running s)(n_uuid n \<mapsto> n)\<rparr>)"
proof (cases "d_vector s = []")
  case True
  then show ?thesis using that(1) by (simp add: scheduled_dequeue_def)
next
  case False
  let ?v = "d_vector s" and ?c = "d_runners s" and ?p = "unat (d_position s)"
  have p: "?p < length ?v" and d: "dom ?c = set ?v" "dom (d_map s) = set ?v"
    using i False by (auto simp: scheduled_inv_def named_ok_def)
  obtain x1 c1 where s1: "scheduled_pick (drop ?p ?v) (?v ! ?p, ?c) = (x1, c1)" by fastforce
  have "set (drop ?p ?v) \<subseteq> dom ?c" "?v ! ?p \<in> dom ?c" using d p by (auto dest: in_set_dropD)
  note l1 = scheduled_pick_spec [OF this s1]
  then have x1: "x1 \<in> dom ?c" using d p by (auto dest: in_set_dropD)
  obtain x c where s2: "scheduled_pick (take ?p ?v) (x1, ?c) = (x, c)" by fastforce
  have "set (take ?p ?v) \<subseteq> dom ?c" using d by (auto dest: in_set_takeD)
  note l2 = scheduled_pick_spec [OF this x1 s2]
  have x: "x \<in> set ?v" using l2 x1 d by (auto dest: in_set_takeD)
  have "set ?v = set (drop ?p ?v) \<union> set (take ?p ?v)" by (metis Un_commute append_take_drop_id set_append)
  then have m: "\<forall>y \<in> set ?v. map_at ?c 0 x \<le> map_at ?c 0 y" using l1 l2 by (auto intro: order_trans)
  define p1 where "p1 = (if unat (d_position s + 1) \<ge> length ?v then 0 else d_position s + 1)"
  have p1: "unat p1 < length ?v" using False by (simp add: p1_def)
  have t: "map_touch (d_map s) [] x = d_map s" using x d by simp
  note eq = s1 l1 s2 l2 t False p p1_def
  show ?thesis
  proof (cases "queue_at (d_map s) x")
    case Nil
    show ?thesis by (rule that(2) [OF x Nil p1]) (use eq Nil in \<open>simp add: scheduled_dequeue_def scheduled_take_def Let_def not_le\<close>)
  next
    case (Cons n q)
    show ?thesis by (rule that(3) [OF Cons p1 m]) (use eq Cons in \<open>simp add: scheduled_dequeue_def scheduled_take_def Let_def not_le\<close>)
  qed
qed

lemma scheduled_push_ok:
  assumes "named_ok (d_vector s) (d_map s)" and "node_bool n" and "dom (d_runners s) = set (d_vector s)"
    and t: "t = scheduled_push n s"
  shows "named_ok (d_vector t) (d_map t) \<and> set (d_vector t) = insert (n_name n) (set (d_vector s)) \<and>
    length (d_vector s) \<le> length (d_vector t) \<and>
    queued_of (d_vector t) (d_map t) = add_mset n (queued_of (d_vector s) (d_map s)) \<and>
    (\<forall>x. queue_at (d_map s) x \<noteq> [] \<or> x = n_name n \<longrightarrow> queue_at (d_map t) x \<noteq> []) \<and>
    dom (d_runners t) = set (d_vector t) \<and> map_at (d_runners t) 0 = map_at (d_runners s) 0 \<and>
    d_position t = d_position s \<and> d_running t = d_running s \<and> d_actives t = d_actives s \<and> d_max t = d_max s"
proof (cases "d_map s (n_name n) = None")
  case True
  then have n: "n_name n \<notin> dom (d_map s)" by auto
  then have "n_name n \<notin> dom (d_runners s)" using assms(1,3) by (simp add: named_ok_def)
  then have "d_runners s (n_name n) = None" by auto
  with named_ok_push_new [OF assms(1) n assms(2)] True assms(3) show ?thesis
    by (auto simp: t scheduled_push_def Let_def map_at_def)
next
  case False
  then have d: "n_name n \<in> dom (d_map s)" by auto
  then have v: "n_name n \<in> set (d_vector s)" using assms(1) by (auto simp: named_ok_def)
  then have "d_runners s (n_name n) \<noteq> None" using assms(3) by auto
  with named_ok_push_old [OF assms(1) d assms(2)] False assms(3) v show ?thesis
    by (auto simp: t scheduled_push_def Let_def)
qed

lemma scheduled_node_simps [simp]:
  "node_bool (scheduled_node a uuid now) \<longleftrightarrow> 0 < now" "n_uuid (scheduled_node a uuid now) = uuid"
  "n_name (scheduled_node a uuid now) = a_name a"
  by (simp_all add: node_bool_def scheduled_node_def)

lemma scheduled_inv_push:
  assumes i: "scheduled_inv s ps" and n: "node_bool n" and t: "t = scheduled_push n s"
  shows "d_actives t < d_max t \<Longrightarrow> scheduled_inv (scheduled_new t) (ps @ [AtDequeue])"
    and "\<not> d_actives t < d_max t \<Longrightarrow> scheduled_inv t ps"
proof -
  have "named_ok (d_vector s) (d_map s)" "dom (d_runners s) = set (d_vector s)" using i by (simp_all add: scheduled_inv_def)
  note p = scheduled_push_ok [OF this(1) n this(2) t]
  have v: "d_vector t \<noteq> []" using p by auto
  show "scheduled_inv (scheduled_new t) (ps @ [AtDequeue])" if "d_actives t < d_max t"
    using i p v that unat_inc [OF that] by (auto simp: scheduled_inv_def scheduled_new_def word_less_nat_alt split: if_splits)
  show "scheduled_inv t ps" if "\<not> d_actives t < d_max t"
    using i p v that by (auto simp: scheduled_inv_def word_less_nat_alt split: if_splits)
qed

lemma scheduled_inv_took:
  assumes i: "scheduled_inv s ps" and p: "i < length ps" "ps ! i = AtDequeue"
    and q: "queue_at (d_map s) x = n # q" and pos: "unat p < length (d_vector s)"
  shows "scheduled_inv (s\<lparr>d_position := p, d_runners := (d_runners s)(x \<mapsto> map_at (d_runners s) 0 x + 1),
         d_map := (d_map s)(x \<mapsto> q), d_running := r\<rparr>) (ps[i := InRun n])" (is "scheduled_inv ?t ?ps")
proof -
  have nm: "named_ok (d_vector s) (d_map s)" and dom: "dom (d_runners s) = set (d_vector s)"
    and cnt: "\<And>y. unat (map_at (d_runners s) 0 y) = runs_of y ps" and l: "lives ps \<le> unat (d_max s)"
    using i by (auto simp: scheduled_inv_def)
  note pop = named_ok_pop [OF nm q]
  have x: "x \<in> set (d_vector s)" by (rule queue_at_in [OF nm]) (simp add: q)
  have "AtDequeue \<in> set ps" using p by (metis nth_mem)
  then have "runs_of x ps < unat (d_max s)" using runs_of_lives [of x ps] l by simp
  then have inc: "unat (map_at (d_runners s) 0 x + 1) = runs_of x ps + 1"
    using unat_inc [of "map_at (d_runners s) 0 x" "d_max s"] cnt by (simp add: word_less_nat_alt)
  have c: "unat (map_at (d_runners ?t) 0 y) = runs_of y ?ps" for y
    using runs_of_upd [OF p, of y "InRun n"] inc cnt pop(3) by auto
  have k: "queue_at (d_map ?t) y \<noteq> [] \<or> busy y ?ps" if "y \<in> set (d_vector s)" for y
    using i that busy_keep [OF _ p, of y "InRun n"] busy_new [OF p(1), of "InRun n" n] pop(3)
    by (auto simp: scheduled_inv_def)
  have "lives ?ps = lives ps" using lives_upd [OF p, of "InRun n"] by simp
  then show ?thesis using i pop(1,2) dom c k x pos unfolding scheduled_inv_def by (auto simp: insert_absorb split: if_splits)
qed

lemma scheduled_inv_left:
  assumes i: "scheduled_inv s ps" and p: "i < length ps" "ps ! i = AtDequeue"
    and x: "d_vector s \<noteq> [] \<Longrightarrow> x \<in> set (d_vector s) \<and> queue_at (d_map s) x = [] \<and> unat q < length (d_vector s)"
    and q: "d_vector s = [] \<Longrightarrow> q = d_position s"
    and t: "t = s\<lparr>d_position := q, d_actives := d_actives s - 1\<rparr>"
  shows "scheduled_inv t (ps[i := Exiting])"
proof (rule scheduled_invI)
  note d = scheduled_invD [OF i]
  have l: "lives (ps[i := Exiting]) + 1 = lives ps" using lives_upd [OF p, of Exiting] by simp
  have k: "busy y ps \<Longrightarrow> busy y (ps[i := Exiting])" for y by (rule busy_keep [OF _ p]) auto
  show "unat (map_at (d_runners t) 0 y) = runs_of y (ps[i := Exiting])" for y
    using d(3) [of y] runs_of_upd [OF p, of y Exiting] by (simp add: t)
  show "busy y (ps[i := Exiting])" if "y \<in> set (d_vector t)" "queue_at (d_map t) y = []" for y
    using d(6) [of y] k that by (simp add: t)
  show "0 < lives (ps[i := Exiting])" if "queued_of (d_vector t) (d_map t) \<noteq> {#}"
  proof -
    have "d_vector s \<noteq> []" using that by (auto simp: t)
    then show ?thesis using x d(6) busy_live [OF k, of x] by simp
  qed
  show "unat (d_actives t) = lives (ps[i := Exiting])" "lives (ps[i := Exiting]) \<le> unat (d_max t)"
    using d(8,9) l unat_dec [of "d_actives s"] by (simp_all add: t)
qed (use scheduled_invD [OF i] x q in \<open>simp_all add: t\<close>)

lemma scheduled_inv_finish:
  assumes i: "scheduled_inv s ps" and p: "i < length ps" "ps ! i = InRun n"
  shows "scheduled_inv (scheduled_finish n s) (ps[i := AtClean n])" (is "scheduled_inv ?t ?ps")
proof -
  have cnt: "\<And>y. unat (map_at (d_runners s) 0 y) = runs_of y ps" and dom: "dom (d_runners s) = set (d_vector s)"
    using i by (auto simp: scheduled_inv_def)
  have "InRun n \<in> set ps" using p by (metis nth_mem)
  then have pos: "0 < unat (map_at (d_runners s) 0 (n_name n))" unfolding cnt runs_of_pos by blast
  then have "n_name n \<in> dom (d_runners s)" by (auto simp: map_at_def split: option.splits)
  then have d: "dom (d_runners ?t) = set (d_vector ?t)" using dom by (auto simp: scheduled_finish_def)
  have c: "unat (map_at (d_runners ?t) 0 y) = runs_of y ?ps" for y
    using runs_of_upd [OF p, of y "AtClean n"] unat_dec [OF pos] cnt pos by (auto simp: scheduled_finish_def split: if_splits)
  have l: "lives ?ps = lives ps" using lives_upd [OF p, of "AtClean n"] by simp
  have "busy y ps \<Longrightarrow> busy y ?ps" for y
    using busy_keep [OF _ p, of y "AtClean n"] busy_new [OF p(1), of "AtClean n" n] by (cases "y = n_name n") auto
  then show ?thesis using i d c l unfolding scheduled_inv_def by (simp add: scheduled_finish_def)
qed

lemma scheduled_inv_clean:
  assumes i: "scheduled_inv s ps" and p: "i < length ps" "ps ! i = AtClean n"
  shows "scheduled_inv (scheduled_clean n s) (ps[i := AtErase n]) \<and>
    queued_of (d_vector (scheduled_clean n s)) (d_map (scheduled_clean n s)) = queued_of (d_vector s) (d_map s) \<and>
    d_running (scheduled_clean n s) = d_running s"
proof -
  let ?x = "n_name n" and ?ps = "ps[i := AtErase n]"
  have nm: "named_ok (d_vector s) (d_map s)" and dom: "dom (d_runners s) = set (d_vector s)"
    and cnt: "\<And>y. unat (map_at (d_runners s) 0 y) = runs_of y ps"
    and b: "\<And>y. y \<in> set (d_vector s) \<Longrightarrow> queue_at (d_map s) y \<noteq> [] \<or> busy y ps"
    using i by (auto simp: scheduled_inv_def)
  have l: "lives ?ps = lives ps" using lives_upd [OF p, of "AtErase n"] by simp
  have r: "runs_of y ?ps = runs_of y ps" for y using runs_of_upd [OF p, of y "AtErase n"] by simp
  have k: "busy y ps \<Longrightarrow> y \<noteq> ?x \<Longrightarrow> busy y ?ps" for y by (rule busy_keep [OF _ p]) auto
  show ?thesis
  proof (cases "map_at (d_runners s) 0 ?x \<noteq> 0 \<or> queue_at (d_map s) ?x \<noteq> []")
    case True
    have kx: "queue_at (d_map s) ?x \<noteq> [] \<or> busy ?x ?ps"
    proof (cases "queue_at (d_map s) ?x = []")
      case e: True
      then have "0 < runs_of ?x ?ps" using True cnt [of ?x] r by (metis gr0I unat_eq_zero)
      then show ?thesis unfolding runs_of_pos busy_def by blast
    qed simp
    have x: "?x \<in> set (d_vector s)"
      using True queue_at_in [OF nm] dom by (auto simp: map_at_def split: option.splits)
    moreover have "dom (d_map s) = set (d_vector s)" using nm by (simp add: named_ok_def)
    ultimately have "scheduled_clean n s = s" using True dom by (auto simp: scheduled_clean_def Let_def)
    moreover have "\<forall>y \<in> set (d_vector s). queue_at (d_map s) y \<noteq> [] \<or> busy y ?ps" using b k kx by metis
    ultimately show ?thesis using i l r by (simp add: scheduled_inv_def)
  next
    case False
    note rm = named_ok_remove1 [OF nm, of ?x]
    have d: "distinct (d_vector s)" using nm by (simp add: named_ok_def)
    have t: "scheduled_clean n s = s\<lparr>d_runners := (d_runners s)(?x := None), d_map := (d_map s)(?x := None),
      d_vector := remove1 ?x (d_vector s), d_position := (if unat (d_position s) \<ge> length (remove1 ?x (d_vector s)) then 0
        else d_position s)\<rparr>"
      using False by (simp add: scheduled_clean_def Let_def)
    have "runs_of ?x ps = 0" using cnt [of ?x] False by simp
    then have "\<forall>y. unat (map_at ((d_runners s)(?x := None)) 0 y) = runs_of y ?ps" using cnt r by simp
    moreover have "dom ((d_runners s)(?x := None)) = set (remove1 ?x (d_vector s))" using d dom by auto
    moreover have "\<forall>y \<in> set (remove1 ?x (d_vector s)). queue_at ((d_map s)(?x := None)) y \<noteq> [] \<or> busy y ?ps"
      using b k d by auto
    moreover have "if remove1 ?x (d_vector s) = [] then (if unat (d_position s) \<ge> length (remove1 ?x (d_vector s)) then 0
        else d_position s) = 0 else unat (if unat (d_position s) \<ge> length (remove1 ?x (d_vector s)) then 0
        else d_position s) < length (remove1 ?x (d_vector s))" by auto
    ultimately show ?thesis using i l rm False unfolding t scheduled_inv_def by simp
  qed
qed

interpretation scheduled: task_queue_live scheduled_class "\<lambda>_. True" scheduled_ini scheduled_inv
  "\<lambda>s. queued_of (d_vector s) (d_map s)" d_running
proof (unfold_locales, goal_cases)
  case (1 s)
  then show ?case by (auto simp: scheduled_ini_def scheduled_init_def scheduled_inv_def runs_of_def)
next
  case (2 s ps r now uuid n spawn s')
  let ?n = "scheduled_node r uuid now"
  have b: "node_bool ?n" using 2 by simp
  note pk = scheduled_push_ok [OF scheduled_invD(1) [OF 2(1)] b scheduled_invD(2) [OF 2(1)] refl]
  show ?case
  proof (cases "d_actives (scheduled_push ?n s) < d_max (scheduled_push ?n s)")
    case True
    then have "n = ?n" "spawn" "s' = scheduled_new (scheduled_push ?n s)"
      using 2(4) by (auto simp: scheduled_class_def scheduled_start_def Let_def)
    with pk scheduled_inv_push(1) [OF 2(1) b refl True] b show ?thesis by (simp add: scheduled_new_def)
  next
    case False
    then have "n = ?n" "\<not> spawn" "s' = scheduled_push ?n s"
      using 2(4) by (auto simp: scheduled_class_def scheduled_start_def Let_def)
    with pk scheduled_inv_push(2) [OF 2(1) b refl False] b show ?thesis by simp
  qed
next
  case (3 s ps i n s')
  from 3(1) show ?case
  proof (cases rule: scheduled_dequeue_cases)
    case (took x p m q)
    then have "m = n" using 3 by (simp add: scheduled_class_def)
    with took 3(4) named_ok_pop(2) [OF scheduled_invD(1) [OF 3(1)] took(1)] scheduled_inv_took [OF 3(1-3) took(1,2)]
    show ?thesis by (auto simp: scheduled_class_def)
  qed (use 3 in \<open>auto simp: scheduled_class_def\<close>)
next
  case (4 s ps i n s')
  from 4(1) show ?case
  proof (cases rule: scheduled_dequeue_cases)
    case empty
    with 4 scheduled_inv_left [OF 4(1-3), of undefined "d_position s" s'] show ?thesis by (auto simp: scheduled_class_def)
  next
    case (idle x p)
    then have "d_vector s \<noteq> []" by auto
    with idle 4 scheduled_inv_left [OF 4(1-3), of x p s'] show ?thesis by (auto simp: scheduled_class_def)
  next
    case (took x p m q)
    then have "m = n" using 4 by (simp add: scheduled_class_def)
    with named_ok_pop(3) [of "d_vector s" "d_map s" x n q] took 4 show ?thesis by (auto simp: scheduled_inv_def)
  qed
next
  case (5 s ps i n s')
  then show ?case using scheduled_inv_finish [OF 5(1-3)] by (auto simp: scheduled_class_def scheduled_finish_def)
next
  case (6 s ps i n s')
  then show ?case using scheduled_inv_clean [OF 6(1-3)] by (auto simp: scheduled_class_def)
next
  case (7 s ps i n s')
  have "busy y ps \<Longrightarrow> busy y (ps[i := AtDequeue])" for y by (rule busy_keep [OF _ 7(2,3)]) auto
  with 7 lives_upd [OF 7(2,3), of AtDequeue] runs_of_upd [OF 7(2,3), of _ AtDequeue] show ?case
    by (simp add: scheduled_class_def scheduled_erase_def scheduled_inv_def)
next
  case (8 s ps i s')
  have "busy y ps \<Longrightarrow> busy y (ps[i := Gone])" for y by (rule busy_keep [OF _ 8(2,3)]) auto
  with 8 lives_upd [OF 8(2,3), of Gone] runs_of_upd [OF 8(2,3), of _ Gone] show ?case
    by (simp add: scheduled_class_def scheduled_inv_def)
next
  case (9 s ps)
  then show ?case by (simp add: scheduled_inv_def lives_pos)
qed

subsection \<open>What holds for scheduled\<close>

lemma scheduled_never_throws:
  assumes "scheduled_reach s"
  shows "scheduled_dequeue (shared s) \<noteq> None"
  using scheduled.sys_invD(1) [OF scheduled.reach_inv [OF assms]] by (cases rule: scheduled_dequeue_cases) auto

text \<open>The rest of \<open>dequeue\<close> with any known name.\<close>

lemma scheduled_take_cases [consumes 2, case_names idle took]:
  assumes i: "scheduled_inv s ps" and x: "x \<in> set (d_vector s)"
  obtains p where "queue_at (d_map s) x = []" "unat p < length (d_vector s)"
      "scheduled_take x s = (empty_node, s\<lparr>d_position := p, d_actives := d_actives s - 1\<rparr>)"
  | p n q where "queue_at (d_map s) x = n # q" "unat p < length (d_vector s)"
      "scheduled_take x s = (n, s\<lparr>d_position := p, d_runners := (d_runners s)(x \<mapsto> map_at (d_runners s) 0 x + 1),
         d_map := (d_map s)(x \<mapsto> q), d_running := (d_running s)(n_uuid n \<mapsto> n)\<rparr>)"
proof -
  define p where "p = (if unat (d_position s + 1) \<ge> length (d_vector s) then 0 else d_position s + 1)"
  have p: "unat p < length (d_vector s)" using x by (auto simp: p_def)
  have t: "map_touch (d_map s) [] x = d_map s" using x scheduled_invD(1) [OF i] by (simp add: named_ok_def)
  show ?thesis
  proof (cases "queue_at (d_map s) x")
    case Nil
    show ?thesis by (rule that(1) [OF Nil p]) (simp add: scheduled_take_def t Nil p_def Let_def)
  next
    case (Cons n q)
    show ?thesis by (rule that(2) [OF Cons p]) (simp add: scheduled_take_def t Cons p_def Let_def)
  qed
qed

interpretation raced: task_queue "scheduled_raced x" "\<lambda>_. True" scheduled_ini scheduled_inv
  "\<lambda>s. queued_of (d_vector s) (d_map s)" d_running for x
proof (unfold_locales, goal_cases)
  case (3 s ps i n s')
  show ?case
  proof (cases "x \<in> set (d_vector s)")
    case True
    from 3(1) True show ?thesis
    proof (cases rule: scheduled_take_cases)
      case (took p m q)
      then have "m = n" using 3 True by (simp add: scheduled_raced_def)
      with took 3(4) True named_ok_pop(2) [OF scheduled_invD(1) [OF 3(1)] took(1)] scheduled_inv_took [OF 3(1-3) took(1,2)]
      show ?thesis by (auto simp: scheduled_raced_def)
    qed (use 3 True in \<open>auto simp: scheduled_raced_def\<close>)
  next
    case False
    with 3 scheduled.dequeue_some [OF 3(1-3) _ 3(5)] show ?thesis by (simp add: scheduled_raced_def)
  qed
next
  case (4 s ps i n s')
  show ?case
  proof (cases "x \<in> set (d_vector s)")
    case True
    from 4(1) True show ?thesis
    proof (cases rule: scheduled_take_cases)
      case (idle p)
      then have "d_vector s \<noteq> []" using True by auto
      with idle 4 True scheduled_inv_left [OF 4(1-3), of x p s'] show ?thesis by (auto simp: scheduled_raced_def)
    next
      case (took p m q)
      then have "m = n" using 4 True by (simp add: scheduled_raced_def)
      with named_ok_pop(3) [of "d_vector s" "d_map s" x n q] took 4 show ?thesis by (auto simp: scheduled_inv_def)
    qed
  next
    case False
    with 4 scheduled.dequeue_none [OF 4(1-3) _ 4(5)] show ?thesis by (simp add: scheduled_raced_def)
  qed
next
  case (1 s)
  then show ?case by (rule scheduled.initial)
next
  case (2 s ps r now uuid n spawn s')
  show ?case by (rule scheduled.start [OF 2(1-3)]) (use 2(4) in \<open>simp add: scheduled_raced_def\<close>)
next
  case (5 s ps i n s')
  show ?case by (rule scheduled.finish [OF 5(1-3)]) (use 5(4) in \<open>simp add: scheduled_raced_def\<close>)
next
  case (6 s ps i n s')
  show ?case by (rule scheduled.clean [OF 6(1-3)]) (use 6(4) in \<open>simp add: scheduled_raced_def\<close>)
next
  case (7 s ps i n s')
  show ?case by (rule scheduled.erase [OF 7(1-3)]) (use 7(4) in \<open>simp add: scheduled_raced_def\<close>)
next
  case (8 s ps i s')
  show ?case by (rule scheduled.destroy [OF 8(1-3)]) (use 8(4) in \<open>simp add: scheduled_raced_def\<close>)
qed

text \<open>What the ends of other tasks change: the counts go down, and the containers, the other runners and what was taken stay.\<close>

definition ended_from :: "scheduled task_sys \<Rightarrow> scheduled task_sys \<Rightarrow> bool" where
  "ended_from s t \<longleftrightarrow> d_vector (shared t) = d_vector (shared s) \<and> d_map (shared t) = d_map (shared s) \<and>
     (\<forall>i < length (pcs s). pcs s ! i = AtDequeue \<longrightarrow> pcs t ! i = AtDequeue) \<and> length (pcs t) = length (pcs s) \<and> taken t = taken s \<and>
     (\<forall>y. runs_of y (pcs t) \<le> runs_of y (pcs s))"

lemma ended_refl [simp]: "ended_from s s"
  by (simp add: ended_from_def)

lemma ended_trans: "ended_from s t \<Longrightarrow> ended_from t u \<Longrightarrow> ended_from s u"
  unfolding ended_from_def by (auto intro: order_trans)

lemma scheduled_ends_ok:
  "scheduled.sys_inv s \<Longrightarrow> scheduled_ends rs s = Some t \<Longrightarrow> scheduled.sys_inv t \<and> ended_from s t"
proof (induction rs arbitrary: s)
  case (Cons r rs)
  then obtain n u where u: "r < length (pcs s)" "pcs s ! r = InRun n" "runner_next scheduled_class r s = Some u" "scheduled_ends rs u = Some t"
    by (auto split: if_splits pc.splits option.splits)
  have "runs_of y ((pcs s)[r := AtClean n]) \<le> runs_of y (pcs s)" for y
    using runs_of_upd [OF u(1,2), of y "AtClean n"] by simp
  then have "ended_from s u" using u(1-3)
    by (auto simp: ended_from_def runner_next_def scheduled_class_def scheduled_finish_def nth_list_update)
  with Cons.IH [OF scheduled.sys_inv_runner [OF Cons.prems(1) u(3)] u(4)] ended_trans show ?case by blast
qed simp

lemma scheduled_count:
  "scheduled.sys_inv s \<Longrightarrow> map_at (d_runners (shared s)) 0 x < map_at (d_runners (shared t)) 0 y \<longleftrightarrow> runs_of x (pcs s) < runs_of y (pcs t)"
  if t: "scheduled.sys_inv t"
proof -
  assume s: "scheduled.sys_inv s"
  show ?thesis unfolding word_less_nat_alt scheduled_invD(3) [OF scheduled.sys_invD(1) [OF s]] scheduled_invD(3) [OF scheduled.sys_invD(1) [OF t]] ..
qed

text \<open>The name that the loops find has, when they end, at most as many tasks in execution as any name had at the beginning.\<close>

lemma scheduled_scan_spec:
  "scheduled.sys_inv s \<Longrightarrow> set vs \<subseteq> set (d_vector (shared s)) \<Longrightarrow> name \<in> set (d_vector (shared s)) \<Longrightarrow>
     scheduled_scan lf vs js (name, s) = Some (name', s') \<Longrightarrow>
     scheduled.sys_inv s' \<and> ended_from s s' \<and> name' \<in> set (d_vector (shared s)) \<and>
     (\<forall>y \<in> insert name (set vs). runs_of name' (pcs s') \<le> runs_of y (pcs s))"
proof (induction vs arbitrary: js name s)
  case Nil
  then show ?case by simp
next
  case (Cons cur r)
  then obtain s1 s2 where e: "scheduled_ends (fst (ends_before js)) s = Some s1" "scheduled_ends (snd (ends_before js)) s1 = Some s2"
    by (auto split: option.splits)
  have e1: "scheduled.sys_inv s1" "ended_from s s1" using scheduled_ends_ok [OF Cons.prems(1) e(1)] by simp_all
  have e2: "scheduled.sys_inv s2" "ended_from s1 s2" using scheduled_ends_ok [OF e1(1) e(2)] by simp_all
  note e3 = ended_trans [OF e1(2) e2(2)]
  define new where "new = (if (if lf then runs_of cur (pcs s1) < runs_of name (pcs s2) else runs_of cur (pcs s2) < runs_of name (pcs s1)) then cur else name)"
  have v: "d_vector (shared s2) = d_vector (shared s)" using e3 by (simp add: ended_from_def)
  have "dom (d_runners (shared s2)) = set (d_vector (shared s))" using scheduled_invD(2) [OF scheduled.sys_invD(1) [OF e2(1)]] v by simp
  then have touch: "s2\<lparr>shared := (shared s2)\<lparr>d_runners := map_touch (map_touch (d_runners (shared s2)) 0 cur) 0 name\<rparr>\<rparr> = s2"
    using Cons.prems(2,3) by simp
  have scan: "scheduled_scan lf r (tl js) (new, s2) = Some (name', s')"
    using Cons.prems(4) e touch scheduled_count [OF e2(1) e1(1), of cur name] scheduled_count [OF e1(1) e2(1), of cur name]
    by (cases lf) (simp_all add: Let_def new_def)
  have new: "new \<in> set (d_vector (shared s))" using Cons.prems(2,3) by (simp add: new_def)
  from Cons.IH [OF e2(1) _ _ scan] Cons.prems(2) new v have
    ih: "scheduled.sys_inv s'" "ended_from s2 s'" "name' \<in> set (d_vector (shared s))"
      "\<forall>y \<in> insert new (set r). runs_of name' (pcs s') \<le> runs_of y (pcs s2)" by auto
  have le: "runs_of y (pcs s2) \<le> runs_of y (pcs s1)" "runs_of y (pcs s1) \<le> runs_of y (pcs s)" for y
    using e1(2) e2(2) by (simp_all add: ended_from_def)
  have "runs_of new (pcs s2) \<le> runs_of name (pcs s)" "runs_of new (pcs s2) \<le> runs_of cur (pcs s)"
    using le [of name] le [of cur] by (auto simp: new_def)
  then have "runs_of name' (pcs s') \<le> runs_of y (pcs s)" if "y \<in> insert name (set (cur # r))" for y
    using ih(4) le(1) [of y] le(2) [of y] that order_trans by fastforce
  with ih ended_trans [OF e3 ih(2)] show ?case by blast
qed

lemma scheduled_raceE:
  assumes "scheduled.sys_inv s" "scheduled_race lf js i s = Some t"
  obtains name s1 where "scheduled.sys_inv s1" "ended_from s s1" "name \<in> set (d_vector (shared s))" "i < length (pcs s1)" "pcs s1 ! i = AtDequeue"
    "\<forall>y \<in> set (d_vector (shared s)). runs_of name (pcs s1) \<le> runs_of y (pcs s)" "runner_next (scheduled_raced name) i s1 = Some t"
proof -
  let ?v = "d_vector (shared s)" and ?p = "unat (d_position (shared s))"
  obtain name s1 where r: "i < length (pcs s)" "pcs s ! i = AtDequeue" "?p < length ?v"
    "scheduled_scan lf (drop ?p ?v @ take ?p ?v) js (?v ! ?p, s) = Some (name, s1)" "runner_next (scheduled_raced name) i s1 = Some t"
    using assms(2) by (auto simp: scheduled_race_def Let_def split: if_splits option.splits)
  have "set (drop ?p ?v @ take ?p ?v) = set ?v" by (metis append_take_drop_id set_append sup_commute)
  with scheduled_scan_spec [OF assms(1) _ _ r(4)] r(1-3) have
    "scheduled.sys_inv s1" "ended_from s s1" "name \<in> set ?v" "\<forall>y \<in> set ?v. runs_of name (pcs s1) \<le> runs_of y (pcs s)" by auto
  then show thesis using r by (intro that [of s1 name]) (auto simp: ended_from_def)
qed

lemma scheduled_life_inv: "scheduled_life s \<Longrightarrow> scheduled.sys_inv s"
proof (induction rule: scheduled_life.induct)
  case (step s t)
  then show ?case by (auto elim!: task_step.cases intro: scheduled.sys_inv_runner scheduled.sys_inv_start)
next
  case (race s lf js i t)
  from race.IH race.hyps(2) show ?case by (rule scheduled_raceE) (blast intro: raced.sys_inv_runner)
qed (rule scheduled.sys_inv_init)

text \<open>Without ends of tasks in between, it is the step of the runner.\<close>

lemma scheduled_scan_quiet:
  "scheduled_scan lf vs [] (name, s) =
     (let (x, c) = scheduled_pick vs (name, d_runners (shared s)) in Some (x, s\<lparr>shared := (shared s)\<lparr>d_runners := c\<rparr>\<rparr>))"
proof (induction vs arbitrary: name s)
  case (Cons cur r)
  then show ?case by (cases lf) (simp_all add: ends_before_def Let_def split: prod.splits)
qed simp

lemma scheduled_pick_append: "scheduled_pick (xs @ ys) r = scheduled_pick ys (scheduled_pick xs r)"
  by (induction xs r rule: scheduled_pick.induct) (simp_all add: Let_def)

lemma scheduled_race_quiet:
  assumes "scheduled_life s" "i < length (pcs s)" "pcs s ! i = AtDequeue" "d_vector (shared s) \<noteq> []"
  shows "scheduled_race lf [] i s = runner_next scheduled_class i s"
proof -
  let ?v = "d_vector (shared s)" and ?p = "unat (d_position (shared s))" and ?c = "d_runners (shared s)"
  note inv = scheduled.sys_invD(1) [OF scheduled_life_inv [OF assms(1)]]
  have p: "?p < length ?v" using scheduled_invD(5) [OF inv assms(4)] .
  obtain x c where xc: "scheduled_pick (drop ?p ?v @ take ?p ?v) (?v ! ?p, ?c) = (x, c)" by fastforce
  have "set (drop ?p ?v @ take ?p ?v) = set ?v" by (metis append_take_drop_id set_append sup_commute)
  then have "c = ?c" "x \<in> set ?v" using scheduled_pick_spec [OF _ _ xc] scheduled_invD(2) [OF inv] p by auto
  moreover from this xc have "scheduled_dequeue (shared s) = Some (scheduled_take x (shared s))"
    using p assms(4) by (simp add: scheduled_dequeue_def scheduled_pick_append Let_def)
  ultimately show ?thesis using assms(2,3) p xc
    by (simp add: scheduled_race_def scheduled_scan_quiet Let_def runner_next_def scheduled_raced_def)
      (simp add: scheduled_class_def)
qed

text \<open>C33: A runner of class \<open>scheduled\<close> takes the task at the front of the queue of a name (new ones are added at the end), and the name is
  one with the fewest tasks in execution: counting the new one, at most one more of them are in execution afterwards than there
  were of any other known name when \<open>dequeue\<close> was called. This holds whatever tasks end while the loops of \<open>dequeue\<close> read the counts,
  which they do without the mutex. \<open>runners()\<close> counts the tasks in execution of each name exactly, and the
  access \<open>vector.at(position())\<close> never throws.\<close>

theorem scheduled_fair:
  assumes "scheduled_life s" and "scheduled_race left_first js i s = Some t" and "taken t = taken s @ [n]"
  shows "scheduled_dequeue (shared s) \<noteq> None \<and>
    queue_at (d_map (shared s)) (n_name n) = n # queue_at (d_map (shared t)) (n_name n) \<and>
    (\<forall>y \<in> set (d_vector (shared s)). runs_of (n_name n) (pcs t) \<le> runs_of y (pcs s) + 1) \<and>
    (\<forall>y. unat (map_at (d_runners (shared t)) 0 y) = runs_of y (pcs t))"
proof -
  note si = scheduled_life_inv [OF assms(1)]
  from si assms(2) show ?thesis
  proof (rule scheduled_raceE)
    fix name s1
    assume s1: "scheduled.sys_inv s1" "ended_from s s1" "name \<in> set (d_vector (shared s))" "i < length (pcs s1)" "pcs s1 ! i = AtDequeue"
      and m: "\<forall>y \<in> set (d_vector (shared s)). runs_of name (pcs s1) \<le> runs_of y (pcs s)" and t: "runner_next (scheduled_raced name) i s1 = Some t"
    have v: "name \<in> set (d_vector (shared s1))" "d_map (shared s1) = d_map (shared s)" "taken s1 = taken s" using s1 by (simp_all add: ended_from_def)
    have d: "scheduled_take name (shared s1) = (n, shared t)" "pcs t = (pcs s1)[i := InRun n]" "node_bool n"
      using t assms(3) v s1(4,5) by (auto simp: runner_next_def scheduled_raced_def Let_def split: prod.splits if_splits)
    note i1 = scheduled.sys_invD(1) [OF s1(1)]
    from i1 v(1) have q: "n_name n = name \<and> queue_at (d_map (shared s)) name = n # queue_at (d_map (shared t)) name"
    proof (cases rule: scheduled_take_cases)
      case (took p k q)
      then have "k = n" "d_map (shared t) = (d_map (shared s1))(name \<mapsto> q)" using d(1) by auto
      with took(1) named_ok_pop(3) [OF scheduled_invD(1) [OF i1] took(1)] v(2) show ?thesis by (auto simp: queue_at_def)
    qed (use d in auto)
    have "runs_of name (pcs t) = runs_of name (pcs s1) + 1"
      using runs_of_upd [OF s1(4,5), of name "InRun n"] d(2) q by simp
    moreover have "\<forall>y. unat (map_at (d_runners (shared t)) 0 y) = runs_of y (pcs t)"
      using scheduled_invD(3) [OF scheduled.sys_invD(1) [OF raced.sys_inv_runner [OF s1(1) t]]] by blast
    moreover have "scheduled_dequeue (shared s) \<noteq> None"
      using scheduled.sys_invD(1) [OF si] by (cases rule: scheduled_dequeue_cases) auto
    ultimately show ?thesis using q m by simp
  qed
qed

text \<open>Every task of class \<open>scheduled\<close> is run.\<close>

lemma scheduled_drain:
  assumes "scheduled_reach s"
  shows "(\<forall>is t. runners_run scheduled_class is s = Some t \<longrightarrow>
      length is \<le> 4 * size (queued_of (d_vector (shared s)) (d_map (shared s))) + weight (pcs s) \<and>
      (quiescent t \<longrightarrow> mset (finished t) = mset (started t))) \<and>
    (\<exists>is t. runners_run scheduled_class is s = Some t \<and> quiescent t)"
  using scheduled.drain [OF assms] by (simp add: scheduled.work_def)

lemmas scheduled_eval = task_sys_init_def scheduled_init_def task_start_def scheduled_class_def scheduled_start_def
  scheduled_push_def scheduled_new_def scheduled_dequeue_def scheduled_take_def scheduled_finish_def scheduled_clean_def scheduled_erase_def
  scheduled_node_def empty_node_def node_bool_def runner_next_def name_args_def queue_at_def map_at_def map_touch_def
  Let_def

lemma scheduled_exec_reach:
  assumes "task_exec scheduled_class (\<lambda>_. True) es (task_sys_init (scheduled_init m)) = Some s" and "0 < m"
  shows "scheduled_reach s"
  by (rule exec_reach [OF task_reach.init assms(1)]) (use assms(2) in \<open>auto simp: scheduled_ini_def\<close>)

lemma scheduled_reach_life: "scheduled_reach s \<Longrightarrow> scheduled_life s"
  by (induction rule: task_reach.induct) (auto intro: scheduled_life.intros)

text \<open>Two runners: the task of the first one ends while the second one is in the loops.\<close>

definition race_start :: "scheduled task_sys option" where
  "race_start = task_exec scheduled_class (\<lambda>_. True) [Call (name_args ''x'') ''a'' 1, Call (name_args ''x'') ''b'' 2,
      Call (name_args ''y'') ''c'' 3, Runner 0] (task_sys_init (scheduled_init 2))"

lemma race_example:
  "map_option (\<lambda>s. (map n_uuid (taken s), d_vector (shared s))) race_start = Some ([''a''], [''x'', ''y''])"
  "map_option (\<lambda>t. (map n_uuid (taken t), n_name (last (taken t)), map n_uuid (finished t)))
     (Option.bind race_start (scheduled_race True [([], []), ([0], [])] 1)) = Some ([''a'', ''c''], ''y'', [''a''])"
  "Option.bind race_start (\<lambda>s. map_option (\<lambda>t. taken t = taken s @ [last (taken t)]) (scheduled_race True [([], []), ([0], [])] 1 s)) = Some True"
  by code_simp+

theorem scheduled_fair_witness:
  "\<exists>s t n. scheduled_race True [([], []), ([0], [])] 1 s = Some t \<and> taken t = taken s @ [n] \<and> n_name n = ''y'' \<and>
    d_vector (shared s) = [''x'', ''y''] \<and> map n_uuid (finished t) = [''a''] \<and>
    queue_at (d_map (shared s)) ''y'' = n # queue_at (d_map (shared t)) ''y'' \<and>
    (\<forall>y \<in> set (d_vector (shared s)). runs_of ''y'' (pcs t) \<le> runs_of y (pcs s) + 1)"
proof -
  obtain s where s: "race_start = Some s" "d_vector (shared s) = [''x'', ''y'']" using race_example(1) by (cases race_start) auto
  obtain t where t: "scheduled_race True [([], []), ([0], [])] 1 s = Some t" "n_name (last (taken t)) = ''y''" "map n_uuid (finished t) = [''a'']"
    using race_example(2) [unfolded s(1) bind.bind_lunit] by (cases "scheduled_race True [([], []), ([0], [])] 1 s") auto
  have tk: "taken t = taken s @ [last (taken t)]" using race_example(3) [unfolded s(1) bind.bind_lunit t(1)] by simp
  have "scheduled_life s" by (rule scheduled_reach_life [OF scheduled_exec_reach [OF s(1) [unfolded race_start_def]]]) simp
  from scheduled_fair [OF this t(1) tk] t tk s(2) show ?thesis by metis
qed

text \<open>
  A runner can leave while tasks are queued: when the name that it finds has a task in execution but none queued. Here
  three runners are allowed, one of them leaves, and a task stays queued behind two that are in execution.
\<close>

lemma scheduled_leaves_work:
  "\<exists>s. scheduled_reach s \<and> pcs s ! 1 = Exiting \<and> queued_of (d_vector (shared s)) (d_map (shared s)) \<noteq> {#} \<and>
    d_actives (shared s) < d_max (shared s)"
proof -
  obtain s where s: "task_exec scheduled_class (\<lambda>_. True) [Call (name_args ''x'') ''a'' 1, Runner 0,
      Call (name_args ''y'') ''b'' 2, Call (name_args ''y'') ''c'' 3, Call (name_args ''y'') ''d'' 4,
      Runner 1, Runner 2, Runner 1, Runner 1, Runner 1, Runner 1] (task_sys_init (scheduled_init 3)) = Some s"
    "pcs s ! 1 = Exiting" "queued_of (d_vector (shared s)) (d_map (shared s)) \<noteq> {#}"
    "d_actives (shared s) < d_max (shared s)"
    by (simp add: scheduled_eval queued_of_def)
  have "scheduled_reach s" by (rule scheduled_exec_reach [OF s(1)]) simp
  with s show ?thesis by blast
qed

end
