(* ===== verification/Task_Singular.thy ===== *)
theory Task_Singular
  imports Task_Named "HOL-Library.AList"
begin

text \<open>
  The class \<open>singular\<close> of \<open>src/arken/concurrent/task\<close>: named queues, and in \<open>runners()\<close> a flag for each name that says whether
  a task of the name may be started. \<open>dequeue\<close> takes a task of the first name from \<open>position()\<close> on whose flag is set and clears
  the flag; the end of \<open>node.run\<close> sets it again, or forgets the name when its queue is empty. Besides \<open>start\<close> there
  are \<open>emplace\<close>, which queues a task only when none of the name is queued, and \<open>place\<close>, which does so only when none is queued
  or in execution; both return a node that is false otherwise.

  \<open>runners()\<close> is an association list, since \<open>start\<close> asks for its size. \<open>vector.at\<close> throws when the position is out of
  range: \<open>singular_dequeue\<close> returns \<open>None\<close> then.
\<close>

type_synonym flags = "(string \<times> bool) list"

definition flag_at :: "flags \<Rightarrow> string \<Rightarrow> bool" where
  "flag_at r k = (case map_of r k of None \<Rightarrow> False | Some b \<Rightarrow> b)"

definition flag_touch :: "flags \<Rightarrow> string \<Rightarrow> flags" where
  "flag_touch r k = (if map_of r k = None then AList.update k False r else r)"

record singular =
  g_vector :: "string list"
  g_position :: u64
  g_map :: queues
  g_runners :: flags
  g_running :: "string \<rightharpoonup> node"
  g_actives :: u32
  g_max :: u32

definition singular_init :: "u32 \<Rightarrow> singular" where
  "singular_init m = \<lparr>g_vector = [], g_position = 0, g_map = Map.empty, g_runners = [], g_running = Map.empty,
     g_actives = 0, g_max = m\<rparr>"

definition singular_new :: "singular \<Rightarrow> singular" where
  "singular_new s = s\<lparr>g_actives := g_actives s + 1\<rparr>"

definition singular_node :: "task_args \<Rightarrow> string \<Rightarrow> int \<Rightarrow> node" where
  "singular_node a uuid now = empty_node\<lparr>n_fileName := a_fileName a, n_params := a_params a, n_name := a_name a,
     n_release := a_release a, n_uuid := uuid, n_microtime := now\<rparr>"

definition singular_push :: "node \<Rightarrow> singular \<Rightarrow> singular" where
  "singular_push n s =
     (let x = n_name n;
          s1 = (if g_map s x = None
                then s\<lparr>g_runners := AList.update x True (g_runners s), g_map := (g_map s)(x \<mapsto> []), g_vector := g_vector s @ [x]\<rparr>
                else s)
      in s1\<lparr>g_map := (g_map s1)(x \<mapsto> queue_at (g_map s1) x @ [n])\<rparr>)"

definition singular_start :: "task_args \<Rightarrow> string \<Rightarrow> int \<Rightarrow> singular \<Rightarrow> node \<times> bool \<times> singular" where
  "singular_start a uuid now s =
     (let n = singular_node a uuid now; s1 = singular_push n s in
      if g_actives s1 < g_max s1 \<and> unat (g_actives s1) < length (g_runners s1) then (n, True, singular_new s1) else (n, False, s1))"

definition singular_emplace :: "task_args \<Rightarrow> string \<Rightarrow> int \<Rightarrow> singular \<Rightarrow> node \<times> bool \<times> singular" where
  "singular_emplace a uuid now s =
     (if g_map s (a_name a) = None \<or> queue_at (g_map s) (a_name a) = [] then
        let n = singular_node a uuid now; s1 = singular_push n s in
        if g_actives s1 < g_max s1 then (n, True, singular_new s1) else (n, False, s1)
      else (empty_node, False, s))"

definition singular_place :: "task_args \<Rightarrow> string \<Rightarrow> int \<Rightarrow> singular \<Rightarrow> node \<times> bool \<times> singular" where
  "singular_place a uuid now s =
     (if map_of (g_runners s) (a_name a) = None then
        let n = singular_node a uuid now; s1 = singular_push n s in
        if g_actives s1 < g_max s1 then (n, True, singular_new s1) else (n, False, s1)
      else (empty_node, False, s))"

datatype singular_call = Start task_args | Emplace task_args | Place task_args

fun singular_request :: "singular_call \<Rightarrow> string \<Rightarrow> int \<Rightarrow> singular \<Rightarrow> node \<times> bool \<times> singular" where
  "singular_request (Start a) = singular_start a"
| "singular_request (Emplace a) = singular_emplace a"
| "singular_request (Place a) = singular_place a"

text \<open>One of the loops of \<open>dequeue\<close>, over the names that it visits: whether it left by \<open>break\<close>, the name, the flags.\<close>

fun singular_find :: "string list \<Rightarrow> flags \<Rightarrow> bool \<times> string \<times> flags" where
  "singular_find [] r = (False, [], r)"
| "singular_find (current # vs) r =
     (let r1 = flag_touch r current in if flag_at r1 current then (True, current, r1) else singular_find vs r1)"

definition singular_dequeue :: "singular \<Rightarrow> (node \<times> singular) option" where
  "singular_dequeue s =
     (if unat (g_actives s) > length (g_vector s) then Some (empty_node, s\<lparr>g_actives := g_actives s - 1\<rparr>)
      else
        let p = unat (g_position s);
            (f1, name1, r1) = singular_find (drop p (g_vector s)) (g_runners s);
            (f2, name, r) = (if name1 = [] then singular_find (take p (g_vector s)) r1 else (True, name1, r1))
        in if \<not> f2 \<and> p > length (g_vector s) then None
           else
             let p1 = g_position s + 1;
                 s1 = s\<lparr>g_position := (if unat p1 > length (g_vector s) then 0 else p1), g_runners := r\<rparr>
             in if name = [] then Some (empty_node, s1\<lparr>g_actives := g_actives s1 - 1\<rparr>)
                else let m = map_touch (g_map s) [] name; s2 = s1\<lparr>g_map := m\<rparr> in
                  if queue_at m name = [] then Some (empty_node, s2\<lparr>g_actives := g_actives s2 - 1\<rparr>)
                  else let n = hd (queue_at m name) in
                    Some (n, s2\<lparr>g_runners := AList.update name False r, g_map := m(name \<mapsto> tl (queue_at m name)),
                            g_running := (g_running s)(n_uuid n \<mapsto> n)\<rparr>))"

definition singular_finish :: "node \<Rightarrow> singular \<Rightarrow> singular" where
  "singular_finish n s =
     (let x = n_name n; m = map_touch (g_map s) [] x in
      if queue_at m x = [] then
        let v = remove1 x (g_vector s) in
        s\<lparr>g_map := m(x := None), g_runners := AList.delete x (g_runners s), g_vector := v,
          g_position := (if unat (g_position s) > length v then 0 else g_position s)\<rparr>
      else s\<lparr>g_map := m, g_runners := AList.update x True (g_runners s)\<rparr>)"

definition singular_erase :: "node \<Rightarrow> singular \<Rightarrow> singular" where
  "singular_erase n s = s\<lparr>g_running := (g_running s)(n_uuid n := None)\<rparr>"

definition singular_class :: "(singular_call, singular) task_class" where
  "singular_class = \<lparr>t_start = singular_request,
     t_dequeue = (\<lambda>s. case singular_dequeue s of None \<Rightarrow> (empty_node, s) | Some r \<Rightarrow> r),
     t_finish = singular_finish, t_clean = (\<lambda>n s. s), t_erase = singular_erase, t_destroy = (\<lambda>s. s)\<rparr>"

fun call_ok :: "singular_call \<Rightarrow> bool" where
  "call_ok (Start a) = name_ok a"
| "call_ok (Emplace a) = name_ok a"
| "call_ok (Place a) = name_ok a"

definition singular_ini :: "singular \<Rightarrow> bool" where
  "singular_ini s \<longleftrightarrow> (\<exists>m. 0 < m \<and> s = singular_init m)"

abbreviation singular_reach :: "singular task_sys \<Rightarrow> bool" where
  "singular_reach \<equiv> task_reach singular_class call_ok singular_ini"

text \<open>A name whose flag is set has a task queued; of one whose flag is cleared exactly one task is in execution.\<close>

definition singular_core :: "singular \<Rightarrow> pc list \<Rightarrow> bool" where
  "singular_core s ps \<longleftrightarrow> named_ok (g_vector s) (g_map s) \<and> distinct (map fst (g_runners s)) \<and>
     dom (map_of (g_runners s)) = set (g_vector s) \<and> [] \<notin> set (g_vector s) \<and>
     (\<forall>x. runs_of x ps = (if x \<in> set (g_vector s) \<and> \<not> flag_at (g_runners s) x then 1 else 0)) \<and>
     (\<forall>x. flag_at (g_runners s) x \<longrightarrow> queue_at (g_map s) x \<noteq> []) \<and>
     unat (g_position s) \<le> length (g_vector s) \<and>
     0 < g_max s \<and> unat (g_actives s) = lives ps \<and> lives ps \<le> unat (g_max s)"

definition singular_inv :: "singular \<Rightarrow> pc list \<Rightarrow> bool" where
  "singular_inv s ps \<longleftrightarrow> singular_core s ps \<and> (queued_of (g_vector s) (g_map s) \<noteq> {#} \<longrightarrow> 0 < lives ps)"

lemma singular_coreI:
  assumes "named_ok (g_vector s) (g_map s)" and "distinct (map fst (g_runners s))"
    and "dom (map_of (g_runners s)) = set (g_vector s)" and "[] \<notin> set (g_vector s)"
    and "\<And>x. runs_of x ps = (if x \<in> set (g_vector s) \<and> \<not> flag_at (g_runners s) x then 1 else 0)"
    and "\<And>x. flag_at (g_runners s) x \<Longrightarrow> queue_at (g_map s) x \<noteq> []"
    and "unat (g_position s) \<le> length (g_vector s)"
    and "0 < g_max s" and "unat (g_actives s) = lives ps" and "lives ps \<le> unat (g_max s)"
  shows "singular_core s ps"
  using assms unfolding singular_core_def by simp

lemma singular_coreD:
  assumes "singular_core s ps"
  shows "named_ok (g_vector s) (g_map s)" and "distinct (map fst (g_runners s))"
    and "dom (map_of (g_runners s)) = set (g_vector s)" and "[] \<notin> set (g_vector s)"
    and "runs_of x ps = (if x \<in> set (g_vector s) \<and> \<not> flag_at (g_runners s) x then 1 else 0)"
    and "flag_at (g_runners s) x \<Longrightarrow> queue_at (g_map s) x \<noteq> []"
    and "unat (g_position s) \<le> length (g_vector s)"
    and "0 < g_max s" and "unat (g_actives s) = lives ps" and "lives ps \<le> unat (g_max s)"
  using assms unfolding singular_core_def by simp_all

lemma singular_inv_core: "singular_inv s ps \<Longrightarrow> singular_core s ps"
  by (simp add: singular_inv_def)

lemma flag_at_in: "singular_core s ps \<Longrightarrow> flag_at (g_runners s) x \<Longrightarrow> x \<in> set (g_vector s)"
  using singular_coreD(3) [of s ps] by (auto simp: flag_at_def dom_def split: option.splits)

lemma flag_touch_in [simp]: "k \<in> dom (map_of r) \<Longrightarrow> flag_touch r k = r"
  by (auto simp: flag_touch_def)

lemma flag_at_update [simp]: "flag_at (AList.update k b r) k' = (if k' = k then b else flag_at r k')"
  by (simp add: flag_at_def update_conv)

lemma flag_at_delete [simp]: "flag_at (AList.delete k r) k' = (if k' = k then False else flag_at r k')"
  by (simp add: flag_at_def delete_conv)

text \<open>The loop finds the first name whose flag is set and leaves the flags as they are.\<close>

lemma singular_find_spec:
  "set vs \<subseteq> dom (map_of r) \<Longrightarrow> [] \<notin> set vs \<Longrightarrow>
     singular_find vs r = (case find (flag_at r) vs of None \<Rightarrow> (False, [], r) | Some x \<Rightarrow> (True, x, r))"
  by (induction vs) (auto simp: Let_def)

lemma find_SomeD: "find P xs = Some x \<Longrightarrow> P x \<and> x \<in> set xs"
  by (induction xs) (auto split: if_splits)

lemma singular_dequeue_cases [consumes 1, case_names surplus idle took]:
  assumes i: "singular_core s ps"
  obtains "unat (g_actives s) > length (g_vector s)"
      "singular_dequeue s = Some (empty_node, s\<lparr>g_actives := g_actives s - 1\<rparr>)"
  | p where "\<forall>x \<in> set (g_vector s). \<not> flag_at (g_runners s) x" "unat p \<le> length (g_vector s)"
      "singular_dequeue s = Some (empty_node, s\<lparr>g_position := p, g_actives := g_actives s - 1\<rparr>)"
  | x p n q where "flag_at (g_runners s) x" "queue_at (g_map s) x = n # q" "unat p \<le> length (g_vector s)"
      "singular_dequeue s = Some (n, s\<lparr>g_position := p, g_runners := AList.update x False (g_runners s),
         g_map := (g_map s)(x \<mapsto> q), g_running := (g_running s)(n_uuid n \<mapsto> n)\<rparr>)"
proof (cases "unat (g_actives s) > length (g_vector s)")
  case True
  then show ?thesis using that(1) by (simp add: singular_dequeue_def)
next
  case False
  let ?v = "g_vector s" and ?r = "g_runners s" and ?p = "unat (g_position s)"
  note d = singular_coreD [OF i]
  note result = that
  define p1 where "p1 = (if unat (g_position s + 1) > length ?v then 0 else g_position s + 1)"
  have p1: "unat p1 \<le> length ?v" by (simp add: p1_def)
  have sub: "set (drop ?p ?v) \<subseteq> dom (map_of ?r)" "set (take ?p ?v) \<subseteq> dom (map_of ?r)"
    "[] \<notin> set (drop ?p ?v)" "[] \<notin> set (take ?p ?v)"
    using d(3,4) by (auto dest: in_set_dropD in_set_takeD)
  note f = singular_find_spec [OF sub(1,3)] singular_find_spec [OF sub(2,4)]
  have found: ?thesis if x: "flag_at ?r x" "x \<in> set ?v"
    and eq: "(case find (flag_at ?r) (drop ?p ?v) of None \<Rightarrow> find (flag_at ?r) (take ?p ?v) | Some y \<Rightarrow> Some y) = Some x" for x
  proof -
    obtain n q where q: "queue_at (g_map s) x = n # q" using d(6) [OF x(1)] by (meson list.exhaust)
    have "x \<in> dom (g_map s)" "x \<noteq> []" using x(2) d(1,4) by (auto simp: named_ok_def)
    with eq q False d(7) f sub(3) show ?thesis
      by - (rule result(3) [OF x(1) q p1], auto simp: singular_dequeue_def Let_def p1_def not_less dest!: find_SomeD split: option.splits)
  qed
  show ?thesis
  proof (cases "find (flag_at ?r) (drop ?p ?v)")
    case None
    show ?thesis
    proof (cases "find (flag_at ?r) (take ?p ?v)")
      case n: None
      have "\<forall>x \<in> set ?v. \<not> flag_at ?r x"
        using None n by (auto simp: find_None_iff) (metis Un_iff append_take_drop_id set_append)
      then show ?thesis using False f d(7) None n
        by - (rule result(2) [OF _ p1], simp_all add: singular_dequeue_def Let_def p1_def not_less)
    next
      case (Some x)
      then have "flag_at ?r x" "x \<in> set ?v" by (auto dest!: find_SomeD dest: in_set_takeD)
      then show ?thesis by (rule found) (simp add: None Some)
    qed
  next
    case (Some x)
    then have "flag_at ?r x" "x \<in> set ?v" by (auto dest!: find_SomeD dest: in_set_dropD)
    then show ?thesis by (rule found) (simp add: Some)
  qed
qed

lemma flags_length:
  assumes "distinct (map fst r)" and "dom (map_of r) = set v" and "distinct v"
  shows "length r = length v"
proof -
  have "length r = card (set (map fst r))" using assms(1) by (metis distinct_card length_map)
  also have "\<dots> = card (set v)" using assms(2) by (simp add: dom_map_of_conv_image_fst)
  finally show ?thesis using assms(3) by (simp add: distinct_card)
qed

lemma singular_push_ok:
  assumes i: "singular_core s ps" and n: "node_bool n" "n_name n \<noteq> []" and t: "t = singular_push n s"
  shows "singular_core t ps \<and> queued_of (g_vector t) (g_map t) = add_mset n (queued_of (g_vector s) (g_map s)) \<and>
    g_vector t \<noteq> [] \<and> g_running t = g_running s"
proof -
  let ?x = "n_name n"
  note d = singular_coreD [OF i]
  show ?thesis
  proof (cases "g_map s ?x = None")
    case True
    then have x: "?x \<notin> dom (g_map s)" by auto
    then have v: "?x \<notin> set (g_vector s)" using d(1) by (simp add: named_ok_def)
    have t': "t = s\<lparr>g_runners := AList.update ?x True (g_runners s), g_map := (g_map s)(?x \<mapsto> [n]),
      g_vector := g_vector s @ [?x]\<rparr>"
      using True by (simp add: t singular_push_def Let_def)
    have "singular_core t ps"
    proof (rule singular_coreI)
      show "runs_of y ps = (if y \<in> set (g_vector t) \<and> \<not> flag_at (g_runners t) y then 1 else 0)" for y
        using d(5) [of y] v by (simp add: t')
      show "queue_at (g_map t) y \<noteq> []" if "flag_at (g_runners t) y" for y
        using that d(6) [of y] by (simp add: t' split: if_splits)
    qed (use d named_ok_push_new(1) [OF d(1) x n(1)] n(2) in \<open>simp_all add: t' distinct_update update_conv'\<close>)
    with named_ok_push_new(2) [OF d(1) x n(1)] show ?thesis by (simp add: t')
  next
    case False
    then have x: "?x \<in> dom (g_map s)" by auto
    then have v: "?x \<in> set (g_vector s)" using d(1) by (simp add: named_ok_def)
    have t': "t = s\<lparr>g_map := (g_map s)(?x \<mapsto> queue_at (g_map s) ?x @ [n])\<rparr>"
      using False by (auto simp: t singular_push_def Let_def)
    have "singular_core t ps"
    proof (rule singular_coreI)
      show "runs_of y ps = (if y \<in> set (g_vector t) \<and> \<not> flag_at (g_runners t) y then 1 else 0)" for y
        using d(5) [of y] by (simp add: t')
      show "queue_at (g_map t) y \<noteq> []" if "flag_at (g_runners t) y" for y
        using that d(6) [of y] by (simp add: t')
    qed (use d named_ok_push_old(1) [OF d(1) x n(1)] in \<open>simp_all add: t'\<close>)
    with named_ok_push_old(2) [OF d(1) x n(1)] v show ?thesis by (auto simp: t')
  qed
qed

lemma singular_new_ok:
  assumes "singular_core t ps" and "g_actives t < g_max t"
  shows "singular_inv (singular_new t) (ps @ [AtDequeue])"
  using assms(1) unat_inc [OF assms(2)] assms(2)
  by (auto simp: singular_inv_def singular_core_def singular_new_def word_less_nat_alt)

text \<open>A task is accepted without a new runner only when there is a runner that will look at the queues.\<close>

lemma singular_request_ok:
  assumes i: "singular_inv s ps" and ok: "call_ok c" and now: "0 < now"
    and r: "singular_request c uuid now s = (n, spawn, s')"
  shows "singular_inv s' (if spawn then ps @ [AtDequeue] else ps) \<and> g_running s' = g_running s \<and>
    (if node_bool n then n_uuid n = uuid \<and> queued_of (g_vector s') (g_map s') = add_mset n (queued_of (g_vector s) (g_map s))
     else queued_of (g_vector s') (g_map s') = queued_of (g_vector s) (g_map s))"
proof (cases "node_bool n")
  case False
  then have "s' = s \<and> \<not> spawn" using r now
    by (cases c) (auto simp: singular_start_def singular_emplace_def singular_place_def singular_node_def node_bool_def
        empty_node_def Let_def split: if_splits)
  with i False show ?thesis by simp
next
  case True
  then obtain a where a: "name_ok a" "n = singular_node a uuid now"
    "spawn \<and> s' = singular_new (singular_push n s) \<and> g_actives (singular_push n s) < g_max (singular_push n s) \<or>
     \<not> spawn \<and> s' = singular_push n s \<and> (\<not> g_actives (singular_push n s) < g_max (singular_push n s) \<or>
       length (g_runners (singular_push n s)) \<le> unat (g_actives (singular_push n s)))"
    using r ok by (cases c) (auto simp: singular_start_def singular_emplace_def singular_place_def Let_def split: if_splits)
  let ?t = "singular_push n s"
  have "n_name n \<noteq> []" "n_uuid n = uuid" using a(1,2) by (simp_all add: name_ok_def singular_node_def)
  note p = singular_push_ok [OF singular_inv_core [OF i] True this(1) refl]
  note d = singular_coreD [OF conjunct1 [OF p]]
  have len: "length (g_runners ?t) = length (g_vector ?t)" using flags_length [OF d(2,3)] d(1) by (simp add: named_ok_def)
  have "0 < lives ps" if "\<not> spawn"
  proof -
    have "unat (g_max ?t) \<le> lives ps \<or> length (g_vector ?t) \<le> lives ps"
      using a(3) that len d(9) by (auto simp: word_less_nat_alt)
    moreover have "0 < unat (g_max ?t)" "0 < length (g_vector ?t)" using d(8) p by (simp_all add: word_less_nat_alt)
    ultimately show ?thesis by linarith
  qed
  with a(3) p True singular_new_ok [of ?t ps] \<open>n_uuid n = uuid\<close> show ?thesis
    by (cases spawn) (auto simp: singular_inv_def singular_new_def)
qed

lemma singular_took_ok:
  assumes i: "singular_inv s ps" and p: "i < length ps" "ps ! i = AtDequeue"
    and x: "flag_at (g_runners s) x" "queue_at (g_map s) x = n # q" and pos: "unat p \<le> length (g_vector s)"
  shows "singular_inv (s\<lparr>g_position := p, g_runners := AList.update x False (g_runners s), g_map := (g_map s)(x \<mapsto> q),
         g_running := r\<rparr>) (ps[i := InRun n])" (is "singular_inv ?t ?ps")
proof -
  note c = singular_inv_core [OF i]
  note d = singular_coreD [OF c]
  note pop = named_ok_pop [OF d(1) x(2)]
  have v: "x \<in> set (g_vector s)" by (rule flag_at_in [OF c x(1)])
  have l: "lives ?ps = lives ps" using lives_upd [OF p, of "InRun n"] by simp
  have "0 < lives ps" using p unfolding lives_pos by (metis live.simps(3) nth_mem)
  moreover have "singular_core ?t ?ps"
  proof (rule singular_coreI)
    show "runs_of y ?ps = (if y \<in> set (g_vector ?t) \<and> \<not> flag_at (g_runners ?t) y then 1 else 0)" for y
      using d(5) [of y] runs_of_upd [OF p, of y "InRun n"] pop(3) x(1) v by auto
    show "queue_at (g_map ?t) y \<noteq> []" if "flag_at (g_runners ?t) y" for y
      using that d(6) [of y] by (simp split: if_splits)
    show "dom (map_of (g_runners ?t)) = set (g_vector ?t)" using d(3) v by (simp add: update_conv' insert_absorb)
  qed (use d pop(1) pos l in \<open>simp_all add: distinct_update\<close>)
  ultimately show ?thesis by (simp add: singular_inv_def l)
qed

lemma singular_left_ok:
  assumes i: "singular_inv s ps" and p: "i < length ps" "ps ! i = AtDequeue"
    and x: "unat (g_actives s) > length (g_vector s) \<or> (\<forall>x \<in> set (g_vector s). \<not> flag_at (g_runners s) x)"
    and q: "unat q \<le> length (g_vector s)" and t: "t = s\<lparr>g_position := q, g_actives := g_actives s - 1\<rparr>"
  shows "singular_inv t (ps[i := Exiting])"
proof -
  note d = singular_coreD [OF singular_inv_core [OF i]]
  let ?ps = "ps[i := Exiting]"
  have l: "lives ?ps + 1 = lives ps" using lives_upd [OF p, of Exiting] by simp
  have r: "runs_of y ?ps = runs_of y ps" for y using runs_of_upd [OF p, of y Exiting] by simp
  have "0 < lives ?ps" if "queued_of (g_vector t) (g_map t) \<noteq> {#}"
  proof -
    have "g_vector s \<noteq> []" using that by (auto simp: t)
    then obtain y where y: "y \<in> set (g_vector s)" by (meson last_in_set)
    show ?thesis
    proof (cases "unat (g_actives s) > length (g_vector s)")
      case True
      have "0 < length (g_vector s)" using \<open>g_vector s \<noteq> []\<close> by simp
      with True l d(9) show ?thesis by linarith
    next
      case False
      then have "0 < runs_of y ?ps" using x d(5) [of y] y r by auto
      then show ?thesis using runs_of_lives [of y ?ps] by linarith
    qed
  qed
  moreover have "singular_core t ?ps"
  proof (rule singular_coreI)
    show "runs_of y ?ps = (if y \<in> set (g_vector t) \<and> \<not> flag_at (g_runners t) y then 1 else 0)" for y
      using d(5) [of y] r by (simp add: t)
    show "unat (g_actives t) = lives ?ps" using d(9) l unat_dec [of "g_actives s"] by (simp add: t)
  qed (use d q l in \<open>simp_all add: t\<close>)
  ultimately show ?thesis by (simp add: singular_inv_def)
qed

lemma singular_finish_ok:
  assumes i: "singular_inv s ps" and p: "i < length ps" "ps ! i = InRun n" and t: "t = singular_finish n s"
  shows "singular_inv t (ps[i := AtClean n]) \<and>
    queued_of (g_vector t) (g_map t) = queued_of (g_vector s) (g_map s) \<and> g_running t = g_running s"
proof -
  let ?x = "n_name n" and ?ps = "ps[i := AtClean n]"
  note d = singular_coreD [OF singular_inv_core [OF i]]
  have l: "lives ?ps = lives ps" using lives_upd [OF p, of "AtClean n"] by simp
  have pos: "0 < lives ps" using p unfolding lives_pos by (metis live.simps(4) nth_mem)
  have "InRun n \<in> set ps" using p by (metis nth_mem)
  then have "0 < runs_of ?x ps" unfolding runs_of_pos by blast
  then have x: "?x \<in> set (g_vector s)" "\<not> flag_at (g_runners s) ?x" using d(5) [of ?x] by (auto split: if_splits)
  have r: "runs_of y ?ps = (if y = ?x then 0 else runs_of y ps)" for y
    using runs_of_upd [OF p, of y "AtClean n"] d(5) [of ?x] x by auto
  have m: "map_touch (g_map s) [] ?x = g_map s" using x(1) d(1) by (simp add: named_ok_def)
  show ?thesis
  proof (cases "queue_at (g_map s) ?x = []")
    case True
    let ?v = "remove1 ?x (g_vector s)"
    have t': "t = s\<lparr>g_map := (g_map s)(?x := None), g_runners := AList.delete ?x (g_runners s), g_vector := ?v,
      g_position := (if unat (g_position s) > length ?v then 0 else g_position s)\<rparr>"
      using True by (simp add: t singular_finish_def m Let_def)
    have dv: "set ?v = set (g_vector s) - {?x}" using d(1) by (simp add: named_ok_def)
    have "singular_core t ?ps"
    proof (rule singular_coreI)
      show "runs_of y ?ps = (if y \<in> set (g_vector t) \<and> \<not> flag_at (g_runners t) y then 1 else 0)" for y
        using d(5) [of y] r [of y] dv by (simp add: t')
      show "queue_at (g_map t) y \<noteq> []" if "flag_at (g_runners t) y" for y
        using that d(6) [of y] by (simp add: t' split: if_splits)
      show "dom (map_of (g_runners t)) = set (g_vector t)" using d(3) dv by (simp add: t' delete_conv')
      show "[] \<notin> set (g_vector t)" using d(4) dv by (simp add: t')
    qed (use d named_ok_remove1 [OF d(1) True] l in \<open>simp_all add: t' distinct_delete\<close>)
    with named_ok_remove1 [OF d(1) True] l pos show ?thesis by (simp add: t' singular_inv_def)
  next
    case False
    have t': "t = s\<lparr>g_runners := AList.update ?x True (g_runners s)\<rparr>"
      using False by (simp add: t singular_finish_def m Let_def)
    have "singular_core t ?ps"
    proof (rule singular_coreI)
      show "runs_of y ?ps = (if y \<in> set (g_vector t) \<and> \<not> flag_at (g_runners t) y then 1 else 0)" for y
        using d(5) [of y] r [of y] by (simp add: t')
      show "queue_at (g_map t) y \<noteq> []" if "flag_at (g_runners t) y" for y
        using that d(6) [of y] False by (simp add: t' split: if_splits)
      show "dom (map_of (g_runners t)) = set (g_vector t)" using d(3) x(1) by (simp add: t' update_conv' insert_absorb)
    qed (use d l in \<open>simp_all add: t' distinct_update\<close>)
    with l pos show ?thesis by (simp add: t' singular_inv_def)
  qed
qed

lemma singular_move_ok:
  assumes "singular_inv s ps" and "i < length ps" and "ps ! i = p" and "pc_run p = []" and "pc_run q = []" and "live q = live p"
  shows "singular_inv s (ps[i := q])"
proof -
  have "lives (ps[i := q]) = lives ps" using lives_upd [OF assms(2,3), of q] assms(6) by (simp split: if_splits)
  moreover have "runs_of y (ps[i := q]) = runs_of y ps" for y using runs_of_upd [OF assms(2,3), of y q] assms(4,5) by simp
  ultimately show ?thesis using assms(1) by (simp add: singular_inv_def singular_core_def)
qed

interpretation singular: task_queue_live singular_class call_ok singular_ini singular_inv
  "\<lambda>s. queued_of (g_vector s) (g_map s)" g_running
proof (unfold_locales, goal_cases)
  case (1 s)
  then show ?case
    by (auto simp: singular_ini_def singular_init_def singular_inv_def singular_core_def runs_of_def flag_at_def)
next
  case (2 s ps r now uuid n spawn s')
  then show ?case using singular_request_ok [OF 2(1-3)] by (simp add: singular_class_def)
next
  case (3 s ps i n s')
  from singular_inv_core [OF 3(1)] show ?case
  proof (cases rule: singular_dequeue_cases)
    case (took x p m q)
    then have "m = n" using 3 by (simp add: singular_class_def)
    with took 3(4) named_ok_pop(2) [OF singular_coreD(1) [OF singular_inv_core [OF 3(1)]] took(2)]
      singular_took_ok [OF 3(1-3) took(1-3)]
    show ?thesis by (auto simp: singular_class_def)
  qed (use 3 in \<open>auto simp: singular_class_def\<close>)
next
  case (4 s ps i n s')
  from singular_inv_core [OF 4(1)] show ?case
  proof (cases rule: singular_dequeue_cases)
    case surplus
    with 4 singular_left_ok [OF 4(1-3), of "g_position s" s'] singular_coreD(7) [OF singular_inv_core [OF 4(1)]]
    show ?thesis by (auto simp: singular_class_def)
  next
    case (idle p)
    with 4 singular_left_ok [OF 4(1-3), of p s'] show ?thesis by (auto simp: singular_class_def)
  next
    case (took x p m q)
    then have "m = n" using 4 by (simp add: singular_class_def)
    with named_ok_pop(3) [OF singular_coreD(1) [OF singular_inv_core [OF 4(1)]] took(2)] 4 show ?thesis by simp
  qed
next
  case (5 s ps i n s')
  then show ?case using singular_finish_ok [OF 5(1-3) refl] by (simp add: singular_class_def)
next
  case (6 s ps i n s')
  then show ?case using singular_move_ok [OF 6(1-3), of "AtErase n"] by (simp add: singular_class_def)
next
  case (7 s ps i n s')
  then show ?case using singular_move_ok [OF 7(1-3), of AtDequeue]
    by (simp add: singular_class_def singular_erase_def singular_inv_def singular_core_def)
next
  case (8 s ps i s')
  then show ?case using singular_move_ok [OF 8(1-3), of Gone] by (simp add: singular_class_def)
next
  case (9 s ps)
  then show ?case by (simp add: singular_inv_def lives_pos)
qed

subsection \<open>What holds for singular\<close>

lemma in_run_two:
  assumes "i < length ps" and "j < length ps" and "i < j" and "ps ! i = InRun n" and "ps ! j = InRun m" and "n_name m = n_name n"
  shows "2 \<le> runs_of (n_name n) ps"
proof -
  obtain as bs where ps: "ps = as @ InRun n # bs" "length as = i" using split_at [OF assms(1)] assms(4) by auto
  then have "ps ! j = bs ! (j - Suc i)" "j - Suc i < length bs" using assms(2,3) by (auto simp: nth_append nth_Cons')
  then have "InRun m \<in> set bs" using assms(5) by (metis nth_mem)
  then have "0 < runs_of (n_name n) bs" using assms(6) unfolding runs_of_pos by blast
  then show ?thesis by (simp add: ps(1) runs_of_split)
qed

text \<open>C3: At most one task of each name of class \<open>singular\<close> is in execution at any time, whatever the interleaving of its runners and
  of the calls of \<open>start\<close>, \<open>emplace\<close> and \<open>place\<close>; \<open>dequeue\<close> never throws.\<close>

theorem singular_exclusion:
  assumes "singular_reach s" and "i < length (pcs s)" and "j < length (pcs s)" and "pcs s ! i = InRun n"
    and "pcs s ! j = InRun m" and "n_name m = n_name n"
  shows "i = j \<and> singular_dequeue (shared s) \<noteq> None"
proof
  note c = singular_inv_core [OF singular.sys_invD(1) [OF singular.reach_inv [OF assms(1)]]]
  then show "singular_dequeue (shared s) \<noteq> None" by (cases rule: singular_dequeue_cases) auto
  have "runs_of (n_name n) (pcs s) \<le> 1" using singular_coreD(5) [OF c, of "n_name n"] by auto
  then show "i = j" using in_run_two [OF assms(2,3) _ assms(4-6)] in_run_two [OF assms(3,2) _ assms(5,4)] assms(6)
    by (cases i j rule: linorder_cases) auto
qed

text \<open>C11: Every task of class \<open>singular\<close> that \<open>start\<close>, \<open>emplace\<close> or \<open>place\<close> has accepted is run: if no more calls are made, the
  runners stop within a bounded number of steps whatever the order in which they move, and when all have stopped every
  accepted task (under a name that is not empty) has finished.\<close>

theorem singular_drain:
  assumes "singular_reach s"
  shows "(\<forall>is t. runners_run singular_class is s = Some t \<longrightarrow>
      length is \<le> 4 * size (queued_of (g_vector (shared s)) (g_map (shared s))) + weight (pcs s) \<and>
      (quiescent t \<longrightarrow> mset (finished t) = mset (started t))) \<and>
    (\<exists>is t. runners_run singular_class is s = Some t \<and> quiescent t)"
  using singular.drain [OF assms] by (simp add: singular.work_def)

text \<open>\<open>place\<close> refuses a name exactly while a task of it is queued or in execution.\<close>

lemma singular_place_refuses:
  assumes "singular_reach s" and "0 < now" and "singular_place a uuid now (shared s) = (n, spawn, s')"
  shows "\<not> node_bool n \<longleftrightarrow> queue_at (g_map (shared s)) (a_name a) \<noteq> [] \<or> (\<exists>m. n_name m = a_name a \<and> InRun m \<in> set (pcs s))"
proof -
  note c = singular_inv_core [OF singular.sys_invD(1) [OF singular.reach_inv [OF assms(1)]]]
  note d = singular_coreD [OF c]
  have "map_of (g_runners (shared s)) (a_name a) = None \<longleftrightarrow> a_name a \<notin> set (g_vector (shared s))"
    by (metis d(3) domIff)
  then have "\<not> node_bool n \<longleftrightarrow> a_name a \<in> set (g_vector (shared s))"
    using assms(2,3) by (auto simp: singular_place_def singular_node_def node_bool_def empty_node_def Let_def split: if_splits)
  also have "\<dots> \<longleftrightarrow> queue_at (g_map (shared s)) (a_name a) \<noteq> [] \<or> 0 < runs_of (a_name a) (pcs s)"
    using d(5,6) [of "a_name a"] queue_at_in [OF d(1), of "a_name a"] by (auto split: if_splits)
  finally show ?thesis unfolding runs_of_pos .
qed

subsection \<open>Executions\<close>

lemmas singular_eval = task_sys_init_def singular_init_def task_start_def singular_class_def singular_start_def
  singular_emplace_def singular_place_def singular_push_def singular_new_def singular_dequeue_def singular_finish_def
  singular_erase_def singular_node_def empty_node_def node_bool_def runner_next_def name_args_def name_ok_def queue_at_def
  map_at_def map_touch_def flag_at_def flag_touch_def Let_def

lemma singular_exec_reach:
  assumes "task_exec singular_class call_ok es (task_sys_init (singular_init m)) = Some s" and "0 < m"
  shows "singular_reach s"
  by (rule exec_reach [OF task_reach.init assms(1)]) (use assms(2) in \<open>auto simp: singular_ini_def\<close>)

theorem singular_exclusion_witness:
  "\<exists>(s :: singular task_sys) n. length (pcs s) = 2 \<and> pcs s ! 0 = InRun n \<and>
    (\<forall>j < 2. \<forall>m. pcs s ! j = InRun m \<and> n_name m = n_name n \<longrightarrow> 0 = j \<and> singular_dequeue (shared s) \<noteq> None)"
proof -
  obtain s n where s: "task_exec singular_class call_ok [Call (Start (name_args ''x'')) ''a'' 1,
      Call (Start (name_args ''y'')) ''b'' 2, Call (Emplace (name_args ''z'')) ''c'' 3, Runner 0, Runner 1]
      (task_sys_init (singular_init 2)) = Some s"
    "length (pcs s) = 2" "pcs s ! 0 = InRun n"
    by (simp add: singular_eval)
  have "singular_reach s" by (rule singular_exec_reach [OF s(1)]) simp
  have "0 = j \<and> singular_dequeue (shared s) \<noteq> None" if "j < 2" "pcs s ! j = InRun m" "n_name m = n_name n" for j m
    by (rule singular_exclusion [OF \<open>singular_reach s\<close> _ _ s(3) that(2,3)]) (use s(2) that(1) in simp_all)
  with s(2,3) show ?thesis by blast
qed

theorem singular_drain_witness:
  "\<exists>s. singular_reach s \<and> length (started s) = 2 \<and> (\<forall>is t. runners_run singular_class is s = Some t \<longrightarrow>
      length is \<le> 4 * size (queued_of (g_vector (shared s)) (g_map (shared s))) + weight (pcs s) \<and>
      (quiescent t \<longrightarrow> mset (finished t) = mset (started t))) \<and>
    (\<exists>is t. runners_run singular_class is s = Some t \<and> quiescent t)"
proof -
  obtain s where s: "task_exec singular_class call_ok [Call (Start (name_args ''x'')) ''a'' 1,
      Call (Start (name_args ''x'')) ''b'' 2, Call (Place (name_args ''x'')) ''c'' 3, Runner 0]
      (task_sys_init (singular_init 2)) = Some s" "length (started s) = 2"
    by (simp add: singular_eval)
  have "singular_reach s" by (rule singular_exec_reach [OF s(1)]) simp
  with singular_drain [OF this] s(2) show ?thesis by blast
qed

text \<open>
  A task with the empty name is never run, and it hides the names behind it: the loops of \<open>dequeue\<close> stop at it and
  take it for none.
\<close>

lemma singular_empty_name:
  "\<exists>s. task_reach singular_class (\<lambda>_. True) singular_ini s \<and> quiescent s \<and>
    map n_uuid (started s) = [''a'', ''b''] \<and> finished s = []"
proof -
  obtain s where s: "task_exec singular_class (\<lambda>_. True) [Call (Start (name_args [])) ''a'' 1,
      Call (Start (name_args ''y'')) ''b'' 2, Runner 0, Runner 0] (task_sys_init (singular_init 1)) = Some s"
    "pcs s = [Gone]" "map n_uuid (started s) = [''a'', ''b'']" "finished s = []"
    by (simp add: singular_eval)
  have "singular_ini (singular_init 1)" unfolding singular_ini_def by (rule exI [of _ 1]) simp
  then have "task_reach singular_class (\<lambda>_. True) singular_ini s" by (rule exec_reach [OF task_reach.init s(1)])
  with s(2-4) show ?thesis by (auto simp: quiescent_def)
qed

end
