(* ===== verification/Core_Pool.thy ===== *)
theory Core_Pool
  imports Task_Runner
begin

text \<open>
  The thread pool \<open>concurrent::core\<close> of \<open>src/arken/concurrent/core.cpp\<close>, which runs the runner objects of the task classes, the
  channels and all other objects derived from \<open>base\<close>. \<open>start\<close> creates a thread when all are occupied and fewer than
  \<open>max\<close> exist, and queues the object; each thread loops in \<open>working\<close>: it takes an object, runs it and deletes it. The Lua
  function \<open>core.max\<close> changes the maximum at any time.

  Every critical section is a step. A thread that waits on the condition variable is a worker at \<open>AtGet\<close> with an empty queue,
  for which \<open>worker_next\<close> is not defined: \<open>start\<close> pushes and notifies while it holds the mutex, under which \<open>wait\<close> evaluates
  its predicate, so that such a notification cannot be missed. \<open>shutdown\<close> does not hold the mutex; it is the subject of the
  theory \<open>Core_Shutdown\<close>. The code that an object runs is not modelled: it is the time spent at \<open>Busy\<close>.
\<close>

record job =
  j_uuid :: string
  j_inspect :: string

datatype worker =
    AtGet \<comment> \<open>in \<open>get\<close>\<close>
  | Busy job \<comment> \<open>in \<open>run\<close>\<close>
  | AtDone job \<comment> \<open>behind \<open>finished(true)\<close>, before the lock\<close>
  | AtNull \<comment> \<open>has taken a null pointer, before the lock\<close>
  | Ended

text \<open>The index of a worker stands for its \<open>std::thread::id\<close>; \<open>done\<close> records the objects whose \<open>m_finished\<close> is set.\<close>

record core =
  c_queue :: "job option list"
  c_workers :: "worker list"
  c_max :: u32
  c_actives :: u32
  c_waiting :: "string \<rightharpoonup> string"
  c_running :: "nat \<rightharpoonup> job"
  c_done :: "job list"

definition core_init :: "u32 \<Rightarrow> core" where
  "core_init m = \<lparr>c_queue = [], c_workers = [], c_max = m, c_actives = 0, c_waiting = Map.empty, c_running = Map.empty, c_done = []\<rparr>"

text \<open>The number of workers is a 64-bit \<open>size_t\<close>, from which the 32-bit counter is subtracted.\<close>

definition core_start :: "job \<Rightarrow> core \<Rightarrow> core" where
  "core_start j s =
     (let n = length (c_workers s);
          s1 = (if n < unat (c_max s) \<and> (of_nat n :: 64 word) - ucast (c_actives s) = 0
                then s\<lparr>c_workers := c_workers s @ [AtGet]\<rparr> else s)
      in s1\<lparr>c_queue := c_queue s1 @ [Some j], c_actives := c_actives s1 + 1,
            c_waiting := (c_waiting s1)(j_uuid j \<mapsto> j_inspect j)\<rparr>)"

text \<open>\<open>core::max() = max\<close>, the Lua function \<open>core.max\<close>.\<close>

definition core_set_max :: "u32 \<Rightarrow> core \<Rightarrow> core" where
  "core_set_max m s = s\<lparr>c_max := m\<rparr>"

definition core_get :: "nat \<Rightarrow> core \<Rightarrow> core option" where
  "core_get i s =
     (case c_queue s of
        [] \<Rightarrow> None
      | None # q \<Rightarrow> Some (s\<lparr>c_queue := q, c_workers := (c_workers s)[i := AtNull]\<rparr>)
      | Some j # q \<Rightarrow> Some (s\<lparr>c_queue := q, c_waiting := (c_waiting s)(j_uuid j := None), c_running := (c_running s)(i \<mapsto> j),
                         c_workers := (c_workers s)[i := Busy j]\<rparr>))"

text \<open>One round of \<open>working\<close> in steps.\<close>

definition worker_next :: "nat \<Rightarrow> core \<Rightarrow> core option" where
  "worker_next i s =
     (if i < length (c_workers s) then
        (case c_workers s ! i of
           AtGet \<Rightarrow> core_get i s
         | Busy j \<Rightarrow> Some (s\<lparr>c_workers := (c_workers s)[i := AtDone j], c_done := c_done s @ [j]\<rparr>)
         | AtDone j \<Rightarrow> Some (s\<lparr>c_workers := (c_workers s)[i := AtGet], c_running := (c_running s)(i := None),
                          c_actives := c_actives s - 1\<rparr>)
         | AtNull \<Rightarrow> Some (s\<lparr>c_workers := (c_workers s)[i := Ended], c_actives := c_actives s - 1\<rparr>)
         | Ended \<Rightarrow> None)
      else None)"

fun core_run :: "nat list \<Rightarrow> core \<Rightarrow> core option" where
  "core_run [] s = Some s"
| "core_run (i # is) s = (case worker_next i s of None \<Rightarrow> None | Some t \<Rightarrow> core_run is t)"

text \<open>The maximum may be changed to any positive number, in a pool that was not created with the maximum zero (see
  \<open>core_max_zero\<close> for that one).\<close>

inductive core_step :: "core \<Rightarrow> core \<Rightarrow> bool" where
  start: "core_step s (core_start j s)"
| work: "worker_next i s = Some t \<Longrightarrow> core_step s t"
| max: "0 < c_max s \<Longrightarrow> 0 < m \<Longrightarrow> core_step s (core_set_max m s)"

inductive core_reach :: "core \<Rightarrow> bool" where
  init: "core_reach (core_init m)"
| step: "core_reach s \<Longrightarrow> core_step s t \<Longrightarrow> core_reach t"

text \<open>A worker is occupied from \<open>get\<close> to the decrement of \<open>actives()\<close>.\<close>

fun occupied :: "worker \<Rightarrow> bool" where
  "occupied AtGet = False"
| "occupied Ended = False"
| "occupied _ = True"

definition occupied_count :: "worker list \<Rightarrow> nat" where
  "occupied_count ws = length (filter occupied ws)"

definition idle_count :: "worker list \<Rightarrow> nat" where
  "idle_count ws = length (filter ((=) AtGet) ws)"

fun worker_weight :: "worker \<Rightarrow> nat" where
  "worker_weight (Busy j) = 2"
| "worker_weight (AtDone j) = 1"
| "worker_weight AtNull = 1"
| "worker_weight _ = 0"

definition core_work :: "core \<Rightarrow> nat" where
  "core_work s = 3 * length (c_queue s) + sum_list (map worker_weight (c_workers s))"

text \<open>\<open>actives()\<close> counts what is queued and what is being worked on, and \<open>running()\<close> is exact.\<close>

definition core_inv :: "core \<Rightarrow> bool" where
  "core_inv s \<longleftrightarrow> c_actives s = of_nat (length (c_queue s) + occupied_count (c_workers s)) \<and>
     (\<forall>i j. c_running s i = Some j \<longleftrightarrow> i < length (c_workers s) \<and> (c_workers s ! i = Busy j \<or> c_workers s ! i = AtDone j))"

text \<open>Before \<open>shutdown\<close> there are no null pointers and no thread has ended, and there is a thread once there was an object.\<close>

definition core_open :: "core \<Rightarrow> bool" where
  "core_open s \<longleftrightarrow> None \<notin> set (c_queue s) \<and> AtNull \<notin> set (c_workers s) \<and> Ended \<notin> set (c_workers s) \<and>
     (c_workers s = [] \<and> 0 < c_max s \<longrightarrow> c_queue s = [])"

text \<open>Fewer threads than \<open>max\<close> are enough for all objects.\<close>

definition core_ample :: "core \<Rightarrow> bool" where
  "core_ample s \<longleftrightarrow>
     (length (c_workers s) < unat (c_max s) \<longrightarrow> length (c_queue s) + occupied_count (c_workers s) \<le> length (c_workers s))"

text \<open>The executions in which the maximum is not raised while there are more objects than threads.\<close>

inductive core_calm :: "core \<Rightarrow> bool" where
  init: "core_calm (core_init m)"
| start: "core_calm s \<Longrightarrow> core_calm (core_start j s)"
| work: "core_calm s \<Longrightarrow> worker_next i s = Some t \<Longrightarrow> core_calm t"
| max: "core_calm s \<Longrightarrow> m \<le> c_max s \<or> length (c_queue s) + occupied_count (c_workers s) \<le> length (c_workers s) \<Longrightarrow>
    core_calm (core_set_max m s)"

lemma worker_nextE [consumes 1, case_names null took ran freed ended]:
  assumes "worker_next i s = Some t"
  obtains q where "i < length (c_workers s)" "c_workers s ! i = AtGet" "c_queue s = None # q"
      "t = s\<lparr>c_queue := q, c_workers := (c_workers s)[i := AtNull]\<rparr>"
  | j q where "i < length (c_workers s)" "c_workers s ! i = AtGet" "c_queue s = Some j # q"
      "t = s\<lparr>c_queue := q, c_waiting := (c_waiting s)(j_uuid j := None), c_running := (c_running s)(i \<mapsto> j),
         c_workers := (c_workers s)[i := Busy j]\<rparr>"
  | j where "i < length (c_workers s)" "c_workers s ! i = Busy j"
      "t = s\<lparr>c_workers := (c_workers s)[i := AtDone j], c_done := c_done s @ [j]\<rparr>"
  | j where "i < length (c_workers s)" "c_workers s ! i = AtDone j"
      "t = s\<lparr>c_workers := (c_workers s)[i := AtGet], c_running := (c_running s)(i := None), c_actives := c_actives s - 1\<rparr>"
  | "i < length (c_workers s)" "c_workers s ! i = AtNull"
      "t = s\<lparr>c_workers := (c_workers s)[i := Ended], c_actives := c_actives s - 1\<rparr>"
  using assms
  by (cases "c_workers s ! i") (auto simp: worker_next_def core_get_def split: if_splits list.splits option.splits)

lemmas occupied_upd = length_filter_upd [where P = occupied, folded occupied_count_def]

lemma worker_weight_upd:
  assumes "i < length ws" and "ws ! i = w"
  shows "sum_list (map worker_weight (ws[i := v])) + worker_weight w = sum_list (map worker_weight ws) + worker_weight v"
proof -
  obtain as bs where "ws = as @ w # bs" "length as = i" using split_at [OF assms(1)] assms(2) by auto
  then show ?thesis by (simp add: list_update_append)
qed

lemma occupied_append [simp]: "occupied_count (ws @ [AtGet]) = occupied_count ws"
  by (simp add: occupied_count_def)

lemma occupied_le: "occupied_count ws \<le> length ws"
  by (simp add: occupied_count_def)

lemma occupied_idle: "Ended \<notin> set ws \<Longrightarrow> occupied_count ws + idle_count ws = length ws"
proof (induction ws)
  case (Cons w ws)
  then show ?case by (cases w) (auto simp: occupied_count_def idle_count_def)
qed (simp add: occupied_count_def idle_count_def)

lemma core_inv_start:
  assumes "core_inv s"
  shows "core_inv (core_start j s)"
proof -
  have "c_running s (length (c_workers s)) = None" using assms by (metis core_inv_def less_irrefl not_Some_eq)
  with assms show ?thesis
    by (auto simp: core_inv_def core_start_def Let_def nth_append less_Suc_eq)
qed

lemma core_inv_work:
  assumes "core_inv s" and "worker_next i s = Some t"
  shows "core_inv t"
  using assms(2)
proof (cases rule: worker_nextE)
  case (null q)
  then show ?thesis using assms(1) occupied_upd [OF null(1,2), of AtNull]
    by (auto simp: core_inv_def nth_list_update split: if_splits)
next
  case (took j q)
  then show ?thesis using assms(1) occupied_upd [OF took(1,2), of "Busy j"]
    by (auto simp: core_inv_def nth_list_update split: if_splits)
next
  case (ran j)
  then show ?thesis using assms(1) occupied_upd [OF ran(1,2), of "AtDone j"]
    by (auto simp: core_inv_def nth_list_update split: if_splits)
next
  case (freed j)
  from occupied_upd [OF freed(1,2), of AtGet] have "occupied_count (c_workers s) = Suc (occupied_count ((c_workers s)[i := AtGet]))"
    by simp
  with freed assms(1) show ?thesis by (auto simp: core_inv_def nth_list_update split: if_splits)
next
  case ended
  from occupied_upd [OF ended(1,2), of Ended] have "occupied_count (c_workers s) = Suc (occupied_count ((c_workers s)[i := Ended]))"
    by simp
  with ended assms(1) show ?thesis by (auto simp: core_inv_def nth_list_update split: if_splits)
qed

text \<open>The test of \<open>start\<close>, as long as there are not more objects than threads.\<close>

lemma core_start_test:
  assumes "core_inv s" and n: "length (c_workers s) < unat (c_max s)"
    and k: "length (c_queue s) + occupied_count (c_workers s) \<le> length (c_workers s)"
  shows "(of_nat (length (c_workers s)) :: 64 word) - ucast (c_actives s) = 0 \<longleftrightarrow>
    length (c_workers s) = length (c_queue s) + occupied_count (c_workers s)"
proof -
  let ?n = "length (c_workers s)" and ?k = "length (c_queue s) + occupied_count (c_workers s)"
  have m: "unat (c_max s) < 2 ^ 32" using unsigned_less [of "c_max s", where 'a = nat] by simp
  have "c_actives s = of_nat ?k" using assms(1) by (simp only: core_inv_def)
  moreover have "unat (of_nat ?k :: u32) = ?k" by (rule unat_of_nat_small) (use k n m in simp)
  ultimately have a: "unat (c_actives s) = ?k" by simp
  have "unat (of_nat ?n :: 64 word) = ?n" by (rule unat_of_nat_small) (use n m in simp)
  moreover have "unat (ucast (c_actives s) :: 64 word) = ?k" using a k n m
    by (simp add: unsigned_ucast_eq take_bit_nat_eq_self)
  ultimately show ?thesis by (metis eq_iff_diff_eq_0 word_unat_eq_iff)
qed

lemma core_ample_start:
  assumes "core_inv s" and "core_ample s"
  shows "core_ample (core_start j s)"
proof (cases "length (c_workers s) < unat (c_max s)")
  case True
  with assms(2) have "length (c_queue s) + occupied_count (c_workers s) \<le> length (c_workers s)" by (simp add: core_ample_def)
  with core_start_test [OF assms(1) True this] True show ?thesis by (auto simp: core_ample_def core_start_def Let_def)
next
  case False
  then show ?thesis by (auto simp: core_ample_def core_start_def Let_def)
qed

lemma core_open_start:
  assumes "core_inv s" and "core_open s"
  shows "core_open (core_start j s)"
proof -
  have "c_workers (core_start j s) \<noteq> []" if "0 < c_max s"
  proof (cases "c_workers s = []")
    case True
    with that assms(2) have "c_queue s = []" by (simp add: core_open_def)
    with True that core_start_test [OF assms(1)] show ?thesis
      by (simp add: core_start_def Let_def occupied_count_def word_less_nat_alt)
  qed (simp add: core_start_def Let_def)
  with assms(2) show ?thesis by (auto simp: core_open_def core_start_def Let_def)
qed

lemma core_open_work:
  assumes "core_open s" and "worker_next i s = Some t"
  shows "core_open t \<and> length (c_queue t) + occupied_count (c_workers t) \<le> length (c_queue s) + occupied_count (c_workers s) \<and>
    length (c_workers t) = length (c_workers s) \<and> c_max t = c_max s"
  using assms(2)
proof (cases rule: worker_nextE)
  case (null q)
  then show ?thesis using assms(1) by (simp add: core_open_def)
next
  case (took j q)
  then show ?thesis using assms(1) occupied_upd [OF took(1,2), of "Busy j"] set_update_subset_insert [of "c_workers s" i "Busy j"]
    by (auto simp: core_open_def)
next
  case (ran j)
  then show ?thesis using assms(1) occupied_upd [OF ran(1,2), of "AtDone j"] set_update_subset_insert [of "c_workers s" i "AtDone j"]
    by (auto simp: core_open_def)
next
  case (freed j)
  then show ?thesis using assms(1) occupied_upd [OF freed(1,2), of AtGet] set_update_subset_insert [of "c_workers s" i AtGet]
    by (auto simp: core_open_def)
next
  case ended
  then have "AtNull \<in> set (c_workers s)" by (metis nth_mem)
  then show ?thesis using assms(1) by (simp add: core_open_def)
qed

lemma core_inv_max: "core_inv s \<Longrightarrow> core_inv (core_set_max m s)"
  by (simp add: core_inv_def core_set_max_def)

lemma core_inv_init: "core_inv (core_init m)" "core_open (core_init m)" "core_ample (core_init m)"
  by (simp_all add: core_inv_def core_open_def core_ample_def core_init_def occupied_count_def)

lemma core_reach_inv: "core_reach s \<Longrightarrow> core_inv s \<and> core_open s"
proof (induction rule: core_reach.induct)
  case (init m)
  show ?case by (simp add: core_inv_init)
next
  case (step s t)
  from step.hyps(2) show ?case
  proof cases
    case (max m)
    then show ?thesis using step.IH core_inv_max by (simp add: core_open_def core_set_max_def)
  qed (use step.IH core_inv_start core_inv_work core_open_start core_open_work in blast)+
qed

text \<open>In the calm executions the part of \<open>core_open\<close> on the maximum zero is not needed.\<close>

definition core_no_null :: "core \<Rightarrow> bool" where
  "core_no_null s \<longleftrightarrow> None \<notin> set (c_queue s) \<and> AtNull \<notin> set (c_workers s) \<and> Ended \<notin> set (c_workers s)"

lemma core_calm_inv: "core_calm s \<Longrightarrow> core_inv s \<and> core_no_null s \<and> core_ample s"
proof (induction rule: core_calm.induct)
  case (init m)
  show ?case using core_inv_init [of m] by (simp add: core_no_null_def core_init_def)
next
  case (start s j)
  then show ?case using core_inv_start core_ample_start
    by (simp add: core_no_null_def) (simp add: core_start_def Let_def)
next
  case (work s i t)
  let ?s = "s\<lparr>c_max := 0\<rparr>" and ?t = "t\<lparr>c_max := 0\<rparr>"
  have "core_open ?s" using work by (simp add: core_open_def core_no_null_def)
  moreover have "worker_next i ?s = Some ?t" using work.hyps(2)
    by (cases rule: worker_nextE) (simp_all add: worker_next_def core_get_def)
  ultimately have "core_no_null t \<and> length (c_queue t) + occupied_count (c_workers t) \<le> length (c_queue s) + occupied_count (c_workers s) \<and>
      length (c_workers t) = length (c_workers s)"
    using core_open_work [of ?s i ?t] by (simp add: core_open_def core_no_null_def)
  moreover have "c_max t = c_max s" using work.hyps(2) by (cases rule: worker_nextE) simp_all
  ultimately show ?case using work core_inv_work [of s i t] by (auto simp: core_ample_def)
next
  case (max s m)
  then show ?case using core_inv_max
    by (auto simp: core_no_null_def core_ample_def core_set_max_def word_le_nat_alt)
qed

text \<open>C4: The pool never leaves an object waiting while it could run it. At any time before \<open>shutdown\<close>, when objects are queued: a
  thread that is free can take the oldest of them at once, and it then runs it; and unless as many threads exist as \<open>max\<close> allows,
  there are at least as many free threads as queued objects. The maximum may be changed meanwhile, but not raised while there
  are more objects than threads. \<open>running()\<close> holds for each thread the object that it runs.\<close>

theorem core_no_starvation:
  assumes "core_calm s" and "c_queue s \<noteq> []"
  shows "(\<forall>i < length (c_workers s). c_workers s ! i = AtGet \<longrightarrow>
      (\<exists>t j. c_queue s = Some j # c_queue t \<and> worker_next i s = Some t \<and> c_workers t = (c_workers s)[i := Busy j])) \<and>
    (length (c_queue s) \<le> idle_count (c_workers s) \<or> unat (c_max s) \<le> length (c_workers s)) \<and>
    (\<forall>i j. c_running s i = Some j \<longleftrightarrow> i < length (c_workers s) \<and> (c_workers s ! i = Busy j \<or> c_workers s ! i = AtDone j))"
proof (intro conjI)
  have i: "core_inv s" "core_no_null s" "core_ample s" using core_calm_inv [OF assms(1)] by simp_all
  obtain j q where q: "c_queue s = Some j # q" using assms(2) i(2) by (cases "c_queue s"; cases "hd (c_queue s)") (auto simp: core_no_null_def)
  then show "\<forall>i < length (c_workers s). c_workers s ! i = AtGet \<longrightarrow>
      (\<exists>t j. c_queue s = Some j # c_queue t \<and> worker_next i s = Some t \<and> c_workers t = (c_workers s)[i := Busy j])"
    by (simp add: worker_next_def core_get_def)
  have "occupied_count (c_workers s) + idle_count (c_workers s) = length (c_workers s)"
    by (rule occupied_idle) (use i(2) in \<open>simp add: core_no_null_def\<close>)
  with i(3) show "length (c_queue s) \<le> idle_count (c_workers s) \<or> unat (c_max s) \<le> length (c_workers s)"
    unfolding core_ample_def by linarith
  from i(1) show "\<forall>i j. c_running s i = Some j \<longleftrightarrow> i < length (c_workers s) \<and> (c_workers s ! i = Busy j \<or> c_workers s ! i = AtDone j)"
    by (simp add: core_inv_def)
qed

subsection \<open>Running down\<close>

text \<open>The objects that the pool has accepted: queued, in execution or finished.\<close>

fun queued_job :: "job option \<Rightarrow> job list" where
  "queued_job None = []"
| "queued_job (Some j) = [j]"

fun busy_job :: "worker \<Rightarrow> job list" where
  "busy_job (Busy j) = [j]"
| "busy_job _ = []"

definition core_jobs :: "core \<Rightarrow> job multiset" where
  "core_jobs s = mset (concat (map queued_job (c_queue s))) + mset (concat (map busy_job (c_workers s))) + mset (c_done s)"

definition core_stuck :: "core \<Rightarrow> bool" where
  "core_stuck s \<longleftrightarrow> list_all (\<lambda>i. worker_next i s = None) [0..<length (c_workers s)]"

lemma busy_job_upd:
  assumes "i < length ws" and "ws ! i = w"
  shows "mset (concat (map busy_job (ws[i := v]))) + mset (busy_job w) = mset (concat (map busy_job ws)) + mset (busy_job v)"
proof -
  obtain as bs where "ws = as @ w # bs" "length as = i" using split_at [OF assms(1)] assms(2) by auto
  then show ?thesis by (simp add: list_update_append)
qed

lemma core_jobs_work:
  assumes "worker_next i s = Some t"
  shows "core_jobs t = core_jobs s \<and> length (c_workers t) = length (c_workers s) \<and> core_work t < core_work s \<and> c_max t = c_max s"
  using assms
proof (cases rule: worker_nextE)
  case (null q)
  then show ?thesis using busy_job_upd [OF null(1,2), of AtNull] worker_weight_upd [OF null(1,2), of AtNull]
    by (simp add: core_jobs_def core_work_def)
next
  case (took j q)
  then show ?thesis using busy_job_upd [OF took(1,2), of "Busy j"] worker_weight_upd [OF took(1,2), of "Busy j"]
    by (simp add: core_jobs_def core_work_def)
next
  case (ran j)
  then show ?thesis using busy_job_upd [OF ran(1,2), of "AtDone j"] worker_weight_upd [OF ran(1,2), of "AtDone j"]
    by (simp add: core_jobs_def core_work_def)
next
  case (freed j)
  then show ?thesis using busy_job_upd [OF freed(1,2), of AtGet] worker_weight_upd [OF freed(1,2), of AtGet]
    by (simp add: core_jobs_def core_work_def)
next
  case ended
  then show ?thesis using busy_job_upd [OF ended(1,2), of Ended] worker_weight_upd [OF ended(1,2), of Ended]
    by (simp add: core_jobs_def core_work_def)
qed

lemma core_stuck_iff:
  "core_stuck s \<longleftrightarrow> (\<forall>w \<in> set (c_workers s). w = Ended \<or> w = AtGet \<and> c_queue s = [])"
proof -
  have "worker_next i s = None \<longleftrightarrow> c_workers s ! i = Ended \<or> c_workers s ! i = AtGet \<and> c_queue s = []"
    if "i < length (c_workers s)" for i
    using that by (cases "c_workers s ! i") (auto simp: worker_next_def core_get_def split: list.splits option.splits)
  then show ?thesis unfolding core_stuck_def list_all_iff all_set_conv_all_nth by auto
qed

lemma core_jobs_rest:
  assumes "c_queue t = []" and "\<forall>w \<in> set (c_workers t). busy_job w = []"
  shows "core_jobs t = mset (c_done t)"
proof -
  have "concat (map busy_job (c_workers t)) = []" using assms(2) by auto
  then show ?thesis unfolding core_jobs_def assms(1) by (simp only: list.map concat.simps mset.simps) simp
qed

lemma core_run_facts:
  "core_reach s \<Longrightarrow> core_run is s = Some t \<Longrightarrow>
     core_reach t \<and> core_jobs t = core_jobs s \<and> length is + core_work t \<le> core_work s \<and> c_max t = c_max s"
proof (induction "is" arbitrary: s)
  case (Cons i js)
  then obtain u where u: "worker_next i s = Some u" "core_run js u = Some t" by (auto split: option.splits)
  have "core_reach u" using Cons.prems(1) u(1) by (auto intro: core_reach.step core_step.work)
  from Cons.IH [OF this u(2)] core_jobs_work [OF u(1)] show ?case by auto
qed simp

text \<open>C12: Every object handed to the pool is run, if it has at least one thread at its disposal: when no more are started, the
  threads come to rest within a bounded number of steps, whatever their interleaving, and then the queue is empty and
  exactly the objects that were accepted have finished.\<close>

theorem core_drain:
  assumes "core_reach s" and "0 < c_max s" and "core_run is s = Some t"
  shows "length is \<le> core_work s \<and> (core_stuck t \<longrightarrow> c_queue t = [] \<and> mset (c_done t) = core_jobs s)"
proof
  note f = core_run_facts [OF assms(1,3)]
  then show "length is \<le> core_work s" by simp
  show "core_stuck t \<longrightarrow> c_queue t = [] \<and> mset (c_done t) = core_jobs s"
  proof
    assume st: "core_stuck t"
    have op: "core_open t" "core_inv t" using core_reach_inv f by auto
    have w: "\<forall>w \<in> set (c_workers t). w = AtGet \<and> c_queue t = []" using st op(1) by (auto simp: core_stuck_iff core_open_def)
    have "c_queue t = []"
    proof (cases "c_workers t = []")
      case True
      with op(1) f assms(2) show ?thesis by (simp add: core_open_def word_less_nat_alt)
    next
      case False
      with w show ?thesis by (meson last_in_set)
    qed
    moreover have "\<forall>w \<in> set (c_workers t). busy_job w = []" using w by auto
    ultimately show "c_queue t = [] \<and> mset (c_done t) = core_jobs s" using f core_jobs_rest by metis
  qed
qed

subsection \<open>Executions\<close>

lemma core_run_reach: "core_reach s \<Longrightarrow> core_run is s = Some t \<Longrightarrow> core_reach t"
  using core_run_facts by blast

lemmas core_eval = core_init_def core_start_def core_set_max_def worker_next_def core_get_def core_jobs_def core_work_def
  core_stuck_iff Let_def

definition pool_job :: "string \<Rightarrow> job" where
  "pool_job u = \<lparr>j_uuid = u, j_inspect = ''job''\<rparr>"

lemma core_reach_two: "core_reach (core_start (pool_job ''b'') (core_start (pool_job ''a'') (core_init 2)))"
  by (intro core_reach.step [OF _ core_step.start] core_reach.init)

theorem core_no_starvation_witness:
  "\<exists>s :: core. length (c_queue s) = 2 \<and> idle_count (c_workers s) = 2 \<and>
    (\<exists>t. worker_next 1 s = Some t \<and> c_workers t = [AtGet, Busy (pool_job ''a'')]) \<and>
    (length (c_queue s) \<le> idle_count (c_workers s) \<or> unat (c_max s) \<le> length (c_workers s))"
proof -
  define s where "s = core_start (pool_job ''b'') (core_set_max 2 (core_start (pool_job ''a'') (core_init 1)))"
  have c: "core_calm s" unfolding s_def
    by (intro core_calm.start core_calm.max core_calm.init) (simp add: core_eval occupied_count_def)
  have q: "c_queue s = [Some (pool_job ''a''), Some (pool_job ''b'')]" "c_workers s = [AtGet, AtGet]"
    by (simp_all add: s_def core_eval)
  then have "c_queue s \<noteq> []" by simp
  note n = core_no_starvation [OF c this]
  from n q have "\<exists>t j. c_queue s = Some j # c_queue t \<and> worker_next 1 s = Some t \<and> c_workers t = (c_workers s)[1 := Busy j]"
    by (elim conjE allE [of _ 1]) simp
  then have "\<exists>t. worker_next 1 s = Some t \<and> c_workers t = [AtGet, Busy (pool_job ''a'')]" using q by auto
  moreover have "length (c_queue s) = 2" "idle_count (c_workers s) = 2" using q by (simp_all add: idle_count_def)
  ultimately show ?thesis using n by metis
qed

theorem core_drain_witness:
  "\<exists>s t. core_run [0, 1, 0, 0, 1, 1] s = Some t \<and> core_stuck t \<and> length [0, 1, 0, 0, 1, 1 :: nat] \<le> core_work s \<and>
    c_queue t = [] \<and> mset (c_done t) = core_jobs s \<and> core_jobs s = {#pool_job ''a'', pool_job ''b''#}"
proof -
  let ?s = "core_start (pool_job ''b'') (core_start (pool_job ''a'') (core_init 2))"
  obtain t where t: "core_run [0, 1, 0, 0, 1, 1] ?s = Some t" "core_stuck t" by (simp add: core_eval)
  moreover have "0 < c_max ?s" "core_jobs ?s = {#pool_job ''a'', pool_job ''b''#}" by (simp_all add: core_eval)
  ultimately show ?thesis using core_drain [OF core_reach_two _ t(1)] by blast
qed

text \<open>Raising the maximum while there are more objects than threads: no later \<open>start\<close> creates the missing threads, since the number
  of threads differs from \<open>actives()\<close>. Here two objects wait behind a thread that is busy, and three more threads would be
  allowed.\<close>

lemma core_max_raised_late:
  "\<exists>s :: core. core_reach s \<and> c_max s = 4 \<and> length (c_queue s) = 2 \<and> (\<exists>j. c_workers s = [Busy j])"
proof -
  let ?a = "core_start (pool_job ''b'') (core_start (pool_job ''a'') (core_init 1))"
  obtain b where b: "worker_next 0 ?a = Some b" "c_workers b = [Busy (pool_job ''a'')]" "c_queue b = [Some (pool_job ''b'')]" "c_actives b = 2" "c_max b = 1"
    by (simp add: core_eval)
  let ?s = "core_start (pool_job ''c'') (core_set_max 4 b)"
  have "core_reach ?a" by (intro core_reach.step [OF _ core_step.start] core_reach.init)
  then have "core_reach b" using b(1) by (rule core_reach.step [OF _ core_step.work])
  then have "core_reach ?s" using b(5)
    by (intro core_reach.step [OF _ core_step.start] core_reach.step [OF _ core_step.max]) (simp_all add: word_less_nat_alt)
  with b show ?thesis by (intro exI [of _ ?s]) (simp add: core_start_def core_set_max_def Let_def)
qed

text \<open>
  \<open>os::cores\<close> returns \<open>std::thread::hardware_concurrency\<close>, which is zero when the number of processors is not known: then no
  thread is ever created and every object stays in the queue.
\<close>

lemma core_max_zero:
  "c_max s = 0 \<Longrightarrow> c_workers s = [] \<Longrightarrow> c_workers (core_start j s) = [] \<and> c_queue (core_start j s) = c_queue s @ [Some j] \<and>
     core_stuck (core_start j s)"
  by (simp add: core_start_def core_stuck_def Let_def)

end
