(* ===== verification/Core_Shutdown.thy ===== *)
theory Core_Shutdown
  imports Core_Pool
begin

text \<open>
  \<open>core::shutdown\<close> of \<open>src/arken/concurrent/core.cpp\<close>: it pushes one null pointer for each thread, counts it in \<open>actives()\<close> and
  notifies one thread, all without the mutex, and then waits until \<open>actives()\<close> is zero.

  Since the mutex is not held, the wait of a thread is not one step any more. A thread in \<open>get\<close> is awake, or it has found the
  queue empty and still holds the mutex (\<open>Checked\<close>), or it is blocked (\<open>Asleep\<close>). A notification wakes one blocked thread, of
  the scheduler's choice, and is lost when there is none; \<open>p_lost\<close> records that this has happened while a thread was at \<open>Checked\<close>. The
  three statements of a round of the first loop are steps of their own, which interleave with the threads. The push itself is one
  step, although it is a data race on the queue. No object is started once \<open>shutdown\<close> has begun, and threads do not wake
  up without a notification.
\<close>

datatype mode = Awake | Checked | Asleep

datatype shutdown_pc = Running | Push | Count | Notify | Waiting | Returned

record pool =
  p_core :: core
  p_mode :: "mode list"
  p_pc :: shutdown_pc
  p_left :: nat
  p_lost :: bool

definition pool_init :: "u32 \<Rightarrow> pool" where
  "pool_init m = \<lparr>p_core = core_init m, p_mode = [], p_pc = Running, p_left = 0, p_lost = False\<rparr>"

definition mutex_free :: "pool \<Rightarrow> bool" where
  "mutex_free s \<longleftrightarrow> Checked \<notin> set (p_mode s)"

text \<open>\<open>notify_one\<close>, waking the thread \<open>k\<close>.\<close>

definition notify_one :: "nat \<Rightarrow> mode list \<Rightarrow> mode list option" where
  "notify_one k ms =
     (if Asleep \<in> set ms then if k < length ms \<and> ms ! k = Asleep then Some (ms[k := Awake]) else None else Some ms)"

text \<open>\<open>start\<close>, under the mutex; a new thread is awake.\<close>

definition pool_start :: "nat \<Rightarrow> job \<Rightarrow> pool \<Rightarrow> pool option" where
  "pool_start k j s =
     (if p_pc s = Running \<and> mutex_free s
      then let c = core_start j (p_core s) in
        map_option (\<lambda>ms. s\<lparr>p_core := c, p_mode := ms\<rparr>)
          (notify_one k (p_mode s @ replicate (length (c_workers c) - length (p_mode s)) Awake))
      else None)"

text \<open>The next step of a thread. All but the end of \<open>run\<close> need the mutex.\<close>

definition pool_work :: "nat \<Rightarrow> pool \<Rightarrow> pool option" where
  "pool_work i s =
     (if i < length (c_workers (p_core s)) then
        let go = map_option (\<lambda>c. s\<lparr>p_core := c\<rparr>) (worker_next i (p_core s)) in
        (case c_workers (p_core s) ! i of
           AtGet \<Rightarrow>
             (case p_mode s ! i of
                Awake \<Rightarrow> if \<not> mutex_free s then None
                         else if c_queue (p_core s) = [] then Some (s\<lparr>p_mode := (p_mode s)[i := Checked]\<rparr>) else go
              | Checked \<Rightarrow> Some (s\<lparr>p_mode := (p_mode s)[i := Asleep]\<rparr>)
              | Asleep \<Rightarrow> None)
         | Busy j \<Rightarrow> go
         | _ \<Rightarrow> if mutex_free s then go else None)
      else None)"

text \<open>The next step of \<open>shutdown\<close>; \<open>p_left\<close> is the number of rounds that remain. Polling \<open>actives()\<close> changes nothing until it is zero; then the
  threads are detached.\<close>

definition shutdown_next :: "nat \<Rightarrow> pool \<Rightarrow> pool option" where
  "shutdown_next k s =
     (let c = p_core s in
      case p_pc s of
        Running \<Rightarrow> Some (s\<lparr>p_pc := if c_workers c = [] then Waiting else Push, p_left := length (c_workers c)\<rparr>)
      | Push \<Rightarrow> Some (s\<lparr>p_core := c\<lparr>c_queue := c_queue c @ [None]\<rparr>, p_pc := Count\<rparr>)
      | Count \<Rightarrow> Some (s\<lparr>p_core := c\<lparr>c_actives := c_actives c + 1\<rparr>, p_pc := Notify\<rparr>)
      | Notify \<Rightarrow>
          map_option (\<lambda>ms. s\<lparr>p_mode := ms, p_left := p_left s - 1, p_pc := if p_left s = 1 then Waiting else Push,
              p_lost := p_lost s \<or> Asleep \<notin> set (p_mode s) \<and> Checked \<in> set (p_mode s)\<rparr>)
            (notify_one k (p_mode s))
      | Waiting \<Rightarrow> if c_actives c = 0 then Some (s\<lparr>p_pc := Returned\<rparr>) else None
      | Returned \<Rightarrow> None)"

text \<open>The states before \<open>shutdown\<close>, and the runs of the threads and of \<open>shutdown\<close> after that.\<close>

inductive pool_reach :: "pool \<Rightarrow> bool" where
  init: "pool_reach (pool_init m)"
| start: "pool_reach s \<Longrightarrow> pool_start k j s = Some t \<Longrightarrow> pool_reach t"
| work: "pool_reach s \<Longrightarrow> pool_work i s = Some t \<Longrightarrow> pool_reach t"

datatype pool_event = Work nat | Main nat

fun pool_exec :: "pool_event list \<Rightarrow> pool \<Rightarrow> pool option" where
  "pool_exec [] s = Some s"
| "pool_exec (Work i # es) s = (case pool_work i s of None \<Rightarrow> None | Some t \<Rightarrow> pool_exec es t)"
| "pool_exec (Main k # es) s = (case shutdown_next k s of None \<Rightarrow> None | Some t \<Rightarrow> pool_exec es t)"

definition pool_stuck :: "pool \<Rightarrow> bool" where
  "pool_stuck s \<longleftrightarrow> list_all (\<lambda>i. pool_work i s = None) [0..<length (c_workers (p_core s))] \<and>
     list_all (\<lambda>k. shutdown_next k s = None) [0..<Suc (length (p_mode s))]"


subsection \<open>Null pointers\<close>

fun null_taken :: "worker \<Rightarrow> bool" where
  "null_taken AtNull = True"
| "null_taken Ended = True"
| "null_taken _ = False"

definition null_count :: "worker list \<Rightarrow> nat" where
  "null_count ws = length (filter null_taken ws)"

lemmas null_upd = length_filter_upd [where P = null_taken, folded null_count_def]

text \<open>While the pool closes, the null pointers stand behind all objects.\<close>

definition core_closing :: "nat \<Rightarrow> core \<Rightarrow> bool" where
  "core_closing k s \<longleftrightarrow> (\<exists>js a. c_queue s = map Some js @ replicate a None \<and> a + null_count (c_workers s) = k \<and>
     (0 < null_count (c_workers s) \<longrightarrow> js = []))"

lemma core_closing_push:
  assumes "core_closing k s"
  shows "core_closing (Suc k) (s\<lparr>c_queue := c_queue s @ [None]\<rparr>)"
proof -
  obtain js a where q: "c_queue s = map Some js @ replicate a None" "a + null_count (c_workers s) = k"
    "0 < null_count (c_workers s) \<longrightarrow> js = []" using assms by (auto simp: core_closing_def)
  then have "c_queue (s\<lparr>c_queue := c_queue s @ [None]\<rparr>) = map Some js @ replicate (Suc a) None"
    by (simp add: replicate_append_same)
  with q(2,3) show ?thesis unfolding core_closing_def
    by (intro exI [of _ js] exI [of _ "Suc a"]) simp
qed

lemma core_closing_work:
  assumes c: "core_closing k s" and n: "worker_next i s = Some t"
  shows "core_closing k t"
proof -
  obtain js a where q: "c_queue s = map Some js @ replicate a None" "a + null_count (c_workers s) = k"
    "0 < null_count (c_workers s) \<longrightarrow> js = []" using c by (auto simp: core_closing_def)
  from n show ?thesis
  proof (cases rule: worker_nextE)
    case (null r)
    then have "js = []" "a = Suc (length r)" "r = replicate (length r) None" using q(1)
      by (cases js; cases a; auto)+
    with null null_upd [OF null(1,2), of AtNull] q(2) show ?thesis unfolding core_closing_def
      by (intro exI [of _ "[]"] exI [of _ "length r"]) simp
  next
    case (took j r)
    then obtain ks where "js = j # ks" "r = map Some ks @ replicate a None" using q(1) by (cases js; cases a; auto)
    with took null_upd [OF took(1,2), of "Busy j"] q(2,3) show ?thesis unfolding core_closing_def
      by (intro exI [of _ ks] exI [of _ a]) simp
  next
    case (ran j)
    with null_upd [OF ran(1,2), of "AtDone j"] q show ?thesis unfolding core_closing_def
      by (intro exI [of _ js] exI [of _ a]) simp
  next
    case (freed j)
    with null_upd [OF freed(1,2), of AtGet] q show ?thesis unfolding core_closing_def
      by (intro exI [of _ js] exI [of _ a]) simp
  next
    case ended
    with null_upd [OF ended(1,2), of Ended] q show ?thesis unfolding core_closing_def
      by (intro exI [of _ js] exI [of _ a]) simp
  qed
qed

lemma core_open_closing:
  assumes "core_open s" shows "core_closing 0 s"
proof -
  have "map Some (map the q) = q" if "None \<notin> set q" for q :: "job option list" using that by (induction q) auto
  then have "c_queue s = map Some (map the (c_queue s)) @ replicate 0 None" using assms by (simp add: core_open_def)
  moreover have "null_count (c_workers s) = 0" using assms
    by (auto simp: core_open_def null_count_def filter_empty_conv elim: null_taken.elims)
  ultimately show ?thesis unfolding core_closing_def
    by (intro exI [of _ "map the (c_queue s)"] exI [of _ 0]) simp
qed

text \<open>The load of the pool, what its threads have given up, and the threads that have not yet taken a null pointer.\<close>

abbreviation load :: "core \<Rightarrow> nat" where
  "load c \<equiv> length (c_queue c) + occupied_count (c_workers c)"

lemma worker_next_load:
  assumes "worker_next i s = Some t"
  shows "load t \<le> load s \<and> length (c_queue t) + null_count (c_workers t) \<le> length (c_queue s) + null_count (c_workers s)"
  using assms
proof (cases rule: worker_nextE)
  case (null q)
  then show ?thesis using occupied_upd [OF null(1,2), of AtNull] null_upd [OF null(1,2), of AtNull] by simp
next
  case (took j q)
  then show ?thesis using occupied_upd [OF took(1,2), of "Busy j"] null_upd [OF took(1,2), of "Busy j"] by simp
next
  case (ran j)
  then show ?thesis using occupied_upd [OF ran(1,2), of "AtDone j"] null_upd [OF ran(1,2), of "AtDone j"] by simp
next
  case (freed j)
  then show ?thesis using occupied_upd [OF freed(1,2), of AtGet] null_upd [OF freed(1,2), of AtGet] by simp
next
  case ended
  then show ?thesis using occupied_upd [OF ended(1,2), of Ended] null_upd [OF ended(1,2), of Ended] by simp
qed

text \<open>The count of \<open>shutdown\<close> that comes after its push makes no difference to the threads.\<close>

definition counted :: "core \<Rightarrow> core" where
  "counted c = c\<lparr>c_actives := c_actives c + 1\<rparr>"

lemma worker_next_counted: "worker_next i s = Some t \<Longrightarrow> worker_next i (counted s) = Some (counted t)"
  by (erule worker_nextE) (simp_all add: counted_def worker_next_def core_get_def)


subsection \<open>Threads that sleep\<close>

definition naps :: "mode list \<Rightarrow> nat" where
  "naps ms = length (filter (\<lambda>m. m \<noteq> Awake) ms)"

lemmas naps_upd = length_filter_upd [where P = "\<lambda>m. m \<noteq> Awake", folded naps_def]

text \<open>Only threads in \<open>get\<close> sleep.\<close>

definition modes_ok :: "worker list \<Rightarrow> mode list \<Rightarrow> bool" where
  "modes_ok ws ms \<longleftrightarrow> list_all2 (\<lambda>w m. m \<noteq> Awake \<longrightarrow> w = AtGet) ws ms"

lemma modes_ok_count: "modes_ok ws ms \<Longrightarrow> null_count ws + naps ms \<le> length ws"
  unfolding modes_ok_def
proof (induction rule: list_all2_induct)
  case (Cons w ws m ms)
  then show ?case by (cases w; cases m) (simp_all add: null_count_def naps_def)
qed (simp add: null_count_def naps_def)

lemma modes_ok_upd:
  assumes "modes_ok ws ms" "i < length ws" "m \<noteq> Awake \<longrightarrow> w = AtGet"
  shows "modes_ok (ws[i := w]) (ms[i := m])"
  using assms unfolding modes_ok_def by (auto intro!: list_all2_update_cong)

lemma modes_ok_work:
  assumes "modes_ok ws ms" "i < length ws" "ms ! i = Awake"
  shows "modes_ok (ws[i := w]) ms"
  using modes_ok_upd [OF assms(1,2), of Awake w] assms by (metis list_update_id)

lemma notify_one_ok:
  assumes "notify_one k ms = Some ms'" "modes_ok ws ms"
  shows "modes_ok ws ms'" "Asleep \<in> set ms \<Longrightarrow> Suc (naps ms') = naps ms" "Asleep \<notin> set ms \<Longrightarrow> ms' = ms"
proof -
  show "Asleep \<notin> set ms \<Longrightarrow> ms' = ms" using assms(1) by (simp add: notify_one_def)
  have k: "k < length ms" "ms ! k = Asleep" "ms' = ms[k := Awake]" if "Asleep \<in> set ms"
    using assms(1) that by (auto simp: notify_one_def split: if_splits)
  show "Suc (naps ms') = naps ms" if "Asleep \<in> set ms"
    using naps_upd [OF k(1,2) [OF that], of Awake] k(3) [OF that] by simp
  show "modes_ok ws ms'"
  proof (cases "Asleep \<in> set ms")
    case True
    have "length ws = length ms" using assms(2) by (simp add: modes_ok_def list_all2_lengthD)
    then have "modes_ok (ws[k := ws ! k]) (ms[k := Awake])" using k [OF True] assms(2) by (intro modes_ok_upd) auto
    then show ?thesis using k [OF True] by simp
  qed (use \<open>Asleep \<notin> set ms \<Longrightarrow> ms' = ms\<close> assms(2) in simp)
qed

lemma naps_zero: "Asleep \<notin> set ms \<Longrightarrow> Checked \<notin> set ms \<Longrightarrow> naps ms = 0"
  unfolding naps_def by (auto simp: filter_empty_conv) (metis mode.exhaust)

text \<open>Unless a notification was lost, the queue is not longer than the number of threads that will come to \<open>get\<close> once more,
  while a thread sleeps. The push of \<open>shutdown\<close> is ahead of its notification by one.\<close>

definition pending :: "pool \<Rightarrow> nat" where
  "pending s = (if p_pc s = Count \<or> p_pc s = Notify then 1 else 0)"

definition wake_ok :: "pool \<Rightarrow> bool" where
  "wake_ok s \<longleftrightarrow> p_lost s \<or> naps (p_mode s) = 0 \<or>
     length (c_queue (p_core s)) + null_count (c_workers (p_core s)) + naps (p_mode s) \<le> length (c_workers (p_core s)) + pending s"

definition pool_inv :: "pool \<Rightarrow> bool" where
  "pool_inv s \<longleftrightarrow> core_inv (if p_pc s = Count then counted (p_core s) else p_core s) \<and>
     modes_ok (c_workers (p_core s)) (p_mode s) \<and> wake_ok s"

text \<open>The steps of the threads.\<close>

lemma pool_workE [consumes 2, case_names go check sleep]:
  assumes "pool_work i s = Some t" "modes_ok (c_workers (p_core s)) (p_mode s)"
  obtains c where "i < length (c_workers (p_core s))" "p_mode s ! i = Awake" "worker_next i (p_core s) = Some c" "t = s\<lparr>p_core := c\<rparr>"
  | "i < length (c_workers (p_core s))" "p_mode s ! i = Awake" "c_workers (p_core s) ! i = AtGet" "c_queue (p_core s) = []"
      "t = s\<lparr>p_mode := (p_mode s)[i := Checked]\<rparr>"
  | "i < length (c_workers (p_core s))" "p_mode s ! i = Checked" "c_workers (p_core s) ! i = AtGet" "t = s\<lparr>p_mode := (p_mode s)[i := Asleep]\<rparr>"
proof -
  have i: "i < length (c_workers (p_core s))" using assms(1) by (simp add: pool_work_def split: if_splits)
  have m: "c_workers (p_core s) ! i \<noteq> AtGet \<Longrightarrow> p_mode s ! i = Awake"
    using assms(2) i by (auto simp: modes_ok_def dest: list_all2_nthD)
  show thesis
  proof (cases "c_workers (p_core s) ! i = AtGet")
    case True
    with i assms(1) that show ?thesis
      by (auto simp: pool_work_def Let_def split: mode.splits if_splits)
  next
    case False
    then have "\<exists>c. worker_next i (p_core s) = Some c \<and> t = s\<lparr>p_core := c\<rparr>"
      using i assms(1) by (auto simp: pool_work_def Let_def split: worker.splits if_splits)
    with i m [OF False] that(1) show ?thesis by blast
  qed
qed

text \<open>The end of each run: the work that is left, for the threads, their waits and \<open>shutdown\<close>.\<close>

fun mode_weight :: "mode \<Rightarrow> nat" where
  "mode_weight Awake = 2"
| "mode_weight Checked = 1"
| "mode_weight Asleep = 0"

definition main_weight :: "pool \<Rightarrow> nat" where
  "main_weight s = (case p_pc s of
      Running \<Rightarrow> 8 * length (c_workers (p_core s)) + 2
    | Push \<Rightarrow> 8 * p_left s + 1
    | Count \<Rightarrow> 8 * p_left s - 3
    | Notify \<Rightarrow> 8 * p_left s - 4
    | Waiting \<Rightarrow> 1
    | Returned \<Rightarrow> 0)"

definition pool_left :: "pool \<Rightarrow> nat" where
  "pool_left s = core_work (p_core s) + sum_list (map mode_weight (p_mode s)) + main_weight s"

lemma mode_weight_upd:
  assumes "i < length ms" and "ms ! i = m"
  shows "sum_list (map mode_weight (ms[i := m'])) + mode_weight m = sum_list (map mode_weight ms) + mode_weight m'"
proof -
  obtain as bs where "ms = as @ m # bs" "length as = i" using split_at [OF assms(1)] assms(2) by auto
  then show ?thesis by (simp add: list_update_append)
qed

lemma pool_work_inv:
  assumes "pool_inv s" "pool_work i s = Some t"
  shows "pool_inv t \<and> pool_left t < pool_left s \<and> p_pc t = p_pc s \<and> p_left t = p_left s \<and>
    core_jobs (p_core t) = core_jobs (p_core s) \<and> c_max (p_core t) = c_max (p_core s) \<and>
    length (c_workers (p_core t)) = length (c_workers (p_core s)) \<and> load (p_core t) \<le> load (p_core s) \<and>
    (p_core t = p_core s \<or> worker_next i (p_core s) = Some (p_core t))"
proof -
  have inv: "modes_ok (c_workers (p_core s)) (p_mode s)" "wake_ok s"
      "core_inv (if p_pc s = Count then counted (p_core s) else p_core s)" using assms(1) by (simp_all add: pool_inv_def)
  have len: "length (c_workers (p_core s)) = length (p_mode s)" using inv(1) by (simp add: modes_ok_def list_all2_lengthD)
  from assms(2) inv(1) show ?thesis
  proof (cases rule: pool_workE)
    case (go c)
    obtain w where w: "c_workers c = (c_workers (p_core s))[i := w]" using go(3) by (cases rule: worker_nextE) auto
    have "core_inv (if p_pc s = Count then counted c else c)"
      using inv(3) core_inv_work [OF _ go(3)] core_inv_work [OF _ worker_next_counted [OF go(3)]] by (auto split: if_splits)
    moreover have "modes_ok (c_workers c) (p_mode s)" using modes_ok_work [OF inv(1) go(1,2), of w] w by simp
    moreover have "wake_ok t" using inv(2) worker_next_load [OF go(3)] w go(4) by (auto simp: wake_ok_def pending_def)
    ultimately show ?thesis using go(3,4) core_jobs_work [OF go(3)] worker_next_load [OF go(3)]
      by (auto simp: pool_inv_def pool_left_def main_weight_def split: shutdown_pc.split)
  next
    case check
    have m: "modes_ok (c_workers (p_core s)) ((p_mode s)[i := Checked])"
      using modes_ok_upd [OF inv(1) check(1), of Checked AtGet] check(3) by (metis list_update_id)
    have "wake_ok t" using modes_ok_count [OF m] check(4,5) by (simp add: wake_ok_def)
    with m check(5) inv(3) mode_weight_upd [of i "p_mode s" Awake Checked] check(1,2) len show ?thesis
      by (auto simp: pool_inv_def pool_left_def main_weight_def split: shutdown_pc.split if_splits)
  next
    case sleep
    have m: "modes_ok (c_workers (p_core s)) ((p_mode s)[i := Asleep])"
      using modes_ok_upd [OF inv(1) sleep(1), of Asleep AtGet] sleep(3) by (metis list_update_id)
    have "naps ((p_mode s)[i := Asleep]) = naps (p_mode s)" using naps_upd [of i "p_mode s" Checked Asleep] sleep(1,2) len by simp
    with inv(2) sleep(4) have "wake_ok t" by (simp add: wake_ok_def pending_def)
    with m sleep(4) inv(3) mode_weight_upd [of i "p_mode s" Checked Asleep] sleep(1,2) len show ?thesis
      by (auto simp: pool_inv_def pool_left_def main_weight_def split: shutdown_pc.split if_splits)
  qed
qed


lemma core_start_shape:
  "c_workers (core_start j c) = c_workers c \<or> c_workers (core_start j c) = c_workers c @ [AtGet]"
  "c_queue (core_start j c) = c_queue c @ [Some j]"
  by (simp_all add: core_start_def Let_def)

lemma pool_start_inv:
  assumes "pool_inv s" "core_open (p_core s)" "pool_start k j s = Some t"
  shows "pool_inv t \<and> core_open (p_core t) \<and> p_pc t = Running"
proof -
  let ?c = "core_start j (p_core s)" and ?n = "length (c_workers (p_core s))"
  have st: "p_pc s = Running" "Checked \<notin> set (p_mode s)"
    and inv: "modes_ok (c_workers (p_core s)) (p_mode s)" "wake_ok s" "core_inv (p_core s)"
    using assms(1,3) by (auto simp: pool_inv_def pool_start_def mutex_free_def split: if_splits)
  have len: "?n = length (p_mode s)" using inv(1) by (simp add: modes_ok_def list_all2_lengthD)
  obtain new where new: "c_workers ?c = c_workers (p_core s) @ new" "new = [] \<or> new = [AtGet]"
    "c_queue ?c = c_queue (p_core s) @ [Some j]" 
    using core_start_shape [of j "p_core s"] by (metis append_Nil2)
  let ?ms = "p_mode s @ replicate (length new) Awake"
  obtain ms where ms: "notify_one k ?ms = Some ms" "t = s\<lparr>p_core := ?c, p_mode := ms\<rparr>"
    using assms(3) st len new(1) by (auto simp: pool_start_def mutex_free_def Let_def)
  have ok: "modes_ok (c_workers ?c) ?ms" using inv(1) new(1,2)
    by (auto simp: modes_ok_def intro: list_all2_appendI)
  have naps: "naps ?ms = naps (p_mode s)" using new(2) by (auto simp: naps_def)
  have nulls: "null_count (c_workers ?c) = null_count (c_workers (p_core s))" using new(1,2) by (auto simp: null_count_def)
  have "wake_ok t"
  proof (cases "Asleep \<in> set ?ms")
    case True
    with notify_one_ok(2) [OF ms(1) ok] inv(2) st(1) ms(2) naps nulls new show ?thesis
      by (auto simp: wake_ok_def pending_def)
  next
    case False
    then have "naps (p_mode s) = 0" using st(2) by (intro naps_zero) auto
    with notify_one_ok(3) [OF ms(1) ok False] naps ms(2) show ?thesis by (simp add: wake_ok_def)
  qed
  then show ?thesis using core_inv_start [OF inv(3)] core_open_start [OF inv(3) assms(2)] notify_one_ok(1) [OF ms(1) ok] st(1) ms(2)
    by (simp add: pool_inv_def)
qed

lemma pool_reach_inv: "pool_reach s \<Longrightarrow> pool_inv s \<and> core_open (p_core s) \<and> p_pc s = Running"
proof (induction rule: pool_reach.induct)
  case (init m)
  show ?case using core_inv_init [of m]
    by (simp add: pool_init_def pool_inv_def wake_ok_def modes_ok_def naps_def) (simp add: core_init_def)
next
  case (start s k j t)
  then show ?case using pool_start_inv by blast
next
  case (work s i t)
  then have "core_open (p_core t)" using pool_work_inv [of s i t] core_open_work [of "p_core s" i "p_core t"] by auto
  then show ?case using work pool_work_inv [of s i t] by simp
qed

text \<open>How many null pointers were pushed, and the states of the pool while it closes. \<open>K\<close> bounds the load from before.\<close>

definition pushed :: "pool \<Rightarrow> nat" where
  "pushed s = (let n = length (c_workers (p_core s)) in
     case p_pc s of Running \<Rightarrow> 0 | Push \<Rightarrow> n - p_left s | Count \<Rightarrow> Suc (n - p_left s) | Notify \<Rightarrow> Suc (n - p_left s) | _ \<Rightarrow> n)"

definition settled :: "pool \<Rightarrow> bool" where
  "settled s \<longleftrightarrow> c_queue (p_core s) = [] \<and> (\<forall>w \<in> set (c_workers (p_core s)). w = Ended)"

definition closing_ok :: "nat \<Rightarrow> pool \<Rightarrow> bool" where
  "closing_ok K s \<longleftrightarrow> pool_inv s \<and> core_closing (pushed s) (p_core s) \<and>
     (p_pc s \<in> {Push, Count, Notify} \<longrightarrow> 0 < p_left s \<and> p_left s \<le> length (c_workers (p_core s))) \<and>
     load (p_core s) \<le> K + pushed s \<and> (p_pc s = Returned \<longrightarrow> settled s)"

lemma null_count_all:
  assumes "null_count ws = length ws" "occupied_count ws = 0"
  shows "\<forall>w \<in> set ws. w = Ended"
proof
  fix w assume w: "w \<in> set ws"
  have "\<not> occupied w" using assms(2) w by (auto simp: occupied_count_def filter_empty_conv)
  moreover have "null_taken w" using assms(1) w length_filter_less [of w ws null_taken] by (auto simp: null_count_def)
  ultimately show "w = Ended" by (cases w) auto
qed

text \<open>\<open>actives()\<close> is zero only at the end.\<close>

lemma waiting_zero:
  assumes "closing_ok K s" "p_pc s = Waiting" "c_actives (p_core s) = 0" "K + length (c_workers (p_core s)) < 2 ^ 32"
  shows "settled s"
proof -
  have l: "load (p_core s) < 2 ^ 32" "c_actives (p_core s) = of_nat (load (p_core s))" "core_closing (length (c_workers (p_core s))) (p_core s)"
    using assms(1,2,4) by (auto simp: closing_ok_def pool_inv_def pushed_def core_inv_def)
  then have "load (p_core s) = 0" using assms(3) unat_of_nat_small [where 'a = 32, of "load (p_core s)"] by simp
  then have z: "c_queue (p_core s) = []" "occupied_count (c_workers (p_core s)) = 0" by simp_all
  with l(3) have "null_count (c_workers (p_core s)) = length (c_workers (p_core s))" by (auto simp: core_closing_def)
  with z null_count_all show ?thesis by (auto simp: settled_def)
qed

lemma settled_work: "settled s \<Longrightarrow> modes_ok (c_workers (p_core s)) (p_mode s) \<Longrightarrow> pool_work i s = None"
proof (rule ccontr)
  assume s: "settled s" "modes_ok (c_workers (p_core s)) (p_mode s)" and "pool_work i s \<noteq> None"
  then obtain t where "pool_work i s = Some t" by auto
  then have "i < length (c_workers (p_core s))" by (simp add: pool_work_def split: if_splits)
  then have "c_workers (p_core s) ! i = Ended" using s(1) by (simp add: settled_def)
  with \<open>pool_work i s = Some t\<close> show False by (simp add: pool_work_def worker_next_def split: if_splits)
qed

lemma closing_work:
  assumes "closing_ok K s" "pool_work i s = Some t"
  shows "closing_ok K t"
proof -
  have s: "pool_inv s" "core_closing (pushed s) (p_core s)" "p_pc s = Returned \<longrightarrow> settled s" using assms(1) by (simp_all add: closing_ok_def)
  note w = pool_work_inv [OF s(1) assms(2)]
  have p: "pushed t = pushed s" using w by (cases "p_pc s") (simp_all add: pushed_def)
  moreover have "core_closing (pushed s) (p_core t)" using w core_closing_work [OF s(2)] s(2) by metis
  moreover have "p_pc s \<noteq> Returned" using s settled_work [of s i] assms(2) by (auto simp: pool_inv_def)
  ultimately show ?thesis using w assms(1) by (auto simp: closing_ok_def)
qed


lemma core_inv_counted_push: "core_inv c \<Longrightarrow> core_inv (counted (c\<lparr>c_queue := c_queue c @ [None]\<rparr>))"
  by (simp add: core_inv_def counted_def)

text \<open>What the steps of \<open>shutdown\<close> keep.\<close>

lemma shutdown_next_same:
  assumes "shutdown_next k s = Some t" "closing_ok K s"
  shows "core_jobs (p_core t) = core_jobs (p_core s) \<and> c_workers (p_core t) = c_workers (p_core s) \<and> pool_left t < pool_left s"
proof -
  have "0 < p_left s" if "p_pc s \<in> {Push, Count, Notify}" using assms(2) that by (auto simp: closing_ok_def)
  moreover have "sum_list (map mode_weight ms) \<le> sum_list (map mode_weight (p_mode s)) + 2" if "notify_one k (p_mode s) = Some ms" for ms
  proof (cases "Asleep \<in> set (p_mode s)")
    case True
    then have "k < length (p_mode s)" "p_mode s ! k = Asleep" "ms = (p_mode s)[k := Awake]"
      using that by (auto simp: notify_one_def split: if_splits)
    with mode_weight_upd [of k "p_mode s" Asleep Awake] show ?thesis by simp
  qed (use that in \<open>simp add: notify_one_def\<close>)
  ultimately show ?thesis using assms(1)
    by (cases "p_pc s")
      (fastforce simp: shutdown_next_def Let_def core_jobs_def core_work_def pool_left_def main_weight_def split: if_splits)+
qed

lemma wake_ok_notify:
  assumes "wake_ok s" "p_pc s = Notify" "notify_one k (p_mode s) = Some ms" "modes_ok (c_workers (p_core s)) (p_mode s)"
    and "p_core t = p_core s" "p_mode t = ms" "p_lost t = (p_lost s \<or> Asleep \<notin> set (p_mode s) \<and> Checked \<in> set (p_mode s))"
  shows "wake_ok t"
proof (cases "Asleep \<in> set (p_mode s)")
  case True
  with notify_one_ok(2) [OF assms(3,4)] assms show ?thesis by (auto simp: wake_ok_def pending_def)
next
  case False
  then have "Checked \<notin> set (p_mode s) \<Longrightarrow> naps ms = 0" using notify_one_ok(3) [OF assms(3,4)] naps_zero [of "p_mode s"] by simp
  with False assms show ?thesis by (auto simp: wake_ok_def)
qed

lemma closing_main:
  assumes ok: "closing_ok K s" and n: "shutdown_next k s = Some t" and K: "K + length (c_workers (p_core s)) < 2 ^ 32"
  shows "closing_ok K t"
proof -
  let ?n = "length (c_workers (p_core s))"
  have inv: "modes_ok (c_workers (p_core s)) (p_mode s)" "wake_ok s" "core_closing (pushed s) (p_core s)" "load (p_core s) \<le> K + pushed s"
      "core_inv (if p_pc s = Count then counted (p_core s) else p_core s)"
    and left: "p_pc s \<in> {Push, Count, Notify} \<Longrightarrow> 0 < p_left s \<and> p_left s \<le> ?n"
    using ok by (simp_all add: closing_ok_def pool_inv_def)
  show ?thesis
  proof (cases "p_pc s")
    case Running
    then have "t = s\<lparr>p_pc := if c_workers (p_core s) = [] then Waiting else Push, p_left := ?n\<rparr>"
      using n by (simp add: shutdown_next_def Let_def)
    with Running inv show ?thesis
      by (cases "c_workers (p_core s) = []") (auto simp: closing_ok_def pool_inv_def pushed_def wake_ok_def pending_def)
  next
    case Push
    then have "t = s\<lparr>p_core := p_core s\<lparr>c_queue := c_queue (p_core s) @ [None]\<rparr>, p_pc := Count\<rparr>"
      using n by (simp add: shutdown_next_def Let_def)
    with Push inv left core_inv_counted_push [of "p_core s"] core_closing_push [of "pushed s" "p_core s"] show ?thesis
      by (auto simp: closing_ok_def pool_inv_def pushed_def wake_ok_def pending_def)
  next
    case Count
    then have "t = s\<lparr>p_core := counted (p_core s), p_pc := Notify\<rparr>" using n by (simp add: shutdown_next_def counted_def Let_def)
    with Count inv left show ?thesis
      by (auto simp: closing_ok_def pool_inv_def pushed_def wake_ok_def pending_def core_closing_def counted_def)
  next
    case Notify
    then obtain ms where ms: "notify_one k (p_mode s) = Some ms" and t: "t = s\<lparr>p_mode := ms, p_left := p_left s - 1,
        p_pc := if p_left s = 1 then Waiting else Push, p_lost := p_lost s \<or> Asleep \<notin> set (p_mode s) \<and> Checked \<in> set (p_mode s)\<rparr>"
      using n by (auto simp: shutdown_next_def Let_def)
    have "wake_ok t" by (rule wake_ok_notify [OF inv(2) Notify ms inv(1)]) (simp_all add: t)
    moreover have "pushed t = pushed s" using left Notify by (auto simp: t pushed_def)
    ultimately show ?thesis using Notify inv left notify_one_ok(1) [OF ms inv(1)] by (auto simp: t closing_ok_def pool_inv_def)
  next
    case Waiting
    then have t: "t = s\<lparr>p_pc := Returned\<rparr>" "c_actives (p_core s) = 0" using n by (simp_all add: shutdown_next_def Let_def split: if_splits)
    have "settled t" using waiting_zero [OF ok Waiting t(2) K] t(1) by (simp add: settled_def)
    with Waiting inv t show ?thesis by (simp add: closing_ok_def pool_inv_def pushed_def wake_ok_def pending_def)
  qed (use n in \<open>simp add: shutdown_next_def Let_def\<close>)
qed

lemma pool_exec_facts:
  "closing_ok K s \<Longrightarrow> pool_exec es s = Some t \<Longrightarrow> K + length (c_workers (p_core s)) < 2 ^ 32 \<Longrightarrow>
     closing_ok K t \<and> length es + pool_left t \<le> pool_left s \<and> core_jobs (p_core t) = core_jobs (p_core s) \<and>
     length (c_workers (p_core t)) = length (c_workers (p_core s))"
proof (induction es s rule: pool_exec.induct)
  case (2 i es s)
  then obtain u where u: "pool_work i s = Some u" "pool_exec es u = Some t" by (auto split: option.splits)
  have "pool_inv s" using 2(2) by (simp add: closing_ok_def)
  from pool_work_inv [OF this u(1)] 2(1) [OF u(1) closing_work [OF 2(2) u(1)] u(2)] 2(4) show ?case by auto
next
  case (3 k es s)
  then obtain u where u: "shutdown_next k s = Some u" "pool_exec es u = Some t" by (auto split: option.splits)
  from shutdown_next_same [OF u(1) 3(2)] 3(1) [OF u(1) closing_main [OF 3(2) u(1) 3(4)] u(2)] 3(4) show ?case by auto
qed simp


text \<open>Where nothing moves, \<open>shutdown\<close> has returned or a notification was lost.\<close>

lemma stuck_workers:
  assumes "pool_stuck s" "modes_ok (c_workers (p_core s)) (p_mode s)" "i < length (c_workers (p_core s))"
  shows "c_workers (p_core s) ! i = Ended \<or> p_mode s ! i = Asleep"
proof -
  let ?ws = "c_workers (p_core s)"
  have len: "length ?ws = length (p_mode s)" using assms(2) by (simp add: modes_ok_def list_all2_lengthD)
  have st: "pool_work k s = None" if "k < length ?ws" for k using assms(1) that by (simp add: pool_stuck_def list_all_iff)
  have free: "mutex_free s"
  proof (rule ccontr)
    assume "\<not> mutex_free s"
    then obtain k where k: "k < length (p_mode s)" "p_mode s ! k = Checked" by (auto simp: mutex_free_def in_set_conv_nth)
    then have "?ws ! k = AtGet" using assms(2) len by (auto simp: modes_ok_def dest: list_all2_nthD)
    then show False using k st [of k] len by (simp add: pool_work_def)
  qed
  show ?thesis using st [OF assms(3)] assms(3) free
    by (cases "?ws ! i"; cases "p_mode s ! i")
      (auto simp: pool_work_def worker_next_def core_get_def Let_def split: if_splits list.splits option.splits)
qed

lemma stuck_main:
  assumes "pool_stuck s" shows "p_pc s = Returned \<or> p_pc s = Waiting \<and> c_actives (p_core s) \<noteq> 0"
proof -
  have st: "k \<le> length (p_mode s) \<Longrightarrow> shutdown_next k s = None" for k using assms by (auto simp: pool_stuck_def list_all_iff)
  have "\<exists>k \<le> length (p_mode s). notify_one k (p_mode s) \<noteq> None"
    by (cases "Asleep \<in> set (p_mode s)") (auto simp: notify_one_def in_set_conv_nth intro: less_imp_le)
  then obtain k where "k \<le> length (p_mode s)" "notify_one k (p_mode s) \<noteq> None" by blast
  with st [of k] show ?thesis by (cases "p_pc s") (auto simp: shutdown_next_def Let_def split: if_splits)
qed

lemma stuck_end:
  assumes "closing_ok K s" "pool_stuck s" "c_workers (p_core s) = [] \<Longrightarrow> c_queue (p_core s) = []"
  shows "p_pc s = Returned \<or> p_lost s"
proof (rule ccontr)
  let ?ws = "c_workers (p_core s)" and ?q = "c_queue (p_core s)"
  assume n: "\<not> ?thesis"
  then have pc: "p_pc s = Waiting" "c_actives (p_core s) \<noteq> 0" and lost: "\<not> p_lost s" using stuck_main [OF assms(2)] by auto
  have inv: "modes_ok ?ws (p_mode s)" "wake_ok s" "core_closing (length ?ws) (p_core s)" "core_inv (p_core s)"
    using assms(1) pc(1) by (simp_all add: closing_ok_def pool_inv_def pushed_def)
  obtain js a where q: "?q = map Some js @ replicate a None" "a + null_count ?ws = length ?ws" "0 < null_count ?ws \<longrightarrow> js = []"
    using inv(3) by (auto simp: core_closing_def)
  have l: "list_all2 (\<lambda>w m. w = Ended \<and> m = Awake \<or> w = AtGet \<and> m \<noteq> Awake) ?ws (p_mode s)"
    using stuck_workers [OF assms(2) inv(1)] inv(1) by (fastforce simp: modes_ok_def list_all2_conv_all_nth)
  then have e: "\<forall>w \<in> set ?ws. w = Ended \<or> w = AtGet" by (auto simp: list_all2_conv_all_nth in_set_conv_nth)
  then have occ: "occupied_count ?ws = 0" by (auto simp: occupied_count_def filter_empty_conv)
  have sleepers: "null_count ?ws + naps (p_mode s) = length ?ws"
    using l by (induction rule: list_all2_induct) (auto simp: null_count_def naps_def)
  have "?q = []"
  proof (cases "naps (p_mode s) = 0")
    case True
    with sleepers q assms(3) show ?thesis by (cases "?ws = []") auto
  next
    case False
    with inv(2) lost pc(1) sleepers have "length ?q = 0" by (simp add: wake_ok_def pending_def del: length_0_conv)
    then show ?thesis by simp
  qed
  with occ inv(4) pc(2) show False by (simp add: core_inv_def)
qed

text \<open>C13: \<open>shutdown\<close> comes to its end, unless one of its notifications is lost: from any state of a pool with a positive maximum, the threads and
  \<open>shutdown\<close> take a bounded number of steps, whatever their interleaving; when none of them can move, \<open>shutdown\<close> has
  returned, or it has notified while no thread was blocked and one was between the test of its predicate and blocking; and whenever it has
  returned, every thread has left its loop and exactly the objects accepted before have finished. No object is started
  meanwhile, and the objects and threads together number less than \<open>2^32\<close>.\<close>

theorem core_shutdown_terminates:
  assumes "pool_reach s" and "0 < c_max (p_core s)" and "pool_exec es s = Some t"
    and "length (c_queue (p_core s)) + 2 * length (c_workers (p_core s)) < 2 ^ 32"
  shows "length es \<le> core_work (p_core s) + 10 * length (c_workers (p_core s)) + 2 \<and>
    (pool_stuck t \<longrightarrow> p_pc t = Returned \<or> p_lost t) \<and>
    (p_pc t = Returned \<longrightarrow> (\<forall>w \<in> set (c_workers (p_core t)). w = Ended) \<and> mset (c_done (p_core t)) = core_jobs (p_core s))"
proof (intro conjI impI)
  let ?n = "length (c_workers (p_core s))" and ?K = "load (p_core s)"
  have s: "pool_inv s" "core_open (p_core s)" "p_pc s = Running" using pool_reach_inv [OF assms(1)] by simp_all
  then have "closing_ok ?K s" using core_open_closing by (simp add: closing_ok_def pushed_def)
  moreover have "?K + ?n < 2 ^ 32" using assms(4) occupied_le [of "c_workers (p_core s)"] by simp
  ultimately have f: "closing_ok ?K t" "length es + pool_left t \<le> pool_left s" "core_jobs (p_core t) = core_jobs (p_core s)"
    "length (c_workers (p_core t)) = ?n" using pool_exec_facts [OF _ assms(3)] by auto
  have w: "sum_list (map mode_weight ms) \<le> 2 * length ms" for ms
  proof (induction ms)
    case (Cons m ms)
    then show ?case by (cases m) auto
  qed simp
  have "length (p_mode s) = ?n" using s(1) by (auto simp: pool_inv_def modes_ok_def dest: list_all2_lengthD)
  with w [of "p_mode s"] f(2) s(3) show "length es \<le> core_work (p_core s) + 10 * ?n + 2"
    by (simp add: pool_left_def main_weight_def)
  show "p_pc t = Returned \<or> p_lost t" if "pool_stuck t"
  proof (rule stuck_end [OF f(1) that])
    assume "c_workers (p_core t) = []"
    then have "c_workers (p_core s) = []" using f(4) by simp
    with s(2) assms(2) have "core_closing 0 (p_core t)" "load (p_core s) = 0"
      using \<open>c_workers (p_core t) = []\<close> f(1) by (auto simp: core_open_def occupied_count_def closing_ok_def pushed_def core_closing_def null_count_def
        split: shutdown_pc.splits)
    with f(1) \<open>c_workers (p_core t) = []\<close> show "c_queue (p_core t) = []"
      by (auto simp: closing_ok_def pushed_def split: shutdown_pc.splits)
  qed
  assume "p_pc t = Returned"
  with f(1) have e: "settled t" by (simp add: closing_ok_def)
  then show "\<forall>w \<in> set (c_workers (p_core t)). w = Ended" by (simp add: settled_def)
  from e have "\<forall>w \<in> set (c_workers (p_core t)). busy_job w = []" by (auto simp: settled_def)
  with e f(3) show "mset (c_done (p_core t)) = core_jobs (p_core s)"
    using core_jobs_rest [of "p_core t"] by (simp add: settled_def)
qed


subsection \<open>Executions\<close>

lemmas pool_eval = core_eval pool_init_def pool_start_def pool_work_def mutex_free_def notify_one_def

text \<open>A pool with one thread, which has run its object and comes back to \<open>get\<close>.\<close>

definition pool_one :: pool where
  "pool_one = \<lparr>p_core = \<lparr>c_queue = [], c_workers = [AtGet], c_max = 1, c_actives = 0, c_waiting = Map.empty, c_running = Map.empty,
     c_done = [pool_job ''a'']\<rparr>, p_mode = [Awake], p_pc = Running, p_left = 0, p_lost = False\<rparr>"

lemma pool_one_reach: "pool_reach pool_one"
proof -
  let ?a = "pool_job ''a''"
  let ?p = "\<lambda>q w n r d. \<lparr>p_core = \<lparr>c_queue = q, c_workers = [w], c_max = 1, c_actives = n, c_waiting = (if q = [] then Map.empty else [j_uuid ?a \<mapsto> j_inspect ?a]),
      c_running = r, c_done = d\<rparr>, p_mode = [Awake], p_pc = Running, p_left = 0, p_lost = False\<rparr>"
  have "pool_start 0 ?a (pool_init 1) = Some (?p [Some ?a] AtGet 1 Map.empty [])" by (simp add: pool_eval)
  moreover have "pool_work 0 (?p [Some ?a] AtGet 1 Map.empty []) = Some (?p [] (Busy ?a) 1 [0 \<mapsto> ?a] [])" by (simp add: pool_eval)
  moreover have "pool_work 0 (?p [] (Busy ?a) 1 [0 \<mapsto> ?a] []) = Some (?p [] (AtDone ?a) 1 [0 \<mapsto> ?a] [?a])" by (simp add: pool_eval)
  moreover have "pool_work 0 (?p [] (AtDone ?a) 1 [0 \<mapsto> ?a] [?a]) = Some pool_one" by (simp add: pool_eval pool_one_def)
  ultimately show ?thesis by (meson pool_reach.init pool_reach.start pool_reach.work)
qed

theorem core_shutdown_terminates_witness:
  "\<exists>t. pool_exec [Work 0, Work 0, Main 0, Main 0, Main 0, Main 0, Work 0, Work 0, Main 0] pool_one = Some t \<and> p_pc t = Returned \<and>
     (\<forall>w \<in> set (c_workers (p_core t)). w = Ended) \<and> mset (c_done (p_core t)) = core_jobs (p_core pool_one)"
proof -
  let ?es = "[Work 0, Work 0, Main 0, Main 0, Main 0, Main 0, Work 0, Work 0, Main 0]"
  obtain t where t: "pool_exec ?es pool_one = Some t" "p_pc t = Returned"
    by (simp add: pool_one_def pool_eval shutdown_next_def)
  have "0 < c_max (p_core pool_one)" "length (c_queue (p_core pool_one)) + 2 * length (c_workers (p_core pool_one)) < 2 ^ 32"
    by (simp_all add: pool_one_def)
  from core_shutdown_terminates [OF pool_one_reach this(1) t(1) this(2)] t show ?thesis by blast
qed

text \<open>The window: the thread has found the queue empty, then \<open>shutdown\<close> pushes and notifies, then the thread blocks. Nothing moves any
  more, and \<open>shutdown\<close> waits for ever.\<close>

lemma core_shutdown_lost:
  "\<exists>t. pool_exec [Work 0, Main 0, Main 0, Main 0, Main 0, Work 0] pool_one = Some t \<and> pool_stuck t \<and> p_pc t = Waiting \<and>
     c_queue (p_core t) = [None] \<and> p_mode t = [Asleep]"
  by (simp add: pool_one_def pool_eval shutdown_next_def pool_stuck_def)

end
