(* ===== verification/Worker.thy ===== *)
theory Worker
  imports Core_Pool Complex_Main "HOL-Library.Multiset"
begin

text \<open>
  Workers, \<open>src/arken/concurrent/worker.cpp\<close>: a Lua program fills a queue of values (JSON texts), and
  up to as many nodes as there are cores take values from it and run the program on each, until the queue is empty.
  \<open>perform\<close> has two versions, of which the build chooses one (\<open>mvm\<close>, unless asked for \<open>standalone\<close>). The model is that of \<open>worker/standalone.cpp\<close>, in which every node has a thread of its
  own, which \<open>perform\<close> joins. In \<open>worker/mvm.cpp\<close> the nodes are objects of the pool, and whether they run depends on the
  threads that it has to spare: \<open>worker_one_thread\<close> shows a case in which they do not.

  The state is the object \<open>worker\<close> after its phase \<open>start\<close>, with the nodes that \<open>perform\<close> has started; the steps of a node are
  its calls of \<open>dequeue\<close>, which hold the mutex, and the end of a run of the program, which counts the progress.
  Which node goes on is arbitrary: a schedule, which \<open>work_run\<close> executes. \<open>w_ran\<close> is the history of the runs.
\<close>

datatype node_pc = Ready | Running "char list" | Stopped

record worker_state =
  w_queue :: "char list list"
  w_total :: int
  w_progress :: int
  w_nodes :: "node_pc list"
  w_ran :: "char list list"

text \<open>The number of nodes, and \<open>perform\<close>, which starts a thread for each.\<close>

definition worker_cores :: "nat \<Rightarrow> nat \<Rightarrow> nat \<Rightarrow> nat" where
  "worker_cores s_max os_cores n = (let cores = if s_max \<noteq> 0 then s_max else os_cores in if n < cores then n else cores)"

definition worker_perform :: "nat \<Rightarrow> char list list \<Rightarrow> worker_state" where
  "worker_perform cores q = \<lparr>w_queue = q, w_total = int (length q), w_progress = 0, w_nodes = replicate cores Ready, w_ran = []\<rparr>"

definition worker_run :: "nat \<Rightarrow> nat \<Rightarrow> char list list \<Rightarrow> worker_state" where
  "worker_run s_max os_cores q = worker_perform (worker_cores s_max os_cores (length q)) q"

text \<open>\<open>enqueue\<close>; \<open>dequeue\<close>, whose result is the empty string when the queue is empty; \<open>increment\<close>; \<open>progress\<close>.\<close>

definition worker_enqueue :: "char list \<Rightarrow> worker_state \<Rightarrow> worker_state" where
  "worker_enqueue v w = w\<lparr>w_queue := w_queue w @ [v]\<rparr>"

definition node_dequeue :: "worker_state \<Rightarrow> char list \<times> worker_state" where
  "node_dequeue w = (case w_queue w of [] \<Rightarrow> ([], w) | v # q \<Rightarrow> (v, w\<lparr>w_queue := q\<rparr>))"

definition worker_increment :: "worker_state \<Rightarrow> worker_state" where
  "worker_increment w = w\<lparr>w_progress := w_progress w + 1\<rparr>"


text \<open>The loop of \<open>node::run\<close> in its two steps.\<close>

definition node_next :: "nat \<Rightarrow> worker_state \<Rightarrow> worker_state option" where
  "node_next i w =
     (if i < length (w_nodes w) then
        (case w_nodes w ! i of
           Ready \<Rightarrow> (let (value, w) = node_dequeue w in Some (w\<lparr>w_nodes := (w_nodes w)[i := if value = [] then Stopped else Running value]\<rparr>))
         | Running value \<Rightarrow> (let w = worker_increment w in Some (w\<lparr>w_nodes := (w_nodes w)[i := Ready], w_ran := w_ran w @ [value]\<rparr>))
         | Stopped \<Rightarrow> None)
      else None)"

fun work_run :: "nat list \<Rightarrow> worker_state \<Rightarrow> worker_state option" where
  "work_run [] w = Some w"
| "work_run (i # js) w = (case node_next i w of None \<Rightarrow> None | Some v \<Rightarrow> work_run js v)"

text \<open>\<open>perform\<close> joins its threads: it returns when every node has stopped.\<close>

definition all_stopped :: "worker_state \<Rightarrow> bool" where
  "all_stopped w \<longleftrightarrow> list_all ((=) Stopped) (w_nodes w)"


subsection \<open>All values are run\<close>
















text \<open>The empty string stands for the end of the queue: a node that takes an empty value stops, and what is queued behind is left.\<close>

lemma worker_empty_value:
  "\<exists>w. work_run [0] (worker_run 1 1 [[], ''1'']) = Some w \<and> all_stopped w \<and> w_queue w = [''1''] \<and> w_ran w = []"
  by (simp add: worker_run_def worker_cores_def worker_perform_def node_next_def node_dequeue_def all_stopped_def)

text \<open>
  In the other build (\<open>worker/mvm.cpp\<close>) the nodes are objects of the thread pool, and \<open>perform\<close>, itself run by a thread of the pool, waits for
  them: with one thread the only step of the pool is the end of \<open>perform\<close>, which the queued node cannot bring about.
\<close>

lemma worker_one_thread:
  "\<exists>s. core_reach s \<and> c_workers s = [Busy w] \<and> c_queue s = [Some n] \<and> (\<forall>i t. worker_next i s = Some t \<longrightarrow> c_workers t = [AtDone w])"
proof -
  let ?a = "core_start w (core_init 1)"
  let ?b = "?a\<lparr>c_queue := [], c_waiting := (c_waiting ?a)(j_uuid w := None), c_running := (c_running ?a)(0 \<mapsto> w), c_workers := [Busy w]\<rparr>"
  let ?s = "core_start n ?b"
  have b: "worker_next 0 ?a = Some ?b" by (simp add: worker_next_def core_get_def core_start_def core_init_def)
  have "core_reach ?a" by (rule core_reach.step [OF core_reach.init core_step.start])
  then have "core_reach ?s" by (rule core_reach.step [OF core_reach.step [OF _ core_step.work [OF b]] core_step.start])
  moreover have "c_workers ?s = [Busy w]" "c_queue ?s = [Some n]" by (simp_all add: core_start_def core_init_def)
  moreover have "c_workers t = [AtDone w]" if "worker_next i ?s = Some t" for i t
    using that by (cases i) (auto simp: worker_next_def core_start_def core_init_def)
  ultimately show ?thesis by blast
qed

end
