(* ===== verification/Mvm_Pool.thy ===== *)
theory Mvm_Pool
  imports Prelude "HOL-Library.Multiset"
begin

text \<open>
  The pool of Lua virtual machines of \<open>src/arken/mvm.cpp\<close>, and the containers of \<open>src/arken/mvm/container\<close> among which the
  build chooses one. A \<open>vm\<close> is an object \<open>mvm::data\<close>: the version of the program that it has loaded, the mark of the last
  collection, and its Lua state, which is a number here. \<open>reload\<close> replaces the pooled machines by machines of the next
  version, \<open>gc\<close> runs a collection in each, \<open>clear\<close> deletes them; each is a loop over the container.

  The model is the code of one thread: the container operations are critical sections of their own, and another thread may
  take or return machines between them. The loops of \<open>reload\<close> and \<open>gc\<close> may run for ever for all that their text says: they are
  \<open>partial_function\<close>s whose value is \<open>None\<close> then.

  The locale \<open>container\<close> states what the pool relies on: the order in which machines come out, \<open>view\<close>, and that \<open>back\<close> puts a
  machine to its end. It is interpreted for the three families of containers of the sources.
\<close>

record vm =
  m_version :: u32
  m_gc :: u32
  m_release :: bool
  m_state :: nat


subsection \<open>Containers\<close>

text \<open>\<open>Queue\<close>: queue, list-queue and deque-queue; \<open>Stack\<close>: list-stack and deque-stack, the default; \<open>Vector\<close>: vector.\<close>

datatype kind = Queue | Stack | Vector

fun container_push :: "kind \<Rightarrow> 'd \<Rightarrow> 'd list \<Rightarrow> 'd list" where
  "container_push Queue d c = c @ [d]"
| "container_push Stack d c = d # c"
| "container_push Vector d c = c @ [d]"

fun container_back :: "kind \<Rightarrow> 'd \<Rightarrow> 'd list \<Rightarrow> 'd list" where
  "container_back Queue d c = c @ [d]"
| "container_back Stack d c = c @ [d]"
| "container_back Vector d c = d # c"

fun container_pop :: "kind \<Rightarrow> 'd list \<Rightarrow> 'd option \<times> 'd list" where
  "container_pop Queue c = (if c = [] then (None, c) else (Some (hd c), tl c))"
| "container_pop Stack c = (if c = [] then (None, c) else (Some (hd c), tl c))"
| "container_pop Vector c = (if c = [] then (None, c) else (Some (last c), butlast c))"

fun container_empty :: "'d list \<Rightarrow> bool" where
  "container_empty c = (c = [])"

fun container_view :: "kind \<Rightarrow> 'd list \<Rightarrow> 'd list" where
  "container_view Vector c = rev c"
| "container_view _ c = c"


subsection \<open>The pool\<close>

text \<open>\<open>s_closed\<close> records the Lua states that \<open>lua_close\<close> has ended; \<open>s_next\<close> is the number of the next \<open>luaL_newstate\<close>.\<close>

record vm_pool =
  s_container :: "vm list"
  s_gc :: u32
  s_version :: u32
  s_pool :: u32
  s_next :: nat
  s_closed :: "nat list"

definition vm_new :: "u32 \<Rightarrow> vm_pool \<Rightarrow> vm \<times> vm_pool" where
  "vm_new version s = (\<lparr>m_version = version, m_gc = s_gc s, m_release = False, m_state = s_next s\<rparr>, s\<lparr>s_next := Suc (s_next s)\<rparr>)"

definition vm_delete :: "vm \<Rightarrow> vm_pool \<Rightarrow> vm_pool" where
  "vm_delete d s = s\<lparr>s_closed := s_closed s @ [m_state d]\<rparr>"

definition mvm_push :: "kind \<Rightarrow> vm \<Rightarrow> vm_pool \<Rightarrow> vm_pool" where
  "mvm_push k d s = s\<lparr>s_container := container_push k d (s_container s), s_pool := s_pool s + 1\<rparr>"

definition mvm_back :: "kind \<Rightarrow> vm \<Rightarrow> vm_pool \<Rightarrow> vm_pool" where
  "mvm_back k d s =
     (if s_version s > m_version d then vm_delete d s
      else s\<lparr>s_container := container_back k d (s_container s), s_pool := s_pool s + 1\<rparr>)"

definition mvm_pop :: "kind \<Rightarrow> vm_pool \<Rightarrow> vm \<times> vm_pool" where
  "mvm_pop k s =
     (case container_pop k (s_container s) of
        (None, c) \<Rightarrow> vm_new (s_version s) (s\<lparr>s_container := c\<rparr>)
      | (Some d, c) \<Rightarrow> (d, s\<lparr>s_container := c, s_pool := s_pool s - 1\<rparr>))"

definition getInstance :: "kind \<Rightarrow> bool \<Rightarrow> vm_pool \<Rightarrow> vm \<times> vm_pool" where
  "getInstance k create s =
     (if create then vm_new (s_version s) s
      else let (d, s1) = mvm_pop k s in
        if s_version s1 > m_version d then vm_new (s_version s1) (vm_delete d s1) else (d, s1))"

text \<open>The destructor of \<open>mvm::instance\<close>, which holds a machine while it is in use. Freeing the objects that the machine manages
  (\<open>collect\<close>) and the table of the threads with their machines are left out.\<close>

definition instance_end :: "kind \<Rightarrow> vm \<Rightarrow> vm_pool \<Rightarrow> vm_pool" where
  "instance_end k d s = (if m_release d then vm_delete d s else mvm_push k d s)"

partial_function (option) mvm_reload :: "kind \<Rightarrow> vm_pool \<Rightarrow> vm_pool option" where
  "mvm_reload k s =
     (let (d, s1) = mvm_pop k s in
      if m_version d > s_version s1 then Some ((mvm_push k d s1)\<lparr>s_version := s_version s1 + 1\<rparr>)
      else let (n, s2) = vm_new (s_version s1 + 1) s1; s3 = vm_delete d (mvm_back k n s2) in mvm_reload k s3)"

partial_function (option) mvm_gc_loop :: "kind \<Rightarrow> u32 \<Rightarrow> vm \<Rightarrow> vm_pool \<Rightarrow> (u32 \<times> vm_pool) option" where
  "mvm_gc_loop k i d s =
     (if m_gc d \<noteq> s_gc s
      then let (d1, s1) = mvm_pop k (mvm_back k (d\<lparr>m_gc := s_gc s\<rparr>) s) in mvm_gc_loop k (i + 1) d1 s1
      else Some (i, mvm_back k d s))"

definition mvm_gc :: "kind \<Rightarrow> vm_pool \<Rightarrow> (u32 \<times> vm_pool) option" where
  "mvm_gc k s = (let s1 = s\<lparr>s_gc := s_gc s + 1\<rparr>; (d, s2) = mvm_pop k s1 in mvm_gc_loop k 0 d s2)"

lemma container_pop_length: "container_pop k c = (Some d, c') \<Longrightarrow> length c' < length c"
  by (cases k) (auto split: if_splits)

function mvm_clear_loop :: "kind \<Rightarrow> u32 \<Rightarrow> vm_pool \<Rightarrow> u32 \<times> vm_pool" where
  "mvm_clear_loop k result s =
     (if container_empty (s_container s) then (result, s)
      else case container_pop k (s_container s) of
          (Some d, c) \<Rightarrow> mvm_clear_loop k (result + 1) (vm_delete d (s\<lparr>s_container := c, s_pool := s_pool s - 1\<rparr>))
        | (None, c) \<Rightarrow> (result, s))"
  by pat_completeness auto
termination
  by (relation "measure (\<lambda>(k, r, s). length (s_container s))")
    (auto simp: vm_delete_def dest: container_pop_length [OF sym])

declare mvm_clear_loop.simps [simp del]

definition mvm_clear :: "kind \<Rightarrow> vm_pool \<Rightarrow> u32 \<times> vm_pool" where
  "mvm_clear k s = mvm_clear_loop k 0 (s\<lparr>s_version := s_version s + 1\<rparr>)"


subsection \<open>What the pool relies on\<close>

locale container =
  fixes push :: "'d \<Rightarrow> 'c \<Rightarrow> 'c" and give_back :: "'d \<Rightarrow> 'c \<Rightarrow> 'c" and pop :: "'c \<Rightarrow> 'd option \<times> 'c" and view :: "'c \<Rightarrow> 'd list"
  assumes view_back: "view (give_back d c) = view c @ [d]"
    and view_push: "mset (view (push d c)) = add_mset d (mset (view c))"
    and pop_empty: "view c = [] \<Longrightarrow> pop c = (None, c)"
    and pop_some: "view c = d # r \<Longrightarrow> \<exists>c'. pop c = (Some d, c') \<and> view c' = r"
begin

lemma pop_view: "fst (pop c) = (case view c of [] \<Rightarrow> None | d # r \<Rightarrow> Some d) \<and> view (snd (pop c)) = tl (view c)"
  using pop_empty [of c] pop_some [of c] by (cases "view c") fastforce+

end

interpretation cont: container "container_push k" "container_back k" "container_pop k" "container_view k" for k
proof (unfold_locales, goal_cases)
  case (1 d c)
  show ?case by (cases k) simp_all
next
  case (2 d c)
  show ?case by (cases k) simp_all
next
  case (3 c)
  then show ?case by (cases k) simp_all
next
  case (4 c d r)
  then show ?case by (cases k) (auto simp: rev_eq_Cons_iff)
qed

abbreviation pooled :: "kind \<Rightarrow> vm_pool \<Rightarrow> vm list" where
  "pooled k s \<equiv> container_view k (s_container s)"

lemma mvm_pop_none:
  assumes "pooled k s = []"
  shows "mvm_pop k s = vm_new (s_version s) s"
  using cont.pop_empty [OF assms] by (simp add: mvm_pop_def)

lemma mvm_pop_some:
  assumes "pooled k s = d # r"
  obtains c where "mvm_pop k s = (d, s\<lparr>s_container := c, s_pool := s_pool s - 1\<rparr>)" "container_view k c = r"
  using cont.pop_some [OF assms] by (auto simp: mvm_pop_def)

lemma mvm_pop_version: "mvm_pop k s = (d, s1) \<Longrightarrow> s_version s1 = s_version s"
  by (auto simp: mvm_pop_def vm_new_def split: prod.splits option.splits)

text \<open>
  The state of the pool: the counter is the number of pooled machines, no pooled machine is newer than the program or the last
  collection, and the Lua states of the pool are distinct, open and older than the next one.
\<close>

definition pool_ok :: "kind \<Rightarrow> vm_pool \<Rightarrow> bool" where
  "pool_ok k s \<longleftrightarrow> s_pool s = of_nat (length (pooled k s)) \<and>
     (\<forall>d \<in> set (pooled k s). m_version d \<le> s_version s \<and> m_gc d \<le> s_gc s) \<and>
     distinct (map m_state (pooled k s)) \<and> (\<forall>d \<in> set (pooled k s). m_state d < s_next s \<and> m_state d \<notin> set (s_closed s)) \<and>
     (\<forall>x \<in> set (s_closed s). x < s_next s)"


text \<open>A machine that somebody holds: nobody finds it in the pool, and its Lua state is open.\<close>

definition handed :: "kind \<Rightarrow> vm \<Rightarrow> vm_pool \<Rightarrow> bool" where
  "handed k d s \<longleftrightarrow> m_version d \<le> s_version s \<and> m_gc d \<le> s_gc s \<and> m_state d < s_next s \<and>
     m_state d \<notin> set (s_closed s) \<and> m_state d \<notin> m_state ` set (pooled k s)"

lemma set_push [simp]: "set (container_view k (container_push k d c)) = insert d (set (container_view k c))"
  using arg_cong [OF cont.view_push [of k d c], of set_mset] by simp

lemma length_push [simp]: "length (container_view k (container_push k d c)) = Suc (length (container_view k c))"
  using arg_cong [OF cont.view_push [of k d c], of size] by simp

lemma distinct_push:
  "distinct (map f (container_view k (container_push k d c))) \<longleftrightarrow> f d \<notin> f ` set (container_view k c) \<and> distinct (map f (container_view k c))"
proof -
  have "mset (map f (container_view k (container_push k d c))) = mset (f d # map f (container_view k c))"
    using cont.view_push [of k d c] by simp
  then have "distinct (map f (container_view k (container_push k d c))) = distinct (f d # map f (container_view k c))"
    by (rule mset_eq_imp_distinct_iff)
  then show ?thesis by simp
qed

lemma vm_new_ok:
  assumes "pool_ok k s" and "vm_new (s_version s) s = (d, t)"
  shows "pool_ok k t \<and> handed k d t \<and> m_version d = s_version t \<and> s_version t = s_version s"
proof -
  have d: "d = \<lparr>m_version = s_version s, m_gc = s_gc s, m_release = False, m_state = s_next s\<rparr>" and t: "t = s\<lparr>s_next := Suc (s_next s)\<rparr>"
    using assms(2) by (simp_all add: vm_new_def)
  have "s_next s \<notin> set (s_closed s)" and "s_next s \<notin> m_state ` set (pooled k s)" using assms(1) unfolding pool_ok_def by auto
  then show ?thesis using assms(1) unfolding d t pool_ok_def handed_def by (simp add: less_Suc_eq)
qed

lemma vm_delete_ok: "pool_ok k s \<Longrightarrow> handed k d s \<Longrightarrow> pool_ok k (vm_delete d s)"
  unfolding pool_ok_def vm_delete_def handed_def by (simp, metis image_eqI)

lemma mvm_push_ok: "pool_ok k s \<Longrightarrow> handed k d s \<Longrightarrow> pool_ok k (mvm_push k d s)"
  by (auto simp: pool_ok_def mvm_push_def handed_def distinct_push)

lemma mvm_pop_ok:
  assumes "pool_ok k s" and "mvm_pop k s = (d, t)"
  shows "pool_ok k t \<and> handed k d t"
proof (cases "pooled k s")
  case Nil
  then show ?thesis using assms vm_new_ok [OF assms(1)] mvm_pop_none [OF Nil] by simp
next
  case (Cons x r)
  then obtain c where "mvm_pop k s = (x, s\<lparr>s_container := c, s_pool := s_pool s - 1\<rparr>)" "container_view k c = r"
    by (rule mvm_pop_some)
  then show ?thesis using assms Cons by (auto simp: pool_ok_def handed_def)
qed

lemma instance_end_ok: "pool_ok k s \<Longrightarrow> handed k d s \<Longrightarrow> pool_ok k (instance_end k d s)"
  by (simp add: instance_end_def vm_delete_ok mvm_push_ok)

text \<open>C16: \<open>getInstance\<close> hands out a machine of the current version whose Lua state is open, and which is not in the pool, so
  that no other thread gets it until the instance ends; the pool keeps its invariant, through the end of the
  instance too.\<close>

theorem getInstance_exclusive:
  assumes "pool_ok k s" and "getInstance k create s = (d, t)"
  shows "m_version d = s_version s \<and> handed k d t \<and> pool_ok k t \<and> pool_ok k (instance_end k d t)"
proof -
  have "m_version d = s_version s \<and> handed k d t \<and> pool_ok k t"
  proof (cases create)
    case True
    then show ?thesis using vm_new_ok [OF assms(1)] assms(2) by (simp add: getInstance_def)
  next
    case False
    obtain e u where p: "mvm_pop k s = (e, u)" by fastforce
    have u: "pool_ok k u" "handed k e u" "s_version u = s_version s" using mvm_pop_ok [OF assms(1) p] mvm_pop_version [OF p] by auto
    have v: "s_version (vm_delete e u) = s_version u" by (simp add: vm_delete_def)
    have r: "(if s_version u > m_version e then vm_new (s_version u) (vm_delete e u) else (e, u)) = (d, t)"
      using assms(2) False p by (simp add: getInstance_def)
    show ?thesis
    proof (cases "s_version u > m_version e")
      case True
      with r have "vm_new (s_version (vm_delete e u)) (vm_delete e u) = (d, t)" unfolding v by simp
      from vm_new_ok [OF vm_delete_ok [OF u(1,2)] this] v u(3) show ?thesis by metis
    next
      case old: False
      with u(2) have "m_version e = s_version u" unfolding handed_def by (metis not_less antisym)
      then show ?thesis using old u r by auto
    qed
  qed
  then show ?thesis using instance_end_ok by blast
qed

definition pool0 :: vm_pool where
  "pool0 = \<lparr>s_container = [\<lparr>m_version = 0, m_gc = 0, m_release = False, m_state = 0\<rparr>, \<lparr>m_version = 1, m_gc = 0, m_release = False, m_state = 1\<rparr>],
     s_gc = 0, s_version = 1, s_pool = 2, s_next = 2, s_closed = []\<rparr>"

theorem getInstance_exclusive_witness:
  "\<exists>d t. getInstance Stack False pool0 = (d, t) \<and> m_version d = 1 \<and> pool_ok Stack (instance_end Stack d t)"
  using getInstance_exclusive [of Stack pool0 False] by (cases "getInstance Stack False pool0") (auto simp: pool0_def pool_ok_def)


subsection \<open>Reload\<close>

text \<open>The first rounds replace the old machines one by one; the new ones gather behind them.\<close>

lemma reload_rounds:
  assumes "pooled k s = xs @ ys" and "\<forall>d \<in> set xs. m_version d \<le> s_version s" and "\<forall>d \<in> set ys. m_version d = s_version s + 1"
    and "s_version s < s_version s + 1" and "xs @ ys \<noteq> []"
  shows "\<exists>t. mvm_reload k s = Some t \<and> s_version t = s_version s + 1 \<and> length (pooled k t) = length (xs @ ys) \<and>
    (\<forall>d \<in> set (pooled k t). m_version d = s_version t) \<and> s_closed t = s_closed s @ map m_state xs \<and> s_pool t = s_pool s"
  using assms
proof (induction xs arbitrary: s ys)
  case Nil
  then obtain y r where y: "pooled k s = y # r" "ys = y # r" by (cases ys) auto
  obtain c where c: "mvm_pop k s = (y, s\<lparr>s_container := c, s_pool := s_pool s - 1\<rparr>)" "container_view k c = r"
    by (rule mvm_pop_some [OF y(1)])
  let ?t = "s\<lparr>s_container := container_push k y c, s_version := s_version s + 1\<rparr>"
  have "mvm_reload k s = Some ?t" using c(1) Nil.prems(3,4) y(2)
    by (subst mvm_reload.simps) (simp add: mvm_push_def)
  moreover have m: "mset (pooled k ?t) = add_mset y (mset r)" using cont.view_push [of k y c] c(2) by simp
  have "length (pooled k ?t) = length ys" using arg_cong [OF m, of size] y(2) by simp
  moreover have "set (pooled k ?t) = set ys" using arg_cong [OF m, of set_mset] y(2) by simp
  ultimately show ?case using Nil.prems(3) by simp
next
  case (Cons x xs)
  from Cons.prems(1) have "pooled k s = x # (xs @ ys)" by simp
  then obtain c where c: "mvm_pop k s = (x, s\<lparr>s_container := c, s_pool := s_pool s - 1\<rparr>)" "container_view k c = xs @ ys"
    by (rule mvm_pop_some)
  let ?n = "\<lparr>m_version = s_version s + 1, m_gc = s_gc s, m_release = False, m_state = s_next s\<rparr>"
  let ?t = "s\<lparr>s_next := Suc (s_next s), s_container := container_back k ?n c, s_closed := s_closed s @ [m_state x]\<rparr>"
  have nv: "\<not> m_version x > s_version s" "\<not> s_version s > s_version s + 1" using Cons.prems(2,4) by (auto simp: not_less)
  have "mvm_reload k s = mvm_reload k ?t" using c(1) nv
    by (subst mvm_reload.simps) (simp add: vm_new_def mvm_back_def vm_delete_def)
  moreover have "pooled k ?t = xs @ (ys @ [?n])" using cont.view_back [of k ?n c] c(2) by simp
  from Cons.IH [OF this] Cons.prems(2-4) have "\<exists>t. mvm_reload k ?t = Some t \<and> s_version t = s_version s + 1 \<and>
    length (pooled k t) = length (x # xs @ ys) \<and> (\<forall>d \<in> set (pooled k t). m_version d = s_version t) \<and>
    s_closed t = s_closed s @ map m_state (x # xs) \<and> s_pool t = s_pool s"
    by (auto simp: add.commute)
  ultimately show ?case by simp
qed

lemma reload_empty:
  assumes "pooled k s = []" and "s_version s < s_version s + 1"
  shows "\<exists>n s1. mvm_reload k s = mvm_reload k s1 \<and> pooled k s1 = [n] \<and> m_version n = s_version s + 1 \<and>
    s_version s1 = s_version s \<and> s_closed s1 = s_closed s @ [s_next s]"
proof -
  let ?n = "\<lparr>m_version = s_version s + 1, m_gc = s_gc s, m_release = False, m_state = Suc (s_next s)\<rparr>"
  let ?t = "s\<lparr>s_next := Suc (Suc (s_next s)), s_container := container_back k ?n (s_container s), s_pool := s_pool s + 1,
    s_closed := s_closed s @ [s_next s]\<rparr>"
  have "\<not> s_version s > s_version s + 1" using assms(2) by (simp add: not_less)
  then have "mvm_reload k s = mvm_reload k ?t" using mvm_pop_none [OF assms(1)]
    by (subst mvm_reload.simps) (simp add: vm_new_def mvm_back_def vm_delete_def)
  moreover have "pooled k ?t = [?n]" using cont.view_back [of k ?n] assms(1) by simp
  ultimately show ?thesis by (intro exI [of _ ?n] exI [of _ ?t]) simp
qed

text \<open>C14: \<open>reload\<close> comes to its end, whatever container the build has chosen and however many machines are pooled, as long as the
  version has not reached the largest 32-bit number: then the version is one higher, every pooled machine has it, their number
  is the same (one, if the pool was empty), and the Lua states of all machines that were pooled before are closed.\<close>

theorem mvm_reload_terminates:
  assumes "pool_ok k s" and "s_version s < s_version s + 1"
  shows "\<exists>t. mvm_reload k s = Some t \<and> s_version t = s_version s + 1 \<and> (\<forall>d \<in> set (pooled k t). m_version d = s_version t) \<and>
    length (pooled k t) = max 1 (length (pooled k s)) \<and> m_state ` set (pooled k s) \<subseteq> set (s_closed t)"
proof (cases "pooled k s = []")
  case True
  from reload_empty [OF True assms(2)] obtain n s1 where n: "mvm_reload k s = mvm_reload k s1" "pooled k s1 = [] @ [n]"
    "m_version n = s_version s + 1" "s_version s1 = s_version s" by auto
  from reload_rounds [OF n(2)] n(3,4) assms(2) True show ?thesis by (auto simp: n(1))
next
  case False
  have old: "\<forall>d \<in> set (pooled k s). m_version d \<le> s_version s" using assms(1) by (simp add: pool_ok_def)
  from False show ?thesis using reload_rounds [of k s "pooled k s" "[]", OF _ old _ assms(2)]
    by (auto simp: max_def Suc_le_eq)
qed

theorem mvm_reload_terminates_witness:
  "\<exists>t. mvm_reload Vector pool0 = Some t \<and> s_version t = 2 \<and> length (s_container t) = 2 \<and> {0, 1} \<subseteq> set (s_closed t)"
  using mvm_reload_terminates [of Vector pool0] by (auto simp: pool0_def pool_ok_def)

text \<open>At the largest version the next one is zero, which no machine exceeds: \<open>reload\<close> never returns.\<close>

lemma mvm_reload_returns:
  assumes "mvm_reload k s = Some t" shows "s_version s \<noteq> - 1"
proof (rule mvm_reload.raw_induct [where P = "\<lambda>k s t. s_version s \<noteq> - 1", OF _ assms])
  fix f k s t
  assume ih: "\<And>k s t. f k s = Some t \<Longrightarrow> s_version s \<noteq> - 1"
    and body: "(let (d, s1) = mvm_pop k s in
      if m_version d > s_version s1 then Some ((mvm_push k d s1)\<lparr>s_version := s_version s1 + 1\<rparr>)
      else let (n, s2) = vm_new (s_version s1 + 1) s1; s3 = vm_delete d (mvm_back k n s2) in f k s3) = Some t"
  obtain d s1 where d: "mvm_pop k s = (d, s1)" by fastforce
  define s3 where "s3 = (let (n, s2) = vm_new (s_version s1 + 1) s1 in vm_delete d (mvm_back k n s2))"
  show "s_version s \<noteq> - 1"
  proof
    assume "s_version s = - 1"
    then have v: "s_version s1 = - 1" using mvm_pop_version [OF d] by simp
    then have "\<not> m_version d > s_version s1" by (simp add: not_less)
    then have "f k s3 = Some t" using body d by (simp add: s3_def split_beta Let_def)
    then have "s_version s3 \<noteq> - 1" by (rule ih)
    then show False using v by (simp add: s3_def vm_new_def mvm_back_def vm_delete_def split: if_splits)
  qed
qed

lemma mvm_reload_loops: "s_version s = - 1 \<Longrightarrow> mvm_reload k s = None"
  using mvm_reload_returns by (metis not_None_eq)


subsection \<open>Collection\<close>

definition fresh :: "vm_pool \<Rightarrow> vm \<Rightarrow> bool" where
  "fresh s d \<longleftrightarrow> \<not> s_version s > m_version d"

text \<open>The pool behind the loop: the collected machines, of which the first was taken once more and put back, or one new machine.\<close>

definition gc_done :: "kind \<Rightarrow> u32 \<Rightarrow> u32 \<Rightarrow> vm list \<Rightarrow> vm_pool \<Rightarrow> bool" where
  "gc_done k g v zs t \<longleftrightarrow> s_gc t = g \<and> s_version t = v \<and>
     (if zs = [] then \<exists>n. pooled k t = [n] \<and> m_gc n = g \<and> m_version n = v else pooled k t = tl zs @ [hd zs])"

text \<open>The loop puts a collected machine back; it ends when the next machine is collected already, or new.\<close>

lemma gc_back:
  "pooled k (mvm_back k (d\<lparr>m_gc := g\<rparr>) s) = pooled k s @ map (m_gc_update (\<lambda>_. g)) (filter (fresh s) [d])"
  "s_gc (mvm_back k (d\<lparr>m_gc := g\<rparr>) s) = s_gc s" "s_version (mvm_back k (d\<lparr>m_gc := g\<rparr>) s) = s_version s"
  "s_closed (mvm_back k (d\<lparr>m_gc := g\<rparr>) s) = s_closed s @ map m_state (filter (\<lambda>x. \<not> fresh s x) [d])"
  using cont.view_back [of k "d\<lparr>m_gc := g\<rparr>"] by (auto simp: mvm_back_def vm_delete_def fresh_def)

lemma gc_close:
  assumes "\<forall>z \<in> set (pooled k s). m_gc z = s_gc s \<and> fresh s z"
  shows "\<exists>t. (let (e, u) = mvm_pop k s in mvm_gc_loop k i e u) = Some (i, t) \<and>
    gc_done k (s_gc s) (s_version s) (pooled k s) t \<and> s_closed t = s_closed s"
proof (cases "pooled k s")
  case Nil
  let ?n = "\<lparr>m_version = s_version s, m_gc = s_gc s, m_release = False, m_state = s_next s\<rparr>"
  let ?t = "s\<lparr>s_next := Suc (s_next s), s_container := container_back k ?n (s_container s), s_pool := s_pool s + 1\<rparr>"
  have "mvm_pop k s = (?n, s\<lparr>s_next := Suc (s_next s)\<rparr>)" using mvm_pop_none [OF Nil] by (simp add: vm_new_def)
  then have "(let (e, u) = mvm_pop k s in mvm_gc_loop k i e u) = Some (i, ?t)"
    by (simp add: mvm_gc_loop.simps [of k i] mvm_back_def)
  moreover have "pooled k ?t = [?n]" using cont.view_back [of k ?n] Nil by simp
  ultimately show ?thesis using Nil by (intro exI [of _ ?t]) (simp add: gc_done_def)
next
  case (Cons z r)
  then obtain c where c: "mvm_pop k s = (z, s\<lparr>s_container := c, s_pool := s_pool s - 1\<rparr>)" "container_view k c = r"
    by (rule mvm_pop_some)
  let ?t = "s\<lparr>s_container := container_back k z c\<rparr>"
  have "(let (e, u) = mvm_pop k s in mvm_gc_loop k i e u) = Some (i, ?t)" using assms Cons c(1)
    by (simp add: mvm_gc_loop.simps [of k i] mvm_back_def fresh_def)
  moreover have "pooled k ?t = r @ [z]" using cont.view_back [of k z c] c(2) by simp
  ultimately show ?thesis using Cons by (intro exI [of _ ?t]) (simp add: gc_done_def)
qed

text \<open>The machines that are still to be collected come first, those that are done behind them.\<close>

lemma gc_rounds:
  assumes "pooled k s = xs @ ys" and "m_gc d \<noteq> s_gc s" and "\<forall>x \<in> set xs. m_gc x \<noteq> s_gc s" and "\<forall>y \<in> set ys. m_gc y = s_gc s \<and> fresh s y"
  shows "\<exists>t. mvm_gc_loop k i d s = Some (i + 1 + of_nat (length xs), t) \<and>
    gc_done k (s_gc s) (s_version s) (ys @ map (m_gc_update (\<lambda>_. s_gc s)) (filter (fresh s) (d # xs))) t \<and>
    s_closed t = s_closed s @ map m_state (filter (\<lambda>x. \<not> fresh s x) (d # xs))"
  using assms
proof (induction xs arbitrary: i d s ys)
  case Nil
  let ?s = "mvm_back k (d\<lparr>m_gc := s_gc s\<rparr>) s"
  have loop: "mvm_gc_loop k i d s = (let (e, u) = mvm_pop k ?s in mvm_gc_loop k (i + 1) e u)"
    using Nil.prems(2) by (subst mvm_gc_loop.simps) simp
  have p: "pooled k ?s = ys @ map (m_gc_update (\<lambda>_. s_gc s)) (filter (fresh s) [d])" using gc_back(1) Nil.prems(1) by simp
  have "\<forall>z \<in> set (pooled k ?s). m_gc z = s_gc ?s \<and> fresh ?s z" using Nil.prems(4) unfolding p by (auto simp: fresh_def gc_back(2,3))
  from gc_close [OF this, of "i + 1"] show ?case unfolding loop p gc_back(2-4) by simp
next
  case (Cons x xs)
  let ?s = "mvm_back k (d\<lparr>m_gc := s_gc s\<rparr>) s" and ?zs = "ys @ map (m_gc_update (\<lambda>_. s_gc s)) (filter (fresh s) [d])"
  have "pooled k ?s = x # (xs @ ?zs)" using gc_back(1) Cons.prems(1) by simp
  then obtain c where c: "mvm_pop k ?s = (x, ?s\<lparr>s_container := c, s_pool := s_pool ?s - 1\<rparr>)" "container_view k c = xs @ ?zs"
    by (rule mvm_pop_some)
  let ?u = "?s\<lparr>s_container := c, s_pool := s_pool ?s - 1\<rparr>"
  have loop: "mvm_gc_loop k i d s = mvm_gc_loop k (i + 1) x ?u"
    using Cons.prems(2) c(1) by (subst mvm_gc_loop.simps) simp
  have u: "s_gc ?u = s_gc s" "s_version ?u = s_version s" "fresh ?u = fresh s"
    "s_closed ?u = s_closed s @ map m_state (filter (\<lambda>x. \<not> fresh s x) [d])" by (auto simp: fresh_def gc_back)
  have "pooled k ?u = xs @ ?zs" "m_gc x \<noteq> s_gc ?u" "\<forall>y \<in> set xs. m_gc y \<noteq> s_gc ?u" "\<forall>z \<in> set ?zs. m_gc z = s_gc ?u \<and> fresh ?u z"
    using Cons.prems(3,4) c(2) unfolding u by (auto simp: fresh_def)
  from Cons.IH [OF this, of "i + 1", unfolded u] show ?case unfolding loop by (cases "fresh s d") (simp_all add: add.assoc)
qed

lemma gc_done_pooled:
  assumes "gc_done k g v zs t" and "\<forall>z \<in> set zs. m_gc z = g \<and> m_version z = v"
  shows "pooled k t \<noteq> [] \<and> (\<forall>d \<in> set (pooled k t). m_gc d = g \<and> m_version d = v) \<and> set zs \<subseteq> set (pooled k t)"
  using assms by (cases zs) (auto simp: gc_done_def)

lemma gc_empty:
  assumes "pooled k s = []"
  shows "\<exists>t. mvm_gc k s = Some (0, t) \<and> gc_done k (s_gc s + 1) (s_version s) [] t"
  using gc_close [of k "s\<lparr>s_gc := s_gc s + 1\<rparr>" 0] assms by (auto simp: mvm_gc_def Let_def)

lemma gc_filled:
  assumes "pooled k s = d # r" and "\<forall>x \<in> set (d # r). m_gc x \<noteq> s_gc s + 1"
  shows "\<exists>t. mvm_gc k s = Some (of_nat (length (d # r)), t) \<and>
    gc_done k (s_gc s + 1) (s_version s) (map (m_gc_update (\<lambda>_. s_gc s + 1)) (filter (fresh s) (d # r))) t \<and>
    s_closed t = s_closed s @ map m_state (filter (\<lambda>x. \<not> fresh s x) (d # r))"
proof -
  let ?s = "s\<lparr>s_gc := s_gc s + 1\<rparr>"
  have "pooled k ?s = d # r" using assms(1) by simp
  then obtain c where c: "mvm_pop k ?s = (d, ?s\<lparr>s_container := c, s_pool := s_pool ?s - 1\<rparr>)" "container_view k c = r"
    by (rule mvm_pop_some)
  let ?s2 = "?s\<lparr>s_container := c, s_pool := s_pool ?s - 1\<rparr>"
  have f: "fresh ?s2 = fresh s" by (auto simp: fresh_def)
  have "mvm_gc k s = mvm_gc_loop k 0 d ?s2" using c(1) by (simp add: mvm_gc_def)
  with gc_rounds [of k ?s2 r "[]" d 0] show ?thesis using assms(2) c(2) unfolding f by simp
qed

text \<open>C15: \<open>gc\<close> comes to its end for every container, as long as its 32-bit counter does not wrap: it collects each pooled machine exactly
  once and returns their number; afterwards every pooled machine bears the mark of this collection, the machines of the
  current version are still pooled, those of older versions are closed, and the pool is not empty.\<close>

theorem mvm_gc_terminates:
  assumes "pool_ok k s" and "s_gc s < s_gc s + 1"
  shows "\<exists>t. mvm_gc k s = Some (of_nat (length (pooled k s)), t) \<and> pooled k t \<noteq> [] \<and>
    (\<forall>d \<in> set (pooled k t). m_gc d = s_gc s + 1 \<and> m_version d = s_version s) \<and>
    (\<forall>d \<in> set (pooled k s). if m_version d = s_version s then m_state d \<in> m_state ` set (pooled k t) else m_state d \<in> set (s_closed t))"
proof (cases "pooled k s")
  case Nil
  from gc_empty [OF Nil] obtain t where "mvm_gc k s = Some (0, t)" "gc_done k (s_gc s + 1) (s_version s) [] t" by blast
  with gc_done_pooled [OF this(2)] Nil show ?thesis by simp
next
  case (Cons d r)
  have ok: "\<forall>x \<in> set (d # r). m_gc x \<le> s_gc s \<and> m_version x \<le> s_version s" using assms(1) Cons by (simp add: pool_ok_def)
  then have "\<forall>x \<in> set (d # r). m_gc x \<noteq> s_gc s + 1" using assms(2) by force
  from gc_filled [OF Cons this] obtain t where t: "mvm_gc k s = Some (of_nat (length (d # r)), t)"
    "gc_done k (s_gc s + 1) (s_version s) (map (m_gc_update (\<lambda>_. s_gc s + 1)) (filter (fresh s) (d # r))) t"
    "s_closed t = s_closed s @ map m_state (filter (\<lambda>x. \<not> fresh s x) (d # r))" by blast
  have "\<forall>z \<in> set (map (m_gc_update (\<lambda>_. s_gc s + 1)) (filter (fresh s) (d # r))). m_gc z = s_gc s + 1 \<and> m_version z = s_version s"
    using ok by (auto simp: fresh_def not_less intro: antisym)
  note p = gc_done_pooled [OF t(2) this]
  have "if m_version x = s_version s then m_state x \<in> m_state ` set (pooled k t) else m_state x \<in> set (s_closed t)"
    if "x \<in> set (d # r)" for x
  proof (cases "m_version x = s_version s")
    case True
    then have "x\<lparr>m_gc := s_gc s + 1\<rparr> \<in> set (pooled k t)" using p that by (auto simp: fresh_def)
    then show ?thesis using True by (force intro: rev_image_eqI)
  next
    case False
    then have "\<not> fresh s x" using ok that by (auto simp: fresh_def)
    then show ?thesis using False that unfolding t(3) by auto
  qed
  with t(1) p show ?thesis unfolding Cons by blast
qed

theorem mvm_gc_terminates_witness: "\<exists>t. mvm_gc Stack pool0 = Some (2, t) \<and> 0 \<in> set (s_closed t)"
  using mvm_gc_terminates [of Stack pool0] by (auto simp: pool0_def pool_ok_def)

subsection \<open>Clearing\<close>

lemma clear_rounds:
  "pooled k s = xs \<Longrightarrow> \<exists>t. mvm_clear_loop k r s = (r + of_nat (length xs), t) \<and> pooled k t = [] \<and>
    s_closed t = s_closed s @ map m_state xs \<and> s_version t = s_version s \<and> s_pool t = s_pool s - of_nat (length xs)"
proof (induction xs arbitrary: r s)
  case Nil
  then have "s_container s = []" by (cases k) simp_all
  with Nil show ?case by (simp add: mvm_clear_loop.simps [of k r])
next
  case (Cons x xs)
  from cont.pop_some [OF Cons.prems] obtain c where c: "container_pop k (s_container s) = (Some x, c)" "container_view k c = xs" by blast
  let ?s = "vm_delete x (s\<lparr>s_container := c, s_pool := s_pool s - 1\<rparr>)"
  have "s_container s \<noteq> []" using Cons.prems by (cases k) auto
  then have "mvm_clear_loop k r s = mvm_clear_loop k (r + 1) ?s" using c(1) by (simp add: mvm_clear_loop.simps [of k r])
  moreover have "pooled k ?s = xs" using c(2) by (simp add: vm_delete_def)
  ultimately show ?case using Cons.IH [of ?s "r + 1"] by (auto simp: vm_delete_def algebra_simps)
qed

text \<open>\<open>clear\<close> closes every pooled machine, in the order of the container, and counts them; machines that are in use are
  outdated by the new version, so that \<open>getInstance\<close> deletes them when it finds them in the pool again.\<close>

theorem mvm_clear_all:
  assumes "pool_ok k s"
  shows "\<exists>t. mvm_clear k s = (of_nat (length (pooled k s)), t) \<and> pooled k t = [] \<and> s_pool t = 0 \<and>
    s_closed t = s_closed s @ map m_state (pooled k s) \<and> s_version t = s_version s + 1"
  using clear_rounds [of k "s\<lparr>s_version := s_version s + 1\<rparr>" "pooled k s" 0] assms
  by (auto simp: mvm_clear_def pool_ok_def)

end
