(* ===== verification/Mvm_Shared.thy ===== *)
theory Mvm_Shared
  imports Json_Base
begin

text \<open>
  The key-value store that the Lua states of a process share: class \<open>mvm::Shared\<close> of \<open>src/arken/mvm.cpp\<close> and its Lua methods
  in \<open>src/bindings/arken/mvm/mvm.cpp\<close>.

  Each method of the class holds the mutex of the store from its first to its last statement, so a method is one function on
  the store, and what the threads do is a sequence of calls. An entry has a flag and three values; \<open>(*m_map)[key]\<close> creates
  the entry with zeros, as value initialisation does. The addition of doubles and Lua's conversion of a string to a
  number are parameters. Keys pass through \<open>const char *\<close>, which ends them at their first NUL.
\<close>

record shared_data =
  m_flag :: int
  m_bool :: bool
  m_number :: double
  m_string :: "char list"

type_synonym shared_store = "char list \<Rightarrow> shared_data option"

definition data0 :: shared_data where
  "data0 = \<lparr>m_flag = 0, m_bool = False, m_number = Num 0, m_string = []\<rparr>"

text \<open>\<open>(*m_map)[key]\<close>, read and written through.\<close>

definition entry :: "shared_store \<Rightarrow> char list \<Rightarrow> shared_data" where
  "entry m key = (case m key of None \<Rightarrow> data0 | Some d \<Rightarrow> d)"

definition modify :: "char list \<Rightarrow> (shared_data \<Rightarrow> shared_data) \<Rightarrow> shared_store \<Rightarrow> shared_store" where
  "modify key f m = m(key \<mapsto> f (entry m key))"

definition shared_getNumber :: "char list \<Rightarrow> shared_store \<Rightarrow> double" where
  "shared_getNumber key m = (case m key of Some d \<Rightarrow> m_number d | None \<Rightarrow> Num 0)"

definition shared_setNumber :: "char list \<Rightarrow> double \<Rightarrow> shared_store \<Rightarrow> shared_store" where
  "shared_setNumber key value m = modify key (\<lambda>d. d\<lparr>m_flag := 2\<rparr>) (modify key (\<lambda>d. d\<lparr>m_number := value\<rparr>) m)"

definition shared_increment :: "(double \<Rightarrow> double \<Rightarrow> double) \<Rightarrow> char list \<Rightarrow> double \<Rightarrow> shared_store \<Rightarrow> double \<times> shared_store" where
  "shared_increment add key value m =
     (case m key of
        Some d \<Rightarrow> let value = add value (m_number d) in (value, modify key (\<lambda>d. d\<lparr>m_number := value\<rparr>) m)
      | None \<Rightarrow> (value, modify key (\<lambda>d. d\<lparr>m_number := value\<rparr>) m))"

definition cstring :: "char list \<Rightarrow> char list" where
  "cstring t = takeWhile (\<lambda>c. c \<noteq> NUL) t"

text \<open>The copy assignment of strings copies with \<open>strncpy\<close>, which writes zeros from the first NUL on. \<open>append\<close> and \<open>prepend\<close> of
  strings take a \<open>const char *\<close>, to which their argument is converted.\<close>

definition assigned :: "char list \<Rightarrow> char list" where
  "assigned t = cstring t @ replicate (length t - length (cstring t)) NUL"

definition shared_getString :: "char list \<Rightarrow> shared_store \<Rightarrow> char list" where
  "shared_getString key m = (case m key of Some d \<Rightarrow> m_string d | None \<Rightarrow> [])"

definition shared_setString :: "char list \<Rightarrow> char list \<Rightarrow> shared_store \<Rightarrow> shared_store" where
  "shared_setString key value m = modify key (\<lambda>d. d\<lparr>m_flag := 3\<rparr>) (modify key (\<lambda>d. d\<lparr>m_string := assigned value\<rparr>) m)"

definition shared_append :: "char list \<Rightarrow> char list \<Rightarrow> shared_store \<Rightarrow> char list \<times> shared_store" where
  "shared_append key value m =
     (case m key of
        Some d \<Rightarrow> (value, modify key (\<lambda>e. e\<lparr>m_string := m_string d @ cstring value\<rparr>) m)
      | None \<Rightarrow> (value, modify key (\<lambda>e. e\<lparr>m_string := assigned value\<rparr>) m))"

definition shared_prepend :: "char list \<Rightarrow> char list \<Rightarrow> shared_store \<Rightarrow> char list \<times> shared_store" where
  "shared_prepend key value m =
     (case m key of
        Some d \<Rightarrow> (value, modify key (\<lambda>e. e\<lparr>m_string := cstring value @ m_string d\<rparr>) m)
      | None \<Rightarrow> (value, modify key (\<lambda>e. e\<lparr>m_string := assigned value\<rparr>) m))"

definition shared_getBool :: "char list \<Rightarrow> shared_store \<Rightarrow> bool" where
  "shared_getBool key m = (case m key of Some d \<Rightarrow> m_bool d | None \<Rightarrow> False)"

definition shared_setBool :: "char list \<Rightarrow> bool \<Rightarrow> shared_store \<Rightarrow> shared_store" where
  "shared_setBool key value m = modify key (\<lambda>d. d\<lparr>m_flag := 1\<rparr>) (modify key (\<lambda>d. d\<lparr>m_bool := value\<rparr>) m)"

definition shared_toggle :: "char list \<Rightarrow> shared_store \<Rightarrow> bool \<times> shared_store" where
  "shared_toggle key m =
     (case m key of
        Some d \<Rightarrow> let result = \<not> m_bool d in (result, modify key (\<lambda>e. e\<lparr>m_bool := result\<rparr>) m)
      | None \<Rightarrow> (False, m))"

definition shared_flag :: "char list \<Rightarrow> shared_store \<Rightarrow> int" where
  "shared_flag key m = (case m key of Some d \<Rightarrow> m_flag d | None \<Rightarrow> 0)"

definition shared_erase :: "char list \<Rightarrow> shared_store \<Rightarrow> shared_store" where
  "shared_erase key m = m(key := None)"

definition shared_get :: "char list \<Rightarrow> shared_store \<Rightarrow> shared_data" where
  "shared_get key m = (case m key of Some d \<Rightarrow> d | None \<Rightarrow> data0)"


subsection \<open>The Lua methods\<close>

text \<open>\<open>put\<close> tries the types in turn; \<open>lua_isnumber\<close> accepts the strings that Lua converts, and other types are not stored.\<close>

definition lua_put :: "(char list \<Rightarrow> double option) \<Rightarrow> char list \<Rightarrow> lua \<Rightarrow> shared_store \<Rightarrow> shared_store" where
  "lua_put tonumber key v m =
     (case v of
        LBool b \<Rightarrow> shared_setBool (cstring key) b m
      | LNum x \<Rightarrow> shared_setNumber (cstring key) x m
      | LStr t \<Rightarrow> (case tonumber t of Some x \<Rightarrow> shared_setNumber (cstring key) x m | None \<Rightarrow> shared_setString (cstring key) (cstring t) m)
      | _ \<Rightarrow> m)"

text \<open>\<open>get\<close> pushes one value for each flag; \<open>None\<close>: no value was pushed, and the method returns what lies on the stack.\<close>

definition lua_get :: "char list \<Rightarrow> shared_store \<Rightarrow> lua option" where
  "lua_get key m =
     (let d = shared_get (cstring key) m in
      if m_flag d = 0 then Some LNil
      else if m_flag d = 1 then Some (LBool (m_bool d))
      else if m_flag d = 2 then Some (LNum (m_number d))
      else if m_flag d = 3 then Some (LStr (m_string d))
      else None)"

text \<open>The calls that change a store, as Lua code makes them. The texts of \<open>Append\<close> and \<open>Prepend\<close> stand for texts without NUL: the
  methods copy the text up to its first NUL and then read the full length from the copy.\<close>

datatype shared_call = Put lua | SetNumber double | Increment double | SetString "char list" | Append "char list" | Prepend "char list"
  | SetBool bool | Toggle | Erase

fun lua_call :: "(double \<Rightarrow> double \<Rightarrow> double) \<Rightarrow> (char list \<Rightarrow> double option) \<Rightarrow> char list \<times> shared_call \<Rightarrow> shared_store \<Rightarrow> shared_store" where
  "lua_call add tonumber (key, Put v) m = lua_put tonumber key v m"
| "lua_call add tonumber (key, SetNumber x) m = shared_setNumber (cstring key) x m"
| "lua_call add tonumber (key, Increment x) m = snd (shared_increment add (cstring key) x m)"
| "lua_call add tonumber (key, SetString t) m = shared_setString (cstring key) t m"
| "lua_call add tonumber (key, Append t) m = snd (shared_append (cstring key) t m)"
| "lua_call add tonumber (key, Prepend t) m = snd (shared_prepend (cstring key) t m)"
| "lua_call add tonumber (key, SetBool b) m = shared_setBool (cstring key) b m"
| "lua_call add tonumber (key, Toggle) m = snd (shared_toggle (cstring key) m)"
| "lua_call add tonumber (key, Erase) m = shared_erase (cstring key) m"

definition lua_calls :: "(double \<Rightarrow> double \<Rightarrow> double) \<Rightarrow> (char list \<Rightarrow> double option) \<Rightarrow> (char list \<times> shared_call) list \<Rightarrow> shared_store \<Rightarrow> shared_store" where
  "lua_calls add tonumber cs m = fold (lua_call add tonumber) cs m"


subsection \<open>Values\<close>

lemma entry_modify [simp]: "entry (modify key f m) k = (if k = key then f (entry m key) else entry m k)"
  by (simp add: modify_def entry_def)

lemma shared_get_entry [simp]: "shared_get key m = entry m key"
  by (simp add: shared_get_def entry_def)

lemma entry_set [simp]:
  "entry (shared_setBool key b m) k = (if k = key then (entry m key)\<lparr>m_flag := 1, m_bool := b\<rparr> else entry m k)"
  "entry (shared_setNumber key x m) k = (if k = key then (entry m key)\<lparr>m_flag := 2, m_number := x\<rparr> else entry m k)"
  "entry (shared_setString key t m) k = (if k = key then (entry m key)\<lparr>m_flag := 3, m_string := assigned t\<rparr> else entry m k)"
  "entry (shared_erase key m) k = (if k = key then data0 else entry m k)"
  by (simp_all add: shared_setBool_def shared_setNumber_def shared_setString_def shared_erase_def) (simp add: entry_def)

lemma assigned_id: "NUL \<notin> set t \<Longrightarrow> cstring t = t \<and> assigned t = t"
proof -
  assume "NUL \<notin> set t"
  then have "cstring t = t" unfolding cstring_def by (subst takeWhile_eq_all_conv) auto
  then show ?thesis by (simp add: assigned_def)
qed

lemma assigned_cstring [simp]: "assigned (cstring t) = cstring t"
proof -
  have "NUL \<notin> set (cstring t)" by (auto simp: cstring_def dest: set_takeWhileD)
  then show ?thesis by (simp add: assigned_id)
qed

lemma data0_simps [simp]: "m_flag data0 = 0" "m_bool data0 = False" "m_number data0 = Num 0" "m_string data0 = []"
  by (simp_all add: data0_def)

text \<open>The calls that change a value in place: they are the concatenation on every entry, and the addition on existing ones.\<close>

lemma entry_append: "entry (snd (shared_append key t m)) k = (if k = key then (entry m key)\<lparr>m_string := if m key = None then assigned t else m_string (entry m key) @ cstring t\<rparr> else entry m k)"
  by (auto simp: shared_append_def entry_def modify_def split: option.splits)

lemma entry_prepend: "entry (snd (shared_prepend key t m)) k = (if k = key then (entry m key)\<lparr>m_string := if m key = None then assigned t else cstring t @ m_string (entry m key)\<rparr> else entry m k)"
  by (auto simp: shared_prepend_def entry_def modify_def split: option.splits)

lemma entry_increment:
  "entry (snd (shared_increment add key x m)) k =
     (if k = key then (entry m key)\<lparr>m_number := if m key = None then x else add x (m_number (entry m key))\<rparr> else entry m k)"
  by (auto simp: shared_increment_def entry_def modify_def Let_def split: option.splits)

lemma entry_toggle:
  "entry (snd (shared_toggle key m)) k = (if k = key \<and> m key \<noteq> None then (entry m key)\<lparr>m_bool := \<not> m_bool (entry m key)\<rparr> else entry m k)"
  by (auto simp: shared_toggle_def entry_def modify_def Let_def split: option.splits)

lemmas entry_calls = entry_append entry_prepend entry_increment entry_toggle

lemma erase_none [simp]: "shared_erase key m key = None"
  by (simp add: shared_erase_def)


subsection \<open>Types\<close>

text \<open>The type that a call gives to the entry, if it gives one.\<close>

fun call_type :: "(char list \<Rightarrow> double option) \<Rightarrow> shared_call \<Rightarrow> char list option" where
  "call_type tonumber (Put (LBool b)) = Some ''boolean''"
| "call_type tonumber (Put (LNum x)) = Some ''number''"
| "call_type tonumber (Put (LStr t)) = Some (if tonumber t = None then ''string'' else ''number'')"
| "call_type tonumber (SetNumber x) = Some ''number''"
| "call_type tonumber (SetString t) = Some ''string''"
| "call_type tonumber (SetBool b) = Some ''boolean''"
| "call_type tonumber Erase = Some ''nil''"
| "call_type tonumber _ = None"

text \<open>The type of a key after a sequence of calls: the last one that was given under the same C string.\<close>

definition key_type :: "(char list \<Rightarrow> double option) \<Rightarrow> char list \<Rightarrow> (char list \<times> shared_call) list \<Rightarrow> char list" where
  "key_type tonumber key cs =
     fold (\<lambda>(k, c) t. if cstring k = cstring key then case call_type tonumber c of Some t' \<Rightarrow> t' | None \<Rightarrow> t else t) cs ''nil''"

fun flag_type :: "int \<Rightarrow> char list" where
  "flag_type f = (if f = 1 then ''boolean'' else if f = 2 then ''number'' else if f = 3 then ''string'' else ''nil'')"

lemma lua_call_flag:
  "m_flag (entry (lua_call add tonumber (k, c) m) key) =
     (if cstring k = key then case call_type tonumber c of
          Some t \<Rightarrow> (if t = ''boolean'' then 1 else if t = ''number'' then 2 else if t = ''string'' then 3 else 0)
        | None \<Rightarrow> m_flag (entry m key)
      else m_flag (entry m key))"
proof (cases c)
  case (Put v)
  then show ?thesis by (cases v) (auto simp: lua_put_def split: option.splits)
qed (auto simp: entry_calls)

lemma lua_calls_flag:
  "m_flag (entry (lua_calls add tonumber cs Map.empty) (cstring key)) \<in> {0, 1, 2, 3} \<and>
   flag_type (m_flag (entry (lua_calls add tonumber cs Map.empty) (cstring key))) = key_type tonumber key cs"
proof (induction cs rule: rev_induct)
  case Nil
  show ?case by (simp add: lua_calls_def entry_def key_type_def)
next
  case (snoc x cs)
  obtain k c where x: "x = (k, c)" by fastforce
  have t: "call_type tonumber c \<in> {None, Some ''boolean'', Some ''number'', Some ''string'', Some ''nil''}"
    by (cases "(tonumber, c)" rule: call_type.cases) auto
  have m: "lua_calls add tonumber (cs @ [x]) Map.empty = lua_call add tonumber (k, c) (lua_calls add tonumber cs Map.empty)"
    by (simp add: lua_calls_def x)
  have "key_type tonumber key (cs @ [x]) = (if cstring k = cstring key then case call_type tonumber c of Some t' \<Rightarrow> t'
      | None \<Rightarrow> key_type tonumber key cs else key_type tonumber key cs)"
    unfolding key_type_def by (simp add: x split: option.split)
  note key = this
  show ?case
  proof (cases "cstring k = cstring key \<and> call_type tonumber c \<noteq> None")
    case False
    then show ?thesis using snoc.IH unfolding m lua_call_flag key by (auto simp del: flag_type.simps)
  next
    case True
    with t show ?thesis unfolding m lua_call_flag key by (elim insertE) simp_all
  qed
qed

text \<open>C35: The type that \<open>get\<close> returns is determined by the calls alone: whatever sequence of calls was made on a new store, it
  pushes exactly one value, and its type is the one that the last \<open>put\<close>, \<open>setNumber\<close>, \<open>setString\<close>, \<open>setBool\<close> or
  \<open>erase\<close> under this key has given it; \<open>increment\<close>, \<open>append\<close>, \<open>prepend\<close> and \<open>toggle\<close> keep the type.\<close>

theorem shared_get_type:
  "\<exists>v. lua_get key (lua_calls add tonumber cs Map.empty) = Some v \<and> lua_typename v = key_type tonumber key cs"
  using lua_calls_flag [of add tonumber cs key] by (auto simp: lua_get_def Let_def)

text \<open>A value that \<open>put\<close> has stored is what \<open>get\<close> returns, until another call uses the key: a boolean and a number as they
  are, a string up to its first NUL unless Lua reads it as a number; the other keys keep their values, and what is
  neither a boolean, a number nor a string changes nothing.\<close>

theorem shared_put_get:
  "lua_get k (lua_put tonumber key v m) =
     (if cstring k = cstring key then case v of
          LBool b \<Rightarrow> Some (LBool b)
        | LNum x \<Rightarrow> Some (LNum x)
        | LStr t \<Rightarrow> Some (case tonumber t of Some x \<Rightarrow> LNum x | None \<Rightarrow> LStr (cstring t))
        | _ \<Rightarrow> lua_get k m
      else lua_get k m)"
  by (cases v) (auto simp: lua_get_def lua_put_def Let_def split: option.splits)

text \<open>A counter that exists only through \<open>increment\<close> has its sum, and yet \<open>get\<close> returns nil for it.\<close>

lemma increment_invisible:
  assumes "m (cstring key) = None"
  shows "shared_getNumber (cstring key) (snd (shared_increment add (cstring key) x m)) = x \<and> lua_get key (snd (shared_increment add (cstring key) x m)) = Some LNil"
  using assms by (simp add: shared_increment_def shared_getNumber_def modify_def entry_def lua_get_def shared_get_def Let_def)

text \<open>\<open>append\<close> returns its argument, not the new string.\<close>

lemma append_result:
  assumes "NUL \<notin> set t"
  shows "fst (shared_append key t m) = t \<and> shared_getString key (snd (shared_append key t m)) = shared_getString key m @ t"
  using assigned_id [OF assms] by (auto simp: shared_append_def shared_getString_def modify_def entry_def split: option.splits)

text \<open>A NUL in the text of \<open>setString\<close> makes the rest of it zeros.\<close>

lemma setString_NUL:
  "shared_getString k (shared_setString k [CHR ''a'', NUL, CHR ''b''] m) = [CHR ''a'', NUL, NUL]"
  by (simp add: shared_getString_def shared_setString_def modify_def entry_def assigned_def cstring_def numeral_2_eq_2)

text \<open>Counting: the increments of a key add up, in their order.\<close>

lemma increment_sum:
  assumes "m key \<noteq> None"
  shows "shared_getNumber key (fold (\<lambda>x m. snd (shared_increment add key x m)) xs m) = fold add xs (shared_getNumber key m)"
  using assms
proof (induction xs arbitrary: m)
  case (Cons x xs)
  have "snd (shared_increment add key x m) key \<noteq> None" by (auto simp: shared_increment_def modify_def Let_def split: option.splits)
  moreover have "shared_getNumber key (snd (shared_increment add key x m)) = add x (shared_getNumber key m)" using Cons.prems
    by (auto simp: shared_increment_def shared_getNumber_def modify_def entry_def Let_def)
  ultimately show ?case using Cons.IH by simp
qed simp

end
