(* ===== verification/Channel.thy ===== *)
theory Channel
  imports Prelude
begin

text \<open>
  Channels, \<open>src/arken/concurrent/channel.cpp\<close>: a Lua program that runs in the background and the threads that hold its
  client exchange messages through two queues, each with its mutex and condition.

  The two ends are objects over the same queues, crossed: what the one writes, the other reads. \<open>run\<close> is the server: it
  executes the Lua program, which may read and write, then writes a last message and sets the flag \<open>m_finished\<close>. A
  client thread reads and writes at any time. A call of \<open>write\<close> looks at the flag before it takes the mutex,
  so it has two steps; \<open>read\<close> holds the mutex until it returns or waits for the condition, and a waiting call goes on
  when the queue has a message. The step relation \<open>chan_step\<close> interleaves these steps.

  The last four fields of the state are its history: what was pushed to a queue and what calls of \<open>read\<close> took out.
\<close>

type_synonym message = "char list"

datatype side = Server | Client

text \<open>Where a thread of the client stands, and where \<open>run\<close> stands.\<close>

datatype client_pc = Idle | Writing message | Waiting

datatype server_pc = Body | Body_waiting | Closing | Ended

record chan =
  unread :: "side \<Rightarrow> message list"
  m_finished :: bool
  server :: server_pc
  clients :: "client_pc list"
  pushed :: "side \<Rightarrow> message list"
  taken :: "side \<Rightarrow> message list"

definition final_message :: message where
  "final_message = ''channel is finished''"

definition chan_new :: "nat \<Rightarrow> chan" where
  "chan_new n = \<lparr>unread = \<lambda>_. [], m_finished = False, server = Body, clients = replicate n Idle, pushed = \<lambda>_. [], taken = \<lambda>_. []\<rparr>"

text \<open>\<open>channel::empty\<close>, and the parts of \<open>channel::write\<close> and \<open>channel::read\<close>; the side is the one that reads.\<close>

definition chan_empty :: "side \<Rightarrow> chan \<Rightarrow> bool" where
  "chan_empty x s \<longleftrightarrow> unread s x = []"

definition chan_push :: "side \<Rightarrow> message \<Rightarrow> chan \<Rightarrow> chan" where
  "chan_push x m s = s\<lparr>unread := (unread s)(x := unread s x @ [m]), pushed := (pushed s)(x := pushed s x @ [m])\<rparr>"

definition chan_take :: "side \<Rightarrow> chan \<Rightarrow> message option \<times> chan" where
  "chan_take x s =
     (case unread s x of
        [] \<Rightarrow> (None, s)
      | m # r \<Rightarrow> (Some m, s\<lparr>unread := (unread s)(x := r), taken := (taken s)(x := taken s x @ [m])\<rparr>))"

definition chan_read :: "side \<Rightarrow> chan \<Rightarrow> message option \<times> chan" where
  "chan_read x s = (if m_finished s \<and> chan_empty x s then (Some final_message, s) else chan_take x s)"

definition set_client :: "nat \<Rightarrow> client_pc \<Rightarrow> chan \<Rightarrow> chan" where
  "set_client i p s = s\<lparr>clients := (clients s)[i := p]\<rparr>"

text \<open>The beginning of a \<open>write\<close>, and of a \<open>read\<close> with its return or its wait.\<close>

definition client_write :: "nat \<Rightarrow> message \<Rightarrow> chan \<Rightarrow> chan" where
  "client_write i m s = (if m_finished s then s else set_client i (Writing m) s)"

definition client_read :: "nat \<Rightarrow> chan \<Rightarrow> message option \<times> chan" where
  "client_read i s = (case chan_read Client s of (Some m, t) \<Rightarrow> (Some m, set_client i Idle t) | (None, t) \<Rightarrow> (None, set_client i Waiting t))"

definition server_read :: "chan \<Rightarrow> message option \<times> chan" where
  "server_read s = (case chan_read Server s of (Some m, t) \<Rightarrow> (Some m, t\<lparr>server := Body\<rparr>) | (None, t) \<Rightarrow> (None, t\<lparr>server := Body_waiting\<rparr>))"

inductive chan_step :: "chan \<Rightarrow> chan \<Rightarrow> bool" where
  server_write: "server s = Body \<Longrightarrow> \<not> m_finished s \<Longrightarrow> chan_step s (chan_push Client m s)"
| server_read: "server s = Body \<Longrightarrow> chan_step s (snd (server_read s))"
| server_wake: "server s = Body_waiting \<Longrightarrow> \<not> chan_empty Server s \<Longrightarrow> chan_step s (snd (chan_take Server s)\<lparr>server := Body\<rparr>)"
| server_close: "server s = Body \<Longrightarrow> \<not> m_finished s \<Longrightarrow> chan_step s ((chan_push Client final_message s)\<lparr>server := Closing\<rparr>)"
| server_end: "server s = Closing \<Longrightarrow> chan_step s (s\<lparr>m_finished := True, server := Ended\<rparr>)"
| client_write: "i < length (clients s) \<Longrightarrow> clients s ! i = Idle \<Longrightarrow> chan_step s (client_write i m s)"
| client_push: "i < length (clients s) \<Longrightarrow> clients s ! i = Writing m \<Longrightarrow> chan_step s (set_client i Idle (chan_push Server m s))"
| client_read: "i < length (clients s) \<Longrightarrow> clients s ! i = Idle \<Longrightarrow> chan_step s (snd (client_read i s))"
| client_wake: "i < length (clients s) \<Longrightarrow> clients s ! i = Waiting \<Longrightarrow> \<not> chan_empty Client s \<Longrightarrow>
    chan_step s (set_client i Idle (snd (chan_take Client s)))"

inductive_cases chan_stepE: "chan_step s t"

inductive chan_reach :: "nat \<Rightarrow> chan \<Rightarrow> bool" where
  start: "chan_reach n (chan_new n)"
| step: "chan_reach n s \<Longrightarrow> chan_step s t \<Longrightarrow> chan_reach n t"


subsection \<open>What holds in every state\<close>

text \<open>Nothing is lost or reordered, the flag says that \<open>run\<close> has ended, and the last push of the server is the last message.\<close>

definition chan_ok :: "nat \<Rightarrow> chan \<Rightarrow> bool" where
  "chan_ok n s \<longleftrightarrow> (\<forall>x. pushed s x = taken s x @ unread s x) \<and> (m_finished s \<longleftrightarrow> server s = Ended) \<and>
     (server s \<in> {Closing, Ended} \<longrightarrow> pushed s Client \<noteq> [] \<and> last (pushed s Client) = final_message) \<and> length (clients s) = n"

lemma chan_ok_push: "chan_ok n s \<Longrightarrow> x = Server \<or> server s \<in> {Body, Body_waiting} \<or> m = final_message \<Longrightarrow> chan_ok n (chan_push x m s)"
  by (auto simp: chan_ok_def chan_push_def)

lemma chan_ok_take: "chan_ok n s \<Longrightarrow> chan_ok n (snd (chan_take x s))"
  by (auto simp: chan_ok_def chan_take_def split: list.splits)

lemma chan_ok_read: "chan_ok n s \<Longrightarrow> chan_ok n (snd (chan_read x s))"
  by (simp add: chan_read_def chan_ok_take)

lemma chan_ok_client [simp]: "chan_ok n (set_client i p s) = chan_ok n s"
  by (simp add: chan_ok_def set_client_def)

lemma chan_ok_body: "chan_ok n s \<Longrightarrow> \<not> m_finished s \<Longrightarrow> p \<in> {Body, Body_waiting} \<Longrightarrow> chan_ok n (s\<lparr>server := p\<rparr>)"
  by (auto simp: chan_ok_def)

lemma chan_take_same [simp]: "m_finished (snd (chan_take x s)) = m_finished s" "server (snd (chan_take x s)) = server s"
    "clients (snd (chan_take x s)) = clients s"
  by (simp_all add: chan_take_def split: list.split)

lemma chan_read_same [simp]: "m_finished (snd (chan_read x s)) = m_finished s" "server (snd (chan_read x s)) = server s"
  by (simp_all add: chan_read_def)

lemma chan_ok_step: "chan_step s t \<Longrightarrow> chan_ok n s \<Longrightarrow> chan_ok n t"
proof (induction rule: chan_step.induct)
  case (server_read s)
  then have "\<not> m_finished s" by (simp add: chan_ok_def)
  with server_read show ?case using chan_ok_body [OF chan_ok_read, of n s Server]
    by (cases "chan_read Server s") (auto simp: server_read_def split: option.split dest!: arg_cong [of _ _ snd] intro: chan_ok_body)
next
  case (server_wake s)
  then have "\<not> m_finished s" by (simp add: chan_ok_def)
  with server_wake show ?case by (simp add: chan_ok_body chan_ok_take)
next
  case (client_read i s)
  then show ?case using chan_ok_read [of n s Client] by (auto simp: client_read_def split: prod.split option.split)
next
  case (client_write i s m)
  then show ?case by (simp add: client_write_def)
qed (auto simp: chan_ok_push chan_ok_take, auto simp: chan_ok_def chan_push_def)

lemma chan_reach_ok: "chan_reach n s \<Longrightarrow> chan_ok n s"
  by (induction rule: chan_reach.induct) (auto simp: chan_ok_step, simp add: chan_ok_def chan_new_def)

text \<open>A channel delivers in order, without loss and without duplicates, whatever the threads do: on each side the messages that
  calls of \<open>read\<close> have taken, followed by those that wait in the queue, are the messages that were written.\<close>

theorem channel_fifo:
  assumes "chan_reach n s"
  shows "taken s x @ unread s x = pushed s x"
  using chan_reach_ok [OF assms] by (simp add: chan_ok_def)


subsection \<open>The end of a channel\<close>

fun client_reads :: "nat \<Rightarrow> nat \<Rightarrow> chan \<Rightarrow> message option list \<times> chan" where
  "client_reads i 0 s = ([], s)"
| "client_reads i (Suc k) s = (let (r, t) = client_read i s; (rs, u) = client_reads i k t in (r # rs, u))"

lemma client_reads_ended:
  "m_finished s \<Longrightarrow> fst (client_reads i k s) = map Some (take k (unread s Client @ replicate k final_message))"
proof (induction k arbitrary: s)
  case (Suc k)
  show ?case
  proof (cases "unread s Client")
    case Nil
    then have "client_read i s = (Some final_message, set_client i Idle s)" using Suc.prems
      by (simp add: client_read_def chan_read_def chan_empty_def)
    then show ?thesis using Suc.IH [of "set_client i Idle s"] Suc.prems Nil by (simp add: set_client_def split_beta)
  next
    case (Cons m r)
    define t where "t = set_client i Idle (s\<lparr>unread := (unread s)(Client := r), taken := (taken s)(Client := taken s Client @ [m])\<rparr>)"
    have "client_read i s = (Some m, t)" using Cons
      by (simp add: client_read_def chan_read_def chan_empty_def chan_take_def t_def)
    moreover have "fst (client_reads i k t) = map Some (take k (r @ replicate k final_message))"
      using Suc.IH [of t] Suc.prems by (simp add: t_def set_client_def)
    ultimately show ?thesis using Cons by (simp add: split_beta take_Cons' replicate_app_Cons_same flip: replicate_Suc)
  qed
qed simp

text \<open>C36: When \<open>run\<close> has ended, no call of \<open>read\<close> blocks: a client gets the messages that are left, in their order, and after
  them, for ever, the text that tells the end; the last message that \<open>run\<close> has written is this text, too.\<close>

theorem channel_reads_return:
  assumes "chan_reach n s" and "server s = Ended"
  shows "fst (client_reads i k s) = map Some (take k (unread s Client @ replicate k final_message)) \<and>
    last (pushed s Client) = final_message"
proof -
  from chan_reach_ok [OF assms(1)] assms(2) have "m_finished s" "last (pushed s Client) = final_message"
    unfolding chan_ok_def by auto
  then show ?thesis using client_reads_ended by blast
qed

text \<open>
  The last message and the flag are two steps. A client that takes the last message in between and reads once more waits for
  ever: nothing is left that could wake it.
\<close>

definition lost_end :: chan where
  "lost_end = \<lparr>unread = \<lambda>_. [], m_finished = True, server = Ended, clients = [Waiting],
     pushed = (\<lambda>_. [])(Client := [final_message]), taken = (\<lambda>_. [])(Client := [final_message])\<rparr>"

lemma lost_end_reach: "chan_reach 1 lost_end"
proof -
  let ?s = "(chan_push Client final_message (chan_new 1))\<lparr>server := Closing\<rparr>"
  have "chan_reach 1 ?s"
    by (rule chan_reach.step [OF chan_reach.start server_close]) (simp_all add: chan_new_def)
  then have "chan_reach 1 (snd (client_read 0 ?s))"
    by (rule chan_reach.step [OF _ client_read]) (simp_all add: chan_new_def chan_push_def)
  then have "chan_reach 1 (snd (client_read 0 (snd (client_read 0 ?s))))"
    by (rule chan_reach.step [OF _ client_read])
      (simp_all add: chan_new_def chan_push_def client_read_def chan_read_def chan_empty_def chan_take_def set_client_def)
  then have "chan_reach 1 ((snd (client_read 0 (snd (client_read 0 ?s))))\<lparr>m_finished := True, server := Ended\<rparr>)"
    by (rule chan_reach.step [OF _ server_end])
      (simp add: chan_new_def chan_push_def client_read_def chan_read_def chan_empty_def chan_take_def set_client_def)
  moreover have "(snd (client_read 0 (snd (client_read 0 ?s))))\<lparr>m_finished := True, server := Ended\<rparr> = lost_end"
    by (auto simp: lost_end_def chan_new_def chan_push_def client_read_def chan_read_def chan_empty_def chan_take_def set_client_def)
  ultimately show ?thesis by simp
qed

lemma channel_lost_end: "chan_reach 1 lost_end \<and> clients lost_end = [Waiting] \<and> (\<nexists>t. chan_step lost_end t)"
  using lost_end_reach by (auto simp: lost_end_def chan_empty_def elim!: chan_stepE)

text \<open>A run with one client: it writes a request, the server answers and ends, and the client reads.\<close>

lemma channel_session: "\<exists>s. chan_reach 1 s \<and> server s = Ended \<and> unread s Client = [''answer'', final_message] \<and> taken s Server = [''request'']"
proof -
  let ?a = "client_write 0 ''request'' (chan_new 1)"
  let ?b = "set_client 0 Idle (chan_push Server ''request'' ?a)"
  let ?c = "chan_push Client ''answer'' (snd (server_read ?b))"
  let ?d = "(chan_push Client final_message ?c)\<lparr>server := Closing\<rparr>"
  let ?e = "?d\<lparr>m_finished := True, server := Ended\<rparr>"
  note d = chan_new_def client_write_def set_client_def chan_push_def server_read_def chan_read_def chan_empty_def chan_take_def
  have a: "chan_reach 1 ?a" by (rule chan_reach.step [OF chan_reach.start client_write]) (simp_all add: d)
  have b: "chan_reach 1 ?b" by (rule chan_reach.step [OF a client_push]) (simp_all add: d)
  have "chan_reach 1 (snd (server_read ?b))" by (rule chan_reach.step [OF b server_read]) (simp add: d)
  then have c: "chan_reach 1 ?c" by (rule chan_reach.step [OF _ server_write]) (simp_all add: d)
  have "chan_reach 1 ?d" by (rule chan_reach.step [OF c server_close]) (simp_all add: d)
  then have "chan_reach 1 ?e" by (rule chan_reach.step [OF _ server_end]) simp
  moreover have "server ?e = Ended \<and> unread ?e Client = [''answer'', final_message] \<and> taken ?e Server = [''request'']" by (simp add: d)
  ultimately show ?thesis by blast
qed

theorem channel_fifo_witness: "\<exists>s. chan_reach 1 s \<and> pushed s Server = [''request''] @ unread s Server"
  using channel_session channel_fifo by metis

theorem channel_reads_return_witness:
  "\<exists>s. chan_reach 1 s \<and> fst (client_reads 0 3 s) = map Some [''answer'', final_message, final_message]"
proof -
  obtain s where s: "chan_reach 1 s" "server s = Ended" "unread s Client = [''answer'', final_message]" using channel_session by blast
  with channel_reads_return [OF s(1,2), of 0 3] show ?thesis by (auto simp: numeral_3_eq_3 intro!: exI [of _ s])
qed

end
