(* ===== verification/Named_Lock.thy ===== *)
theory Named_Lock
  imports Prelude
begin

text \<open>
  Named locks, \<open>src/arken/concurrent/lock.cpp\<close>, over the shared resources of \<open>include/arken/named_ptr.h\<close>: objects \<open>Lock\<close> with
  the same name share one mutex, which lives as long as one of them.

  The state has the two static maps of \<open>named_ptr<Lock::resource>\<close> (the mutex of a resource is the boolean whether it is
  locked) and the objects \<open>Lock\<close> of the process. An object belongs to one thread, as its counter has no
  protection. \<open>enable\<close> has counted before it asks for the mutex, so a call that has to wait leaves the object in the state
  \<open>m_waiting\<close>, from which the step \<open>acquire\<close> takes it when the mutex is free. The messages that the C++ code throws are values.
\<close>

record lock =
  m_name :: "char list"
  m_reentrant :: bool
  m_count :: int
  m_waiting :: bool

record lock_sys =
  counter :: "char list \<Rightarrow> int option"
  manager :: "char list \<Rightarrow> bool option"
  locks :: "nat \<Rightarrow> lock option"

datatype outcome = Done | Threw "char list" | Blocks


subsection \<open>Named pointers\<close>

definition count_of :: "lock_sys \<Rightarrow> char list \<Rightarrow> int" where
  "count_of s name = (case counter s name of Some n \<Rightarrow> n | None \<Rightarrow> 0)"

text \<open>The constructor with a name, and the assignment, which counts in the same way; the destructor.\<close>

definition named_ptr_init :: "char list \<Rightarrow> lock_sys \<Rightarrow> lock_sys" where
  "named_ptr_init name s =
     (let s = if manager s name = None then s\<lparr>counter := (counter s)(name \<mapsto> 0), manager := (manager s)(name \<mapsto> False)\<rparr> else s
      in s\<lparr>counter := (counter s)(name \<mapsto> count_of s name + 1)\<rparr>)"

definition named_ptr_assign :: "char list \<Rightarrow> lock_sys \<Rightarrow> lock_sys" where
  "named_ptr_assign name s =
     (let s = if manager s name = None then s\<lparr>counter := (counter s)(name \<mapsto> 0), manager := (manager s)(name \<mapsto> False)\<rparr> else s
      in s\<lparr>counter := (counter s)(name \<mapsto> count_of s name + 1)\<rparr>)"

definition named_ptr_drop :: "char list \<Rightarrow> lock_sys \<Rightarrow> lock_sys" where
  "named_ptr_drop name s =
     (let s = s\<lparr>counter := (counter s)(name \<mapsto> count_of s name - 1)\<rparr>
      in if count_of s name = 0 then s\<lparr>manager := (manager s)(name := None), counter := (counter s)(name := None)\<rparr> else s)"


subsection \<open>Locks\<close>

definition set_lock :: "nat \<Rightarrow> lock \<Rightarrow> lock_sys \<Rightarrow> lock_sys" where
  "set_lock i l s = s\<lparr>locks := (locks s)(i \<mapsto> l)\<rparr>"

definition set_mutex :: "char list \<Rightarrow> bool \<Rightarrow> lock_sys \<Rightarrow> lock_sys" where
  "set_mutex name b s = s\<lparr>manager := (manager s)(name \<mapsto> b)\<rparr>"

text \<open>The constructor assigns a temporary pointer to the member and destroys the temporary.\<close>

definition lock_new :: "nat \<Rightarrow> char list \<Rightarrow> bool \<Rightarrow> lock_sys \<Rightarrow> lock_sys" where
  "lock_new i name reentrant s =
     set_lock i \<lparr>m_name = name, m_reentrant = reentrant, m_count = 0, m_waiting = False\<rparr>
       (named_ptr_drop name (named_ptr_assign name (named_ptr_init name s)))"

definition lock_copy :: "nat \<Rightarrow> lock \<Rightarrow> lock_sys \<Rightarrow> lock_sys" where
  "lock_copy i obj s =
     set_lock i \<lparr>m_name = m_name obj, m_reentrant = m_reentrant obj, m_count = 0, m_waiting = False\<rparr> (named_ptr_assign (m_name obj) s)"

text \<open>Destroying the last object of a name destroys the mutex, which is undefined while it is locked: the result is then \<open>None\<close>.\<close>

definition lock_gone :: "nat \<Rightarrow> lock \<Rightarrow> lock_sys \<Rightarrow> lock_sys" where
  "lock_gone i l s = named_ptr_drop (m_name l) (s\<lparr>locks := (locks s)(i := None)\<rparr>)"

definition lock_delete :: "nat \<Rightarrow> lock \<Rightarrow> lock_sys \<Rightarrow> lock_sys option" where
  "lock_delete i l s =
     (if count_of s (m_name l) = 1 \<and> manager s (m_name l) = Some True then None else Some (lock_gone i l s))"

definition lock_disable :: "nat \<Rightarrow> lock \<Rightarrow> lock_sys \<Rightarrow> outcome \<times> lock_sys" where
  "lock_disable i l s =
     (let l = l\<lparr>m_count := m_count l - 1\<rparr>; s = set_lock i l s in
      if m_count l < 0 then (Threw ''Lock is not enable'', s)
      else if m_count l = 0 then (Done, set_mutex (m_name l) False s)
      else (Done, s))"

definition lock_enable :: "nat \<Rightarrow> lock \<Rightarrow> lock_sys \<Rightarrow> outcome \<times> lock_sys" where
  "lock_enable i l s =
     (let l = l\<lparr>m_count := m_count l + 1\<rparr> in
      if \<not> m_reentrant l \<and> m_count l > 1
      then let l = l\<lparr>m_count := m_count l - 1\<rparr> in
        case lock_disable i l s of
          (Threw e, s) \<Rightarrow> (Threw e, s)
        | (_, s) \<Rightarrow> (Threw ''Lock is enable, try enabling reentrant option'', s)
      else if m_count l = 1
      then if manager s (m_name l) = Some True then (Blocks, set_lock i (l\<lparr>m_waiting := True\<rparr>) s)
        else (Done, set_mutex (m_name l) True (set_lock i l s))
      else (Done, set_lock i l s))"

text \<open>The rest of a call of \<open>enable\<close> that had to wait.\<close>

definition lock_acquire :: "nat \<Rightarrow> lock \<Rightarrow> lock_sys \<Rightarrow> lock_sys" where
  "lock_acquire i l s = set_mutex (m_name l) True (set_lock i (l\<lparr>m_waiting := False\<rparr>) s)"

inductive lock_step :: "lock_sys \<Rightarrow> lock_sys \<Rightarrow> bool" where
  new: "locks s i = None \<Longrightarrow> lock_step s (lock_new i name reentrant s)"
| copy: "locks s i = None \<Longrightarrow> locks s j = Some l \<Longrightarrow> lock_step s (lock_copy i l s)"
| delete: "locks s i = Some l \<Longrightarrow> \<not> m_waiting l \<Longrightarrow> lock_delete i l s = Some t \<Longrightarrow> lock_step s t"
| enable: "locks s i = Some l \<Longrightarrow> \<not> m_waiting l \<Longrightarrow> lock_step s (snd (lock_enable i l s))"
| acquire: "locks s i = Some l \<Longrightarrow> m_waiting l \<Longrightarrow> manager s (m_name l) = Some False \<Longrightarrow> lock_step s (lock_acquire i l s)"
| disable: "locks s i = Some l \<Longrightarrow> \<not> m_waiting l \<Longrightarrow> lock_step s (snd (lock_disable i l s))"

definition lock_init :: lock_sys where
  "lock_init = \<lparr>counter = \<lambda>_. None, manager = \<lambda>_. None, locks = \<lambda>_. None\<rparr>"

inductive lock_reach :: "lock_sys \<Rightarrow> bool" where
  start: "lock_reach lock_init"
| step: "lock_reach s \<Longrightarrow> lock_step s t \<Longrightarrow> lock_reach t"


subsection \<open>The counters\<close>

definition users :: "lock_sys \<Rightarrow> char list \<Rightarrow> nat set" where
  "users s name = {i. \<exists>l. locks s i = Some l \<and> m_name l = name}"

text \<open>The counter of a name is the number of objects with that name, and the resource exists while there is one.\<close>

definition refs_ok :: "lock_sys \<Rightarrow> bool" where
  "refs_ok s \<longleftrightarrow> finite (dom (locks s)) \<and>
     (\<forall>n. counter s n = (if users s n = {} then None else Some (int (card (users s n)))) \<and> (manager s n = None \<longleftrightarrow> users s n = {}))"

lemma users_finite: "refs_ok s \<Longrightarrow> finite (users s n)"
  by (rule finite_subset [of _ "dom (locks s)"]) (auto simp: users_def refs_ok_def)

lemma set_simps [simp]:
  "counter (set_lock i l s) = counter s" "manager (set_lock i l s) = manager s" "locks (set_lock i l s) = (locks s)(i \<mapsto> l)"
  "counter (set_mutex n b s) = counter s" "manager (set_mutex n b s) = (manager s)(n \<mapsto> b)" "locks (set_mutex n b s) = locks s"
  by (simp_all add: set_lock_def set_mutex_def)

lemma users_set:
  "users (set_lock i l s) n = (if m_name l = n then insert i (users s n) else users s n - {i})"
  "users (set_mutex m b s) n = users s n"
  by (auto simp: users_def)

lemma refs_ok_update:
  assumes "refs_ok s" and "locks s i = Some l" and "m_name k = m_name l"
  shows "refs_ok (set_lock i k s)"
proof -
  have "users (set_lock i k s) n = users s n" for n using assms(2,3) by (auto simp: users_def)
  then show ?thesis using assms(1) by (simp add: refs_ok_def)
qed

lemma refs_ok_mutex: "refs_ok s \<Longrightarrow> locks s i = Some l \<Longrightarrow> m_name l = n \<Longrightarrow> refs_ok (set_mutex n b s)"
  by (force simp: refs_ok_def users_set users_def)

text \<open>The temporary of the constructor leaves no trace.\<close>

lemma named_ptr_temporary:
  assumes "refs_ok s"
  shows "named_ptr_drop n (named_ptr_assign n (named_ptr_init n s)) = named_ptr_assign n s"
proof -
  have "0 \<le> count_of s n" using assms by (simp add: count_of_def refs_ok_def)
  then show ?thesis by (auto simp: named_ptr_drop_def named_ptr_assign_def named_ptr_init_def count_of_def Let_def)
qed

lemma named_ptr_assign_same [simp]:
  "locks (named_ptr_assign n s) = locks s" "users (named_ptr_assign n s) m = users s m"
  "manager (named_ptr_assign n s) m = (if m = n \<and> manager s n = None then Some False else manager s m)"
  by (simp_all add: named_ptr_assign_def users_def Let_def)

lemma refs_ok_assign:
  assumes "refs_ok s" and "locks s i = None" and "m_name l = n"
  shows "refs_ok (set_lock i l (named_ptr_assign n s))"
proof -
  have i: "i \<notin> users s n" for n using assms(2) by (simp add: users_def)
  have u: "users (set_lock i l (named_ptr_assign n s)) m = (if m = n then insert i (users s n) else users s m)" for m
    using assms(3) i [of m] by (auto simp: users_set)
  have "counter (named_ptr_assign n s) m = (if m = n then Some (int (card (insert i (users s n)))) else counter s m)" for m
    using assms(1) i users_finite [OF assms(1)] by (auto simp: named_ptr_assign_def count_of_def Let_def refs_ok_def)
  moreover have "manager (named_ptr_assign n s) m = None \<longleftrightarrow> (m \<noteq> n \<and> manager s m = None)" for m
    by (auto simp: named_ptr_assign_def Let_def)
  ultimately show ?thesis using assms(1) unfolding refs_ok_def u by auto
qed

lemma refs_ok_delete:
  assumes "refs_ok s" and "locks s i = Some l"
  shows "refs_ok (lock_gone i l s)"
proof -
  let ?n = "m_name l" and ?s = "s\<lparr>locks := (locks s)(i := None)\<rparr>"
  have i: "i \<in> users s ?n" using assms(2) by (simp add: users_def)
  have c: "counter s ?n = Some (int (card (users s ?n)))" using assms(1) i by (auto simp: refs_ok_def)
  have k: "locks (lock_gone i l s) = (locks s)(i := None)" by (simp add: lock_gone_def named_ptr_drop_def Let_def)
  have u: "users (lock_gone i l s) m = (if m = ?n then users s m - {i} else users s m)" for m
    unfolding users_def k using assms(2) by auto
  have f: "finite (users s ?n)" by (rule users_finite [OF assms(1)])
  have card: "int (card (users s ?n)) - 1 = int (card (users s ?n - {i}))" using i f card_gt_0_iff [of "users s ?n"] by (auto simp: card_Diff_singleton)
  have e: "card (users s ?n - {i}) = 0 \<longleftrightarrow> users s ?n - {i} = {}" using f by simp
  have "counter (lock_gone i l s) m = (if m = ?n then if users s ?n - {i} = {} then None else Some (int (card (users s ?n - {i}))) else counter s m)"
    "manager (lock_gone i l s) m = (if m = ?n \<and> users s ?n - {i} = {} then None else manager s m)" for m
    using c card e by (simp_all add: lock_gone_def named_ptr_drop_def count_of_def Let_def)
  then show ?thesis using assms(1) i unfolding refs_ok_def u by (auto simp: k)
qed


subsection \<open>Exclusion\<close>

text \<open>An object has the mutex when its counter is positive and no call of \<open>enable\<close> is waiting.\<close>

definition holds :: "lock \<Rightarrow> bool" where
  "holds l \<longleftrightarrow> m_count l > 0 \<and> \<not> m_waiting l"

definition excl_ok :: "lock_sys \<Rightarrow> bool" where
  "excl_ok s \<longleftrightarrow>
     (\<forall>i l. locks s i = Some l \<longrightarrow> (m_waiting l \<longrightarrow> m_count l = 1) \<and> (holds l \<longrightarrow> manager s (m_name l) = Some True)) \<and>
     (\<forall>i j l k. locks s i = Some l \<longrightarrow> locks s j = Some k \<longrightarrow> m_name l = m_name k \<longrightarrow> holds l \<longrightarrow> holds k \<longrightarrow> i = j)"

lemma excl_okD:
  assumes "excl_ok s" and "locks s i = Some l"
  shows "m_waiting l \<Longrightarrow> m_count l = 1" and "holds l \<Longrightarrow> manager s (m_name l) = Some True"
    and "locks s j = Some k \<Longrightarrow> m_name l = m_name k \<Longrightarrow> holds l \<Longrightarrow> holds k \<Longrightarrow> i = j"
  using assms unfolding excl_ok_def by blast+

text \<open>An object that does not have the mutex, or no longer, may be stored at any time.\<close>

lemma excl_ok_idle:
  assumes "excl_ok s" and "\<not> holds l" and "m_waiting l \<longrightarrow> m_count l = 1"
  shows "excl_ok (set_lock i l s)"
  using assms unfolding excl_ok_def by (simp add: fun_upd_def)

text \<open>The object that has the mutex stores it again; it takes the mutex when it is free; it releases it.\<close>

lemma excl_ok_keep:
  assumes "excl_ok s" and "locks s i = Some k" and "holds k" and "m_name l = m_name k" and "\<not> m_waiting l"
  shows "excl_ok (set_lock i l s)"
  using assms unfolding excl_ok_def by (simp add: fun_upd_def) metis

lemma excl_ok_lock:
  assumes "excl_ok s" and "manager s (m_name l) \<noteq> Some True" and "\<not> m_waiting l"
  shows "excl_ok (set_mutex (m_name l) True (set_lock i l s))"
  using assms unfolding excl_ok_def by (auto simp: fun_upd_def) metis

lemma excl_ok_unlock:
  assumes "excl_ok s" and "locks s i = Some k" and "holds k" and "m_name l = m_name k" and "m_count l = 0" and "\<not> m_waiting l"
  shows "excl_ok (set_mutex (m_name l) False (set_lock i l s))"
  using assms unfolding excl_ok_def by (auto simp: fun_upd_def holds_def) metis

lemma excl_ok_assign:
  assumes "refs_ok s" and "excl_ok s"
  shows "excl_ok (named_ptr_assign n s)"
proof -
  have "manager s n \<noteq> None" if "locks s i = Some l" "m_name l = n" for i l
    using assms(1) that by (auto simp: refs_ok_def users_def)
  then show ?thesis using assms(2) unfolding excl_ok_def by (auto split: if_splits)
qed

lemma excl_ok_delete:
  assumes "refs_ok s" and "excl_ok s" and "locks s i = Some l"
  shows "excl_ok (lock_gone i l s)"
proof -
  have k: "locks (lock_gone i l s) = (locks s)(i := None)" by (simp add: lock_gone_def named_ptr_drop_def Let_def)
  have "manager (lock_gone i l s) (m_name m) = manager s (m_name m)" if "locks (lock_gone i l s) j = Some m" for j m
  proof -
    have j: "j \<noteq> i" "locks s j = Some m" using that by (auto simp: k split: if_splits)
    show ?thesis
    proof (cases "m_name m = m_name l")
      case True
      then have "{i, j} \<subseteq> users s (m_name l)" using j assms(3) by (auto simp: users_def)
      with j(1) have "card (users s (m_name l)) \<noteq> 1" by (auto simp: card_1_singleton_iff)
      moreover have "counter s (m_name l) = Some (int (card (users s (m_name l))))" using assms(1,3) by (auto simp: refs_ok_def users_def)
      ultimately show ?thesis by (simp add: lock_gone_def named_ptr_drop_def count_of_def Let_def)
    next
      case False
      then show ?thesis by (simp add: lock_gone_def named_ptr_drop_def Let_def)
    qed
  qed
  then show ?thesis using assms(2) unfolding excl_ok_def by (simp add: k split: if_splits)
qed

lemma disable_ok:
  assumes "refs_ok s" and "excl_ok s" and "locks s i = Some l" and "\<not> m_waiting l"
  shows "refs_ok (snd (lock_disable i l s)) \<and> excl_ok (snd (lock_disable i l s))"
proof -
  let ?l = "l\<lparr>m_count := m_count l - 1\<rparr>"
  have r: "refs_ok (set_lock i ?l s)" by (rule refs_ok_update [OF assms(1,3)]) simp
  consider "m_count l < 1" | "m_count l = 1" | "m_count l > 1" by linarith
  then show ?thesis
  proof cases
    case 1
    then show ?thesis using r assms(2,4) by (auto simp: lock_disable_def holds_def intro: excl_ok_idle)
  next
    case 2
    then have "holds l" using assms(4) by (simp add: holds_def)
    then show ?thesis using 2 r assms excl_ok_unlock [OF assms(2,3), of ?l] refs_ok_mutex [OF r, of i ?l]
      by (simp add: lock_disable_def)
  next
    case 3
    then have "holds l" using assms(4) by (simp add: holds_def)
    then show ?thesis using 3 r assms(4) excl_ok_keep [OF assms(2,3), of ?l] by (simp add: lock_disable_def)
  qed
qed

lemma enable_ok:
  assumes "refs_ok s" and "excl_ok s" and "locks s i = Some l" and "\<not> m_waiting l"
  shows "refs_ok (snd (lock_enable i l s)) \<and> excl_ok (snd (lock_enable i l s))"
proof -
  let ?l = "l\<lparr>m_count := m_count l + 1\<rparr>"
  have r: "refs_ok (set_lock i ?l s)" "refs_ok (set_lock i (?l\<lparr>m_waiting := True\<rparr>) s)"
    by (rule refs_ok_update [OF assms(1,3)], simp)+
  consider "\<not> m_reentrant l" "m_count l > 0" | "m_count l = 0" | "m_count l < 0" | "m_reentrant l" "m_count l > 0" by linarith
  then show ?thesis
  proof cases
    case 1
    then have "snd (lock_enable i l s) = snd (lock_disable i l s)" by (simp add: lock_enable_def lock_disable_def Let_def)
    then show ?thesis using disable_ok [OF assms] by simp
  next
    case 2
    then show ?thesis using r assms excl_ok_idle [OF assms(2), of "?l\<lparr>m_waiting := True\<rparr>" i] excl_ok_lock [OF assms(2), of ?l i]
      refs_ok_mutex [OF r(1), of i ?l] by (simp add: lock_enable_def holds_def Let_def)
  next
    case 3
    then show ?thesis using r assms(4) excl_ok_idle [OF assms(2), of ?l i] by (simp add: lock_enable_def holds_def)
  next
    case 4
    then have "holds l" using assms(4) by (simp add: holds_def)
    then show ?thesis using 4 r assms(4) excl_ok_keep [OF assms(2,3), of ?l] by (simp add: lock_enable_def)
  qed
qed

lemma lock_reach_ok: "lock_reach s \<Longrightarrow> refs_ok s \<and> excl_ok s"
proof (induction rule: lock_reach.induct)
  case start
  show ?case by (simp add: lock_init_def refs_ok_def excl_ok_def users_def)
next
  case (step s t)
  then have ok: "refs_ok s" "excl_ok s" by auto
  from step.hyps(2) show ?case
  proof cases
    case (new i name reentrant)
    then show ?thesis using ok named_ptr_temporary [OF ok(1), of name]
      by (auto simp: lock_new_def holds_def intro!: refs_ok_assign excl_ok_idle excl_ok_assign)
  next
    case (copy i j l)
    then show ?thesis using ok by (auto simp: lock_copy_def holds_def intro!: refs_ok_assign excl_ok_idle excl_ok_assign)
  next
    case (delete i l)
    then show ?thesis using ok by (auto simp: lock_delete_def refs_ok_delete excl_ok_delete split: if_splits)
  next
    case (enable i l)
    then show ?thesis using enable_ok [OF ok] by simp
  next
    case (acquire i l)
    have "refs_ok (set_lock i (l\<lparr>m_waiting := False\<rparr>) s)" by (rule refs_ok_update [OF ok(1) acquire(2)]) simp
    from refs_ok_mutex [OF this, of i "l\<lparr>m_waiting := False\<rparr>" "m_name l" True] excl_ok_lock [OF ok(2), of "l\<lparr>m_waiting := False\<rparr>" i] acquire
    show ?thesis by (simp add: lock_acquire_def)
  next
    case (disable i l)
    then show ?thesis using disable_ok [OF ok] by simp
  qed
qed

text \<open>C37: Locks exclude each other: whatever objects are created, copied, deleted, enabled and disabled, and in whatever order, at
  most one object of a name has passed \<open>enable\<close> with a positive counter; its mutex is then locked, and it is the mutex of all
  objects of that name.\<close>

theorem lock_exclusion:
  assumes "lock_reach s" and "locks s i = Some l" and "locks s j = Some k" and "m_name l = m_name k" and "holds l"
  shows "manager s (m_name k) = Some True \<and> (holds k \<longrightarrow> i = j)"
  using excl_okD [OF conjunct2 [OF lock_reach_ok [OF assms(1)]] assms(2)] assms(3-5) by metis

text \<open>The named resource of a lock lives exactly as long as it is used: the counter of a name is the number of objects with
  that name, and the mutex exists while there is one; the temporary pointer of the constructor and the copies are counted
  right.\<close>

theorem named_ptr_counts:
  assumes "lock_reach s"
  shows "counter s n = (if users s n = {} then None else Some (int (card (users s n)))) \<and> (manager s n = None \<longleftrightarrow> users s n = {})"
  using lock_reach_ok [OF assms] unfolding refs_ok_def by blast

text \<open>An object is deleted safely while another object of its name lives; the last one, when it holds the mutex, is not.\<close>

lemma lock_delete_safe:
  assumes "lock_reach s" "locks s i = Some l" "locks s j = Some k" "i \<noteq> j" "m_name l = m_name k"
  shows "lock_delete i l s \<noteq> None"
proof -
  have "{i, j} \<subseteq> users s (m_name l)" using assms(2,3,5) by (auto simp: users_def)
  with assms(4) have "card (users s (m_name l)) \<noteq> 1" by (auto simp: card_1_singleton_iff)
  moreover have "count_of s (m_name l) = int (card (users s (m_name l)))"
    using lock_reach_ok [OF assms(1)] by (simp add: count_of_def refs_ok_def)
  ultimately show ?thesis by (simp add: lock_delete_def)
qed

text \<open>Two objects of one name: the first is enabled, the second has to wait.\<close>

definition lock_a :: lock where
  "lock_a = \<lparr>m_name = ''a'', m_reentrant = False, m_count = 0, m_waiting = False\<rparr>"

definition two_locks :: lock_sys where
  "two_locks = lock_copy 1 lock_a (lock_new 0 ''a'' False lock_init)"

lemmas lock_defs = two_locks_def lock_a_def lock_copy_def lock_new_def lock_init_def named_ptr_init_def named_ptr_assign_def
  named_ptr_drop_def count_of_def set_lock_def set_mutex_def lock_enable_def lock_disable_def holds_def

lemma two_locks_reach: "lock_reach two_locks \<and> locks two_locks 0 = Some lock_a \<and> locks two_locks 1 = Some lock_a"
proof -
  have "lock_reach (lock_new 0 ''a'' False lock_init)"
    by (rule lock_reach.step [OF lock_reach.start new]) (simp add: lock_init_def)
  moreover have "locks (lock_new 0 ''a'' False lock_init) 0 = Some lock_a" "locks (lock_new 0 ''a'' False lock_init) 1 = None"
    by (simp_all add: lock_defs)
  ultimately have "lock_reach two_locks" unfolding two_locks_def by (metis lock_reach.step copy)
  moreover have "locks two_locks 0 = Some lock_a" "locks two_locks 1 = Some lock_a" by (simp_all add: lock_defs)
  ultimately show ?thesis by simp
qed

lemma two_locks_enable: "lock_reach (snd (lock_enable 0 lock_a two_locks))"
  using two_locks_reach by (intro lock_reach.step [OF _ lock_step.enable]) (auto simp: lock_a_def)

theorem lock_exclusion_witness:
  "\<exists>s :: lock_sys. locks s 0 = Some (lock_a\<lparr>m_count := 1\<rparr>) \<and> locks s 1 = Some lock_a \<and> manager s ''a'' = Some True"
proof -
  let ?s = "snd (lock_enable 0 lock_a two_locks)"
  have l: "locks ?s 0 = Some (lock_a\<lparr>m_count := 1\<rparr>)" "locks ?s 1 = Some lock_a" by (simp_all add: lock_defs)
  from lock_exclusion [OF two_locks_enable l] l show ?thesis by (auto simp: lock_a_def holds_def intro!: exI [of _ ?s])
qed

lemma lock_delete_held:
  "\<exists>s. lock_reach s \<and> locks s 0 = Some (lock_a\<lparr>m_count := 1\<rparr>) \<and> lock_delete 0 (lock_a\<lparr>m_count := 1\<rparr>) s = None"
proof -
  let ?s = "snd (lock_enable 0 lock_a (lock_new 0 ''a'' False lock_init))"
  have "lock_reach (lock_new 0 ''a'' False lock_init)"
    by (rule lock_reach.step [OF lock_reach.start new]) (simp add: lock_init_def)
  then have "lock_reach ?s" by (rule lock_reach.step [OF _ lock_step.enable]) (simp_all add: lock_defs)
  then show ?thesis by (intro exI [of _ ?s]) (simp add: lock_defs lock_delete_def)
qed

theorem named_ptr_counts_witness: "counter two_locks ''a'' = Some 2"
proof -
  have "locks two_locks = [0 \<mapsto> lock_a, 1 \<mapsto> lock_a]" by (simp add: lock_defs fun_eq_iff)
  then have "users two_locks ''a'' = {0, 1}" by (auto simp: users_def lock_a_def)
  then show ?thesis using named_ptr_counts [of two_locks "''a''"] two_locks_reach by simp
qed


subsection \<open>Calls under a lock, and calls that do not match\<close>

text \<open>\<open>Lock::call\<close> and \<open>Lock::pcall\<close> on a lock that is free; the Lua function is a change of the other objects, with its error.\<close>

definition lock_call :: "nat \<Rightarrow> lock \<Rightarrow> (lock_sys \<Rightarrow> char list option \<times> lock_sys) \<Rightarrow> lock_sys \<Rightarrow> outcome \<times> lock_sys" where
  "lock_call i l body s =
     (case lock_enable i l s of
        (Done, s) \<Rightarrow> (case body s of (Some e, s) \<Rightarrow> (Threw e, s) | (None, s) \<Rightarrow> lock_disable i (the (locks s i)) s)
      | r \<Rightarrow> r)"

definition lock_pcall :: "nat \<Rightarrow> lock \<Rightarrow> (lock_sys \<Rightarrow> char list option \<times> lock_sys) \<Rightarrow> lock_sys \<Rightarrow> outcome \<times> lock_sys" where
  "lock_pcall i l body s =
     (case lock_enable i l s of
        (Done, s) \<Rightarrow> (case body s of (_, s) \<Rightarrow> lock_disable i (the (locks s i)) s)
      | r \<Rightarrow> r)"

text \<open>A body that leaves this lock as it is: \<open>pcall\<close> frees the lock, whether the body fails or not.\<close>

lemma lock_pcall_frees:
  assumes "m_count l = 0" and "manager s (m_name l) = Some False"
    and "\<And>t. locks (snd (body t)) i = locks t i \<and> manager (snd (body t)) (m_name l) = manager t (m_name l)"
  shows "fst (lock_pcall i l body s) = Done \<and> locks (snd (lock_pcall i l body s)) i = Some l \<and>
    manager (snd (lock_pcall i l body s)) (m_name l) = Some False"
proof -
  let ?t = "set_mutex (m_name l) True (set_lock i (l\<lparr>m_count := 1\<rparr>) s)"
  obtain r u where u: "body ?t = (r, u)" by fastforce
  have "locks u i = Some (l\<lparr>m_count := 1\<rparr>)" using assms(3) [of ?t] u by simp
  moreover have "lock_enable i l s = (Done, ?t)" using assms(1,2) by (simp add: lock_enable_def Let_def)
  moreover have "l\<lparr>m_count := 0\<rparr> = l" using assms(1) by simp
  ultimately show ?thesis using u assms(1) by (simp add: lock_pcall_def lock_disable_def Let_def)
qed

text \<open>\<open>call\<close> does not: when the body fails, the exception leaves the mutex locked, and every other object of the name waits.\<close>

lemma lock_call_leaves:
  assumes "m_count l = 0" and "manager s (m_name l) = Some False"
  shows "\<exists>t. lock_call i l (\<lambda>s. (Some e, s)) s = (Threw e, t) \<and> manager t (m_name l) = Some True"
  using assms by (simp add: lock_call_def lock_enable_def Let_def)

text \<open>A second \<open>enable\<close> on a lock that is not reentrant reports the mistake, and releases the mutex of the first.\<close>

lemma lock_second_enable:
  assumes "m_count l = 1" and "\<not> m_reentrant l"
  shows "\<exists>e t. lock_enable i l s = (Threw e, t) \<and> manager t (m_name l) = Some False"
  using assms by (simp add: lock_enable_def lock_disable_def Let_def)

text \<open>After a \<open>disable\<close> without \<open>enable\<close>, which reports its mistake, the next \<open>enable\<close> returns without the mutex.\<close>

lemma lock_enable_unprotected:
  assumes "m_count l = 0"
  shows "\<exists>e t k. lock_disable i l s = (Threw e, t) \<and> locks t i = Some k \<and> fst (lock_enable i k t) = Done \<and>
    manager (snd (lock_enable i k t)) = manager s"
  using assms by (simp add: lock_disable_def lock_enable_def Let_def)

end
