(* ===== verification/Calendar.thy ===== *)
theory Calendar
  imports Prelude
begin

text \<open>
  The calendar of the C library, as \<open>src/arken/chrono\<close> uses it: \<open>struct tm\<close>, \<open>localtime\<close> and \<open>mktime\<close> in a time zone.

  Days are counted from the first of January of the year 1 of the Gregorian calendar, seconds from 1970 in coordinated universal time. A
  \<open>zone\<close> has, for every time, the distance of its clock to universal time and whether that is summer time: standard time may change as
  well. \<open>localtime\<close> fails for a year that does not fit in an \<open>int\<close>. \<open>mktime\<close> accepts fields outside their ranges. What the standard
  promises is that it finds the time that has the fields: where just one time has them, and \<open>tm_isdst\<close> is negative or right for that time, the
  model gives that time and its fields. In all other cases (an hour that is skipped or comes twice, a \<open>tm_isdst\<close> that is not that of the time)
  the answer is up to the library, and is a part of the zone, \<open>z_choice\<close>, of which nothing is assumed. A failure gives -1 and leaves the fields.
\<close>

record tm =
  tm_sec :: int
  tm_min :: int
  tm_hour :: int
  tm_mday :: int
  tm_mon :: int
  tm_year :: int
  tm_wday :: int
  tm_yday :: int
  tm_isdst :: int

text \<open>\<open>z_dists\<close> has every distance to universal time that the zone has had, once.\<close>

record zone =
  z_at :: "int \<Rightarrow> int \<times> bool"
  z_dists :: "int list"
  z_choice :: "tm \<Rightarrow> int option"

abbreviation z_dist :: "zone \<Rightarrow> int \<Rightarrow> int" where
  "z_dist z t \<equiv> fst (z_at z t)"

abbreviation z_summer :: "zone \<Rightarrow> int \<Rightarrow> bool" where
  "z_summer z t \<equiv> snd (z_at z t)"


subsection \<open>Years and months\<close>

definition leap :: "int \<Rightarrow> bool" where
  "leap y \<longleftrightarrow> (y mod 4 = 0 \<and> y mod 100 \<noteq> 0) \<or> y mod 400 = 0"

definition year_start :: "int \<Rightarrow> int" where
  "year_start y = 365 * (y - 1) + (y - 1) div 4 - (y - 1) div 100 + (y - 1) div 400"

definition month_lengths :: "bool \<Rightarrow> int list" where
  "month_lengths l = [31, if l then 29 else 28, 31, 30, 31, 30, 31, 31, 30, 31, 30, 31]"

definition month_start :: "bool \<Rightarrow> int \<Rightarrow> int" where
  "month_start l m = sum_list (take (nat m) (month_lengths l))"

definition month_length :: "int \<Rightarrow> int \<Rightarrow> int" where
  "month_length y m = month_lengths (leap y) ! nat m"

text \<open>The number of a day; months count from zero and days from one, and the day may lie outside of the month.\<close>

definition day_number :: "int \<Rightarrow> int \<Rightarrow> int \<Rightarrow> int" where
  "day_number y m d = year_start y + month_start (leap y) m + d - 1"

definition year_of :: "int \<Rightarrow> int" where
  "year_of n = (let y = 400 * n div 146097 + 1 in if n < year_start y then y - 1 else if year_start (y + 1) \<le> n then y + 1 else y)"

fun find_month :: "int list \<Rightarrow> int \<Rightarrow> int \<times> int" where
  "find_month [] r = (0, r)"
| "find_month (x # xs) r = (if r < x then (0, r) else let (m, q) = find_month xs (r - x) in (m + 1, q))"

definition civil :: "int \<Rightarrow> int \<times> int \<times> int" where
  "civil n = (let y = year_of n; (m, q) = find_month (month_lengths (leap y)) (n - year_start y) in (y, m, q + 1))"

definition valid_date :: "int \<Rightarrow> int \<Rightarrow> int \<Rightarrow> bool" where
  "valid_date y m d \<longleftrightarrow> 0 \<le> m \<and> m < 12 \<and> 1 \<le> d \<and> d \<le> month_length y m"


subsection \<open>The functions of the library\<close>

definition epoch :: int where
  "epoch = day_number 1970 0 1"

text \<open>The fields of a time that is given in seconds of local time since 1970.\<close>

definition tm_fields :: "int \<Rightarrow> int \<Rightarrow> tm" where
  "tm_fields isdst s =
     (let n = s div 86400 + epoch; r = s mod 86400; (y, m, d) = civil n in
      \<lparr>tm_sec = r mod 60, tm_min = r div 60 mod 60, tm_hour = r div 3600, tm_mday = d, tm_mon = m, tm_year = y - 1900,
       tm_wday = (n + 1) mod 7, tm_yday = n - year_start y, tm_isdst = isdst\<rparr>)"

definition seconds :: "tm \<Rightarrow> int" where
  "seconds c =
     86400 * (day_number (1900 + tm_year c + tm_mon c div 12) (tm_mon c mod 12) (tm_mday c) - epoch) +
     3600 * tm_hour c + 60 * tm_min c + tm_sec c"

definition local_tm :: "zone \<Rightarrow> int \<Rightarrow> tm" where
  "local_tm z t = tm_fields (if z_summer z t then 1 else 0) (t + z_dist z t)"

definition localtime :: "zone \<Rightarrow> int \<Rightarrow> tm option" where
  "localtime z t = (let c = local_tm z t in if int_range (tm_year c) then Some c else None)"

text \<open>The times at which the clock of the zone shows a local time.\<close>

definition shown_at :: "zone \<Rightarrow> int \<Rightarrow> int list" where
  "shown_at z s = filter (\<lambda>t. t + z_dist z t = s) (map (\<lambda>dist. s - dist) (z_dists z))"

definition find_time :: "zone \<Rightarrow> tm \<Rightarrow> int option" where
  "find_time z c =
     (case shown_at z (seconds c) of
        [t] \<Rightarrow> if tm_isdst c < 0 \<or> (0 < tm_isdst c) = z_summer z t then Some t else z_choice z c
      | _ \<Rightarrow> z_choice z c)"

definition mktime :: "zone \<Rightarrow> tm \<Rightarrow> int \<times> tm" where
  "mktime z c =
     (case find_time z c of
        None \<Rightarrow> (-1, c)
      | Some t \<Rightarrow> (case localtime z t of None \<Rightarrow> (-1, c) | Some found \<Rightarrow> (t, found)))"

text \<open>Two times with the same setting of the clock, of which no other time is shown like the second.\<close>

definition steady :: "zone \<Rightarrow> int \<Rightarrow> int \<Rightarrow> bool" where
  "steady z t u \<longleftrightarrow> z_at z u = z_at z t \<and> shown_at z (u + z_dist z t) = [u]"


subsection \<open>Facts about the calendar\<close>

lemma div_bounds:
  fixes x k :: int
  assumes "0 < k"
  shows "k * (x div k) \<le> x" and "x < k * (x div k) + k"
proof -
  have "k * (x div k) + x mod k = x" "0 \<le> x mod k" "x mod k < k" using assms by simp_all
  then show "k * (x div k) \<le> x" and "x < k * (x div k) + k" by linarith+
qed

lemma year_start_bounds: "146097 * (y - 1) - 699 \<le> 400 * year_start y" "400 * year_start y \<le> 146097 * (y - 1) + 396"
proof -
  define x a b c where "x = y - 1" and "a = x div 4" and "b = x div 100" and "c = x div 400"
  have bounds: "4 * a \<le> x" "x < 4 * a + 4" "100 * b \<le> x" "x < 100 * b + 100" "400 * c \<le> x" "x < 400 * c + 400"
    unfolding a_def b_def c_def by (rule div_bounds, simp)+
  have y: "year_start y = 365 * x + a - b + c" by (simp add: year_start_def x_def a_def b_def c_def)
  show "146097 * (y - 1) - 699 \<le> 400 * year_start y" using bounds unfolding y x_def [symmetric] by (simp add: algebra_simps)
  show "400 * year_start y \<le> 146097 * (y - 1) + 396" using bounds unfolding y x_def [symmetric] by (simp add: algebra_simps)
qed

lemma div_pred:
  fixes y k :: int
  assumes "0 < k"
  shows "y div k = (y - 1) div k + (if y mod k = 0 then 1 else 0)"
proof (cases "y mod k = 0")
  case True
  have "y - 1 = k * (y div k - 1) + (k - 1)" using mult_div_mod_eq [of k y] True by (simp add: algebra_simps)
  then have "(y - 1) div k = y div k - 1" using assms by (intro int_div_pos_eq [of _ _ _ "k - 1"]) auto
  then show ?thesis using True by simp
next
  case False
  have "y - 1 = k * (y div k) + (y mod k - 1)" by simp
  then have "(y - 1) div k = y div k" using assms False pos_mod_sign [OF assms, of y] pos_mod_bound [OF assms, of y]
    by (intro int_div_pos_eq [of _ _ _ "y mod k - 1"]) auto
  then show ?thesis using False by simp
qed

lemma year_start_step: "year_start (y + 1) = year_start y + (if leap y then 366 else 365)"
proof -
  have p: "y div 4 = (y - 1) div 4 + (if y mod 4 = 0 then 1 else 0)" "y div 100 = (y - 1) div 100 + (if y mod 100 = 0 then 1 else 0)"
    "y div 400 = (y - 1) div 400 + (if y mod 400 = 0 then 1 else 0)" by (rule div_pred, simp)+
  have d: "y mod 400 = 0 \<Longrightarrow> y mod 100 = 0" "y mod 100 = 0 \<Longrightarrow> y mod 4 = 0"
    by (auto simp: mod_eq_0_iff_dvd elim: dvd_trans [rotated])
  have e: "year_start (y + 1) = 365 * y + y div 4 - y div 100 + y div 400" by (simp add: year_start_def)
  show ?thesis
  proof (cases "y mod 4 = 0"; cases "y mod 100 = 0"; cases "y mod 400 = 0")
  qed (use d in \<open>auto simp: e p year_start_def leap_def\<close>)
qed

lemma year_of: "year_start (year_of n) \<le> n" "n < year_start (year_of n + 1)"
proof -
  define y where "y = 400 * n div 146097 + 1"
  have q: "146097 * (y - 1) \<le> 400 * n" unfolding y_def using div_bounds(1) [of 146097 "400 * n"] by simp
  have q': "400 * n < 146097 * y" unfolding y_def distrib_left using div_bounds(2) [of 146097 "400 * n"] by simp
  have l: "year_start (y - 1) \<le> n" using year_start_bounds(2) [of "y - 1"] q by simp
  have u: "n < year_start (y + 1 + 1)" using year_start_bounds(1) [of "y + 1 + 1"] q' by simp
  show "year_start (year_of n) \<le> n" "n < year_start (year_of n + 1)"
    unfolding year_of_def y_def [symmetric] Let_def using l u by auto
qed

lemma year_start_mono: "x \<le> y \<Longrightarrow> year_start x \<le> year_start y"
proof (induction y rule: int_ge_induct)
  case (step i)
  then show ?case using year_start_step [of i] by simp
qed simp

lemma year_of_unique: "year_start y \<le> n \<Longrightarrow> n < year_start (y + 1) \<Longrightarrow> year_of n = y"
  using year_of [of n] year_start_mono [of "y + 1" "year_of n"] year_start_mono [of "year_of n + 1" y] by linarith

lemma find_month:
  "0 \<le> r \<Longrightarrow> r < sum_list xs \<Longrightarrow> find_month xs r = (m, q) \<Longrightarrow>
    0 \<le> m \<and> m < int (length xs) \<and> 0 \<le> q \<and> q < xs ! nat m \<and> r = sum_list (take (nat m) xs) + q"
proof (induction xs arbitrary: r m)
  case (Cons x xs)
  show ?case
  proof (cases "r < x")
    case False
    obtain k where k: "find_month xs (r - x) = (k, q)" "m = k + 1" using Cons.prems(3) False by (auto split: prod.splits)
    with Cons.IH [of "r - x" k] Cons.prems False have "0 \<le> k \<and> k < int (length xs) \<and> 0 \<le> q \<and> q < xs ! nat k \<and>
      r - x = sum_list (take (nat k) xs) + q" by simp
    then show ?thesis using k(2) by (simp add: nat_add_distrib)
  qed (use Cons.prems in auto)
qed simp

lemma find_month_start:
  "m < length xs \<Longrightarrow> 0 \<le> q \<Longrightarrow> q < xs ! m \<Longrightarrow> \<forall>x \<in> set xs. 0 < x \<Longrightarrow> find_month xs (sum_list (take m xs) + q) = (int m, q)"
proof (induction xs arbitrary: m)
  case (Cons x xs)
  show ?case
  proof (cases m)
    case (Suc k)
    have "0 \<le> sum_list (take k xs)" using Cons.prems(4) by (intro sum_list_nonneg) (auto dest!: in_set_takeD)
    then have "\<not> sum_list (take m (x # xs)) + q < x" using Suc Cons.prems(2) by simp
    moreover have "sum_list (take m (x # xs)) + q - x = sum_list (take k xs) + q" using Suc by simp
    ultimately show ?thesis using Cons.IH [of k] Cons.prems Suc by simp
  qed (use Cons.prems in auto)
qed simp

lemma month_lengths_sum: "sum_list (month_lengths l) = (if l then 366 else 365)"
  by (simp add: month_lengths_def)

lemma length_month_lengths [simp]: "length (month_lengths l) = 12"
  by (simp add: month_lengths_def)

lemma month_lengths_pos: "\<forall>x \<in> set (month_lengths l). 0 < x"
  by (simp add: month_lengths_def)

text \<open>Days and dates are in one-to-one correspondence.\<close>

lemma civil_valid:
  assumes "civil n = (y, m, d)"
  shows "valid_date y m d \<and> day_number y m d = n"
proof -
  obtain q where q: "find_month (month_lengths (leap y)) (n - year_start y) = (m, q)" "d = q + 1" "y = year_of n"
    using assms by (auto simp: civil_def Let_def split: prod.splits)
  have "0 \<le> n - year_start y" "n - year_start y < sum_list (month_lengths (leap y))"
    using year_of [of n] year_start_step [of y] unfolding q(3) month_lengths_sum by (auto split: if_splits)
  from find_month [OF this q(1)] show ?thesis using q(2)
    by (simp add: valid_date_def day_number_def month_length_def month_start_def)
qed

lemma civil_day_number:
  assumes "valid_date y m d"
  shows "civil (day_number y m d) = (y, m, d)"
proof -
  let ?l = "month_lengths (leap y)"
  have m: "nat m < length ?l" "0 \<le> d - 1" "d - 1 < ?l ! nat m" "int (nat m) = m" using assms by (auto simp: valid_date_def month_length_def)
  have f: "find_month ?l (day_number y m d - year_start y) = (m, d - 1)"
    using find_month_start [OF m(1-3) month_lengths_pos] m(4) by (simp add: day_number_def month_start_def algebra_simps)
  have s: "0 \<le> month_start (leap y) m" unfolding month_start_def
    by (intro sum_list_nonneg) (auto dest!: in_set_takeD simp: month_lengths_def)
  have "?l = take (nat m) ?l @ ?l ! nat m # drop (Suc (nat m)) ?l" using m(1) by (rule id_take_nth_drop)
  then have "sum_list ?l = month_start (leap y) m + ?l ! nat m + sum_list (drop (Suc (nat m)) ?l)"
    unfolding month_start_def by (metis add.assoc sum_list.Cons sum_list_append)
  moreover have "0 \<le> sum_list (drop (Suc (nat m)) ?l)" by (intro sum_list_nonneg) (auto dest!: in_set_dropD simp: month_lengths_def)
  ultimately have "month_start (leap y) m + d - 1 < sum_list ?l" using m(3) by linarith
  then have "year_of (day_number y m d) = y"
    using m(2) s year_start_step [of y] by (intro year_of_unique) (auto simp: day_number_def month_lengths_sum)
  with f show ?thesis by (simp add: civil_def)
qed


subsection \<open>Facts about the library\<close>

lemma split_seconds: "3600 * (r div 3600) + 60 * (r div 60 mod 60) + r mod 60 = (r :: int)"
proof -
  define a where "a = r div 60"
  have h: "r div 3600 = a div 60" using zdiv_zmult2_eq [of 60 r 60] by (simp add: a_def)
  have "60 * a + r mod 60 = r" unfolding a_def by (rule mult_div_mod_eq)
  moreover have "60 * (a div 60) + a mod 60 = a" by (rule mult_div_mod_eq)
  ultimately show ?thesis unfolding h a_def [symmetric] by linarith
qed

lemma seconds_tm_fields: "seconds (tm_fields isdst s) = s"
proof -
  obtain y m d where c: "civil (s div 86400 + epoch) = (y, m, d)" by (cases "civil (s div 86400 + epoch)")
  from civil_valid [OF c] have v: "0 \<le> m" "m < 12" "day_number y m d = s div 86400 + epoch" by (auto simp: valid_date_def)
  have "seconds (tm_fields isdst s) = 86400 * (s div 86400) + (3600 * (s mod 86400 div 3600) + 60 * (s mod 86400 div 60 mod 60) + s mod 86400 mod 60)"
    using v c by (simp add: seconds_def tm_fields_def Let_def del: mod_mod_trivial)
  then show ?thesis unfolding split_seconds by simp
qed

lemma local_tm_isdst [simp]: "tm_isdst (local_tm z t) = (if z_summer z t then 1 else 0)"
  by (simp add: local_tm_def tm_fields_def Let_def split: prod.split)

lemma seconds_local_tm: "seconds (local_tm z t) = t + z_dist z t"
  by (simp add: local_tm_def seconds_tm_fields)

text \<open>A time that is shown once is found by its fields, whether they are in their ranges or not.\<close>

lemma mktime_once:
  assumes "shown_at z (seconds c) = [t]" and "tm_isdst c < 0 \<or> (0 < tm_isdst c) = z_summer z t" and "int_range (tm_year (local_tm z t))"
  shows "mktime z c = (t, local_tm z t)"
  using assms by (simp add: mktime_def find_time_def localtime_def Let_def)

lemma mktime_local_tm:
  assumes "steady z t t" and "int_range (tm_year (local_tm z t))"
  shows "mktime z (local_tm z t) = (t, local_tm z t)"
  using assms by (intro mktime_once) (simp_all add: seconds_local_tm steady_def)

text \<open>So is every time around which the clock is not changed, as far as the distances of the zone differ.\<close>

lemma filter_one: "distinct xs \<Longrightarrow> x \<in> set xs \<Longrightarrow> filter (\<lambda>y. y = x) xs = [x]"
proof (induction xs)
  case (Cons y ys)
  then have "x \<noteq> y \<Longrightarrow> filter (\<lambda>z. z = x) ys = [x]" by simp
  moreover have "x = y \<Longrightarrow> filter (\<lambda>z. z = x) ys = []" using Cons.prems(1) by (auto simp: filter_empty_conv)
  ultimately show ?case by auto
qed simp

lemma steady_around:
  assumes "distinct (z_dists z)" and "z_dist z u \<in> set (z_dists z)" and "z_at z u = z_at z t"
    and "\<And>dist. dist \<in> set (z_dists z) \<Longrightarrow> z_at z (u + z_dist z u - dist) = z_at z u"
  shows "steady z t u"
proof -
  have "shown_at z (u + z_dist z u) = map (\<lambda>dist. u + z_dist z u - dist) (filter (\<lambda>dist. dist = z_dist z u) (z_dists z))"
    unfolding shown_at_def filter_map by (intro arg_cong [where f = "map _"] filter_cong refl) (auto simp: assms(4) algebra_simps)
  then show ?thesis by (simp add: steady_def filter_one [OF assms(1,2)] assms(3) [symmetric])
qed

lemma tm_date:
  "(tm_year (tm_fields i s) + 1900, tm_mon (tm_fields i s), tm_mday (tm_fields i s)) = civil (s div 86400 + epoch)"
  by (cases "civil (s div 86400 + epoch)") (simp add: tm_fields_def Let_def)

lemma tm_time: "3600 * tm_hour (tm_fields i s) + 60 * tm_min (tm_fields i s) + tm_sec (tm_fields i s) = s mod 86400"
proof (cases "civil (s div 86400 + epoch)")
  case (fields y m d)
  have "3600 * tm_hour (tm_fields i s) + 60 * tm_min (tm_fields i s) + tm_sec (tm_fields i s) =
    3600 * (s mod 86400 div 3600) + 60 * (s mod 86400 div 60 mod 60) + s mod 86400 mod 60"
    unfolding tm_fields_def fields Let_def split_conv tm.simps ..
  then show ?thesis unfolding split_seconds .
qed

lemma tm_midnight: "(tm_fields i s)\<lparr>tm_sec := 0, tm_min := 0, tm_hour := 0\<rparr> = tm_fields i (s - s mod 86400)"
proof -
  have "s - s mod 86400 = 86400 * (s div 86400)" using mult_div_mod_eq [of 86400 s] by linarith
  then show ?thesis by (simp add: tm_fields_def Let_def split: prod.split)
qed

end
