(* ===== verification/Chrono.thy ===== *)
theory Chrono
  imports Calendar
begin

text \<open>
  Dates and times, \<open>src/arken/chrono/date.cpp\<close> and \<open>src/arken/chrono/time.cpp\<close>. An object has the seconds since 1970 and the fields
  of a \<open>struct tm\<close>; the operations change fields and let \<open>mktime\<close> find both anew. The class \<open>Time\<close> is derived from \<open>Date\<close>, and
  both are the record \<open>date\<close>. The time zone and the answers of \<open>time\<close> and \<open>strptime\<close> are arguments. The fields are \<open>int\<close>: an operation
  whose arithmetic leaves \<open>int\<close> is undefined, which is \<open>None\<close>; so is a question that reads behind the table of month lengths. A failure of
  \<open>mktime\<close> is not noticed by the operations: the object has the time -1 and the fields as they were changed.
\<close>

record date =
  m_time :: int
  m_calendar :: tm

definition checked :: "int \<Rightarrow> int option" where
  "checked x = (if int_range x then Some x else None)"

definition tm_zero :: tm where
  "tm_zero = \<lparr>tm_sec = 0, tm_min = 0, tm_hour = 0, tm_mday = 0, tm_mon = 0, tm_year = 0, tm_wday = 0, tm_yday = 0, tm_isdst = 0\<rparr>"

text \<open>The answer of \<open>localtime\<close> is read without a look at the null pointer, which is \<open>None\<close> here.\<close>

definition date_today :: "zone \<Rightarrow> int \<Rightarrow> date option" where
  "date_today z now =
     map_option (\<lambda>i.
       \<lparr>m_time = now - (tm_sec i + tm_min i * 60 + tm_hour i * 60 * 60), m_calendar = i\<lparr>tm_sec := 0, tm_min := 0, tm_hour := 0\<rparr>\<rparr>)
     (localtime z now)"

definition time_now :: "zone \<Rightarrow> int \<Rightarrow> date option" where
  "time_now z now = map_option (\<lambda>i. \<lparr>m_time = now, m_calendar = i\<rparr>) (localtime z now)"

text \<open>The common part of the operations: \<open>mktime\<close> on a changed calendar.\<close>

definition date_of :: "zone \<Rightarrow> tm \<Rightarrow> date" where
  "date_of z c = (let (t, c) = mktime z c in \<lparr>m_time = t, m_calendar = c\<rparr>)"

text \<open>\<open>strptime\<close> says whether the text matches, and stores the fields it has read, also before a mismatch; \<open>Time::parse\<close> starts with an
  unknown \<open>tm_isdst\<close> and keeps the time of day.\<close>

definition date_parse :: "zone \<Rightarrow> (tm \<Rightarrow> bool \<times> tm) \<Rightarrow> date" where
  "date_parse z strptime =
     (case strptime tm_zero of
        (True, c) \<Rightarrow> date_of z (c\<lparr>tm_sec := 0, tm_min := 0, tm_hour := 0\<rparr>)
      | (False, c) \<Rightarrow> \<lparr>m_time = 0, m_calendar = c\<lparr>tm_year := 0\<rparr>\<rparr>)"

definition time_parse :: "zone \<Rightarrow> (tm \<Rightarrow> bool \<times> tm) \<Rightarrow> date" where
  "time_parse z strptime =
     (case strptime (tm_zero\<lparr>tm_isdst := -1\<rparr>) of
        (True, c) \<Rightarrow> date_of z c
      | (False, c) \<Rightarrow> \<lparr>m_time = 0, m_calendar = c\<lparr>tm_year := 0\<rparr>\<rparr>)"

definition addYears :: "zone \<Rightarrow> int \<Rightarrow> date \<Rightarrow> date option" where
  "addYears z years d = map_option (\<lambda>n. date_of z ((m_calendar d)\<lparr>tm_year := n\<rparr>)) (checked (tm_year (m_calendar d) + years))"

definition addMonths :: "zone \<Rightarrow> int \<Rightarrow> date \<Rightarrow> date option" where
  "addMonths z months d = map_option (\<lambda>n. date_of z ((m_calendar d)\<lparr>tm_mon := n\<rparr>)) (checked (tm_mon (m_calendar d) + months))"

definition addDays :: "zone \<Rightarrow> int \<Rightarrow> date \<Rightarrow> date option" where
  "addDays z days d = map_option (\<lambda>n. date_of z ((m_calendar d)\<lparr>tm_mday := n\<rparr>)) (checked (tm_mday (m_calendar d) + days))"

definition addHours :: "zone \<Rightarrow> int \<Rightarrow> date \<Rightarrow> date option" where
  "addHours z hours d = map_option (\<lambda>n. date_of z ((m_calendar d)\<lparr>tm_hour := n\<rparr>)) (checked (tm_hour (m_calendar d) + hours))"

definition addMinutes :: "zone \<Rightarrow> int \<Rightarrow> date \<Rightarrow> date option" where
  "addMinutes z minutes d = map_option (\<lambda>n. date_of z ((m_calendar d)\<lparr>tm_min := n\<rparr>)) (checked (tm_min (m_calendar d) + minutes))"

definition addSecs :: "zone \<Rightarrow> int \<Rightarrow> date \<Rightarrow> date option" where
  "addSecs z secs d = map_option (\<lambda>n. date_of z ((m_calendar d)\<lparr>tm_sec := n\<rparr>)) (checked (tm_sec (m_calendar d) + secs))"

definition date_year :: "date \<Rightarrow> int option" where
  "date_year d = checked (1900 + tm_year (m_calendar d))"

definition date_month :: "date \<Rightarrow> int option" where
  "date_month d = checked (tm_mon (m_calendar d) + 1)"

definition date_day :: "date \<Rightarrow> int" where
  "date_day d = tm_mday (m_calendar d)"

text \<open>\<open>%\<close> of C, which rounds to zero, is zero exactly where \<open>mod\<close> is.\<close>

definition isLeapYear :: "date \<Rightarrow> bool option" where
  "isLeapYear d = map_option (\<lambda>year. (year mod 4 = 0 \<and> year mod 100 \<noteq> 0) \<or> year mod 400 = 0) (date_year d)"

definition daysInMonth :: "date \<Rightarrow> int option" where
  "daysInMonth d =
     (case isLeapYear d of
        None \<Rightarrow> None
      | Some is_leap \<Rightarrow>
          if 0 \<le> tm_mon (m_calendar d) \<and> tm_mon (m_calendar d) < 12
          then Some ((if is_leap then [31, 29, 31, 30, 31, 30, 31, 31, 30, 31, 30, 31] else [31, 28, 31, 30, 31, 30, 31, 31, 30, 31, 30, 31])
            ! nat (tm_mon (m_calendar d)))
          else None)"

definition isValid :: "date \<Rightarrow> bool" where
  "isValid d \<longleftrightarrow> tm_year (m_calendar d) > 0"

definition date_beginningOfMonth :: "zone \<Rightarrow> date \<Rightarrow> date option" where
  "date_beginningOfMonth z d =
     Option.bind (checked (date_day d - 1)) (\<lambda>before. Option.bind (checked (before * -1)) (\<lambda>day. addDays z day d))"

definition date_endOfMonth :: "zone \<Rightarrow> date \<Rightarrow> date option" where
  "date_endOfMonth z d = Option.bind (daysInMonth d) (\<lambda>len. Option.bind (checked (len - date_day d)) (\<lambda>day. addDays z day d))"

definition beginningOfDay :: "zone \<Rightarrow> date \<Rightarrow> date" where
  "beginningOfDay z d = date_of z ((m_calendar d)\<lparr>tm_sec := 0, tm_min := 0, tm_hour := 0\<rparr>)"

definition endOfDay :: "zone \<Rightarrow> date \<Rightarrow> date" where
  "endOfDay z d = date_of z ((m_calendar d)\<lparr>tm_sec := 59, tm_min := 59, tm_hour := 23\<rparr>)"

definition time_beginningOfMonth :: "zone \<Rightarrow> date \<Rightarrow> date option" where
  "time_beginningOfMonth z d = map_option (beginningOfDay z) (date_beginningOfMonth z d)"

definition time_endOfMonth :: "zone \<Rightarrow> date \<Rightarrow> date option" where
  "time_endOfMonth z d = map_option (endOfDay z) (date_endOfMonth z d)"

definition date_less :: "date \<Rightarrow> date \<Rightarrow> bool" where
  "date_less a b \<longleftrightarrow> m_time a < m_time b"


subsection \<open>Objects\<close>

text \<open>
  \<open>date_at\<close> is the object of a time; the objects of the program have a year that fits in an \<open>int\<close>. \<open>cal_year\<close> and \<open>cal_month\<close> are the year
  and the month, from 1 to 12, \<open>days\<close> is the number of the day.
\<close>

definition date_at :: "zone \<Rightarrow> int \<Rightarrow> date" where
  "date_at z t = \<lparr>m_time = t, m_calendar = local_tm z t\<rparr>"

definition date_ok :: "zone \<Rightarrow> date \<Rightarrow> bool" where
  "date_ok z d \<longleftrightarrow> d = date_at z (m_time d) \<and> int_range (tm_year (m_calendar d))"

definition cal_year :: "date \<Rightarrow> int" where
  "cal_year d = 1900 + tm_year (m_calendar d)"

definition cal_month :: "date \<Rightarrow> int" where
  "cal_month d = tm_mon (m_calendar d) + 1"

definition days :: "date \<Rightarrow> int" where
  "days d = day_number (cal_year d) (tm_mon (m_calendar d)) (date_day d)"

definition time_of_day :: "date \<Rightarrow> int" where
  "time_of_day d = 3600 * tm_hour (m_calendar d) + 60 * tm_min (m_calendar d) + tm_sec (m_calendar d)"

lemma date_at_simps [simp]: "m_time (date_at z t) = t" "m_calendar (date_at z t) = local_tm z t"
  by (simp_all add: date_at_def)

lemma date_at_fields:
  shows "valid_date (cal_year (date_at z t)) (tm_mon (local_tm z t)) (date_day (date_at z t))"
    and "days (date_at z t) = (t + z_dist z t) div 86400 + epoch"
    and "time_of_day (date_at z t) = (t + z_dist z t) mod 86400"
proof -
  let ?s = "t + z_dist z t"
  obtain y m k where c: "civil (?s div 86400 + epoch) = (y, m, k)" by (cases "civil (?s div 86400 + epoch)")
  have y: "cal_year (date_at z t) = y" "tm_mon (local_tm z t) = m" "date_day (date_at z t) = k"
    using tm_date [of "if z_summer z t then 1 else 0" ?s] unfolding c local_tm_def [symmetric] by (auto simp: cal_year_def date_day_def)
  from civil_valid [OF c] show "valid_date (cal_year (date_at z t)) (tm_mon (local_tm z t)) (date_day (date_at z t))"
    "days (date_at z t) = ?s div 86400 + epoch" unfolding days_def date_at_simps y by auto
  show "time_of_day (date_at z t) = ?s mod 86400" unfolding time_of_day_def date_at_simps local_tm_def by (rule tm_time)
qed

text \<open>A change of the fields that amounts to a number of seconds moves the time by that number.\<close>

lemma date_of_moved:
  assumes "tm_isdst c = tm_isdst (local_tm z t)" and "seconds c = seconds (local_tm z t) + n"
    and "steady z t (t + n)" and "int_range (tm_year (local_tm z (t + n)))"
  shows "date_of z c = date_at z (t + n)"
proof -
  have z: "z_at z (t + n) = z_at z t" "shown_at z (t + n + z_dist z t) = [t + n]" using assms(3) by (simp_all add: steady_def)
  have "mktime z c = (t + n, local_tm z (t + n))"
    using assms(1,2,4) z by (intro mktime_once) (auto simp: seconds_local_tm algebra_simps)
  then show ?thesis by (simp add: date_of_def date_at_def)
qed

definition within_reach :: "zone \<Rightarrow> int \<Rightarrow> int \<Rightarrow> bool" where
  "within_reach z t u \<longleftrightarrow> steady z t u \<and> int_range (tm_year (local_tm z u))"

lemma date_at_moved:
  assumes "z_at z (t + 86400 * k) = z_at z t"
  shows "days (date_at z (t + 86400 * k)) = days (date_at z t) + k" and "time_of_day (date_at z (t + 86400 * k)) = time_of_day (date_at z t)"
proof -
  have e: "t + 86400 * k + z_dist z (t + 86400 * k) = t + z_dist z t + 86400 * k" using assms by simp
  show "days (date_at z (t + 86400 * k)) = days (date_at z t) + k" and "time_of_day (date_at z (t + 86400 * k)) = time_of_day (date_at z t)"
    unfolding date_at_fields e by simp_all
qed

text \<open>Additions without overflow to a time within reach; \<open>d\<close> is the object of its time.\<close>

lemma add_time:
  assumes "d = date_at z t"
  shows "int_range (tm_mday (m_calendar d) + k) \<Longrightarrow> within_reach z t (t + 86400 * k) \<Longrightarrow> addDays z k d = Some (date_at z (t + 86400 * k))"
    and "int_range (tm_hour (m_calendar d) + k) \<Longrightarrow> within_reach z t (t + 3600 * k) \<Longrightarrow> addHours z k d = Some (date_at z (t + 3600 * k))"
    and "int_range (tm_min (m_calendar d) + k) \<Longrightarrow> within_reach z t (t + 60 * k) \<Longrightarrow> addMinutes z k d = Some (date_at z (t + 60 * k))"
    and "int_range (tm_sec (m_calendar d) + k) \<Longrightarrow> within_reach z t (t + k) \<Longrightarrow> addSecs z k d = Some (date_at z (t + k))"
  unfolding assms addDays_def addHours_def addMinutes_def addSecs_def checked_def within_reach_def date_at_simps
  by (simp, (intro date_of_moved; simp add: seconds_def day_number_def algebra_simps))+

text \<open>An addition that overflows is undefined; one that ends where no time is found has the time -1.\<close>

lemma addDays_overflow: "\<not> int_range (date_day d + k) \<Longrightarrow> addDays z k d = None"
  by (simp add: addDays_def checked_def date_day_def)

lemma addDays_not_found:
  assumes "int_range (date_day d + k)" and "find_time z ((m_calendar d)\<lparr>tm_mday := date_day d + k\<rparr>) = None"
  shows "\<exists>e. addDays z k d = Some e \<and> m_time e = -1 \<and> date_day e = date_day d + k"
  using assms by (simp add: addDays_def checked_def date_day_def date_of_def mktime_def)

lemma same_month:
  assumes "days (date_at z u) = days (date_at z t) + k" and "1 \<le> date_day (date_at z t) + k"
    and "date_day (date_at z t) + k \<le> month_length (cal_year (date_at z t)) (tm_mon (local_tm z t))"
  shows "cal_year (date_at z u) = cal_year (date_at z t) \<and> tm_mon (local_tm z u) = tm_mon (local_tm z t) \<and>
    date_day (date_at z u) = date_day (date_at z t) + k"
proof -
  let ?d = "date_at z t" and ?e = "date_at z u"
  let ?y = "cal_year ?d" and ?m = "tm_mon (local_tm z t)"
  have v: "valid_date ?y ?m (date_day ?d + k)" using date_at_fields(1) [of z t] assms(2,3) by (simp add: valid_date_def)
  have "days ?e = day_number ?y ?m (date_day ?d + k)" using assms(1) by (simp add: days_def day_number_def)
  then have "civil (days ?e) = (?y, ?m, date_day ?d + k)" using civil_day_number [OF v] by simp
  moreover have "civil (days ?e) = (cal_year ?e, tm_mon (local_tm z u), date_day ?e)"
    unfolding days_def date_at_simps by (rule civil_day_number [OF date_at_fields(1)])
  ultimately show ?thesis by simp
qed

lemma daysInMonth_length:
  assumes "int_range (cal_year (date_at z t))"
  shows "daysInMonth (date_at z t) = Some (month_length (cal_year (date_at z t)) (tm_mon (local_tm z t)))"
  using assms date_at_fields(1) [of z t]
  by (simp add: daysInMonth_def isLeapYear_def date_year_def checked_def cal_year_def month_length_def month_lengths_def leap_def valid_date_def)

text \<open>A day of the same month is within reach of \<open>addDays\<close>, if the clock is as it was and shows the new time once.\<close>

lemma addDays_same_month:
  assumes "date_ok z d" and "steady z (m_time d) (m_time d + 86400 * k)" and "1 \<le> date_day d + k"
    and "date_day d + k \<le> month_length (cal_year d) (tm_mon (m_calendar d))"
  shows "\<exists>e. addDays z k d = Some e \<and> cal_year e = cal_year d \<and> cal_month e = cal_month d \<and> date_day e = date_day d + k \<and>
    days e = days d + k"
proof -
  let ?t = "m_time d" and ?u = "m_time d + 86400 * k"
  have d: "d = date_at z ?t" using assms(1) by (simp add: date_ok_def)
  have m: "m_calendar d = local_tm z ?t" using arg_cong [OF d, of m_calendar] by simp
  have n: "days (date_at z ?u) = days (date_at z ?t) + k" using assms(2) by (intro date_at_moved) (simp add: steady_def)
  have s: "cal_year (date_at z ?u) = cal_year d \<and> tm_mon (local_tm z ?u) = tm_mon (m_calendar d) \<and> date_day (date_at z ?u) = date_day d + k"
    using same_month [OF n] assms(3,4) d m by simp
  have "month_length (cal_year d) (tm_mon (m_calendar d)) \<le> 31" using date_at_fields(1) [of z ?t, folded d m]
    by (auto simp: valid_date_def month_length_def month_lengths_def nth_Cons' split: if_splits)
  then have "int_range (tm_mday (m_calendar d) + k)" using assms(3,4) by (simp add: int_range_def date_day_def)
  moreover have "within_reach z ?t ?u" using assms(1,2) s by (simp add: within_reach_def date_ok_def cal_year_def)
  ultimately have "addDays z k d = Some (date_at z ?u)" by (intro add_time(1) [OF d])
  then show ?thesis using s n d by (simp add: cal_month_def)
qed

lemma next_month:
  assumes "0 \<le> m" and "m < 12"
  shows "day_number y m (month_length y m) + 1 = (if m = 11 then day_number (y + 1) 0 1 else day_number y (m + 1) 1)"
proof (cases "m = 11")
  case True
  then show ?thesis using year_start_step [of y]
    by (simp add: day_number_def month_length_def month_start_def month_lengths_def)
next
  case False
  have "nat (m + 1) = Suc (nat m)" "nat m < length (month_lengths (leap y))" using assms by auto
  then show ?thesis using False by (simp add: day_number_def month_length_def month_start_def take_Suc_conv_app_nth)
qed

text \<open>\<open>today\<close> is midnight of the current day, if the clock has not changed since midnight.\<close>

lemma date_today_ok:
  assumes "date_today z now = Some d" and "z_at z (m_time d) = z_at z now"
  shows "date_ok z d \<and> time_of_day d = 0 \<and> days d = days (date_at z now)"
proof -
  let ?s = "now + z_dist z now" and ?i = "if z_summer z now then 1 else 0 :: int"
  have l: "local_tm z now = tm_fields ?i ?s" by (simp add: local_tm_def)
  have r: "int_range (tm_year (local_tm z now))"
    and d: "d = \<lparr>m_time = now - (tm_sec (local_tm z now) + tm_min (local_tm z now) * 60 + tm_hour (local_tm z now) * 60 * 60),
      m_calendar = (local_tm z now)\<lparr>tm_sec := 0, tm_min := 0, tm_hour := 0\<rparr>\<rparr>"
    using assms(1) by (auto simp: date_today_def localtime_def Let_def split: if_splits)
  have t: "m_time d = now - ?s mod 86400" using tm_time [of ?i ?s] unfolding d l by (simp add: algebra_simps)
  then have "m_time d + z_dist z (m_time d) = ?s - ?s mod 86400" using assms(2) by simp
  then have "local_tm z (m_time d) = tm_fields ?i (?s - ?s mod 86400)" using assms(2) by (simp add: local_tm_def diff_add_eq)
  then have "m_calendar d = local_tm z (m_time d)" unfolding tm_midnight [symmetric] l [symmetric] by (simp add: d)
  then have "d = date_at z (m_time d)" by (simp add: date_at_def)
  moreover have "int_range (tm_year (m_calendar d))" using r by (simp add: d)
  ultimately have ok: "date_ok z d" by (simp add: date_ok_def)
  show ?thesis using ok by (simp add: d time_of_day_def days_def cal_year_def date_day_def)
qed

text \<open>Adding months: the day of the month is kept when the new month has it.\<close>

lemma addMonths_same_day:
  assumes "date_ok z d" and "int_range (tm_mon (m_calendar d) + k)"
    and "y = cal_year d + (tm_mon (m_calendar d) + k) div 12" and "m = (tm_mon (m_calendar d) + k) mod 12" and "date_day d \<le> month_length y m"
    and "n = day_number y m (date_day d) - days d" and "within_reach z (m_time d) (m_time d + 86400 * n)"
  shows "\<exists>e. addMonths z k d = Some e \<and> cal_year e = y \<and> tm_mon (m_calendar e) = m \<and> date_day e = date_day d"
proof -
  let ?t = "m_time d" and ?e = "date_at z (m_time d + 86400 * n)" and ?c = "(m_calendar d)\<lparr>tm_mon := tm_mon (m_calendar d) + k\<rparr>"
  have d: "d = date_at z ?t" using assms(1) by (simp add: date_ok_def)
  have c: "m_calendar d = local_tm z ?t" using arg_cong [OF d, of m_calendar] by simp
  have v: "valid_date (cal_year d) (tm_mon (m_calendar d)) (date_day d)" using date_at_fields(1) [of z ?t] d c by simp
  then have "seconds ?c = seconds (m_calendar d) + 86400 * n"
    by (simp add: assms(3,4,6) seconds_def days_def cal_year_def date_day_def valid_date_def algebra_simps)
  then have "date_of z ?c = ?e" using assms(7) c by (intro date_of_moved) (auto simp: within_reach_def)
  then have a: "addMonths z k d = Some ?e" using assms(2) by (simp add: addMonths_def checked_def)
  have "z_at z (m_time d + 86400 * n) = z_at z ?t" using assms(7) by (simp add: within_reach_def steady_def)
  from date_at_moved(1) [OF this] d have n: "days ?e = day_number y m (date_day d)" by (simp add: assms(6))
  have "valid_date y m (date_day d)" using v assms(4,5) by (simp add: valid_date_def)
  then have "civil (days ?e) = (y, m, date_day d)" unfolding n by (rule civil_day_number)
  moreover have "civil (days ?e) = (cal_year ?e, tm_mon (m_calendar ?e), date_day ?e)"
    unfolding days_def date_at_simps by (rule civil_day_number [OF date_at_fields(1)])
  ultimately show ?thesis using a by simp
qed

text \<open>C39: Where the day of the month plus \<open>k\<close> is an \<open>int\<close>, and the time \<open>k\<close> days of 86400 seconds away has a year that is an \<open>int\<close>, the same setting
  of the clock as now and a local time that is not shown twice, \<open>addDays\<close> gives that time with its fields: the calendar shows the day that is \<open>k\<close> days
  later, at the same time of day. Such additions can be put together.\<close>

theorem date_addDays:
  assumes "date_ok z d" and "int_range (date_day d + k)" and "within_reach z (m_time d) (m_time d + 86400 * k)"
  shows "\<exists>e. addDays z k d = Some e \<and> date_ok z e \<and> m_time e = m_time d + 86400 * k \<and> days e = days d + k \<and> time_of_day e = time_of_day d \<and>
    (\<forall>j. within_reach z (m_time d) (m_time d + 86400 * (k + j)) \<and> int_range (date_day d + (k + j)) \<and> int_range (date_day e + j) \<longrightarrow>
      addDays z j e = addDays z (k + j) d)"
proof -
  let ?t = "m_time d" and ?u = "m_time d + 86400 * k"
  have d: "d = date_at z ?t" using assms(1) by (simp add: date_ok_def)
  note a = add_time(1) [OF d, folded date_day_def]
  have u: "z_at z ?u = z_at z ?t" using assms(3) by (simp add: within_reach_def steady_def)
  have "addDays z j (date_at z ?u) = addDays z (k + j) d"
    if "within_reach z ?t (?t + 86400 * (k + j))" "int_range (date_day d + (k + j))" "int_range (date_day (date_at z ?u) + j)" for j
  proof -
    have e: "?u + 86400 * j = ?t + 86400 * (k + j)" by simp
    have "within_reach z ?u (?u + 86400 * j)" using that(1) u unfolding e by (simp add: within_reach_def steady_def)
    with that(3) have "addDays z j (date_at z ?u) = Some (date_at z (?t + 86400 * (k + j)))"
      unfolding e [symmetric] by (intro add_time(1) [OF refl]) (simp_all add: date_day_def)
    then show ?thesis using a [OF that(2,1)] by simp
  qed
  moreover have "date_ok z (date_at z ?u)" using assms(3) by (simp add: date_ok_def within_reach_def)
  ultimately show ?thesis using a [OF assms(2,3)] date_at_moved [OF u] d by auto
qed

text \<open>C40: In a month whose year is an \<open>int\<close>, \<open>beginningOfMonth\<close> gives the first day and \<open>endOfMonth\<close> the last, leap years included: same month and year, the first is
  day one, the last is the day behind which the next month begins. This needs that the clock at both days, at the time of day of the object, is set as it is now
  and shows that time once; in a month in which summer time begins or ends it may fail.\<close>

theorem date_month_bounds:
  assumes "date_ok z d" and "int_range (cal_year d)" and "steady z (m_time d) (m_time d + 86400 * (1 - date_day d))"
    and "steady z (m_time d) (m_time d + 86400 * (month_length (cal_year d) (tm_mon (m_calendar d)) - date_day d))"
  shows "\<exists>first last. date_beginningOfMonth z d = Some first \<and> date_endOfMonth z d = Some last \<and>
    cal_year first = cal_year d \<and> cal_month first = cal_month d \<and> date_day first = 1 \<and>
    cal_year last = cal_year d \<and> cal_month last = cal_month d \<and>
    days last + 1 = (if cal_month d = 12 then day_number (cal_year d + 1) 0 1 else day_number (cal_year d) (cal_month d) 1)"
proof -
  let ?l = "month_length (cal_year d) (tm_mon (m_calendar d))"
  have d: "d = date_at z (m_time d)" using assms(1) by (simp add: date_ok_def)
  have c: "m_calendar d = local_tm z (m_time d)" using arg_cong [OF d, of m_calendar] by simp
  note v = date_at_fields(1) [of z "m_time d", folded d c]
  have l: "1 \<le> date_day d" "date_day d \<le> ?l" "0 \<le> tm_mon (m_calendar d)" "tm_mon (m_calendar d) < 12" using v by (auto simp: valid_date_def)
  have "?l \<le> 31" using l(3,4) by (auto simp: month_length_def month_lengths_def nth_Cons' split: if_splits)
  with l have r: "int_range (date_day d - 1)" "int_range (1 - date_day d)" "int_range (?l - date_day d)" by (auto simp: int_range_def)
  have b: "date_beginningOfMonth z d = addDays z (1 - date_day d) d" using r by (simp add: date_beginningOfMonth_def checked_def)
  have e: "date_endOfMonth z d = addDays z (?l - date_day d) d"
    using r daysInMonth_length [of z "m_time d", folded d c] assms(2) by (simp add: date_endOfMonth_def checked_def)
  obtain first where f: "addDays z (1 - date_day d) d = Some first" "cal_year first = cal_year d" "cal_month first = cal_month d" "date_day first = 1"
    using addDays_same_month [OF assms(1,3)] l by auto
  obtain last where g: "addDays z (?l - date_day d) d = Some last" "cal_year last = cal_year d" "cal_month last = cal_month d"
    "days last = days d + (?l - date_day d)" using addDays_same_month [OF assms(1,4)] l by auto
  have "days last + 1 = day_number (cal_year d) (tm_mon (m_calendar d)) ?l + 1" using g(4) by (simp add: days_def day_number_def)
  then have "days last + 1 = (if cal_month d = 12 then day_number (cal_year d + 1) 0 1 else day_number (cal_year d) (cal_month d) 1)"
    using next_month [OF l(3,4), of "cal_year d"] unfolding cal_month_def by auto
  then show ?thesis using b e f g by simp
qed

text \<open>
  The condition on the clock is needed: \<open>tm_isdst\<close> is kept. A date in summer that is moved to a day of standard time is one hour before that day, and the
  calendar shows the day before, in a library that reads the fields as summer time, as \<open>tm_isdst\<close> asks for.
\<close>

lemma addDays_end_of_summer:
  assumes "date_ok z d" and "time_of_day d = 0" and "int_range (date_day d + k)" and "u = m_time d + 86400 * k"
    and "find_time z ((m_calendar d)\<lparr>tm_mday := date_day d + k\<rparr>) = Some u" and "int_range (tm_year (local_tm z u))"
    and "z_at z (m_time d) = (dist + saving, True)" and "z_at z u = (dist, False)" and "0 < saving" and "saving \<le> 86400"
  shows "\<exists>e. addDays z k d = Some e \<and> days e = days d + k - 1"
proof -
  have d: "d = date_at z (m_time d)" using assms(1) by (simp add: date_ok_def)
  define s n where "s = m_time d + dist + saving" and "n = s div 86400"
  have s: "s mod 86400 = 0" "days d = n + epoch"
    using date_at_fields(2,3) [of z "m_time d", folded d] assms(2,7) by (simp_all add: s_def n_def add.assoc)
  have e: "s = 86400 * n" using mult_div_mod_eq [of 86400 s] s(1) unfolding n_def by simp
  have "u + dist = 86400 * (n + k - 1) + (86400 - saving)" using e unfolding s_def assms(4) by (simp add: algebra_simps)
  then have "(u + dist) div 86400 = n + k - 1" using assms(9,10) by (intro int_div_pos_eq [of _ _ _ "86400 - saving"]) auto
  then have "days (date_at z u) = days d + k - 1" using s(2) assms(8) by (simp add: date_at_fields(2))
  moreover have "addDays z k d = Some (date_at z u)" using assms(3,5,6)
    by (simp add: addDays_def checked_def date_day_def date_of_def mktime_def localtime_def date_at_def)
  ultimately show ?thesis by simp
qed

text \<open>An example: the twenty-ninth of February 2024 in Sao Paulo, three hours behind universal time since February 2019 and with
  summer time before; the earlier changes are left out.\<close>

definition brazil :: zone where
  "brazil = \<lparr>z_at = \<lambda>t. if 1541300400 \<le> t \<and> t < 1550368800 then (-7200, True) else (-10800, False), z_dists = [-10800, -7200],
     z_choice = \<lambda>c. Some (seconds c + (if 0 < tm_isdst c then 7200 else 10800))\<rparr>"

definition leap_day :: date where
  "leap_day = date_at brazil 1709175600"

lemma leap_day_today: "date_today brazil 1709218800 = Some leap_day"
  by code_simp

lemma leap_day_ok: "date_ok brazil leap_day \<and> cal_year leap_day = 2024 \<and> cal_month leap_day = 2 \<and> date_day leap_day = 29 \<and> m_time leap_day = 1709175600"
  by code_simp

lemma leap_day_reach: "within_reach brazil 1709175600 (1709175600 + 86400 * 366) \<and> steady brazil 1709175600 (1709175600 + 86400 * (1 - 29)) \<and>
  steady brazil 1709175600 1709175600 \<and> month_length 2024 1 = 29"
  by code_simp

theorem date_addDays_witness: "\<exists>e. addDays brazil 366 leap_day = Some e \<and> days e = days leap_day + 366"
  using date_addDays [of brazil leap_day 366] leap_day_ok leap_day_reach by (auto simp: int_range_def)

theorem date_month_bounds_witness:
  "\<exists>first last. date_beginningOfMonth brazil leap_day = Some first \<and> date_endOfMonth brazil leap_day = Some last \<and> date_day first = 1 \<and>
    days last + 1 = day_number 2024 2 1"
  using date_month_bounds [of brazil leap_day] leap_day_ok leap_day_reach by (auto simp: int_range_def cal_month_def)

text \<open>In the same zone the last midnight of summer time, of the sixteenth of February 2019, plus two days is not the eighteenth, but the seventeenth.\<close>

lemma brazil_end_of_summer:
  "date_day (date_at brazil 1550282400) = 16 \<and> map_option date_day (addDays brazil 2 (date_at brazil 1550282400)) = Some 17"
  by code_simp

end
