(* ===== verification/Spec2Isabelle.thy ===== *)
theory Spec2Isabelle
  imports Json_Unicode Str_List Str_Codec Utf8 Cache
    Task_Fifo Task_Balanced Task_Scheduled Task_Singular Core_Shutdown Worker Mvm_Pool Mvm_Shared Channel Named_Lock Chrono
begin

text \<open>
  Verification of the C and C++ core of the Arken platform.

  \<^bold>\<open>The program.\<close> Arken embeds Lua interpreters in a server process and gives them a library of native modules. The part
  modelled here is the code of the platform itself that computes: the embedded codecs and digests, the JSON
  module with its buffers, the basic classes for strings, UTF-8, cached values, dates and times, and the concurrent part: the pool of Lua
  states, the thread pool and what runs on it (five classes of tasks, workers, channels), named locks and the store that
  the Lua states share. The JSON module appends to
  a \<open>strbuf\<close> and formats numbers with \<open>g_fmt\<close>; \<open>arken::json\<close> guards it with one mutex and one
  configuration; the class \<open>string\<close> calls the codecs and digests; its static functions work on plain C strings, and its
  methods pass them the characters of an object. A task class keeps a queue and asks the thread pool \<open>core\<close> to run objects that
  take tasks from it; each task runs in a Lua state that \<open>mvm\<close> hands out.

  \<^bold>\<open>Theories and sources\<close> (file names below \<^verbatim>\<open>src/\<close> of the repository).
  \<^item> \<open>Prelude\<close>: machine integers (\<open>int_range\<close>, \<open>to_c_int\<close>), results of fallible code (\<open>rbind\<close>, \<open>fold_res\<close>, \<open>map_res\<close>), C strings, lists and words, and two interfaces: the
    locale \<open>codec\<close> (decoding undoes encoding), interpreted by base64 and by the HTML entities, and the locale
    \<open>bounded_sink\<close> (appending to an output with a limit), interpreted by \<open>strbuf\<close> and by the results of the string functions.
  \<^item> \<open>Base64\<close>: \<^verbatim>\<open>embedded/base64/ap_base64.c\<close> and \<^verbatim>\<open>arken/base64/embedded.cpp\<close>, with the 256-entry table, the index loops and
    the allocating wrappers; lengths are \<open>int\<close>, and one that overflows has no result.
  \<^item> \<open>Digest_Stream\<close>, \<open>MD5\<close>, \<open>SHA1\<close>: \<^verbatim>\<open>embedded/digest/md5.c\<close>, \<^verbatim>\<open>sha1.c\<close> and the wrappers \<^verbatim>\<open>arken/digest\<close>. The
    contexts are records, the unrolled rounds are lists of lines, the buffering is that of the code. A locale states what a
    streaming digest promises; both digests interpret it.
  \<^item> \<open>Strbuf\<close>, \<open>Gfmt\<close>: \<^verbatim>\<open>lua/json/strbuf.c\<close>, \<^verbatim>\<open>strbuf.h\<close> and \<^verbatim>\<open>g_fmt.c\<close>. Buffer sizes are \<open>int\<close> with overflow as a fault.
  \<^item> \<open>Json_Base\<close>, \<open>Json_Encode\<close>, \<open>Json_Decode\<close>: \<^verbatim>\<open>lua/json/json.c\<close> and \<^verbatim>\<open>arken/json.cpp\<close>: configuration and tables, encoder,
    tokenizer and parser. Lua values are a datatype, tables lists of pairs in the order of \<open>lua_next\<close>.
    \<open>Json_Roundtrip\<close> and \<open>Json_Unicode\<close> hold the theorems about both directions and about the escapes.
  \<^item> \<open>Cstr\<close>, \<open>Str_Search\<close>, \<open>Str_Edit\<close>: the static functions of \<^verbatim>\<open>arken/string.cpp\<close>. Each read and write is checked against
    the argument or the allocation.
  \<^item> \<open>Char_Heap\<close>, \<open>Str_Class\<close>: the class \<open>string\<close> of the same file on a memory of blocks, with allocation, freeing and pointers.
    \<open>run\<close> performs the operations of a program with several objects, \<open>spec\<close> is their meaning on lists of characters.
  \<^item> \<open>Str_List\<close>, \<open>Str_Codec\<close>: \<open>string::List\<close> with \<open>split\<close> and \<open>join\<close>, and the methods that use base64, MD5 and SHA-1.
  \<^item> \<open>Utf8\<close>, \<open>Cache\<close>: \<^verbatim>\<open>arken/utf8.cpp\<close> and \<^verbatim>\<open>arken/cache.cpp\<close>. The locale \<open>expiring_store\<close> is the interface of the cache.
  \<^item> \<open>Task_Runner\<close>: what the classes of \<^verbatim>\<open>arken/concurrent/task\<close> share. A class is a record of its operations \<open>start\<close>, \<open>dequeue\<close>, the
    end of a node and the destructor; \<open>runner_next\<close> is the loop \<open>run()\<close> in its critical sections, \<open>task_step\<close> and \<open>task_reach\<close> interleave
    any number of runners and clients. The locale \<open>task_queue\<close> states what a class has to promise (an invariant over its
    data and the runners, what is queued, what is taken); \<open>task_queue_live\<close> and \<open>task_queue_window\<close> extend it by what
    is needed for every task to be run.
  \<^item> \<open>Task_Fifo\<close> (\<^verbatim>\<open>fifo.cpp\<close>, \<^verbatim>\<open>priority.cpp\<close>), \<open>Task_Named\<close> (queues by name, shared), \<open>Task_Balanced\<close>, \<open>Task_Scheduled\<close>,
    \<open>Task_Singular\<close>: the five classes, each an interpretation of these locales.
  \<^item> \<open>Core_Pool\<close>: \<open>start\<close>, \<open>get\<close> and \<open>working\<close> of \<^verbatim>\<open>arken/concurrent/core.cpp\<close> with its threads, and the maximum, which may be set at any time.
    \<open>Core_Shutdown\<close>: \<open>shutdown\<close>, which pushes and notifies without the mutex; the wait of \<open>get\<close> is split into the test
    of its predicate and blocking, so that a notification can be lost.
  \<^item> \<open>Worker\<close>: \<^verbatim>\<open>worker.cpp\<close> with the \<open>perform\<close> of \<^verbatim>\<open>worker/standalone.cpp\<close>, where each node has a thread of its own; that of \<^verbatim>\<open>worker/mvm.cpp\<close>, the
    default of the build, is not modelled but for one lemma on the pool.
  \<^item> \<open>Mvm_Pool\<close>: the pool of \<^verbatim>\<open>arken/mvm.cpp\<close> over the containers of \<^verbatim>\<open>arken/mvm/container\<close>; the locale \<open>container\<close> is their
    interface, interpreted for the three families. \<open>Mvm_Shared\<close>: the class \<open>mvm::Shared\<close> and its Lua methods.
  \<^item> \<open>Channel\<close>, \<open>Named_Lock\<close>: \<^verbatim>\<open>arken/concurrent/channel.cpp\<close>, and \<^verbatim>\<open>lock.cpp\<close> over the counted resources of \<^verbatim>\<open>named_ptr.h\<close>.
  \<^item> \<open>Calendar\<close>, \<open>Chrono\<close>: the Gregorian calendar with \<open>mktime\<close> and \<open>localtime\<close> in a time zone whose
    distance to universal time may change, and on it the classes \<open>Date\<close> and \<open>Time\<close> of \<^verbatim>\<open>arken/chrono\<close> with fields of type \<open>int\<close>.

  \<^bold>\<open>What is shown.\<close> Base64 decodes what it encodes and stays inside its allocations, as far as the lengths
  fit in an \<open>int\<close>. Both digests equal their standards
  for messages below the limit of the 32-bit byte counter, however the message is cut into pieces; the limit is exact. The
  buffer keeps its invariant under every operation, grows by the factor it is asked to, and the mode with a linear
  increment is shown to overrun. The encoder writes exactly the text of a reference printer; the decoder ends on every
  input with a value or a reported error and never leaves its buffers; decoding what was encoded gives the value back.
  The string functions equal reference definitions on lists within the memory they allocate; where they do not,
  lemmas give the inputs that fault. The operations of the class \<open>string\<close> implement lists of characters without memory
  faults, with one owner for each block and without leaks, and lists of strings keep their elements up to their
  capacity: growing one is undefined.
  In every interleaving, tasks of class \<open>singular\<close> exclude each other by name, \<open>balanced\<close> serves its names in turn, \<open>scheduled\<close> takes the
  first task of a name with the fewest running tasks, also when tasks end while it compares, \<open>priority\<close> the highest priority; and all tasks of the classes with names are run. The
  thread pool never leaves an object waiting while a thread is free or could be created (unless its maximum is raised while it is overloaded), runs
  every object, and its shutdown ends unless a notification is lost, which it may be. \<open>reload\<close> and \<open>gc\<close> of the pool of Lua states return, except at the wrap of the version, and a state
  is handed to one holder at a time. Channels deliver in order and end; locks of one name exclude each other; a worker
  whose nodes have threads runs every value once; the type of a shared value is that of the last write. Dates move by whole days, and the bounds of
  months are right, between times at which the clock of the zone is set the same.
  The windows in which this fails (a task started while the last runner leaves, a read between the last message
  and the flag, an unbalanced use of a lock) are lemmas that exhibit a reachable state.

  \<^bold>\<open>Errors.\<close> Each error exit and each access that C or C++ leaves undefined is a value of a fault type; a theorem that an
  operation gives \<open>Inr\<close> therefore says that it is defined. \<open>new\<close> is taken to succeed for a size that is not negative in the string
  functions, and is a parameter that may fail in the JSON module.

  \<^bold>\<open>Concurrency.\<close> A critical section is one step, and so is what a thread does between two of them, because the data outside is its
  own; the state of a thread is its program counter. A wait on a condition is a step that is possible when the
  predicate holds, which is right where the predicate changes under the mutex; \<open>Core_Shutdown\<close> has the case where it does not. Statements that something is done are proved for every schedule: a measure decreases with each step,
  and some step is possible until it is done. The execution of a Lua program is one step, which is taken to end.

  \<^bold>\<open>Bounds and fuel.\<close> Loops are recursive functions with a termination proof; the loops of \<open>reload\<close> and \<open>gc\<close>, which need not end,
  are partial functions whose results are shown to exist. Only the JSON parser, whose functions call
  each other, takes fuel: \<open>json_decode\<close> supplies a multiple of the length of the input, and the safety theorem shows
  that it never runs out. The lengths and
  indices of base64, of \<open>prefix\<close>, \<open>suffix\<close>, \<open>replace\<close>, of UTF-8, of lists, of dates and of the JSON buffers have the width of \<open>int\<close>, and the theorems
  state the sizes at which they overflow; the other static string functions, whose indices do not go beyond the length of
  their arguments, are for arguments shorter than 2 GiB. The sizes of
  the class \<open>string\<close> are natural numbers, with an invariant that bounds them by the memory allocated.

  \<^bold>\<open>Parameters.\<close> \<open>dtoa\<close> and \<open>strtod\<close> (third-party code), memory allocation and the Lua stack of the JSON module are fields of
  \<open>json_env\<close> with their documented behaviour as hypotheses; the clock, the time zone and the contents of uninitialised
  digest buffers are arguments.

  \<^bold>\<open>Not modelled.\<close> Reading files (\<open>md5_stream\<close>, \<open>sha1_stream\<close>), the OpenSSL variants of codecs and digests,
  \<^verbatim>\<open>dtoa.c\<close>, the bindings between Lua and the classes, database drivers and vendored code; the modules that wrap other
  libraries (network, compression, XML, images, regular expressions, notifications); the start of a Lua state, the
  configuration and the log of \<^verbatim>\<open>mvm.cpp\<close>; \<^verbatim>\<open>task.cpp\<close> and \<^verbatim>\<open>service.cpp\<close>, whose objects are calls into Lua and
  the file system; and the functions \<open>inspect\<close>, which print the state. The pool of Lua states is modelled for one thread at a
  time, and data races (accesses without the mutex) are reported; those of \<open>shutdown\<close> and of the
  counts of \<open>scheduled\<close> are modelled as interleavings of single accesses, the others are not modelled.
\<close>

end
